(* ===== verification/Prelude.thy ===== *)
theory Prelude
  imports Main "HOL-Library.Word" "HOL-Library.Multiset"
begin

text \<open>
  Shared vocabulary of the development: the bytes and numbers of the TypeScript runtime, the
  error-returning sum type, big-endian \<open>DataView\<close> access, typed-array blits, and the generic
  list lemmas the component theories rest on.

  A JavaScript number that stays a non-negative integer is a \<^typ>\<open>nat\<close>; one that may go
  negative or passes through the bitwise operators is an \<^typ>\<open>int\<close>, and every bitwise operator
  writes out the 32-bit conversion the language performs. A \<open>Uint8Array\<close> is a list of 8-bit
  words, so a store truncates exactly as the typed array does.
\<close>

unbundle bit_operations_syntax

named_theorems js_bits \<open>rewriting the 32-bit operators into arithmetic\<close>
named_theorems view_simps \<open>evaluation of in-range DataView and typed-array accesses\<close>

section \<open>Bytes and numbers\<close>

type_synonym byte = "8 word"
type_synonym bytes = "byte list"

text \<open>The conversions \<open>ToInt32\<close> and \<open>ToUint32\<close> and the operators built on them.\<close>

definition toInt32 :: "int \<Rightarrow> int" where
  "toInt32 x = signed_take_bit 31 x"

definition toUint32 :: "int \<Rightarrow> int" where
  "toUint32 x = take_bit 32 x"

definition js_and :: "int \<Rightarrow> int \<Rightarrow> int" where
  "js_and x y = toInt32 (x AND y)"

definition js_or :: "int \<Rightarrow> int \<Rightarrow> int" where
  "js_or x y = toInt32 (x OR y)"

definition js_xor :: "int \<Rightarrow> int \<Rightarrow> int" where
  "js_xor x y = toInt32 (x XOR y)"

definition js_shl :: "int \<Rightarrow> nat \<Rightarrow> int" where
  "js_shl x n = toInt32 (push_bit (n mod 32) x)"

definition js_shr :: "int \<Rightarrow> nat \<Rightarrow> int" where
  "js_shr x n = drop_bit (n mod 32) (toInt32 x)"

definition js_ushr :: "int \<Rightarrow> nat \<Rightarrow> int" where
  "js_ushr x n = drop_bit (n mod 32) (toUint32 x)"

definition js_imul :: "int \<Rightarrow> int \<Rightarrow> int" where
  "js_imul x y = toInt32 (x * y)"

text \<open>Storing a number into a \<open>Uint8Array\<close> element keeps its low eight bits.\<close>

definition u8 :: "byte \<Rightarrow> int" where
  "u8 b = uint b"

definition toByte :: "int \<Rightarrow> byte" where
  "toByte x = word_of_int x"

lemma u8_bounds [simp]: "0 \<le> u8 b" "u8 b < 256"
  using uint_lt2p [of b] by (simp_all add: u8_def)

lemma u8_le [simp]: "u8 b \<le> 255"
  using u8_bounds(2) [of b] by linarith

lemma u8_toByte: "u8 (toByte x) = x mod 256"
  by (simp add: u8_def toByte_def uint_word_of_int)

lemma u8_toByte_small [simp]: "0 \<le> x \<Longrightarrow> x < 256 \<Longrightarrow> u8 (toByte x) = x"
  by (simp add: u8_toByte)

lemma toByte_u8 [simp]: "toByte (u8 b) = b"
  by (simp add: u8_def toByte_def)

lemma u8_inject: "u8 a = u8 b \<longleftrightarrow> a = b"
  by (metis toByte_u8)

text \<open>In the unsigned 31-bit range the operators are plain integer operations.\<close>

lemma toInt32_id: "- (2 ^ 31) \<le> x \<Longrightarrow> x < 2 ^ 31 \<Longrightarrow> toInt32 x = x"
  unfolding toInt32_def by (rule signed_take_bit_int_eq_self) simp_all

lemma toInt32_nonneg [js_bits]: "0 \<le> x \<Longrightarrow> x < 2147483648 \<Longrightarrow> toInt32 x = x"
  by (rule toInt32_id) simp_all

lemma toUint32_mod [js_bits]: "toUint32 x = x mod 2 ^ 32"
  by (simp add: toUint32_def take_bit_eq_mod)

lemma toUint32_toInt32 [simp]: "toUint32 (toInt32 x) = toUint32 x"
  by (simp add: toUint32_def toInt32_def take_bit_signed_take_bit)

lemma js_ushr_0: "js_ushr x 0 = x mod 2 ^ 32"
  by (simp add: js_ushr_def toUint32_mod)

lemma js_ushr_div: "n < 32 \<Longrightarrow> 0 \<le> x \<Longrightarrow> x < 2 ^ 32 \<Longrightarrow> js_ushr x n = x div 2 ^ n"
  by (simp add: js_ushr_def toUint32_mod drop_bit_eq_div)

lemma js_ushr_mod_div: "n < 32 \<Longrightarrow> js_ushr x n = x mod 2 ^ 32 div 2 ^ n"
  by (simp add: js_ushr_def toUint32_mod drop_bit_eq_div)

lemma js_shl_mult:
  assumes "n < 32" "0 \<le> x" "x * 2 ^ n < 2147483648"
  shows "js_shl x n = x * 2 ^ n"
  using assms by (simp add: js_shl_def push_bit_eq_mult toInt32_nonneg)

lemma js_and_mask:
  assumes "m \<le> 31"
  shows "js_and x (2 ^ m - 1) = x mod 2 ^ m"
proof -
  have "x AND (2 ^ m - 1) = take_bit m x"
    by (simp add: take_bit_eq_mask mask_eq_exp_minus_1)
  moreover have "take_bit m x < (2::int) ^ 31"
    using take_bit_int_less_exp [of m x] power_increasing [of m 31 "2::int"] assms
    by linarith
  ultimately show ?thesis
    by (simp add: js_and_def toInt32_nonneg take_bit_eq_mod)
qed

lemma js_and_127 [js_bits]: "js_and x 127 = x mod 128"
  using js_and_mask [of 7 x] by simp

lemma js_and_15 [js_bits]: "js_and x 15 = x mod 16"
  using js_and_mask [of 4 x] by simp

lemma js_and_7 [js_bits]: "js_and x 7 = x mod 8"
  using js_and_mask [of 3 x] by simp

lemma js_and_1 [js_bits]: "js_and x 1 = x mod 2"
  using js_and_mask [of 1 x] by simp

lemma js_and_255 [js_bits]: "js_and x 255 = x mod 256"
  using js_and_mask [of 8 x] by simp

text \<open>A single-bit test reads one binary digit.\<close>

lemma and_exp_eq_0_iff: "x AND 2 ^ n = (0::int) \<longleftrightarrow> \<not> bit x n"
  by (metis and.commute and_exp_eq_0_iff_not_bit)

lemma js_and_bit:
  assumes "n < 31"
  shows "js_and x (2 ^ n) = 0 \<longleftrightarrow> even (x div 2 ^ n)"
proof -
  have le: "x AND 2 ^ n \<le> 2 ^ n" and nn: "0 \<le> x AND (2 ^ n :: int)"
    by (simp_all add: AND_upper2)
  have "(2::int) ^ n < 2 ^ 31"
    using assms by (intro power_strict_increasing) simp_all
  with le nn have "js_and x (2 ^ n) = x AND 2 ^ n"
    by (simp add: js_and_def toInt32_nonneg)
  then show ?thesis
    by (simp add: and_exp_eq_0_iff bit_iff_odd)
qed

lemma js_and_128: "js_and x 128 = 0 \<longleftrightarrow> even (x div 128)"
  using js_and_bit [of 7 x] by simp

text \<open>Or-ing in bits above the ones already present is addition.\<close>

lemma or_disjoint_add:
  fixes a b :: int
  assumes "0 \<le> a" "a < 2 ^ n"
  shows "a OR (b * 2 ^ n) = a + b * 2 ^ n"
proof -
  have "a AND (b * 2 ^ n) = 0"
  proof (rule bit_eqI)
    fix k
    have "\<not> bit a k" if "n \<le> k"
    proof -
      have "a = take_bit n a" using assms by (simp add: take_bit_int_eq_self)
      then show ?thesis using that by (metis bit_take_bit_iff linorder_not_less)
    qed
    then show "bit (a AND (b * 2 ^ n)) k = bit (0::int) k"
      by (auto simp: bit_and_iff push_bit_eq_mult [symmetric] bit_push_bit_iff)
  qed
  then show ?thesis
    by (metis plus_and_or add_0)
qed

lemma or_add_exp:
  fixes a b :: int
  assumes "0 \<le> a" "a < e" "e = 2 ^ n" "e dvd b"
  shows "a OR b = a + b"
  using or_disjoint_add [of a n "b div e"] assms by simp

section \<open>Results\<close>

text \<open>
  A throwing function returns a sum: \<^const>\<open>Inl\<close> carries the error that is thrown, \<^const>\<open>Inr\<close>
  the value returned.
\<close>

fun is_ok :: "'e + 'a \<Rightarrow> bool" where
  "is_ok (Inl _) = False"
| "is_ok (Inr _) = True"

definition bindE :: "'e + 'a \<Rightarrow> ('a \<Rightarrow> 'e + 'b) \<Rightarrow> 'e + 'b" where
  "bindE m f = (case m of Inl e \<Rightarrow> Inl e | Inr x \<Rightarrow> f x)"

lemma bindE_simps [simp]: "bindE (Inl e) f = Inl e" "bindE (Inr x) f = f x"
  by (simp_all add: bindE_def)

lemma bindE_Inr_iff: "bindE m f = Inr y \<longleftrightarrow> (\<exists>x. m = Inr x \<and> f x = Inr y)"
  by (cases m) simp_all

lemma bindE_Inl_iff: "bindE m f = Inl e \<longleftrightarrow> m = Inl e \<or> (\<exists>x. m = Inr x \<and> f x = Inl e)"
  by (cases m) auto

lemma bindE_cong [fundef_cong]:
  "m = m' \<Longrightarrow> (\<And>x. m' = Inr x \<Longrightarrow> f x = f' x) \<Longrightarrow> bindE m f = bindE m' f'"
  by (cases m') simp_all

text \<open>\<open>Array.map\<close> with a throwing callback: the first error wins.\<close>

fun mapE :: "('a \<Rightarrow> 'e + 'b) \<Rightarrow> 'a list \<Rightarrow> 'e + 'b list" where
  "mapE f [] = Inr []"
| "mapE f (x # xs) = bindE (f x) (\<lambda>y. bindE (mapE f xs) (\<lambda>ys. Inr (y # ys)))"

lemma mapE_Inr: "(\<And>x. x \<in> set xs \<Longrightarrow> f x = Inr (g x)) \<Longrightarrow> mapE f xs = Inr (map g xs)"
  by (induction xs) simp_all

lemma mapE_append:
  "mapE f (xs @ ys) = bindE (mapE f xs) (\<lambda>us. bindE (mapE f ys) (\<lambda>vs. Inr (us @ vs)))"
  by (induction xs) (auto simp: bindE_def split: sum.splits)

section \<open>Typed arrays and data views\<close>

definition subarray :: "'a list \<Rightarrow> nat \<Rightarrow> nat \<Rightarrow> 'a list" where
  "subarray xs s e = take (e - s) (drop s xs)"

text \<open>\<open>dst.set(src, at)\<close>; every call of the modelled code stays inside \<open>dst\<close>.\<close>

definition blit :: "'a list \<Rightarrow> 'a list \<Rightarrow> nat \<Rightarrow> 'a list" where
  "blit dst src at = take at dst @ src @ drop (at + length src) dst"

lemma length_subarray [simp]: "length (subarray xs s e) = min (e - s) (length xs - s)"
  by (simp add: subarray_def min.commute)

lemma length_subarray_fit: "s + n \<le> length xs \<Longrightarrow> length (subarray xs s (s + n)) = n"
  by (simp add: min_def)

lemma subarray_empty [simp]: "e \<le> s \<Longrightarrow> subarray xs s e = []"
  by (simp add: subarray_def)

lemma nth_subarray: "i < e - s \<Longrightarrow> i + s < length xs \<Longrightarrow> subarray xs s e ! i = xs ! (s + i)"
  by (simp add: subarray_def)

lemma subarray_append_same:
  "s = length pre \<Longrightarrow> e = s + length mid \<Longrightarrow> subarray (pre @ mid @ post) s e = mid"
  by (simp add: subarray_def)

lemma subarray_split:
  "s \<le> m \<Longrightarrow> m \<le> e \<Longrightarrow> subarray xs s m @ subarray xs m e = subarray xs s e"
proof -
  assume "s \<le> m" "m \<le> e"
  then have "take (e - s) (drop s xs)
      = take (m - s) (drop s xs) @ take (e - m) (drop (m - s) (drop s xs))"
    by (metis (no_types, lifting) add_diff_cancel_right' le_add_diff_inverse2 diff_add_assoc2
        take_add add.commute)
  then show ?thesis using \<open>s \<le> m\<close> by (simp add: subarray_def)
qed

lemma subarray_all [simp]: "subarray xs 0 (length xs) = xs"
  by (simp add: subarray_def)

lemma subarray_Suc: "s < e \<Longrightarrow> s < length xs \<Longrightarrow> subarray xs s e = xs ! s # subarray xs (Suc s) e"
  by (simp add: subarray_def Cons_nth_drop_Suc [symmetric] take_Cons')

lemma length_blit [simp]:
  "at + length src \<le> length dst \<Longrightarrow> length (blit dst src at) = length dst"
  by (simp add: blit_def)

lemma blit_append:
  "at = length pre \<Longrightarrow> length old = length src \<Longrightarrow>
    blit (pre @ old @ post) src at = pre @ src @ post"
  by (simp add: blit_def)

lemma take_blit: "at \<le> length dst \<Longrightarrow> take (at + length src) (blit dst src at) = take at dst @ src"
  by (simp add: blit_def)

lemma nth_blit:
  assumes "at + length src \<le> length dst" "i < length dst"
  shows "blit dst src at ! i =
    (if i < at then dst ! i else if i < at + length src then src ! (i - at) else dst ! i)"
  using assms by (auto simp: blit_def nth_append min_def)

text \<open>The length of every modelled buffer is the sum of the parts laid out in it.\<close>

definition be32 :: "byte \<Rightarrow> byte \<Rightarrow> byte \<Rightarrow> byte \<Rightarrow> nat" where
  "be32 a b c d = ((unat a * 256 + unat b) * 256 + unat c) * 256 + unat d"

text \<open>\<open>DataView.setUint32\<close> in big-endian order, truncating to 32 bits.\<close>

definition u32_bytes :: "nat \<Rightarrow> bytes" where
  "u32_bytes n = [of_nat (n div 16777216), of_nat (n div 65536), of_nat (n div 256), of_nat n]"

lemma length_u32_bytes [simp]: "length (u32_bytes n) = 4"
  by (simp add: u32_bytes_def)

lemma unat_byte_less: "unat (b :: byte) < 256"
  using unsigned_less [of b, where 'a = nat] by simp

lemma unat_byte_of_nat [simp]: "unat (of_nat n :: byte) = n mod 256"
  by (simp add: unat_of_nat)

lemma base256_step:
  fixes x r n :: nat
  assumes "x < n" "r < 256"
  shows "x * 256 + r < n * 256"
proof -
  have "(x + 1) * 256 \<le> n * 256" using assms(1) by (intro mult_le_mono1) simp
  then show ?thesis using assms(2) by simp
qed

lemma base256_less:
  fixes p q r s :: nat
  assumes "p < 256" "q < 256" "r < 256" "s < 256"
  shows "((p * 256 + q) * 256 + r) * 256 + s < 4294967296"
  using base256_step [OF base256_step [OF base256_step [OF assms(1,2)] assms(3)] assms(4)] by simp

lemma be32_less: "be32 a b c d < 4294967296"
  unfolding be32_def by (intro base256_less unat_byte_less)

declare unat_byte_less [simp]

lemma be32_u32:
  "be32 (of_nat (n div 16777216)) (of_nat (n div 65536)) (of_nat (n div 256)) (of_nat n)
    = n mod 2 ^ 32"
proof -
  have "n mod 2 ^ 32 = n mod 256 + 256 * (n div 256 mod 256 + 256 * (n div 65536 mod 256
      + 256 * (n div 16777216 mod 256)))"
    by (simp add: mod_mult2_eq [of n 256 16777216, simplified] mod_mult2_eq [of _ 256 65536, simplified]
        mod_mult2_eq [of _ 256 256, simplified] div_mult2_eq [symmetric])
  then show ?thesis by (simp add: be32_def algebra_simps)
qed

text \<open>Accumulating little-endian groups with \<open>|\<close> and \<open><<\<close>.\<close>

lemma js_or_ushr_0: "js_ushr (js_or a (js_shl b n)) 0 = take_bit 32 (a OR push_bit (n mod 32) b)"
  by (simp add: js_ushr_def js_or_def js_shl_def toUint32_def toInt32_def take_bit_signed_take_bit)

lemma varint_step:
  assumes "0 \<le> a" "a < 2 ^ n" "n < 32"
  shows "js_ushr (js_or a (js_shl b n)) 0 = (a + b * 2 ^ n) mod 2 ^ 32"
  using assms or_disjoint_add [of a n b]
  by (simp add: js_or_ushr_0 push_bit_eq_mult take_bit_eq_mod)

lemma js_or_low_128:
  assumes "0 \<le> x" "x < 128"
  shows "js_or x 128 = x + 128"
  using assms or_disjoint_add [of x 7 1] by (simp add: js_or_def toInt32_nonneg)

lemma cont_bit: "0 \<le> x \<Longrightarrow> x < 128 \<Longrightarrow> js_and (x + 128) 128 \<noteq> 0"
  by (simp add: js_and_128 div_add_self2)

lemma nth_of_drop: "drop pos bs = x # ys \<Longrightarrow> bs ! pos = x \<and> pos < length bs \<and> drop (pos + 1) bs = ys"
  by (metis Cons_nth_drop_Suc Suc_eq_plus1 drop_all list.distinct(1) list.inject not_less)

lemma u8_0 [simp]: "u8 0 = 0"
  by (simp add: u8_def)

lemma u8_eq_0 [simp]: "u8 b = 0 \<longleftrightarrow> b = 0"
  using u8_inject [of b 0] by simp

lemma js_or_shl_add:
  assumes "0 \<le> a" "a < 2 ^ n" "0 \<le> b" "a + b * 2 ^ n < 2147483648" "n < 32"
  shows "js_or a (js_shl b n) = a + b * 2 ^ n"
proof -
  have nn: "0 \<le> b * 2 ^ n" using assms(3) by simp
  have "js_shl b n = b * 2 ^ n" using assms nn by (intro js_shl_mult) linarith+
  then have "js_or a (js_shl b n) = toInt32 (a + b * 2 ^ n)"
    using or_disjoint_add [OF assms(1,2), of b] by (simp add: js_or_def)
  then show ?thesis using assms(1,4) nn by (simp add: toInt32_nonneg)
qed

lemma js_or_0 [simp]: "0 \<le> a \<Longrightarrow> a < 2147483648 \<Longrightarrow> js_or a 0 = a"
  by (simp add: js_or_def toInt32_nonneg)

lemma js_shl_0 [simp]: "js_shl 0 n = 0"
  by (simp add: js_shl_def toInt32_def)

lemma js_ushr_or_0 [simp]: "0 \<le> a \<Longrightarrow> a < 4294967296 \<Longrightarrow> js_ushr (js_or a 0) 0 = a"
  unfolding js_ushr_def js_or_def by (simp only: toUint32_toInt32 or.right_neutral) (simp add: toUint32_mod)

text \<open>Laying out parts one after the other in a zeroed buffer concatenates them.\<close>

lemma blit_fold_concat:
  fixes chunks :: "bytes list"
  shows "length (concat chunks) \<le> n \<Longrightarrow>
    fst (foldl (\<lambda>(result, offset) chunk. (blit result chunk offset, offset + length chunk))
      (pre @ replicate n 0, length pre) chunks)
    = pre @ concat chunks @ replicate (n - length (concat chunks)) 0"
proof (induction chunks arbitrary: pre n)
  case Nil
  then show ?case by simp
next
  case (Cons c cs)
  have "blit (pre @ replicate n 0) c (length pre) = (pre @ c) @ replicate (n - length c) 0"
    by (simp add: blit_def)
  then show ?case
    using Cons.IH [of "n - length c" "pre @ c"] Cons.prems by simp
qed

lemma foldl_length_sum:
  "foldl (\<lambda>total chunk. total + length chunk) n chunks = n + length (concat chunks)"
  by (induction chunks arbitrary: n) simp_all

text \<open>The position of the highest binary digit, which is what \<open>Math.clz32\<close> and the exponent of a double are read from.\<close>

fun floorLog2 :: "nat \<Rightarrow> nat" where
  "floorLog2 n = (if n < 2 then 0 else Suc (floorLog2 (n div 2)))"

declare floorLog2.simps [simp del]

lemma floorLog2_bounds: "0 < n \<Longrightarrow> 2 ^ floorLog2 n \<le> n \<and> n < 2 ^ (floorLog2 n + 1)"
proof (induction n rule: floorLog2.induct)
  case (1 n)
  show ?case
  proof (cases "n < 2")
    case True
    then show ?thesis using 1(2) by (simp add: floorLog2.simps [of n])
  next
    case False
    then have "2 ^ floorLog2 (n div 2) \<le> n div 2 \<and> n div 2 < 2 ^ (floorLog2 (n div 2) + 1)" using 1(1) by simp
    then show ?thesis using False by (subst (1 2) floorLog2.simps) (simp, linarith)
  qed
qed

section \<open>Sorting\<close>

text \<open>\<open>Array.prototype.sort\<close> with a comparison callback is stable, which fixes its result for a
  consistent comparison: each element goes in front of the first one it is strictly below.\<close>

fun jsInsert :: "('a \<Rightarrow> 'a \<Rightarrow> int) \<Rightarrow> 'a \<Rightarrow> 'a list \<Rightarrow> 'a list" where
  "jsInsert cmp x [] = [x]"
| "jsInsert cmp x (y # ys) = (if cmp x y \<le> 0 then x # y # ys else y # jsInsert cmp x ys)"

definition jsSort :: "('a \<Rightarrow> 'a \<Rightarrow> int) \<Rightarrow> 'a list \<Rightarrow> 'a list" where
  "jsSort cmp xs = foldr (jsInsert cmp) xs []"

text \<open>What a comparison must satisfy for the sort to be defined by the standard.\<close>

definition consistent :: "('a \<Rightarrow> 'a \<Rightarrow> int) \<Rightarrow> 'a set \<Rightarrow> bool" where
  "consistent cmp A \<longleftrightarrow>
     (\<forall>x\<in>A. \<forall>y\<in>A. cmp x y \<le> 0 \<or> cmp y x \<le> 0) \<and>
     (\<forall>x\<in>A. \<forall>y\<in>A. \<forall>z\<in>A. cmp x y \<le> 0 \<longrightarrow> cmp y z \<le> 0 \<longrightarrow> cmp x z \<le> 0)"

lemma consistent_total: "consistent cmp A \<Longrightarrow> x \<in> A \<Longrightarrow> y \<in> A \<Longrightarrow> cmp x y \<le> 0 \<or> cmp y x \<le> 0"
  unfolding consistent_def by blast

lemma consistent_trans:
  "consistent cmp A \<Longrightarrow> x \<in> A \<Longrightarrow> y \<in> A \<Longrightarrow> z \<in> A \<Longrightarrow> cmp x y \<le> 0 \<Longrightarrow> cmp y z \<le> 0 \<Longrightarrow> cmp x z \<le> 0"
  unfolding consistent_def by blast

lemma consistent_subset: "consistent cmp A \<Longrightarrow> B \<subseteq> A \<Longrightarrow> consistent cmp B"
  unfolding consistent_def by blast

lemma consistent_cong:
  "(\<And>x y. x \<in> A \<Longrightarrow> y \<in> A \<Longrightarrow> f x y = g x y) \<Longrightarrow> consistent f A \<longleftrightarrow> consistent g A"
  unfolding consistent_def by (simp cong: ball_cong)

lemma mset_jsInsert [simp]: "mset (jsInsert cmp x ys) = add_mset x (mset ys)"
  by (induction ys) auto

lemma mset_jsSort [simp]: "mset (jsSort cmp xs) = mset xs"
  unfolding jsSort_def by (induction xs) auto

lemma jsInsert_cong:
  "(\<And>y. y \<in> set ys \<Longrightarrow> f x y = g x y) \<Longrightarrow> jsInsert f x ys = jsInsert g x ys"
  by (induction ys) auto

lemma set_jsSort [simp]: "set (jsSort cmp xs) = set xs"
  by (metis mset_jsSort set_mset_mset)

lemma length_jsSort [simp]: "length (jsSort cmp xs) = length xs"
  by (metis mset_jsSort size_mset)

lemma distinct_jsSort [simp]: "distinct (jsSort cmp xs) = distinct xs"
  by (metis mset_jsSort mset_eq_imp_distinct_iff)

lemma sorted_jsInsert:
  assumes "sorted_wrt (\<lambda>a b. cmp a b \<le> 0) ys" "consistent cmp (insert x (set ys))"
  shows "sorted_wrt (\<lambda>a b. cmp a b \<le> 0) (jsInsert cmp x ys)"
  using assms
proof (induction ys)
  case (Cons y ys)
  have c: "consistent cmp (insert x (set ys))"
    using Cons.prems(2) by (rule consistent_subset) auto
  have set_ins: "set (jsInsert cmp x ys) = insert x (set ys)"
    by (metis mset_jsInsert set_mset_add_mset_insert set_mset_mset)
  show ?case
  proof (cases "cmp x y \<le> 0")
    case True
    have "cmp x z \<le> 0" if "z \<in> set ys" for z
    proof -
      have "cmp y z \<le> 0" using Cons.prems(1) that by simp
      then show ?thesis using True that by (intro consistent_trans [OF Cons.prems(2), of x y z]) simp_all
    qed
    then show ?thesis using True Cons.prems(1) by simp
  next
    case False
    then have "cmp y x \<le> 0" using consistent_total [OF Cons.prems(2), of x y] by simp
    then show ?thesis using False Cons c set_ins by simp
  qed
qed simp

lemma sorted_jsSort:
  "consistent cmp (set xs) \<Longrightarrow> sorted_wrt (\<lambda>a b. cmp a b \<le> 0) (jsSort cmp xs)"
proof (induction xs)
  case (Cons x xs)
  have "consistent cmp (set xs)" using Cons.prems by (rule consistent_subset) auto
  then have "sorted_wrt (\<lambda>a b. cmp a b \<le> 0) (jsSort cmp xs)" by (rule Cons.IH)
  then have "sorted_wrt (\<lambda>a b. cmp a b \<le> 0) (jsInsert cmp x (jsSort cmp xs))"
    using Cons.prems by (intro sorted_jsInsert) simp_all
  then show ?case by (simp add: jsSort_def)
qed (simp add: jsSort_def)

lemma jsSort_sorted:
  "sorted_wrt (\<lambda>a b. cmp a b \<le> 0) xs \<Longrightarrow> jsSort cmp xs = xs"
proof (induction xs)
  case (Cons x xs)
  then have "jsSort cmp xs = xs" by simp
  then have "jsSort cmp (x # xs) = jsInsert cmp x xs" by (simp add: jsSort_def)
  also have "\<dots> = x # xs" using Cons.prems by (cases xs) auto
  finally show ?case .
qed (simp add: jsSort_def)

end
