(* ===== verification/JsString.thy ===== *)
theory JsString
  imports Prelude
begin

text \<open>
  JavaScript strings: a string is the list of its UTF-16 code units, each below 65536, so
  \<open>length\<close>, \<open>charCodeAt\<close> and \<open>slice\<close> are list operations and a lone surrogate is an ordinary
  element.
\<close>

section \<open>Strings\<close>

type_synonym jsstr = "nat list"

text \<open>A string literal of the source.\<close>

definition jslit :: "string \<Rightarrow> jsstr" where
  "jslit s = map of_char s"

lemma length_jslit [simp]: "length (jslit s) = length s"
  by (simp add: jslit_def)

lemma jslit_append: "jslit (s @ t) = jslit s @ jslit t"
  by (simp add: jslit_def)

definition hexDigit :: "nat \<Rightarrow> nat" where
  "hexDigit d = (if d < 10 then 48 + d else 87 + d)"

text \<open>\<open>Number.prototype.toString\<close> in bases 16, 10 and 8, and \<open>padStart\<close>.\<close>

fun toStringRadix :: "nat \<Rightarrow> nat \<Rightarrow> jsstr" where
  "toStringRadix r n =
     (if r < 2 \<or> n < r then [hexDigit n]
      else toStringRadix r (n div r) @ [hexDigit (n mod r)])"

declare toStringRadix.simps [simp del]

definition padStart :: "jsstr \<Rightarrow> nat \<Rightarrow> nat \<Rightarrow> jsstr" where
  "padStart s n c = replicate (n - length s) c @ s"

text \<open>\<open>indexOf\<close> of one unit and of a substring; \<open>None\<close> is the \<open>-1\<close> of the source.\<close>

fun indexOfFrom :: "'a list \<Rightarrow> 'a \<Rightarrow> nat \<Rightarrow> nat option" where
  "indexOfFrom [] c i = None"
| "indexOfFrom (x # xs) c i = (if x = c then Some i else indexOfFrom xs c (i + 1))"

definition indexOfUnit :: "'a list \<Rightarrow> 'a \<Rightarrow> nat \<Rightarrow> nat option" where
  "indexOfUnit xs c from = indexOfFrom (drop from xs) c from"

fun startsWith :: "'a list \<Rightarrow> 'a list \<Rightarrow> bool" where
  "startsWith xs [] = True"
| "startsWith [] (p # ps) = False"
| "startsWith (x # xs) (p # ps) = (x = p \<and> startsWith xs ps)"

fun indexOfStrFrom :: "'a list \<Rightarrow> 'a list \<Rightarrow> nat \<Rightarrow> nat option" where
  "indexOfStrFrom [] pat i = (if pat = [] then Some i else None)"
| "indexOfStrFrom (x # xs) pat i =
     (if startsWith (x # xs) pat then Some i else indexOfStrFrom xs pat (i + 1))"

definition indexOfStr :: "'a list \<Rightarrow> 'a list \<Rightarrow> nat option" where
  "indexOfStr xs pat = indexOfStrFrom xs pat 0"

text \<open>\<open>split\<close> on one unit and \<open>join\<close> with one unit.\<close>

fun splitUnit :: "'a \<Rightarrow> 'a list \<Rightarrow> 'a list list" where
  "splitUnit c [] = [[]]"
| "splitUnit c (x # xs) =
     (if x = c then [] # splitUnit c xs
      else case splitUnit c xs of [] \<Rightarrow> [[x]] | w # ws \<Rightarrow> (x # w) # ws)"

fun joinUnit :: "'a \<Rightarrow> 'a list list \<Rightarrow> 'a list" where
  "joinUnit c [] = []"
| "joinUnit c [w] = w"
| "joinUnit c (w # ws) = w @ c # joinUnit c ws"

text \<open>\<open>includes\<close> and \<open>endsWith\<close>.\<close>

definition strIncludes :: "jsstr \<Rightarrow> jsstr \<Rightarrow> bool" where
  "strIncludes s pat \<longleftrightarrow> indexOfStr s pat \<noteq> None"

definition strEndsWith :: "jsstr \<Rightarrow> jsstr \<Rightarrow> bool" where
  "strEndsWith s pat \<longleftrightarrow> length pat \<le> length s \<and> drop (length s - length pat) s = pat"

text \<open>The white space of \<open>trim\<close> and of \<open>\s\<close>.\<close>

definition isSpaceUnit :: "nat \<Rightarrow> bool" where
  "isSpaceUnit u \<longleftrightarrow> 9 \<le> u \<and> u \<le> 13 \<or> u = 32 \<or> u = 160 \<or> u = 5760 \<or> 8192 \<le> u \<and> u \<le> 8202 \<or>
     u = 8232 \<or> u = 8233 \<or> u = 8239 \<or> u = 8287 \<or> u = 12288 \<or> u = 65279"

definition jsTrim :: "jsstr \<Rightarrow> jsstr" where
  "jsTrim s = List.rev (dropWhile isSpaceUnit (List.rev (dropWhile isSpaceUnit s)))"

text \<open>\<open>split(/\s+/)\<close>.\<close>

function splitSpaces :: "jsstr \<Rightarrow> jsstr list" where
  "splitSpaces [] = [[]]"
| "splitSpaces (u # us) =
     (if isSpaceUnit u then [] # splitSpaces (dropWhile isSpaceUnit us)
      else case splitSpaces us of [] \<Rightarrow> [[u]] | w # ws \<Rightarrow> (u # w) # ws)"
  by pat_completeness auto
termination
  by (relation "measure length") (auto simp: le_imp_less_Suc length_dropWhile_le)

section \<open>Library lemmas\<close>

lemma startsWith_iff: "startsWith xs ps \<longleftrightarrow> (\<exists>ys. xs = ps @ ys)"
  by (induction xs ps rule: startsWith.induct) auto

lemma indexOfFrom_Some:
  "indexOfFrom xs c i = Some k \<longleftrightarrow>
     (\<exists>j. k = i + j \<and> j < length xs \<and> xs ! j = c \<and> c \<notin> set (take j xs))"
proof (induction xs arbitrary: i)
  case Nil
  then show ?case by simp
next
  case (Cons x xs)
  show ?case
  proof (cases "x = c")
    case True
    have "j = 0" if "c \<notin> set (take j (x # xs))" for j
      using that True by (cases j) auto
    then show ?thesis using True by fastforce
  next
    case False
    have "(\<exists>j. k = i + 1 + j \<and> j < length xs \<and> xs ! j = c \<and> c \<notin> set (take j xs)) \<longleftrightarrow>
        (\<exists>j. k = i + j \<and> j < length (x # xs) \<and> (x # xs) ! j = c \<and> c \<notin> set (take j (x # xs)))"
      (is "(\<exists>j. ?P j) \<longleftrightarrow> (\<exists>j. ?Q j)")
    proof
      assume "\<exists>j. ?P j"
      then obtain j where "?P j" by blast
      then have "?Q (Suc j)" using False by simp
      then show "\<exists>j. ?Q j" by blast
    next
      assume "\<exists>j. ?Q j"
      then obtain j where q: "?Q j" by blast
      then obtain j' where "j = Suc j'" using False by (cases j) auto
      then have "?P j'" using q by simp
      then show "\<exists>j. ?P j" by blast
    qed
    then show ?thesis using False Cons.IH [of "i + 1"] by simp
  qed
qed

lemma indexOfFrom_None: "indexOfFrom xs c i = None \<longleftrightarrow> c \<notin> set xs"
  by (induction xs arbitrary: i) auto

lemma indexOfUnit_Some:
  "indexOfUnit xs c from = Some k \<longleftrightarrow>
     from \<le> k \<and> k < length xs \<and> xs ! k = c \<and> (\<forall>j. from \<le> j \<and> j < k \<longrightarrow> xs ! j \<noteq> c)"
proof -
  have "c \<notin> set (take j (drop from xs)) \<longleftrightarrow> (\<forall>i. from \<le> i \<and> i < from + j \<longrightarrow> xs ! i \<noteq> c)"
    if "j < length (drop from xs)" for j
  proof -
    have "c \<notin> set (take j (drop from xs)) \<longleftrightarrow> (\<forall>i < j. xs ! (from + i) \<noteq> c)"
      using that by (auto simp: in_set_conv_nth)
    also have "\<dots> \<longleftrightarrow> (\<forall>i. from \<le> i \<and> i < from + j \<longrightarrow> xs ! i \<noteq> c)"
      by (metis le_add1 le_add_diff_inverse nat_add_left_cancel_less)
    finally show ?thesis .
  qed
  note e = this
  show ?thesis (is "?l \<longleftrightarrow> ?r")
  proof
    assume ?l
    then show ?r unfolding indexOfUnit_def indexOfFrom_Some using e by auto
  next
    assume r: ?r
    then show ?l unfolding indexOfUnit_def indexOfFrom_Some
      using e [of "k - from"] by (intro exI [of _ "k - from"]) (auto simp: diff_less_mono)
  qed
qed

lemma indexOfUnit_None:
  "indexOfUnit xs c from = None \<longleftrightarrow> (\<forall>j. from \<le> j \<and> j < length xs \<longrightarrow> xs ! j \<noteq> c)"
proof -
  have "c \<notin> set (drop from xs) \<longleftrightarrow> (\<forall>i < length xs - from. xs ! (from + i) \<noteq> c)"
    by (auto simp: in_set_conv_nth)
  also have "\<dots> \<longleftrightarrow> (\<forall>j. from \<le> j \<and> j < length xs \<longrightarrow> xs ! j \<noteq> c)"
  proof
    assume l: "\<forall>i < length xs - from. xs ! (from + i) \<noteq> c"
    show "\<forall>j. from \<le> j \<and> j < length xs \<longrightarrow> xs ! j \<noteq> c"
    proof (intro allI impI)
      fix j assume "from \<le> j \<and> j < length xs"
      then show "xs ! j \<noteq> c" using l [rule_format, of "j - from"] by (auto simp: diff_less_mono)
    qed
  qed auto
  finally show ?thesis by (simp add: indexOfUnit_def indexOfFrom_None)
qed

lemma indexOfFrom_append:
  "c \<notin> set xs \<Longrightarrow> indexOfFrom (xs @ c # ys) c i = Some (i + length xs)"
  by (induction xs arbitrary: i) auto

lemma indexOfUnit_append:
  "c \<notin> set xs \<Longrightarrow> from = length pre \<Longrightarrow>
    indexOfUnit (pre @ xs @ c # ys) c from = Some (from + length xs)"
  by (simp add: indexOfUnit_def indexOfFrom_append)

lemma splitUnit_nonempty [simp]: "splitUnit c xs \<noteq> []"
  by (induction xs) (auto split: list.splits)

lemma joinUnit_splitUnit [simp]: "joinUnit c (splitUnit c xs) = xs"
proof (induction xs)
  case (Cons x xs)
  then show ?case
    by (cases "splitUnit c xs"; cases "List.tl (splitUnit c xs)") auto
qed simp

lemma splitUnit_no_sep: "w \<in> set (splitUnit c xs) \<Longrightarrow> c \<notin> set w"
  by (induction xs arbitrary: w) (auto split: if_splits list.splits)

lemma splitUnit_append: "c \<notin> set w \<Longrightarrow> splitUnit c (w @ c # rest) = w # splitUnit c rest"
  by (induction w) auto

lemma splitUnit_single: "c \<notin> set w \<Longrightarrow> splitUnit c w = [w]"
  by (induction w) auto

lemma splitUnit_joinUnit:
  "ws \<noteq> [] \<Longrightarrow> list_all (\<lambda>w. c \<notin> set w) ws \<Longrightarrow> splitUnit c (joinUnit c ws) = ws"
  by (induction c ws rule: joinUnit.induct) (auto simp: splitUnit_append splitUnit_single)

end
