(* ===== verification/Errors.thy ===== *)
theory Errors
  imports JsString
begin

text \<open>
  The refusals of the modelled code, after \<open>storage/error.ts\<close> and its siblings. Each code is a
  constructor; the free-text reason of the source is a constructor of a reason type that keeps
  the numbers interpolated into the text. \<open>RangeError\<close> is what a \<open>DataView\<close> access outside its
  buffer throws.
\<close>

datatype delta_reason =
    VarintTruncated
  | VarintTooLong
  | CopyTruncated nat nat
  | CopyOutOfBounds nat nat nat
  | CopyOverflowsTarget nat nat nat
  | SourceLengthMismatch nat nat
  | TargetTooLarge nat
  | InsertReserved
  | InsertTruncated nat nat
  | InsertTruncatedAvailable nat nat nat
  | InsertOverflowsTarget nat nat nat
  | Underfill nat nat
  | CopySizeZero
  | CopySizeExceeds nat
  | CopyOffsetOutOfRange nat
  | InsertLengthExceeds nat

text \<open>Elsewhere a reason is its text with a \<open>#\<close> for every interpolated value, and the values.\<close>

datatype reason = Reason string "int list"

text \<open>The parse gates some refusals name (\<open>RevIndexCheck\<close>, \<open>BitmapCheck\<close> and their siblings).\<close>

datatype storage_check =
    ChkSize | ChkSignature | ChkVersion | ChkHashId | ChkCount | ChkChecksum
  | ChkOptions | ChkStream | ChkEntry

datatype tsgit_error =
    RangeError
  | TypeError
  | PlainError reason
  | PlainErrorText string jsstr
  | InvalidDelta delta_reason
  | InvalidObjectId jsstr
  | InvalidFileMode jsstr
  | InvalidTreeEntry nat reason
  | InvalidPackHeader reason
  | InvalidPackEntry nat reason
  | InvalidPackIndex reason
  | InvalidPackRevIndex storage_check reason
  | InvalidPackBitmap storage_check reason
  | RangeErrorText reason
  | InvalidPktLength jsstr
  | PktLengthReserved nat
  | PktTooLarge nat
  | PktTruncated nat
  | RemoteError jsstr
  | InvalidSidebandChannel int
  | SidebandFatal jsstr
  | InvalidRef string
  | InvalidPackedRefs string jsstr
  | InvalidIdentity jsstr string
  | InvalidCommit string
  | InvalidTag string jsstr
  | InvalidIndexHeader reason
  | InvalidIndexEntry int reason

text \<open>A big-endian 32-bit read; a read that does not fit the buffer throws.\<close>

definition getUint32 :: "bytes \<Rightarrow> nat \<Rightarrow> tsgit_error + nat" where
  "getUint32 bs at =
     (if at + 4 \<le> length bs
      then Inr (be32 (bs ! at) (bs ! (at + 1)) (bs ! (at + 2)) (bs ! (at + 3)))
      else Inl RangeError)"

lemma getUint32_bound: "getUint32 bs at = Inr v \<Longrightarrow> v < 4294967296"
  by (auto simp: getUint32_def be32_less split: if_splits)

lemma getUint32_ok: "at + 4 \<le> length bs \<Longrightarrow> \<exists>v. getUint32 bs at = Inr v"
  by (simp add: getUint32_def)

lemma getUint32_u32 [view_simps]:
  assumes "at = length pre"
  shows "getUint32 (pre @ u32_bytes n @ post) at = Inr (n mod 2 ^ 32)"
  using assms be32_u32 [of n] by (simp add: getUint32_def u32_bytes_def nth_append)

lemma getUint32_drop:
  assumes "drop at bs = u32_bytes n @ post" "at \<le> length bs"
  shows "getUint32 bs at = Inr (n mod 2 ^ 32)"
proof -
  have "bs = take at bs @ u32_bytes n @ post"
    using assms(1) by (metis append_take_drop_id)
  moreover have "at = length (take at bs)" using assms(2) by simp
  ultimately show ?thesis by (metis getUint32_u32)
qed

section \<open>Writing into buffers\<close>

text \<open>\<open>bytes.set\<close> and \<open>DataView.setUint32\<close> throw when the value does not fit the buffer.\<close>

definition setBytes :: "bytes \<Rightarrow> bytes \<Rightarrow> nat \<Rightarrow> tsgit_error + bytes" where
  "setBytes dst src at = (if at + length src \<le> length dst then Inr (blit dst src at) else Inl RangeError)"

definition setUint32 :: "bytes \<Rightarrow> nat \<Rightarrow> nat \<Rightarrow> tsgit_error + bytes" where
  "setUint32 dst at n = setBytes dst (u32_bytes n) at"

text \<open>\<open>DataView.setUint16\<close> and \<open>getUint16\<close>, big-endian.\<close>

definition u16_bytes :: "int \<Rightarrow> bytes" where
  "u16_bytes n = [toByte (n div 256), toByte n]"

definition setUint16 :: "bytes \<Rightarrow> nat \<Rightarrow> int \<Rightarrow> tsgit_error + bytes" where
  "setUint16 dst at n = setBytes dst (u16_bytes n) at"

definition getUint16 :: "bytes \<Rightarrow> nat \<Rightarrow> tsgit_error + int" where
  "getUint16 bs at =
     (if at + 2 \<le> length bs then Inr (u8 (bs ! at) * 256 + u8 (bs ! (at + 1))) else Inl RangeError)"

text \<open>\<open>DataView.getUint8\<close>.\<close>

definition getUint8 :: "bytes \<Rightarrow> nat \<Rightarrow> tsgit_error + nat" where
  "getUint8 bs at = (if at < length bs then Inr (unat (bs ! at)) else Inl RangeError)"

fun foldE :: "('a \<Rightarrow> 's \<Rightarrow> 'e + 's) \<Rightarrow> 'a list \<Rightarrow> 's \<Rightarrow> 'e + 's" where
  "foldE f [] s = Inr s"
| "foldE f (x # xs) s = bindE (f x s) (foldE f xs)"

lemma foldE_cong: "(\<And>x s. x \<in> set xs \<Longrightarrow> f x s = g x s) \<Longrightarrow> foldE f xs = foldE g xs"
proof (induction xs)
  case (Cons x xs)
  then show ?case by (intro ext) simp
qed (simp add: fun_eq_iff)

lemma setBytes_zeros:
  "at = length pre \<Longrightarrow> length old = length src \<Longrightarrow>
    setBytes (pre @ old @ post) src at = Inr (pre @ src @ post)"
  by (simp add: setBytes_def blit_append)

text \<open>A loop that lays out equally wide chunks one behind the other.\<close>

lemma foldE_setBytes:
  assumes "\<And>p. p < n \<Longrightarrow> length (chunk p) = w"
  shows "i \<le> n \<Longrightarrow> length old = (n - i) * w \<Longrightarrow> start + i * w = length pre \<Longrightarrow>
    foldE (\<lambda>p b. setBytes b (chunk p) (start + p * w)) [i..<n] (pre @ old @ post)
      = Inr (pre @ concat (map chunk [i..<n]) @ post)"
proof (induction "n - i" arbitrary: i pre old)
  case 0
  then show ?case by simp
next
  case (Suc k)
  then have lt: "i < n" by simp
  have len: "w \<le> length old"
  proof -
    have "1 * w \<le> (n - i) * w" using lt by (intro mult_le_mono1) simp
    then show ?thesis using Suc.prems(2) by simp
  qed
  let ?a = "take w old" and ?b = "drop w old"
  have "setBytes (pre @ ?a @ ?b @ post) (chunk i) (start + i * w) = Inr (pre @ chunk i @ ?b @ post)"
    using Suc.prems(3) len assms [OF lt] by (intro setBytes_zeros) simp_all
  then have s1: "setBytes (pre @ old @ post) (chunk i) (start + i * w) = Inr ((pre @ chunk i) @ ?b @ post)"
    by (metis append.assoc append_take_drop_id)
  have "length ?b = (n - (i + 1)) * w" using Suc.prems(2) lt by (simp add: diff_mult_distrib)
  then have "foldE (\<lambda>p b. setBytes b (chunk p) (start + p * w)) [i + 1..<n] ((pre @ chunk i) @ ?b @ post)
      = Inr ((pre @ chunk i) @ concat (map chunk [i + 1..<n]) @ post)"
    using Suc.hyps(2) Suc.prems(3) lt assms [OF lt] by (intro Suc.hyps(1)) (simp_all add: algebra_simps)
  then show ?case using lt s1 by (simp add: upt_rec [of i n])
qed

end
