(* ===== verification/Delta.thy ===== *)
theory Delta
  imports Errors
begin

text \<open>
  The delta instruction stream of \<open>storage/delta.ts\<close>: the variable-length integers of its header,
  the COPY field decoder, \<open>applyDelta\<close> with its result buffer, and \<open>parseDelta\<close>. The lemmas show
  that applying a stream is the same as parsing it and running the instructions, that every
  COPY stays inside the base, and that the buffer is filled exactly.
\<close>

section \<open>Model\<close>

datatype deltaInstruction = Copy nat nat | Insert bytes

record deltaParsed =
  sourceLength :: nat
  targetLength :: nat
  instructions :: "deltaInstruction list"

definition MAX_VARINT_BYTES :: nat where
  "MAX_VARINT_BYTES = 5"

text \<open>The continuation loop: \<open>byte\<close> is always \<open>bytes[pos]\<close>.\<close>

function readVarLoop :: "bytes \<Rightarrow> nat \<Rightarrow> int \<Rightarrow> nat \<Rightarrow> nat \<Rightarrow> tsgit_error + (nat \<times> nat)" where
  "readVarLoop bs pos value shift bytesRead =
     (if js_and (u8 (bs ! pos)) 128 \<noteq> 0 then
        if MAX_VARINT_BYTES \<le> bytesRead then Inl (InvalidDelta VarintTooLong)
        else if length bs \<le> pos + 1 then Inl (InvalidDelta VarintTruncated)
        else readVarLoop bs (pos + 1)
               (js_ushr (js_or value (js_shl (js_and (u8 (bs ! (pos + 1))) 127) shift)) 0)
               (shift + 7) (bytesRead + 1)
      else Inr (nat value, pos + 1))"
  by pat_completeness auto
termination
  by (relation "measure (\<lambda>(bs, pos, _). length bs - pos)") auto

declare readVarLoop.simps [simp del]

definition readVariableLengthInt :: "bytes \<Rightarrow> nat \<Rightarrow> tsgit_error + (nat \<times> nat)" where
  "readVariableLengthInt bs offset =
     (if length bs \<le> offset then Inl (InvalidDelta VarintTruncated)
      else readVarLoop bs offset (js_ushr (js_shl (js_and (u8 (bs ! offset)) 127) 0) 0) 7 1)"

definition countCopyFieldBytes :: "int \<Rightarrow> nat" where
  "countCopyFieldBytes cmd =
     (if js_and cmd 1 \<noteq> 0 then 1 else 0) +
     (if js_and cmd 2 \<noteq> 0 then 1 else 0) +
     (if js_and cmd 4 \<noteq> 0 then 1 else 0) +
     (if js_and cmd 8 \<noteq> 0 then 1 else 0) +
     (if js_and cmd 16 \<noteq> 0 then 1 else 0) +
     (if js_and cmd 32 \<noteq> 0 then 1 else 0) +
     (if js_and cmd 64 \<noteq> 0 then 1 else 0)"

text \<open>One optional field byte: read and combined when its command bit is set.\<close>

definition copyField ::
    "bytes \<Rightarrow> int \<Rightarrow> int \<Rightarrow> (int \<Rightarrow> int \<Rightarrow> int) \<Rightarrow> int \<times> nat \<Rightarrow> int \<times> nat" where
  "copyField bs cmd bitMask combine s =
     (if js_and cmd bitMask \<noteq> 0 then (combine (fst s) (u8 (bs ! snd s)), snd s + 1) else s)"

definition decodeCopyFields :: "bytes \<Rightarrow> nat \<Rightarrow> int \<Rightarrow> tsgit_error + (nat \<times> nat \<times> nat)" where
  "decodeCopyFields bs pos cmd =
     (let needed = countCopyFieldBytes cmd in
      if length bs < pos + needed then Inl (InvalidDelta (CopyTruncated needed pos))
      else
        let s1 = copyField bs cmd 1 (\<lambda>a b. js_or a b) (0, pos);
            s2 = copyField bs cmd 2 (\<lambda>a b. js_or a (js_shl b 8)) s1;
            s3 = copyField bs cmd 4 (\<lambda>a b. js_or a (js_shl b 16)) s2;
            s4 = copyField bs cmd 8 (\<lambda>a b. js_ushr (js_or a (b * 16777216)) 0) s3;
            t1 = copyField bs cmd 16 (\<lambda>a b. js_or a b) (0, snd s4);
            t2 = copyField bs cmd 32 (\<lambda>a b. js_or a (js_shl b 8)) t1;
            t3 = copyField bs cmd 64 (\<lambda>a b. js_or a (js_shl b 16)) t2;
            sz = (if fst t3 = 0 then 65536 else fst t3)
        in Inr (nat (fst s4), nat sz, snd t3))"

definition validateCopyBounds ::
    "nat \<Rightarrow> nat \<Rightarrow> nat \<Rightarrow> nat \<Rightarrow> nat \<Rightarrow> tsgit_error + unit" where
  "validateCopyBounds offset sz baseLen resultPos targetLen =
     (if baseLen < offset + sz then Inl (InvalidDelta (CopyOutOfBounds offset sz baseLen))
      else if targetLen < resultPos + sz
      then Inl (InvalidDelta (CopyOverflowsTarget resultPos sz targetLen))
      else Inr ())"

definition MAX_TARGET_LENGTH :: nat where
  "MAX_TARGET_LENGTH = 2 * 1024 * 1024 * 1024"

definition validateDeltaHeader :: "bytes \<Rightarrow> nat \<Rightarrow> nat \<Rightarrow> tsgit_error + unit" where
  "validateDeltaHeader base srcLen tgtLen =
     (if length base \<noteq> srcLen then Inl (InvalidDelta (SourceLengthMismatch srcLen (length base)))
      else if MAX_TARGET_LENGTH < tgtLen then Inl (InvalidDelta (TargetTooLarge tgtLen))
      else Inr ())"

text \<open>\<open>applyInsert\<close> writes into the result buffer; the model returns it with the two cursors.\<close>

definition applyInsert ::
    "bytes \<Rightarrow> nat \<Rightarrow> nat \<Rightarrow> bytes \<Rightarrow> nat \<Rightarrow> nat \<Rightarrow> tsgit_error + (bytes \<times> nat \<times> nat)" where
  "applyInsert delta pos cmd result resultPos tgtLen =
     (if cmd = 0 then Inl (InvalidDelta InsertReserved)
      else if length delta < pos + cmd then Inl (InvalidDelta (InsertTruncated cmd pos))
      else if tgtLen < resultPos + cmd
      then Inl (InvalidDelta (InsertOverflowsTarget resultPos cmd tgtLen))
      else Inr (blit result (subarray delta pos (pos + cmd)) resultPos, pos + cmd, resultPos + cmd))"

definition readDeltaTargetSize :: "bytes \<Rightarrow> tsgit_error + nat" where
  "readDeltaTargetSize delta =
     bindE (readVariableLengthInt delta 0) (\<lambda>(_, o1).
     bindE (readVariableLengthInt delta o1) (\<lambda>(tgtLen, _). Inr tgtLen))"

lemma copyField_pos: "snd s \<le> snd (copyField bs cmd m f s)"
  by (simp add: copyField_def)

lemma decodeCopyFields_pos: "decodeCopyFields bs pos cmd = Inr (off, sz, nextPos) \<Longrightarrow> pos \<le> nextPos"
  unfolding decodeCopyFields_def Let_def
  by (auto split: if_splits intro!: order_trans [OF _ copyField_pos])

lemma applyInsert_pos: "applyInsert delta pos cmd result rp tgtLen = Inr (r, nextPos, nrp) \<Longrightarrow> pos \<le> nextPos"
  by (auto simp: applyInsert_def split: if_splits)

function applyLoop ::
    "bytes \<Rightarrow> bytes \<Rightarrow> nat \<Rightarrow> bytes \<Rightarrow> nat \<Rightarrow> nat \<Rightarrow> tsgit_error + (bytes \<times> nat)" where
  "applyLoop base delta tgtLen result resultPos pos =
     (if pos < length delta then
        let cmd = u8 (delta ! pos) in
        if js_and cmd 128 \<noteq> 0 then
          bindE (decodeCopyFields delta (pos + 1) cmd) (\<lambda>(offset, sz, nextPos).
          bindE (validateCopyBounds offset sz (length base) resultPos tgtLen) (\<lambda>_.
            applyLoop base delta tgtLen
              (blit result (subarray base offset (offset + sz)) resultPos)
              (resultPos + sz) nextPos))
        else
          bindE (applyInsert delta (pos + 1) (nat cmd) result resultPos tgtLen)
            (\<lambda>(result', nextPos, nextResultPos).
              applyLoop base delta tgtLen result' nextResultPos nextPos)
      else Inr (result, resultPos))"
  by pat_completeness auto
termination
  by (relation "measure (\<lambda>(base, delta, tl, r, rp, pos). length delta - pos)")
    (auto dest!: decodeCopyFields_pos applyInsert_pos)

declare applyLoop.simps [simp del]

definition applyDelta :: "bytes \<Rightarrow> bytes \<Rightarrow> tsgit_error + bytes" where
  "applyDelta base delta =
     bindE (readVariableLengthInt delta 0) (\<lambda>(srcLen, o1).
     bindE (readVariableLengthInt delta o1) (\<lambda>(tgtLen, o2).
     bindE (validateDeltaHeader base srcLen tgtLen) (\<lambda>_.
     bindE (applyLoop base delta tgtLen (replicate tgtLen 0) 0 o2) (\<lambda>(result, resultPos).
       if resultPos \<noteq> tgtLen then Inl (InvalidDelta (Underfill resultPos tgtLen))
       else Inr result))))"

text \<open>Each step pushes one instruction in front of those the rest of the stream yields.\<close>

function parseLoop :: "bytes \<Rightarrow> nat \<Rightarrow> tsgit_error + deltaInstruction list" where
  "parseLoop delta pos =
     (if pos < length delta then
        let cmd = u8 (delta ! pos) in
        if js_and cmd 128 \<noteq> 0 then
          bindE (decodeCopyFields delta (pos + 1) cmd) (\<lambda>(offset, sz, nextPos).
          bindE (parseLoop delta nextPos) (\<lambda>is. Inr (Copy offset sz # is)))
        else if cmd = 0 then Inl (InvalidDelta InsertReserved)
        else if length delta < pos + 1 + nat cmd
        then Inl (InvalidDelta
               (InsertTruncatedAvailable (nat cmd) (pos + 1) (length delta - (pos + 1))))
        else bindE (parseLoop delta (pos + 1 + nat cmd)) (\<lambda>is.
               Inr (Insert (subarray delta (pos + 1) (pos + 1 + nat cmd)) # is))
      else Inr [])"
  by pat_completeness auto
termination
  by (relation "measure (\<lambda>(delta, pos). length delta - pos)") (auto dest!: decodeCopyFields_pos)

declare parseLoop.simps [simp del]

definition parseDelta :: "bytes \<Rightarrow> tsgit_error + deltaParsed" where
  "parseDelta delta =
     bindE (readVariableLengthInt delta 0) (\<lambda>(srcLen, o1).
     bindE (readVariableLengthInt delta o1) (\<lambda>(tgtLen, o2).
     bindE (parseLoop delta o2) (\<lambda>is.
       Inr \<lparr>sourceLength = srcLen, targetLength = tgtLen, instructions = is\<rparr>)))"

section \<open>Specification: running an instruction list\<close>

primrec runInstruction :: "bytes \<Rightarrow> deltaInstruction \<Rightarrow> bytes" where
  "runInstruction base (Copy off n) = subarray base off (off + n)"
| "runInstruction base (Insert d) = d"

primrec instructionInBounds :: "nat \<Rightarrow> deltaInstruction \<Rightarrow> bool" where
  "instructionInBounds baseLen (Copy off n) = (off + n \<le> baseLen)"
| "instructionInBounds baseLen (Insert d) = True"

definition runInstructions :: "bytes \<Rightarrow> deltaInstruction list \<Rightarrow> bytes" where
  "runInstructions base is = concat (map (runInstruction base) is)"

lemma runInstructions_simps [simp]:
  "runInstructions base [] = []"
  "runInstructions base (i # is) = runInstruction base i @ runInstructions base is"
  "runInstructions base (is @ js) = runInstructions base is @ runInstructions base js"
  by (simp_all add: runInstructions_def)

section \<open>Applying is parsing and running\<close>

lemma blit_empty [simp]: "blit r [] p = r"
  by (simp add: blit_def)

lemma blit_blit:
  assumes "p + length a + length b \<le> length r"
  shows "blit (blit r a p) b (p + length a) = blit r (a @ b) p"
proof -
  have "length (take p r) = p" using assms by simp
  then show ?thesis
    by (simp add: blit_def ac_simps drop_append)
qed

lemma blit_whole: "length src = length dst \<Longrightarrow> blit dst src 0 = src"
  by (simp add: blit_def)

text \<open>The outcome of the apply loop, read off the instructions the stream parses to.\<close>

definition applies :: "bytes \<Rightarrow> nat \<Rightarrow> bytes \<Rightarrow> nat \<Rightarrow> deltaInstruction list \<Rightarrow> bytes \<times> nat \<Rightarrow> bool" where
  "applies base tgtLen result rp is out \<longleftrightarrow>
     list_all (instructionInBounds (length base)) is \<and>
     rp + length (runInstructions base is) \<le> tgtLen \<and>
     out = (blit result (runInstructions base is) rp, rp + length (runInstructions base is))"

lemma applies_Nil: "applies base tgtLen result rp [] out \<longleftrightarrow> rp \<le> tgtLen \<and> out = (result, rp)"
  by (auto simp: applies_def)

lemma applies_Cons:
  assumes "length result = tgtLen" "rp + length (runInstruction base i) \<le> tgtLen"
    "instructionInBounds (length base) i"
  shows "applies base tgtLen result rp (i # is) out \<longleftrightarrow>
    applies base tgtLen (blit result (runInstruction base i) rp)
      (rp + length (runInstruction base i)) is out"
  using assms by (auto simp: applies_def blit_blit add.assoc)

lemma applies_Cons_oob:
  "\<not> (instructionInBounds (length base) i \<and> rp + length (runInstruction base i) \<le> tgtLen) \<Longrightarrow>
    \<not> applies base tgtLen result rp (i # is) out"
  by (auto simp: applies_def)

lemma u8_le_zero_iff [simp]: "u8 b \<le> 0 \<longleftrightarrow> u8 b = 0"
  using u8_bounds(1) [of b] by linarith

lemma applyLoop_iff_parseLoop:
  assumes "length result = tgtLen" "rp \<le> tgtLen"
  shows "applyLoop base delta tgtLen result rp pos = Inr out \<longleftrightarrow>
    (\<exists>is. parseLoop delta pos = Inr is \<and> applies base tgtLen result rp is out)"
  using assms
proof (induction base delta tgtLen result rp pos rule: applyLoop.induct)
  case (1 base delta tgtLen result rp pos)
  let ?cmd = "u8 (delta ! pos)"
  note step = applyLoop.simps [of base delta tgtLen result rp pos] parseLoop.simps [of delta pos]
  consider (fin) "\<not> pos < length delta"
    | (copy) "pos < length delta" "js_and ?cmd 128 \<noteq> 0"
    | (ins) "pos < length delta" "js_and ?cmd 128 = 0"
    by blast
  then show ?case
  proof cases
    case fin
    then show ?thesis using "1.prems" by (auto simp: step applies_Nil)
  next
    case copy
    show ?thesis
    proof (cases "decodeCopyFields delta (pos + 1) ?cmd")
      case (Inl e)
      with copy show ?thesis by (simp add: step Let_def)
    next
      case (Inr t)
      obtain off n p where t: "t = (off, n, p)" by (cases t)
      show ?thesis
      proof (cases "off + n \<le> length base \<and> rp + n \<le> tgtLen")
        case ok: True
        then have v: "validateCopyBounds off n (length base) rp tgtLen = Inr ()"
          by (simp add: validateCopyBounds_def)
        have len: "length (subarray base off (off + n)) = n" using ok by (intro length_subarray_fit) simp
        have "applyLoop base delta tgtLen (blit result (subarray base off (off + n)) rp) (rp + n) p
            = Inr out \<longleftrightarrow> (\<exists>is. parseLoop delta p = Inr is \<and>
              applies base tgtLen (blit result (subarray base off (off + n)) rp) (rp + n) is out)"
          using "1.IH"(1) [OF copy(1) refl copy(2) Inr [unfolded t] refl refl v] "1.prems" ok
          by (simp add: len)
        then show ?thesis
          using copy Inr t v "1.prems" ok len
          by (auto simp: step Let_def bindE_Inr_iff applies_Cons)
      next
        case False
        then have bad: "\<not> applies base tgtLen result rp (Copy off n # is) out" for "is"
          by (intro applies_Cons_oob) auto
        have "validateCopyBounds off n (length base) rp tgtLen \<noteq> Inr u" for u
          using False by (auto simp: validateCopyBounds_def)
        then show ?thesis
          using copy Inr t bad by (auto simp: step Let_def bindE_Inr_iff)
      qed
    qed
  next
    case ins
    show ?thesis
    proof (cases "?cmd = 0 \<or> length delta < pos + 1 + nat ?cmd")
      case True
      then show ?thesis using ins by (auto simp: step Let_def applyInsert_def)
    next
      case fits: False
      let ?d = "subarray delta (pos + 1) (pos + 1 + nat ?cmd)"
      have len: "length ?d = nat ?cmd" using fits by (intro length_subarray_fit) simp
      show ?thesis
      proof (cases "rp + nat ?cmd \<le> tgtLen")
        case True
        then have v: "applyInsert delta (pos + 1) (nat ?cmd) result rp tgtLen
            = Inr (blit result ?d rp, pos + 1 + nat ?cmd, rp + nat ?cmd)"
          using fits by (simp add: applyInsert_def)
        have "applyLoop base delta tgtLen (blit result ?d rp) (rp + nat ?cmd) (pos + 1 + nat ?cmd)
            = Inr out \<longleftrightarrow> (\<exists>is. parseLoop delta (pos + 1 + nat ?cmd) = Inr is \<and>
              applies base tgtLen (blit result ?d rp) (rp + nat ?cmd) is out)"
          using "1.IH"(2) [OF ins(1) refl _ v refl refl] ins "1.prems" True by (simp add: len)
        then show ?thesis
          using ins fits v "1.prems" True len
          by (auto simp: step Let_def bindE_Inr_iff applies_Cons)
      next
        case False
        then have bad: "\<not> applies base tgtLen result rp (Insert ?d # is) out" for "is"
          using len by (intro applies_Cons_oob) auto
        show ?thesis
          using ins fits False bad by (auto simp: step Let_def bindE_Inr_iff applyInsert_def)
      qed
    qed
  qed
qed

lemma applyDelta_iff_parse:
  "applyDelta base delta = Inr r \<longleftrightarrow>
     (\<exists>p. parseDelta delta = Inr p \<and> sourceLength p = length base \<and>
        targetLength p \<le> MAX_TARGET_LENGTH \<and>
        list_all (instructionInBounds (length base)) (instructions p) \<and>
        r = runInstructions base (instructions p) \<and> length r = targetLength p)"
proof -
  have loop: "applyLoop base delta n (replicate n 0) 0 o2 = Inr out \<longleftrightarrow>
      (\<exists>is. parseLoop delta o2 = Inr is \<and> applies base n (replicate n 0) 0 is out)" for n o2 out
    by (rule applyLoop_iff_parseLoop) simp_all
  have header: "validateDeltaHeader base s t = Inr u \<longleftrightarrow> length base = s \<and> t \<le> MAX_TARGET_LENGTH"
    for s t u
    by (auto simp: validateDeltaHeader_def)
  show ?thesis
    unfolding applyDelta_def parseDelta_def
    by (auto simp: bindE_Inr_iff loop header applies_def blit_whole split: if_splits)
qed

end
