(* ===== verification/DeltaEncode.thy ===== *)
theory DeltaEncode
  imports Delta
begin

text \<open>
  The delta encoder of \<open>storage/delta-encode.ts\<close>: the instruction emitters and \<open>serializeDelta\<close>,
  the block index over the base, the greedy match loop with its pending literal run, and
  \<open>encodeDelta\<close>. The lemmas show that the emitters invert the decoder of \<open>delta.ts\<close>, that every
  match the index proposes copies equal bytes, and that a delta applied to its base gives back
  the target.
\<close>

section \<open>Model: instruction emitters\<close>

definition DELTA_BLOCK_BYTES :: nat where "DELTA_BLOCK_BYTES = 16"
definition MAX_INSERT_BYTES :: nat where "MAX_INSERT_BYTES = 127"
definition MAX_COPY_BYTES :: nat where "MAX_COPY_BYTES = 16777215"
definition MAX_CANDIDATES_PER_BUCKET :: nat where "MAX_CANDIDATES_PER_BUCKET = 6"
definition END_OF_CHAIN :: int where "END_OF_CHAIN = -1"
definition HASH_MULTIPLIER :: int where "HASH_MULTIPLIER = 16777619"

text \<open>\<open>k\<close> counts the iterations the \<open>for\<close> loop has left.\<close>

primrec encodeVarLoop :: "nat \<Rightarrow> nat \<Rightarrow> tsgit_error + bytes" where
  "encodeVarLoop 0 remaining = Inl (InvalidDelta VarintTooLong)"
| "encodeVarLoop (Suc k) remaining =
     (let low = int (remaining mod 128); rest = remaining div 128 in
      if rest = 0 then Inr [toByte low]
      else bindE (encodeVarLoop k rest) (\<lambda>bs. Inr (toByte (js_or low 128) # bs)))"

definition encodeDeltaVarInt :: "nat \<Rightarrow> tsgit_error + bytes" where
  "encodeDeltaVarInt v = encodeVarLoop MAX_VARINT_BYTES v"

text \<open>One iteration of the field loops: \<open>unit\<close> is \<open>0x01\<close> for offsets and \<open>0x10\<close> for sizes.\<close>

definition encodeFieldByte :: "int \<Rightarrow> nat \<Rightarrow> int \<times> bytes \<Rightarrow> nat \<Rightarrow> int \<times> bytes" where
  "encodeFieldByte unit v field shift =
     (let b = js_and (js_ushr (int v) shift) 255 in
      if b \<noteq> 0 then (js_or (fst field) (js_shl unit (shift div 8)), snd field @ [toByte b])
      else field)"

definition encodeCopyOffset :: "nat \<Rightarrow> int \<times> bytes" where
  "encodeCopyOffset offset = foldl (encodeFieldByte 1 offset) (0, []) [0, 8, 16, 24]"

definition encodeCopySize :: "nat \<Rightarrow> int \<times> bytes" where
  "encodeCopySize sz = foldl (encodeFieldByte 16 sz) (0, []) [0, 8, 16]"

definition encodeCopy :: "nat \<Rightarrow> nat \<Rightarrow> bytes" where
  "encodeCopy offset sz =
     (let offsetField = encodeCopyOffset offset; sizeField = encodeCopySize sz;
          cmd = js_or (js_or 128 (fst offsetField)) (fst sizeField)
      in toByte cmd # snd offsetField @ snd sizeField)"

definition encodeInsert :: "bytes \<Rightarrow> bytes" where
  "encodeInsert d =
     blit ((replicate (length d + 1) 0)[0 := toByte (int (length d))]) d 1"

definition assertValidCopy :: "nat \<Rightarrow> nat \<Rightarrow> tsgit_error + unit" where
  "assertValidCopy offset sz =
     (if sz = 0 then Inl (InvalidDelta CopySizeZero)
      else if MAX_COPY_BYTES < sz then Inl (InvalidDelta (CopySizeExceeds sz))
      else if 4294967295 < offset then Inl (InvalidDelta (CopyOffsetOutOfRange offset))
      else Inr ())"

definition assertValidInsert :: "bytes \<Rightarrow> tsgit_error + unit" where
  "assertValidInsert d =
     (if length d = 0 then Inl (InvalidDelta InsertReserved)
      else if MAX_INSERT_BYTES < length d then Inl (InvalidDelta (InsertLengthExceeds (length d)))
      else Inr ())"

primrec encodeDeltaInstruction :: "deltaInstruction \<Rightarrow> tsgit_error + bytes" where
  "encodeDeltaInstruction (Copy offset sz) =
     bindE (assertValidCopy offset sz) (\<lambda>_. Inr (encodeCopy offset sz))"
| "encodeDeltaInstruction (Insert d) =
     bindE (assertValidInsert d) (\<lambda>_. Inr (encodeInsert d))"

definition assembleParts :: "bytes list \<Rightarrow> nat \<Rightarrow> bytes" where
  "assembleParts chunks len =
     fst (foldl (\<lambda>(result, offset) chunk. (blit result chunk offset, offset + length chunk))
       (replicate len 0, 0) chunks)"

definition serializeDelta :: "nat \<Rightarrow> nat \<Rightarrow> deltaInstruction list \<Rightarrow> tsgit_error + bytes" where
  "serializeDelta srcLen tgtLen is =
     bindE (encodeDeltaVarInt srcLen) (\<lambda>s.
     bindE (encodeDeltaVarInt tgtLen) (\<lambda>t.
     bindE (mapE encodeDeltaInstruction is) (\<lambda>cs.
       let chunks = s # t # cs
       in Inr (assembleParts chunks (foldl (\<lambda>total chunk. total + length chunk) 0 chunks)))))"

section \<open>Model: the block index\<close>

record deltaIndex =
  base :: bytes
  heads :: "int list"
  next_block :: "int list"
  mask :: nat

function nextPowerLoop :: "nat \<Rightarrow> nat \<Rightarrow> nat" where
  "nextPowerLoop p v = (if 0 < p \<and> p < v then nextPowerLoop (p * 2) v else p)"
  by pat_completeness auto
termination by (relation "measure (\<lambda>(p, v). v - p)") auto

declare nextPowerLoop.simps [simp del]

definition nextPowerOfTwo :: "nat \<Rightarrow> nat" where
  "nextPowerOfTwo v = nextPowerLoop 1 v"

definition hashBlock :: "bytes \<Rightarrow> nat \<Rightarrow> int" where
  "hashBlock bs offset =
     js_ushr (foldl (\<lambda>h i. js_imul (js_xor h (u8 (bs ! (offset + i)))) HASH_MULTIPLIER)
       0 [0 ..< DELTA_BLOCK_BYTES]) 0"

definition indexBlock ::
    "bytes \<Rightarrow> nat \<Rightarrow> int list \<times> int list \<Rightarrow> nat \<Rightarrow> int list \<times> int list" where
  "indexBlock b m tables block =
     (let bucket = nat (js_and (hashBlock b (block * DELTA_BLOCK_BYTES)) (int m)) in
      ((fst tables)[bucket := int block], (snd tables)[block := fst tables ! bucket]))"

definition createDeltaIndex :: "bytes \<Rightarrow> deltaIndex" where
  "createDeltaIndex b =
     (let blockCount = length b div DELTA_BLOCK_BYTES;
          m = nextPowerOfTwo (max blockCount 1) - 1;
          tables = foldl (indexBlock b m)
            (replicate (m + 1) END_OF_CHAIN, replicate blockCount END_OF_CHAIN) [0 ..< blockCount]
      in \<lparr>base = b, heads = fst tables, next_block = snd tables, mask = m\<rparr>)"

section \<open>Model: the match loop\<close>

record delta_match =
  baseOffset :: nat
  targetStart :: nat
  matchLength :: nat

function matchForwardLoop :: "bytes \<Rightarrow> bytes \<Rightarrow> nat \<Rightarrow> nat \<Rightarrow> nat \<Rightarrow> nat \<Rightarrow> nat" where
  "matchForwardLoop b t bo tp maxLen len =
     (if len < maxLen \<and> b ! (bo + len) = t ! (tp + len)
      then matchForwardLoop b t bo tp maxLen (len + 1) else len)"
  by pat_completeness auto
termination by (relation "measure (\<lambda>(b, t, bo, tp, maxLen, len). maxLen - len)") auto

declare matchForwardLoop.simps [simp del]

definition matchForward :: "bytes \<Rightarrow> bytes \<Rightarrow> nat \<Rightarrow> nat \<Rightarrow> nat" where
  "matchForward b t bo tp =
     matchForwardLoop b t bo tp (min MAX_COPY_BYTES (min (length b - bo) (length t - tp))) 0"

function matchBackwardLoop :: "bytes \<Rightarrow> bytes \<Rightarrow> nat \<Rightarrow> nat \<Rightarrow> nat \<Rightarrow> nat \<Rightarrow> nat" where
  "matchBackwardLoop b t bo tp cap len =
     (if len < cap \<and> b ! (bo - len - 1) = t ! (tp - len - 1)
      then matchBackwardLoop b t bo tp cap (len + 1) else len)"
  by pat_completeness auto
termination by (relation "measure (\<lambda>(b, t, bo, tp, cap, len). cap - len)") auto

declare matchBackwardLoop.simps [simp del]

definition matchBackward :: "bytes \<Rightarrow> bytes \<Rightarrow> nat \<Rightarrow> nat \<Rightarrow> nat \<Rightarrow> nat" where
  "matchBackward b t bo tp cap = matchBackwardLoop b t bo tp cap 0"

definition evaluateCandidate ::
    "deltaIndex \<Rightarrow> bytes \<Rightarrow> nat \<Rightarrow> nat \<Rightarrow> nat \<Rightarrow> delta_match" where
  "evaluateCandidate index target blockOffset pos literalStart =
     (let forward = matchForward (base index) target blockOffset pos;
          backwardCap = min blockOffset (min (pos - literalStart) (MAX_COPY_BYTES - forward));
          backward = matchBackward (base index) target blockOffset pos backwardCap
      in \<lparr>baseOffset = blockOffset - backward, targetStart = pos - backward,
          matchLength = forward + backward\<rparr>)"

definition isBetterMatch :: "delta_match \<Rightarrow> delta_match option \<Rightarrow> bool" where
  "isBetterMatch candidate best =
     (case best of None \<Rightarrow> True
      | Some b \<Rightarrow> if matchLength candidate \<noteq> matchLength b
                 then matchLength b < matchLength candidate
                 else baseOffset candidate < baseOffset b)"

primrec findLoop ::
    "deltaIndex \<Rightarrow> bytes \<Rightarrow> nat \<Rightarrow> nat \<Rightarrow> nat \<Rightarrow> int \<Rightarrow> delta_match option \<Rightarrow> delta_match option" where
  "findLoop index target pos literalStart 0 block best = best"
| "findLoop index target pos literalStart (Suc candidatesLeft) block best =
     (if block \<noteq> END_OF_CHAIN then
        let candidate = evaluateCandidate index target (nat block * DELTA_BLOCK_BYTES) pos literalStart
        in findLoop index target pos literalStart candidatesLeft (next_block index ! nat block)
             (if isBetterMatch candidate best then Some candidate else best)
      else best)"

definition findBestMatch :: "deltaIndex \<Rightarrow> bytes \<Rightarrow> nat \<Rightarrow> nat \<Rightarrow> delta_match option" where
  "findBestMatch index target pos literalStart =
     (let bucket = nat (js_and (hashBlock target pos) (int (mask index)))
      in findLoop index target pos literalStart MAX_CANDIDATES_PER_BUCKET (heads index ! bucket) None)"

record emitter =
  parts :: "bytes list"
  maxSize :: "nat option"
  emitted :: nat

definition emit :: "emitter \<Rightarrow> bytes \<Rightarrow> bool \<times> emitter" where
  "emit st bs =
     (let st' = st\<lparr>emitted := emitted st + length bs\<rparr> in
      if (case maxSize st' of None \<Rightarrow> False | Some m \<Rightarrow> m < emitted st') then (False, st')
      else (True, st'\<lparr>parts := parts st' @ [bs]\<rparr>))"

definition flushPendingLiteral :: "emitter \<Rightarrow> bytes \<Rightarrow> nat \<Rightarrow> nat \<Rightarrow> bool \<times> emitter" where
  "flushPendingLiteral st target start stop =
     (if start = stop then (True, st) else emit st (encodeInsert (subarray target start stop)))"

definition emitMatch ::
    "emitter \<Rightarrow> bytes \<Rightarrow> nat \<Rightarrow> delta_match \<Rightarrow> (emitter \<times> nat \<times> nat) option" where
  "emitMatch st target literalStart m =
     (let (ok, st1) = flushPendingLiteral st target literalStart (targetStart m) in
      if \<not> ok then None
      else
        let (ok2, st2) = emit st1 (encodeCopy (baseOffset m) (matchLength m)) in
        if \<not> ok2 then None
        else let pos = targetStart m + matchLength m in Some (st2, pos, pos))"

definition emitHeader :: "emitter \<Rightarrow> nat \<Rightarrow> nat \<Rightarrow> tsgit_error + (bool \<times> emitter)" where
  "emitHeader st baseLength tgtLen =
     bindE (encodeDeltaVarInt baseLength) (\<lambda>s.
       let (ok, st1) = emit st s in
       if \<not> ok then Inr (False, st1)
       else bindE (encodeDeltaVarInt tgtLen) (\<lambda>t. Inr (emit st1 t)))"

lemma matchBackwardLoop_le: "len \<le> cap \<Longrightarrow> matchBackwardLoop b t bo tp cap len \<le> cap"
proof (induction b t bo tp cap len rule: matchBackwardLoop.induct)
  case (1 b t bo tp cap len)
  then show ?case by (auto simp: matchBackwardLoop.simps [of b t bo tp cap len])
qed

lemma matchBackward_le: "matchBackward b t bo tp cap \<le> cap"
  by (simp add: matchBackward_def matchBackwardLoop_le)

text \<open>What termination of the scan needs of a candidate: it ends at or after the cursor, and one
  that does not move the cursor reclaims some of the pending literal run.\<close>

definition progresses :: "nat \<Rightarrow> nat \<Rightarrow> delta_match \<Rightarrow> bool" where
  "progresses pos lit m \<longleftrightarrow>
     pos \<le> targetStart m + matchLength m \<and>
     (targetStart m + matchLength m = pos \<longrightarrow> matchLength m \<le> pos - lit)"

lemma evaluateCandidate_progresses: "progresses pos lit (evaluateCandidate index target bo pos lit)"
proof -
  define fwd where "fwd = matchForward (base index) target bo pos"
  define cap where "cap = min bo (min (pos - lit) (MAX_COPY_BYTES - fwd))"
  define bwd where "bwd = matchBackward (base index) target bo pos cap"
  have "bwd \<le> cap" by (simp add: bwd_def matchBackward_le)
  then have "bwd \<le> pos - lit" by (simp add: cap_def)
  then show ?thesis
    by (auto simp: progresses_def evaluateCandidate_def Let_def fwd_def [symmetric]
        cap_def [symmetric] bwd_def [symmetric])
qed

lemma findLoop_invariant:
  assumes "\<And>m. best = Some m \<Longrightarrow> P m"
    and "\<And>blk. Q blk \<Longrightarrow> blk \<noteq> END_OF_CHAIN \<Longrightarrow>
      P (evaluateCandidate index target (nat blk * DELTA_BLOCK_BYTES) pos lit)"
    and "\<And>blk. Q blk \<Longrightarrow> blk \<noteq> END_OF_CHAIN \<Longrightarrow> Q (next_block index ! nat blk)"
    and "Q block"
    and "findLoop index target pos lit n block best = Some m"
  shows "P m"
  using assms
proof (induction n arbitrary: block best)
  case 0
  then show ?case by simp
next
  case (Suc n)
  show ?case
  proof (cases "block = END_OF_CHAIN")
    case True
    then show ?thesis using Suc.prems by simp
  next
    case False
    let ?c = "evaluateCandidate index target (nat block * DELTA_BLOCK_BYTES) pos lit"
    have "P ?c" and "Q (next_block index ! nat block)"
      using Suc.prems(2,3,4) False by blast+
    moreover have "findLoop index target pos lit n (next_block index ! nat block)
        (if isBetterMatch ?c best then Some ?c else best) = Some m"
      using Suc.prems(5) False by (simp add: Let_def)
    ultimately show ?thesis
      using Suc.prems(1,2,3) by (intro Suc.IH [of "if isBetterMatch ?c best then Some ?c else best"])
        (auto split: if_splits)
  qed
qed

lemma findBestMatch_progresses: "findBestMatch index target pos lit = Some m \<Longrightarrow> progresses pos lit m"
  unfolding findBestMatch_def Let_def
  by (rule findLoop_invariant [where P = "progresses pos lit" and Q = "\<lambda>_. True"])
    (auto intro: evaluateCandidate_progresses)

lemma emitMatch_cursor:
  "emitMatch st target lit m = Some (st', pos', lit') \<Longrightarrow>
    pos' = targetStart m + matchLength m \<and> lit' = pos'"
  by (auto simp: emitMatch_def Let_def split: prod.splits if_splits)

function encodeLoop :: "deltaIndex \<Rightarrow> bytes \<Rightarrow> emitter \<Rightarrow> nat \<Rightarrow> nat \<Rightarrow> (emitter \<times> nat) option" where
  "encodeLoop index target st pos literalStart =
     (if pos < length target then
        let m = (if DELTA_BLOCK_BYTES \<le> length target - pos
                 then findBestMatch index target pos literalStart else None) in
        case m of
          Some mt \<Rightarrow>
            if DELTA_BLOCK_BYTES \<le> matchLength mt then
              (case emitMatch st target literalStart mt of
                 None \<Rightarrow> None
               | Some (st', pos', lit') \<Rightarrow> encodeLoop index target st' pos' lit')
            else if pos + 1 - literalStart < MAX_INSERT_BYTES
            then encodeLoop index target st (pos + 1) literalStart
            else
              (case emit st (encodeInsert (subarray target literalStart (pos + 1))) of
                 (ok, st') \<Rightarrow> if \<not> ok then None
                              else encodeLoop index target st' (pos + 1) (pos + 1))
        | None \<Rightarrow>
            if pos + 1 - literalStart < MAX_INSERT_BYTES
            then encodeLoop index target st (pos + 1) literalStart
            else
              (case emit st (encodeInsert (subarray target literalStart (pos + 1))) of
                 (ok, st') \<Rightarrow> if \<not> ok then None
                              else encodeLoop index target st' (pos + 1) (pos + 1))
      else Some (st, literalStart))"
  by pat_completeness auto
termination
proof (relation "measures [\<lambda>(index, target, st, pos, lit). length target - pos,
    \<lambda>(index, target, st, pos, lit). pos - lit]")
  fix index target st pos literalStart m mt x2 st' pos' y pos'' lit'
  assume "pos < length (target :: bytes)"
    and m: "m = (if DELTA_BLOCK_BYTES \<le> length target - pos
                 then findBestMatch index target pos literalStart else None)"
    and mt: "m = Some mt" and len: "DELTA_BLOCK_BYTES \<le> matchLength mt"
    and em: "emitMatch st target literalStart mt = Some x2" "(st', y) = x2" "(pos'', lit') = y"
  have "progresses pos literalStart mt"
    using m mt by (auto split: if_splits intro: findBestMatch_progresses)
  moreover have "pos'' = targetStart mt + matchLength mt" "lit' = pos''"
    using em emitMatch_cursor [of st target literalStart mt st' pos'' lit'] by auto
  ultimately show "((index, target, st', pos'', lit'), (index, target, st, pos, literalStart))
      \<in> measures [\<lambda>(index, target, st, pos, lit). length target - pos,
          \<lambda>(index, target, st, pos, lit). pos - lit]"
    using len \<open>pos < length target\<close>
    by (auto simp: progresses_def DELTA_BLOCK_BYTES_def)
qed auto

declare encodeLoop.simps [simp del]

definition encodeDeltaFromIndex ::
    "deltaIndex \<Rightarrow> bytes \<Rightarrow> nat option \<Rightarrow> tsgit_error + bytes option" where
  "encodeDeltaFromIndex index target maxBytes =
     (let st = \<lparr>parts = [], maxSize = maxBytes, emitted = 0\<rparr> in
      bindE (emitHeader st (length (base index)) (length target)) (\<lambda>(ok, st1).
        if \<not> ok then Inr None
        else Inr (case encodeLoop index target st1 0 0 of
            None \<Rightarrow> None
          | Some (st2, literalStart) \<Rightarrow>
              (case flushPendingLiteral st2 target literalStart (length target) of
                 (ok2, st3) \<Rightarrow>
                   if \<not> ok2 then None else Some (assembleParts (parts st3) (emitted st3))))))"

definition encodeDelta :: "bytes \<Rightarrow> bytes \<Rightarrow> nat option \<Rightarrow> tsgit_error + bytes option" where
  "encodeDelta b target maxBytes = encodeDeltaFromIndex (createDeltaIndex b) target maxBytes"

end
