(* ===== verification/DeltaCodec.thy ===== *)
theory DeltaCodec
  imports DeltaEncode
begin

text \<open>
  The byte-level emitters of \<open>storage/delta-encode.ts\<close> against the decoder of
  \<open>storage/delta.ts\<close>: variable-length integers and COPY fields read back what was written, a
  serialised stream parses back into its header and instructions.
\<close>

section \<open>The emitters invert the decoder\<close>

lemma encodeVarLoop_nonempty: "encodeVarLoop k v = Inr enc \<Longrightarrow> enc \<noteq> []"
  by (cases k) (auto simp: Let_def bindE_Inr_iff split: if_splits)

lemma readVarLoop_encode:
  assumes "encodeVarLoop k v = Inr enc" "drop pos bs = enc @ post"
    and "bytesRead + k = 6" "1 \<le> bytesRead" "0 \<le> acc" "acc < 2 ^ (7 * (bytesRead - 1))"
  shows "readVarLoop bs pos ((acc + (u8 (bs ! pos) mod 128) * 2 ^ (7 * (bytesRead - 1))) mod 2 ^ 32)
      (7 * bytesRead) bytesRead
    = Inr (nat ((acc + int v * 2 ^ (7 * (bytesRead - 1))) mod 2 ^ 32), pos + length enc)"
  using assms
proof (induction k arbitrary: v enc pos bytesRead acc)
  case 0
  then show ?case by simp
next
  case (Suc k)
  let ?low = "int (v mod 128)" and ?rest = "v div 128" and ?s = "7 * (bytesRead - 1)"
  have low: "0 \<le> ?low" "?low < 128" by simp_all
  show ?case
  proof (cases "?rest = 0")
    case True
    then have enc: "enc = [toByte ?low]" using Suc.prems(1) by simp
    then have b: "bs ! pos = toByte ?low" using Suc.prems(2) nth_of_drop by fastforce
    have v: "v < 128" using True by (simp add: div_eq_0_iff)
    have "js_and (u8 (bs ! pos)) 128 = 0"
      using low by (simp add: b js_and_128)
    then show ?thesis
      using b low enc v by (simp add: readVarLoop.simps [of bs pos])
  next
    case False
    then obtain enc' where enc': "encodeVarLoop k ?rest = Inr enc'"
      and enc: "enc = toByte (js_or ?low 128) # enc'"
      using Suc.prems(1) by (auto simp: Let_def bindE_Inr_iff)
    have k: "1 \<le> k" using enc' by (cases k) auto
    have bR: "bytesRead \<le> 4" using k Suc.prems(3) by simp
    have b: "bs ! pos = toByte (js_or ?low 128)" and d: "drop (pos + 1) bs = enc' @ post"
      using Suc.prems(2) enc nth_of_drop [of pos bs] by auto
    have u: "u8 (bs ! pos) = ?low + 128"
      using low by (simp add: b js_or_low_128)
    have cont: "js_and (u8 (bs ! pos)) 128 \<noteq> 0"
      unfolding u by (rule cont_bit [OF low])
    have len: "pos + 1 < length bs"
    proof -
      have "enc' \<noteq> []" using enc' by (rule encodeVarLoop_nonempty)
      then have "drop (pos + 1) bs \<noteq> []" using d by simp
      then show ?thesis by simp
    qed
    let ?acc = "acc + ?low * 2 ^ ?s"
    have pow: "(2::int) ^ (7 * bytesRead) = 2 ^ ?s * 128"
      using Suc.prems(4) by (cases bytesRead) (simp_all add: power_add)
    have acc: "0 \<le> ?acc" "?acc < 2 ^ (7 * bytesRead)"
    proof -
      show "0 \<le> ?acc" using Suc.prems(5) by simp
      have "?low * 2 ^ ?s \<le> 127 * 2 ^ ?s" using low by (intro mult_right_mono) auto
      then show "?acc < 2 ^ (7 * bytesRead)" using Suc.prems(6) unfolding pow by linarith
    qed
    have small: "?acc mod 2 ^ 32 = ?acc"
    proof -
      have "(2::int) ^ (7 * bytesRead) \<le> 2 ^ 32" using bR by (intro power_increasing) auto
      then show ?thesis using acc by simp
    qed
    have step: "readVarLoop bs pos (?acc mod 2 ^ 32) (7 * bytesRead) bytesRead
      = readVarLoop bs (pos + 1)
          ((?acc + (u8 (bs ! (pos + 1)) mod 128) * 2 ^ (7 * bytesRead)) mod 2 ^ 32)
          (7 * (bytesRead + 1)) (bytesRead + 1)"
      using cont bR len acc small
      by (simp add: readVarLoop.simps [of bs pos] MAX_VARINT_BYTES_def js_and_127 varint_step
          add.commute [of _ 7])
    have IH: "readVarLoop bs (pos + 1)
          ((?acc + (u8 (bs ! (pos + 1)) mod 128) * 2 ^ (7 * bytesRead)) mod 2 ^ 32)
          (7 * (bytesRead + 1)) (bytesRead + 1)
      = Inr (nat ((?acc + int ?rest * 2 ^ (7 * bytesRead)) mod 2 ^ 32), pos + 1 + length enc')"
      using Suc.IH [OF enc' d, of "bytesRead + 1" ?acc] Suc.prems(3) acc by simp
    have "?acc + int ?rest * 2 ^ (7 * bytesRead) = acc + int v * 2 ^ ?s"
    proof -
      have "int v = ?low + 128 * int ?rest"
        using mod_mult_div_eq [of v 128] by (metis of_nat_add of_nat_mult of_nat_numeral)
      then show ?thesis by (simp only: pow) (simp add: algebra_simps)
    qed
    then show ?thesis
      using step IH u enc by (simp add: algebra_simps)
  qed
qed

lemma readVariableLengthInt_encode:
  assumes "encodeDeltaVarInt v = Inr enc" "drop pos bs = enc @ post" "v < 4294967296"
  shows "readVariableLengthInt bs pos = Inr (v, pos + length enc)"
proof -
  have enc: "encodeVarLoop 5 v = Inr enc"
    using assms(1) by (simp add: encodeDeltaVarInt_def MAX_VARINT_BYTES_def)
  have "drop pos bs \<noteq> []" using assms(2) encodeVarLoop_nonempty [OF enc] by simp
  then have pos: "pos < length bs" by simp
  have first: "js_ushr (js_shl (js_and (u8 (bs ! pos)) 127) 0) 0 = u8 (bs ! pos) mod 128"
    by (simp add: js_shl_def js_ushr_0 js_and_127 toInt32_nonneg)
  have "readVarLoop bs pos (u8 (bs ! pos) mod 128) 7 1 = Inr (v, pos + length enc)"
    using readVarLoop_encode [OF enc assms(2), of 1 0] assms(3) by simp
  then show ?thesis using pos first by (simp add: readVariableLengthInt_def)
qed

text \<open>The COPY fields. A zero field byte is left out and its command bit stays clear, so the
  decoder's accumulator sees the byte either way.\<close>

definition field_part :: "byte \<Rightarrow> bytes" where
  "field_part b = (if b = 0 then [] else [b])"

lemma field_part_0 [simp]: "field_part 0 = []"
  by (simp add: field_part_def)

lemma drop_field_part:
  "drop pos bs = field_part b @ rest \<Longrightarrow> drop (pos + length (field_part b)) bs = rest"
  using nth_of_drop [of pos bs b rest] by (cases "b = 0") (auto simp: field_part_def)

lemma copyField_part:
  assumes "js_and cmd m \<noteq> 0 \<longleftrightarrow> b \<noteq> 0" "drop pos bs = field_part b @ rest" "f a 0 = a"
    "f a (u8 b) = v"
  shows "copyField bs cmd m f (a, pos) = (v, pos + length (field_part b))"
  using assms nth_of_drop [of pos bs b rest]
  by (cases "b = 0") (auto simp: copyField_def field_part_def)

definition copyCmd :: "bool \<Rightarrow> bool \<Rightarrow> bool \<Rightarrow> bool \<Rightarrow> bool \<Rightarrow> bool \<Rightarrow> bool \<Rightarrow> int" where
  "copyCmd p0 p1 p2 p3 q0 q1 q2 =
     128 + of_bool p0 + 2 * of_bool p1 + 4 * of_bool p2 + 8 * of_bool p3
       + 16 * of_bool q0 + 32 * of_bool q1 + 64 * of_bool q2"

lemma copyCmd_bits:
  "js_and (copyCmd p0 p1 p2 p3 q0 q1 q2) 1 \<noteq> 0 \<longleftrightarrow> p0"
  "js_and (copyCmd p0 p1 p2 p3 q0 q1 q2) 2 \<noteq> 0 \<longleftrightarrow> p1"
  "js_and (copyCmd p0 p1 p2 p3 q0 q1 q2) 4 \<noteq> 0 \<longleftrightarrow> p2"
  "js_and (copyCmd p0 p1 p2 p3 q0 q1 q2) 8 \<noteq> 0 \<longleftrightarrow> p3"
  "js_and (copyCmd p0 p1 p2 p3 q0 q1 q2) 16 \<noteq> 0 \<longleftrightarrow> q0"
  "js_and (copyCmd p0 p1 p2 p3 q0 q1 q2) 32 \<noteq> 0 \<longleftrightarrow> q1"
  "js_and (copyCmd p0 p1 p2 p3 q0 q1 q2) 64 \<noteq> 0 \<longleftrightarrow> q2"
  "js_and (copyCmd p0 p1 p2 p3 q0 q1 q2) 128 \<noteq> 0"
  by (cases p0; cases p1; cases p2; cases p3; cases q0; cases q1; cases q2;
      simp add: copyCmd_def js_and_def toInt32_nonneg)+

lemma copyCmd_range: "0 \<le> copyCmd p0 p1 p2 p3 q0 q1 q2" "copyCmd p0 p1 p2 p3 q0 q1 q2 < 256"
  by (auto simp: copyCmd_def of_bool_def)

definition field_byte :: "nat \<Rightarrow> nat \<Rightarrow> byte" where
  "field_byte v k = of_nat (v div 256 ^ k)"

lemma field_byte_js:
  assumes "v < 4294967296" "k < 4"
  shows "toByte (js_and (js_ushr (int v) (8 * k)) 255) = field_byte v k"
    and "js_and (js_ushr (int v) (8 * k)) 255 = 0 \<longleftrightarrow> field_byte v k = 0"
proof -
  have "(256::int) ^ k = 2 ^ (8 * k)" by (simp add: power_mult)
  then have e: "js_and (js_ushr (int v) (8 * k)) 255 = int (v div 256 ^ k mod 256)"
    using assms by (simp add: js_ushr_div js_and_255 zdiv_int zmod_int)
  show "toByte (js_and (js_ushr (int v) (8 * k)) 255) = field_byte v k"
    unfolding e field_byte_def toByte_def
    by (rule word_unat_eq_iff [THEN iffD2]) (simp add: unat_of_nat)
  show "js_and (js_ushr (int v) (8 * k)) 255 = 0 \<longleftrightarrow> field_byte v k = 0"
    unfolding e field_byte_def by (simp add: word_unat_eq_iff)
qed

lemma u8_field_byte: "u8 (field_byte v k) = int (v div 256 ^ k mod 256)"
  by (simp add: u8_def field_byte_def uint_nat)

lemma encodeFieldByte_eq:
  assumes "v < 4294967296" "k < 4" "shift = 8 * k"
  shows "encodeFieldByte unit v (c, bs) shift =
    (if field_byte v k \<noteq> 0 then js_or c (js_shl unit k) else c, bs @ field_part (field_byte v k))"
  using field_byte_js [OF assms(1,2)] assms(3)
  by (simp add: encodeFieldByte_def Let_def field_part_def)

lemma encodeCopy_eq:
  assumes "offset < 4294967296" "sz < 4294967296"
  shows "encodeCopy offset sz =
    toByte (copyCmd (field_byte offset 0 \<noteq> 0) (field_byte offset 1 \<noteq> 0)
      (field_byte offset 2 \<noteq> 0) (field_byte offset 3 \<noteq> 0)
      (field_byte sz 0 \<noteq> 0) (field_byte sz 1 \<noteq> 0) (field_byte sz 2 \<noteq> 0)) #
    field_part (field_byte offset 0) @ field_part (field_byte offset 1) @
    field_part (field_byte offset 2) @ field_part (field_byte offset 3) @
    field_part (field_byte sz 0) @ field_part (field_byte sz 1) @ field_part (field_byte sz 2)"
proof -
  note o = encodeFieldByte_eq [OF assms(1)]
  note z = encodeFieldByte_eq [OF assms(2)]
  have cmd: "js_or (js_or 128
        (if p3 then js_or (if p2 then js_or (if p1 then js_or (if p0 then js_or 0 (js_shl 1 0) else 0)
            (js_shl 1 1) else if p0 then js_or 0 (js_shl 1 0) else 0) (js_shl 1 2)
          else if p1 then js_or (if p0 then js_or 0 (js_shl 1 0) else 0) (js_shl 1 1)
          else if p0 then js_or 0 (js_shl 1 0) else 0) (js_shl 1 3)
         else if p2 then js_or (if p1 then js_or (if p0 then js_or 0 (js_shl 1 0) else 0)
            (js_shl 1 1) else if p0 then js_or 0 (js_shl 1 0) else 0) (js_shl 1 2)
          else if p1 then js_or (if p0 then js_or 0 (js_shl 1 0) else 0) (js_shl 1 1)
          else if p0 then js_or 0 (js_shl 1 0) else 0))
        (if q2 then js_or (if q1 then js_or (if q0 then js_or 0 (js_shl 16 0) else 0)
            (js_shl 16 1) else if q0 then js_or 0 (js_shl 16 0) else 0) (js_shl 16 2)
          else if q1 then js_or (if q0 then js_or 0 (js_shl 16 0) else 0) (js_shl 16 1)
          else if q0 then js_or 0 (js_shl 16 0) else 0)
      = copyCmd p0 p1 p2 p3 q0 q1 q2" for p0 p1 p2 p3 q0 q1 q2
    by (cases p0; cases p1; cases p2; cases p3; cases q0; cases q1; cases q2;
        simp add: copyCmd_def js_or_def js_shl_def toInt32_nonneg)
  show ?thesis
    unfolding encodeCopy_def encodeCopyOffset_def encodeCopySize_def Let_def
    by (simp add: o [of 0] o [of 1] o [of 2] o [of 3] z [of 0] z [of 1] z [of 2] cmd
        del: field_byte_def)
qed

lemma field_bytes_sum:
  assumes "v < 4294967296"
  shows "u8 (field_byte v 0) + u8 (field_byte v 1) * 256 + u8 (field_byte v 2) * 65536
    + u8 (field_byte v 3) * 16777216 = int v"
proof -
  define d0 d1 d2 d3 where d: "d0 = v mod 256" "d1 = v div 256 mod 256"
    "d2 = v div 65536 mod 256" "d3 = v div 16777216 mod 256"
  have "((d3 * 256 + d2) * 256 + d1) * 256 + d0 = v"
    using be32_u32 [of v] assms unfolding be32_def unat_byte_of_nat d by simp
  then have "int v = int (((d3 * 256 + d2) * 256 + d1) * 256 + d0)" by (rule arg_cong [OF sym])
  then have "int d0 + int d1 * 256 + int d2 * 65536 + int d3 * 16777216 = int v"
    by (simp add: algebra_simps)
  moreover have "(256::nat) ^ 0 = 1" "(256::nat) ^ 1 = 256" "(256::nat) ^ 2 = 65536"
    "(256::nat) ^ 3 = 16777216" by simp_all
  ultimately show ?thesis unfolding u8_field_byte d by (simp only: div_by_1)
qed

lemma copy_offset_value:
  assumes "offset < 4294967296"
  defines "b k \<equiv> u8 (field_byte offset k)"
  shows "js_or 0 (b 0) = b 0"
    and "js_or (b 0) (js_shl (b 1) 8) = b 0 + b 1 * 256"
    and "js_or (b 0 + b 1 * 256) (js_shl (b 2) 16) = b 0 + b 1 * 256 + b 2 * 65536"
    and "js_ushr (js_or (b 0 + b 1 * 256 + b 2 * 65536) (b 3 * 16777216)) 0 = int offset"
proof -
  have r: "0 \<le> b k" "b k \<le> 255" for k by (simp_all add: b_def)
  note rs = r [of 0] r [of 1] r [of 2] r [of 3]
  show "js_or 0 (b 0) = b 0" using rs by (simp add: js_or_def toInt32_nonneg)
  show "js_or (b 0) (js_shl (b 1) 8) = b 0 + b 1 * 256"
    using rs js_or_shl_add [of "b 0" 8 "b 1"] by simp
  show "js_or (b 0 + b 1 * 256) (js_shl (b 2) 16) = b 0 + b 1 * 256 + b 2 * 65536"
    using rs js_or_shl_add [of "b 0 + b 1 * 256" 16 "b 2"] by simp
  let ?a = "b 0 + b 1 * 256 + b 2 * 65536"
  have "js_ushr (js_or ?a (b 3 * 16777216)) 0 = (?a + b 3 * 16777216) mod 2 ^ 32"
  proof -
    have "?a OR b 3 * 16777216 = ?a + b 3 * 16777216"
      using rs or_disjoint_add [of ?a 24 "b 3"] by simp
    then show ?thesis
      unfolding js_ushr_def js_or_def by (simp only: toUint32_toInt32) (simp add: toUint32_mod)
  qed
  also have "?a + b 3 * 16777216 = int offset"
    unfolding b_def by (rule field_bytes_sum [OF assms(1)])
  finally show "js_ushr (js_or ?a (b 3 * 16777216)) 0 = int offset"
    using assms(1) by simp
qed

lemma count_copyCmd:
  "countCopyFieldBytes (copyCmd (b0 \<noteq> 0) (b1 \<noteq> 0) (b2 \<noteq> 0) (b3 \<noteq> 0) (c0 \<noteq> 0) (c1 \<noteq> 0) (c2 \<noteq> 0)) =
    length (field_part b0 @ field_part b1 @ field_part b2 @ field_part b3 @
      field_part c0 @ field_part c1 @ field_part c2)"
  unfolding countCopyFieldBytes_def copyCmd_bits by (simp add: field_part_def)

lemma decodeCopyFields_encode:
  assumes v: "offset < 4294967296" "0 < sz" "sz < 16777216"
    and d: "drop pos bs = tl (encodeCopy offset sz) @ post" and pos: "pos \<le> length bs"
  shows "decodeCopyFields bs pos (u8 (hd (encodeCopy offset sz)))
    = Inr (offset, sz, pos + length (tl (encodeCopy offset sz)))"
proof -
  let ?o = "field_byte offset" and ?z = "field_byte sz"
  let ?cmd = "copyCmd (?o 0 \<noteq> 0) (?o 1 \<noteq> 0) (?o 2 \<noteq> 0) (?o 3 \<noteq> 0) (?z 0 \<noteq> 0) (?z 1 \<noteq> 0) (?z 2 \<noteq> 0)"
  have sz32: "sz < 4294967296" using v by simp
  note enc = encodeCopy_eq [OF v(1) sz32]
  have cmd: "u8 (hd (encodeCopy offset sz)) = ?cmd"
    unfolding enc by (simp add: copyCmd_range)
  note bits = copyCmd_bits [of "?o 0 \<noteq> 0" "?o 1 \<noteq> 0" "?o 2 \<noteq> 0" "?o 3 \<noteq> 0" "?z 0 \<noteq> 0" "?z 1 \<noteq> 0" "?z 2 \<noteq> 0"]
  note ov = copy_offset_value [OF v(1)] and zv = copy_offset_value [OF sz32]
  have ub: "u8 x \<le> 255" "0 \<le> u8 x" for x by simp_all
  have us: "u8 (?o 0) < 2147483648" "u8 (?z 0) < 2147483648"
    using ub(1) [of "?o 0"] ub(1) [of "?z 0"] by linarith+
  have d0: "drop pos bs = field_part (?o 0) @ field_part (?o 1) @ field_part (?o 2) @
      field_part (?o 3) @ field_part (?z 0) @ field_part (?z 1) @ field_part (?z 2) @ post"
    using d unfolding enc by simp
  note d1 = drop_field_part [OF d0]
  note d2 = drop_field_part [OF d1]
  note d3 = drop_field_part [OF d2]
  note d4 = drop_field_part [OF d3]
  note d5 = drop_field_part [OF d4]
  note d6 = drop_field_part [OF d5]
  have r: "0 \<le> u8 (?o 0) + u8 (?o 1) * 256" "u8 (?o 0) + u8 (?o 1) * 256 < 65536"
    "0 \<le> u8 (?o 0) + u8 (?o 1) * 256 + u8 (?o 2) * 65536"
    "u8 (?o 0) + u8 (?o 1) * 256 + u8 (?o 2) * 65536 < 16777216"
    "0 \<le> u8 (?z 0) + u8 (?z 1) * 256" "u8 (?z 0) + u8 (?z 1) * 256 < 65536"
    using ub(1) [of "?o 0"] ub(1) [of "?o 1"] ub(1) [of "?o 2"] ub(1) [of "?z 0"] ub(1) [of "?z 1"]
      ub(2) [of "?o 0"] ub(2) [of "?o 1"] ub(2) [of "?o 2"] ub(2) [of "?z 0"] ub(2) [of "?z 1"]
    by linarith+
  have top: "u8 (?z 3) = 0" using v(3) by (simp add: u8_field_byte)
  have szv: "u8 (?z 0) + u8 (?z 1) * 256 + u8 (?z 2) * 65536 = int sz"
    using field_bytes_sum [OF sz32] top by simp
  let ?p1 = "pos + length (field_part (?o 0))"
  let ?p2 = "?p1 + length (field_part (?o 1))"
  let ?p3 = "?p2 + length (field_part (?o 2))"
  let ?p4 = "?p3 + length (field_part (?o 3))"
  let ?p5 = "?p4 + length (field_part (?z 0))"
  let ?p6 = "?p5 + length (field_part (?z 1))"
  let ?p7 = "?p6 + length (field_part (?z 2))"
  have s1: "copyField bs ?cmd 1 (\<lambda>a b. js_or a b) (0, pos) = (u8 (?o 0), ?p1)"
    by (rule copyField_part [OF bits(1) d0]) (simp_all add: ov)
  have s2: "copyField bs ?cmd 2 (\<lambda>a b. js_or a (js_shl b 8)) (u8 (?o 0), ?p1)
      = (u8 (?o 0) + u8 (?o 1) * 256, ?p2)"
    by (rule copyField_part [OF bits(2) d1]) (rule ov(2) | use us in simp)+
  have s3: "copyField bs ?cmd 4 (\<lambda>a b. js_or a (js_shl b 16)) (u8 (?o 0) + u8 (?o 1) * 256, ?p2)
      = (u8 (?o 0) + u8 (?o 1) * 256 + u8 (?o 2) * 65536, ?p3)"
    by (rule copyField_part [OF bits(3) d2]) (rule ov(3) | use r in simp)+
  have s4: "copyField bs ?cmd 8 (\<lambda>a b. js_ushr (js_or a (b * 16777216)) 0)
      (u8 (?o 0) + u8 (?o 1) * 256 + u8 (?o 2) * 65536, ?p3) = (int offset, ?p4)"
  proof (rule copyField_part [OF bits(4) d3])
    show "js_ushr (js_or (u8 (?o 0) + u8 (?o 1) * 256 + u8 (?o 2) * 65536) (0 * 16777216)) 0
        = u8 (?o 0) + u8 (?o 1) * 256 + u8 (?o 2) * 65536"
      unfolding mult_zero_left by (rule js_ushr_or_0) (use r in linarith)+
  qed (rule ov(4))
  have t1: "copyField bs ?cmd 16 (\<lambda>a b. js_or a b) (0, ?p4) = (u8 (?z 0), ?p5)"
    by (rule copyField_part [OF bits(5) d4]) (simp_all add: zv)
  have t2: "copyField bs ?cmd 32 (\<lambda>a b. js_or a (js_shl b 8)) (u8 (?z 0), ?p5)
      = (u8 (?z 0) + u8 (?z 1) * 256, ?p6)"
    by (rule copyField_part [OF bits(6) d5]) (rule zv(2) | use us in simp)+
  have t3: "copyField bs ?cmd 64 (\<lambda>a b. js_or a (js_shl b 16)) (u8 (?z 0) + u8 (?z 1) * 256, ?p6)
      = (int sz, ?p7)"
    by (rule copyField_part [OF bits(7) d6]) (rule zv(3) [unfolded szv] | use r in simp)+
  have fits: "pos + countCopyFieldBytes ?cmd \<le> length bs"
  proof -
    have "length (drop pos bs) = countCopyFieldBytes ?cmd + length post"
      unfolding d0 count_copyCmd by simp
    then show ?thesis using pos by simp
  qed
  have p7: "?p7 = pos + length (tl (encodeCopy offset sz))"
    unfolding enc by simp
  show ?thesis
    unfolding cmd decodeCopyFields_def Let_def s1 s2 s3 s4 snd_conv fst_conv t1 t2 t3
    using fits v(2) p7 by (simp add: not_less)
qed

lemma encodeCopy_cmd:
  assumes "offset < 4294967296" "sz < 4294967296"
  shows "js_and (u8 (hd (encodeCopy offset sz))) 128 \<noteq> 0"
  using copyCmd_bits(8) by (simp add: encodeCopy_eq [OF assms] copyCmd_range)

lemma encodeInsert_eq: "encodeInsert d = toByte (int (length d)) # d"
  by (simp add: encodeInsert_def blit_def)

lemma assembleParts_concat: "n = length (concat chunks) \<Longrightarrow> assembleParts chunks n = concat chunks"
  using blit_fold_concat [of chunks n "[]"] by (simp add: assembleParts_def)

primrec validInstruction :: "deltaInstruction \<Rightarrow> bool" where
  "validInstruction (Copy off n) \<longleftrightarrow> 0 < n \<and> n \<le> MAX_COPY_BYTES \<and> off < 4294967296"
| "validInstruction (Insert d) \<longleftrightarrow> 0 < length d \<and> length d \<le> MAX_INSERT_BYTES"

primrec instructionBytes :: "deltaInstruction \<Rightarrow> bytes" where
  "instructionBytes (Copy off n) = encodeCopy off n"
| "instructionBytes (Insert d) = encodeInsert d"

lemma encodeDeltaInstruction_iff:
  "encodeDeltaInstruction i = Inr e \<longleftrightarrow> validInstruction i \<and> e = instructionBytes i"
  by (cases i) (auto simp: assertValidCopy_def assertValidInsert_def split: if_splits)

lemma mapE_encode_iff:
  "mapE encodeDeltaInstruction is = Inr cs \<longleftrightarrow>
    list_all validInstruction is \<and> cs = map instructionBytes is"
  by (induction "is" arbitrary: cs) (auto simp: bindE_Inr_iff encodeDeltaInstruction_iff)

lemma parseLoop_instruction:
  assumes "validInstruction i" "drop pos delta = instructionBytes i @ post"
  shows "parseLoop delta pos =
    bindE (parseLoop delta (pos + length (instructionBytes i))) (\<lambda>is. Inr (i # is))"
proof (cases i)
  case (Copy off n)
  then have v: "off < 4294967296" "0 < n" "n < 16777216" "n < 4294967296"
    using assms(1) by (simp_all add: MAX_COPY_BYTES_def)
  let ?e = "encodeCopy off n"
  have d: "drop pos delta = hd ?e # tl ?e @ post"
    using assms(2) Copy by (simp add: encodeCopy_def Let_def)
  note nd = nth_of_drop [OF d]
  have len: "pos + 1 + length (tl ?e) = pos + length ?e"
    by (simp add: encodeCopy_def Let_def)
  have "decodeCopyFields delta (pos + 1) (u8 (hd ?e)) = Inr (off, n, pos + 1 + length (tl ?e))"
    using nd by (intro decodeCopyFields_encode [OF v(1-3)]) simp_all
  then have dec: "decodeCopyFields delta (Suc pos) (u8 (hd ?e)) = Inr (off, n, pos + length ?e)"
    unfolding len by simp
  have "js_and (u8 (delta ! pos)) 128 \<noteq> 0"
    using encodeCopy_cmd [OF v(1,4)] nd by simp
  then show ?thesis
    using nd Copy by (simp add: parseLoop.simps [of delta pos] dec)
next
  case (Insert d)
  then have v: "0 < length d" "length d \<le> 127" using assms(1) by (simp_all add: MAX_INSERT_BYTES_def)
  let ?n = "int (length d)"
  have dd: "drop pos delta = toByte ?n # d @ post" using assms(2) Insert by (simp add: encodeInsert_eq)
  note nd = nth_of_drop [OF dd]
  have u: "u8 (toByte ?n) = ?n" using v by simp
  have "js_and ?n 128 = 0" using v by (simp add: js_and_128)
  moreover have "subarray delta (pos + 1) (pos + 1 + length d) = d"
    using nd by (simp add: subarray_def)
  moreover have "pos + 1 + length d \<le> length delta"
  proof -
    have "length (drop (pos + 1) delta) = length d + length post" using nd by simp
    then show ?thesis using nd by auto
  qed
  ultimately show ?thesis
    using nd v u Insert by (simp add: parseLoop.simps [of delta pos] Let_def encodeInsert_eq)
qed

lemma parseLoop_instructions:
  assumes "list_all validInstruction is" "drop pos delta = concat (map instructionBytes is)"
    "pos \<le> length delta"
  shows "parseLoop delta pos = Inr is"
  using assms
proof (induction "is" arbitrary: pos)
  case Nil
  then show ?case by (simp add: parseLoop.simps [of delta pos])
next
  case (Cons i "is")
  have d: "drop pos delta = instructionBytes i @ concat (map instructionBytes is)"
    using Cons.prems by simp
  then have "drop (pos + length (instructionBytes i)) delta = concat (map instructionBytes is)"
    by (metis append_eq_conv_conj drop_drop add.commute)
  moreover have "pos + length (instructionBytes i) \<le> length delta"
    using d Cons.prems(3) by (metis length_append length_drop le_add1 nat_add_left_cancel_le le_add_diff_inverse)
  ultimately show ?case
    using Cons parseLoop_instruction [OF _ d] by simp
qed

definition deltaBytes :: "bytes \<Rightarrow> bytes \<Rightarrow> deltaInstruction list \<Rightarrow> bytes" where
  "deltaBytes s t is = s @ t @ concat (map instructionBytes is)"

lemma parseDelta_deltaBytes:
  assumes "encodeDeltaVarInt src = Inr s" "encodeDeltaVarInt tgt = Inr t"
    "src < 4294967296" "tgt < 4294967296" "list_all validInstruction is"
  shows "parseDelta (deltaBytes s t is) =
    Inr \<lparr>sourceLength = src, targetLength = tgt, instructions = is\<rparr>"
proof -
  let ?d = "deltaBytes s t is"
  have 1: "readVariableLengthInt ?d 0 = Inr (src, length s)"
    using readVariableLengthInt_encode [OF assms(1) _ assms(3), where pos = 0 and bs = ?d]
    by (simp add: deltaBytes_def)
  have 2: "readVariableLengthInt ?d (length s) = Inr (tgt, length s + length t)"
    by (rule readVariableLengthInt_encode [OF assms(2) _ assms(4),
          where post = "concat (map instructionBytes is)"]) (simp add: deltaBytes_def)
  have 3: "parseLoop ?d (length s + length t) = Inr is"
    by (rule parseLoop_instructions [OF assms(5)]) (simp_all add: deltaBytes_def)
  show ?thesis by (simp add: parseDelta_def 1 2 3)
qed

lemma serializeDelta_iff:
  "serializeDelta src tgt is = Inr d \<longleftrightarrow>
    (\<exists>s t. encodeDeltaVarInt src = Inr s \<and> encodeDeltaVarInt tgt = Inr t \<and>
      list_all validInstruction is \<and> d = deltaBytes s t is)"
  by (auto simp: serializeDelta_def bindE_Inr_iff mapE_encode_iff Let_def foldl_length_sum
      deltaBytes_def assembleParts_concat)

end
