(* ===== verification/DeltaScan.thy ===== *)
theory DeltaScan
  imports DeltaCodec
begin

text \<open>
  The match scan of \<open>storage/delta-encode.ts\<close>: the block index only holds block numbers of the
  base, a match found through it copies equal bytes, and the emitted stream is a delta of the
  target that \<open>applyDelta\<close> turns back into it.
\<close>

section \<open>Matches copy equal bytes\<close>

lemma matchForwardLoop_spec:
  assumes "len \<le> maxLen" "\<And>i. i < len \<Longrightarrow> b ! (bo + i) = t ! (tp + i)"
  shows "matchForwardLoop b t bo tp maxLen len \<le> maxLen"
    and "i < matchForwardLoop b t bo tp maxLen len \<Longrightarrow> b ! (bo + i) = t ! (tp + i)"
proof -
  have "matchForwardLoop b t bo tp maxLen len \<le> maxLen \<and>
      (\<forall>i < matchForwardLoop b t bo tp maxLen len. b ! (bo + i) = t ! (tp + i))"
    using assms
  proof (induction b t bo tp maxLen len rule: matchForwardLoop.induct)
    case (1 b t bo tp maxLen len)
    show ?case
    proof (cases "len < maxLen \<and> b ! (bo + len) = t ! (tp + len)")
      case True
      then have "\<And>i. i < len + 1 \<Longrightarrow> b ! (bo + i) = t ! (tp + i)"
        using "1.prems"(2) less_Suc_eq by auto
      with "1.IH" [OF True] True show ?thesis
        by (simp add: matchForwardLoop.simps [of b t bo tp maxLen len])
    next
      case False
      have "matchForwardLoop b t bo tp maxLen len = len"
        by (subst matchForwardLoop.simps) (rule if_not_P [OF False])
      then show ?thesis using "1.prems" by simp
    qed
  qed
  then show "matchForwardLoop b t bo tp maxLen len \<le> maxLen"
    and "i < matchForwardLoop b t bo tp maxLen len \<Longrightarrow> b ! (bo + i) = t ! (tp + i)" by auto
qed

lemma matchBackwardLoop_spec:
  assumes "\<And>i. i < len \<Longrightarrow> b ! (bo - i - 1) = t ! (tp - i - 1)"
  shows "\<forall>i < matchBackwardLoop b t bo tp cap len. b ! (bo - i - 1) = t ! (tp - i - 1)"
  using assms
proof (induction b t bo tp cap len rule: matchBackwardLoop.induct)
  case (1 b t bo tp cap len)
  show ?case
  proof (cases "len < cap \<and> b ! (bo - len - 1) = t ! (tp - len - 1)")
    case True
    then have "\<And>i. i < len + 1 \<Longrightarrow> b ! (bo - i - 1) = t ! (tp - i - 1)"
      using "1.prems" less_Suc_eq by auto
    with "1.IH" [OF True] True show ?thesis
      by (simp add: matchBackwardLoop.simps [of b t bo tp cap len])
  next
    case False
    have "matchBackwardLoop b t bo tp cap len = len"
      by (subst matchBackwardLoop.simps) (rule if_not_P [OF False])
    then show ?thesis using "1.prems" by simp
  qed
qed

definition goodMatch :: "bytes \<Rightarrow> bytes \<Rightarrow> nat \<Rightarrow> delta_match \<Rightarrow> bool" where
  "goodMatch b t lit m \<longleftrightarrow>
     lit \<le> targetStart m \<and> targetStart m + matchLength m \<le> length t \<and>
     baseOffset m + matchLength m \<le> length b \<and> matchLength m \<le> MAX_COPY_BYTES \<and>
     subarray b (baseOffset m) (baseOffset m + matchLength m)
       = subarray t (targetStart m) (targetStart m + matchLength m)"

lemma evaluateCandidate_good:
  assumes "bo \<le> length (base index)" "lit \<le> pos" "pos \<le> length target"
  shows "goodMatch (base index) target lit (evaluateCandidate index target bo pos lit)"
proof -
  let ?b = "base index"
  define fwd where "fwd = matchForward ?b target bo pos"
  define cap where "cap = min bo (min (pos - lit) (MAX_COPY_BYTES - fwd))"
  define bwd where "bwd = matchBackward ?b target bo pos cap"
  have f: "fwd \<le> MAX_COPY_BYTES" "fwd \<le> length ?b - bo" "fwd \<le> length target - pos"
    using matchForwardLoop_spec(1) [of 0 "min MAX_COPY_BYTES (min (length ?b - bo) (length target - pos))"
        ?b bo target pos]
    by (simp_all add: fwd_def matchForward_def)
  have fe: "?b ! (bo + i) = target ! (pos + i)" if "i < fwd" for i
    using that matchForwardLoop_spec(2) [of 0 _ ?b bo target pos i]
    by (simp add: fwd_def matchForward_def)
  have "bwd \<le> cap" by (simp add: bwd_def matchBackward_le)
  then have w: "bwd \<le> bo" "bwd \<le> pos - lit" "bwd \<le> MAX_COPY_BYTES - fwd"
    by (simp_all add: cap_def)
  have be: "?b ! (bo - i - 1) = target ! (pos - i - 1)" if "i < bwd" for i
    using that matchBackwardLoop_spec [of 0 ?b bo target pos cap]
    by (simp add: bwd_def matchBackward_def)
  have "subarray ?b (bo - bwd) (bo - bwd + (fwd + bwd))
      = subarray target (pos - bwd) (pos - bwd + (fwd + bwd))"
  proof (rule nth_equalityI)
    show "length (subarray ?b (bo - bwd) (bo - bwd + (fwd + bwd)))
        = length (subarray target (pos - bwd) (pos - bwd + (fwd + bwd)))"
      using f w assms by simp
  next
    fix i
    assume "i < length (subarray ?b (bo - bwd) (bo - bwd + (fwd + bwd)))"
    then have i: "i < fwd + bwd" by simp
    have "?b ! (bo - bwd + i) = target ! (pos - bwd + i)"
    proof (cases "i < bwd")
      case True
      then show ?thesis using be [of "bwd - i - 1"] w assms by simp
    next
      case False
      then show ?thesis using fe [of "i - bwd"] i w assms by simp
    qed
    then show "subarray ?b (bo - bwd) (bo - bwd + (fwd + bwd)) ! i
        = subarray target (pos - bwd) (pos - bwd + (fwd + bwd)) ! i"
      using i f w assms by (simp add: nth_subarray)
  qed
  then show ?thesis
    using f w assms
    by (auto simp: goodMatch_def evaluateCandidate_def Let_def fwd_def [symmetric]
        cap_def [symmetric] bwd_def [symmetric])
qed

section \<open>The block index\<close>

definition blockOk :: "nat \<Rightarrow> int \<Rightarrow> bool" where
  "blockOk n e \<longleftrightarrow> e = END_OF_CHAIN \<or> (0 \<le> e \<and> nat e < n)"

definition indexOk :: "deltaIndex \<Rightarrow> bool" where
  "indexOk index \<longleftrightarrow>
     (let n = length (base index) div DELTA_BLOCK_BYTES in
      length (heads index) = mask index + 1 \<and> length (next_block index) = n \<and>
      mask index < 2 ^ 31 \<and>
      list_all (blockOk n) (heads index) \<and> list_all (blockOk n) (next_block index))"

lemma nextPowerLoop_bound: "0 < p \<Longrightarrow> p < 2 * v \<Longrightarrow> 0 < nextPowerLoop p v \<and> nextPowerLoop p v < 2 * v"
proof (induction p v rule: nextPowerLoop.induct)
  case (1 p v)
  then show ?case by (auto simp: nextPowerLoop.simps [of p v])
qed

lemma bucket_bound:
  assumes "0 \<le> h" "m < 2 ^ 31"
  shows "nat (js_and h (int m)) \<le> m"
proof -
  have "h AND int m \<le> int m" "0 \<le> h AND int m" by (simp_all add: AND_upper2)
  then have "js_and h (int m) \<le> int m" using assms by (simp add: js_and_def toInt32_nonneg)
  then show ?thesis by linarith
qed

lemma hashBlock_nonneg: "0 \<le> hashBlock bs off"
  by (simp add: hashBlock_def js_ushr_0)

lemma indexBlock_ok:
  assumes "length (fst tables) = m + 1" "length (snd tables) = n" "m < 2 ^ 31"
    "list_all (blockOk n) (fst tables)" "list_all (blockOk n) (snd tables)" "block < n"
  shows "length (fst (indexBlock b m tables block)) = m + 1"
    "length (snd (indexBlock b m tables block)) = n"
    "list_all (blockOk n) (fst (indexBlock b m tables block))"
    "list_all (blockOk n) (snd (indexBlock b m tables block))"
proof -
  define bucket where "bucket = nat (js_and (hashBlock b (block * DELTA_BLOCK_BYTES)) (int m))"
  have "bucket < length (fst tables)"
    using bucket_bound [OF hashBlock_nonneg assms(3)] assms(1) by (simp add: bucket_def le_imp_less_Suc)
  then have "blockOk n (fst tables ! bucket)" using assms(4) by (simp add: list_all_length)
  moreover have "blockOk n (int block)" using assms(6) by (simp add: blockOk_def)
  ultimately show "length (fst (indexBlock b m tables block)) = m + 1"
    "length (snd (indexBlock b m tables block)) = n"
    "list_all (blockOk n) (fst (indexBlock b m tables block))"
    "list_all (blockOk n) (snd (indexBlock b m tables block))"
    using assms
    by (auto simp: indexBlock_def Let_def bucket_def [symmetric] list_all_iff
        dest!: set_update_subset_insert [THEN subsetD])
qed

lemma indexBlocks_ok:
  assumes "length (fst tables) = m + 1" "length (snd tables) = n" "m < 2 ^ 31"
    "list_all (blockOk n) (fst tables)" "list_all (blockOk n) (snd tables)"
    "list_all (\<lambda>k. k < n) blocks"
  shows "length (fst (foldl (indexBlock b m) tables blocks)) = m + 1 \<and>
    length (snd (foldl (indexBlock b m) tables blocks)) = n \<and>
    list_all (blockOk n) (fst (foldl (indexBlock b m) tables blocks)) \<and>
    list_all (blockOk n) (snd (foldl (indexBlock b m) tables blocks))"
  using assms
proof (induction blocks arbitrary: tables)
  case (Cons k blocks)
  then show ?case
    using indexBlock_ok [of tables m n k b] by simp
qed simp

lemma createDeltaIndex_ok:
  assumes "length b < 4294967296"
  shows "indexOk (createDeltaIndex b)" "base (createDeltaIndex b) = b"
proof -
  let ?n = "length b div DELTA_BLOCK_BYTES"
  define m where "m = nextPowerOfTwo (max ?n 1) - 1"
  have "nextPowerOfTwo (max ?n 1) < 2 * max ?n 1"
    using nextPowerLoop_bound [of 1 "max ?n 1"] by (simp add: nextPowerOfTwo_def)
  then have m: "m < 2 ^ 31" using assms by (auto simp: m_def DELTA_BLOCK_BYTES_def max_def split: if_splits)
  have "list_all (\<lambda>k. k < ?n) [0 ..< ?n]" by (simp add: list_all_iff)
  then have "length (fst (foldl (indexBlock b m)
        (replicate (m + 1) END_OF_CHAIN, replicate ?n END_OF_CHAIN) [0 ..< ?n])) = m + 1 \<and>
      length (snd (foldl (indexBlock b m)
        (replicate (m + 1) END_OF_CHAIN, replicate ?n END_OF_CHAIN) [0 ..< ?n])) = ?n \<and>
      list_all (blockOk ?n) (fst (foldl (indexBlock b m)
        (replicate (m + 1) END_OF_CHAIN, replicate ?n END_OF_CHAIN) [0 ..< ?n])) \<and>
      list_all (blockOk ?n) (snd (foldl (indexBlock b m)
        (replicate (m + 1) END_OF_CHAIN, replicate ?n END_OF_CHAIN) [0 ..< ?n]))"
    using m by (intro indexBlocks_ok) (auto simp: list_all_iff blockOk_def)
  then show "indexOk (createDeltaIndex b)"
    unfolding indexOk_def createDeltaIndex_def Let_def m_def [symmetric] using m by simp
  show "base (createDeltaIndex b) = b" by (simp add: createDeltaIndex_def Let_def)
qed

lemma findBestMatch_good:
  assumes ok: "indexOk index" and "lit \<le> pos" "pos \<le> length target"
    and "findBestMatch index target pos lit = Some m"
  shows "goodMatch (base index) target lit m"
proof -
  let ?n = "length (base index) div DELTA_BLOCK_BYTES"
  define bucket where "bucket = nat (js_and (hashBlock target pos) (int (mask index)))"
  have "bucket < length (heads index)"
    using ok bucket_bound [OF hashBlock_nonneg, of "mask index" target pos]
    by (simp add: indexOk_def Let_def bucket_def le_imp_less_Suc)
  then have head: "blockOk ?n (heads index ! bucket)"
    using ok by (simp add: indexOk_def Let_def list_all_length)
  have nxt: "blockOk ?n (next_block index ! nat e)" if "blockOk ?n e" "e \<noteq> END_OF_CHAIN" for e
    using ok that by (auto simp: indexOk_def Let_def list_all_length blockOk_def)
  have cand: "goodMatch (base index) target lit
      (evaluateCandidate index target (nat e * DELTA_BLOCK_BYTES) pos lit)"
    if "blockOk ?n e" "e \<noteq> END_OF_CHAIN" for e
  proof (rule evaluateCandidate_good [OF _ assms(2,3)])
    have "nat e < ?n" using that by (auto simp: blockOk_def)
    then have "nat e * DELTA_BLOCK_BYTES \<le> ?n * DELTA_BLOCK_BYTES" by (intro mult_le_mono1) simp
    also have "\<dots> \<le> length (base index)" by simp
    finally show "nat e * DELTA_BLOCK_BYTES \<le> length (base index)" .
  qed
  show ?thesis
    by (rule findLoop_invariant [where P = "goodMatch (base index) target lit"
          and Q = "blockOk ?n", OF _ cand nxt head])
      (use assms(4) in \<open>auto simp: findBestMatch_def Let_def bucket_def\<close>)
qed

section \<open>The scan emits a delta of the target\<close>

text \<open>The state of the scan: what has been emitted is the header and the encoding of valid,
  in-bounds instructions that produce the target up to \<open>literalStart\<close>.\<close>

definition emits ::
    "bytes \<Rightarrow> bytes \<Rightarrow> bytes \<Rightarrow> emitter \<Rightarrow> nat \<Rightarrow> deltaInstruction list \<Rightarrow> bool" where
  "emits hdr b t st lit is \<longleftrightarrow>
     concat (parts st) = hdr @ concat (map instructionBytes is) \<and>
     emitted st = length (concat (parts st)) \<and>
     pred_option (\<lambda>m. emitted st \<le> m) (maxSize st) \<and>
     list_all validInstruction is \<and> list_all (instructionInBounds (length b)) is \<and>
     runInstructions b is = take lit t"

lemma emit_True:
  "emit st bs = (True, st') \<longleftrightarrow>
    pred_option (\<lambda>m. emitted st + length bs \<le> m) (maxSize st) \<and>
    st' = st\<lparr>emitted := emitted st + length bs, parts := parts st @ [bs]\<rparr>"
  by (cases "maxSize st") (auto simp: emit_def Let_def)

lemma take_subarray: "lit \<le> lit' \<Longrightarrow> take lit t @ subarray t lit lit' = take lit' t"
  by (simp add: subarray_def take_add [symmetric])

lemma emit_emits:
  assumes "emits hdr b t st lit is" "emit st (instructionBytes i) = (True, st')"
    "validInstruction i" "instructionInBounds (length b) i"
    "runInstruction b i = subarray t lit lit'" "lit \<le> lit'"
  shows "emits hdr b t st' lit' (is @ [i])" "maxSize st' = maxSize st"
  using assms by (auto simp: emits_def emit_True take_subarray)

lemma insert_instruction:
  assumes "lit < lit'" "lit' - lit \<le> MAX_INSERT_BYTES" "lit' \<le> length t"
  shows "validInstruction (Insert (subarray t lit lit'))"
  using assms by (simp add: MAX_INSERT_BYTES_def)

lemma flush_emits:
  assumes "emits hdr b t st lit is" "flushPendingLiteral st t lit lit' = (True, st')"
    "lit \<le> lit'" "lit' - lit \<le> MAX_INSERT_BYTES" "lit' \<le> length t"
  shows "\<exists>is'. emits hdr b t st' lit' is'" "maxSize st' = maxSize st"
proof -
  have "(\<exists>is'. emits hdr b t st' lit' is') \<and> maxSize st' = maxSize st"
  proof (cases "lit = lit'")
    case True
    then show ?thesis using assms by (auto simp: flushPendingLiteral_def)
  next
    case False
    let ?i = "Insert (subarray t lit lit')"
    have "emit st (instructionBytes ?i) = (True, st')"
      using assms(2) False by (simp add: flushPendingLiteral_def)
    moreover have "validInstruction ?i"
      using False assms(3-5) by (intro insert_instruction) auto
    ultimately show ?thesis
      using emit_emits [OF assms(1), of ?i st' lit'] assms(3) by auto
  qed
  then show "\<exists>is'. emits hdr b t st' lit' is'" "maxSize st' = maxSize st" by auto
qed

lemma match_emits:
  assumes "emits hdr b t st lit is" "emitMatch st t lit m = Some (st', pos', lit')"
    "goodMatch b t lit m" "0 < matchLength m" "targetStart m - lit \<le> MAX_INSERT_BYTES"
    "length b < 4294967296"
  shows "\<exists>is'. emits hdr b t st' lit' is'" "maxSize st' = maxSize st"
    "pos' = lit'" "lit' = targetStart m + matchLength m" "lit' \<le> length t"
proof -
  obtain st1 where fl: "flushPendingLiteral st t lit (targetStart m) = (True, st1)"
    and em: "emit st1 (encodeCopy (baseOffset m) (matchLength m)) = (True, st')"
    and cur: "pos' = targetStart m + matchLength m" "lit' = targetStart m + matchLength m"
    using assms(2) by (auto simp: emitMatch_def Let_def split: prod.splits if_splits)
  have gm: "lit \<le> targetStart m" "targetStart m + matchLength m \<le> length t"
    "baseOffset m + matchLength m \<le> length b" "matchLength m \<le> MAX_COPY_BYTES"
    "subarray b (baseOffset m) (baseOffset m + matchLength m) = subarray t (targetStart m) lit'"
    using assms(3) cur by (simp_all add: goodMatch_def)
  obtain is1 where "emits hdr b t st1 (targetStart m) is1" and ms: "maxSize st1 = maxSize st"
    using flush_emits [OF assms(1) fl gm(1) assms(5)] gm(2) by auto
  moreover have "validInstruction (Copy (baseOffset m) (matchLength m))"
    using gm assms(4,6) by simp
  ultimately show "\<exists>is'. emits hdr b t st' lit' is'" "maxSize st' = maxSize st"
    using emit_emits [of hdr b t st1 "targetStart m" is1 "Copy (baseOffset m) (matchLength m)" st' lit']
      em gm cur by auto
  show "pos' = lit'" "lit' = targetStart m + matchLength m" "lit' \<le> length t"
    using cur gm by simp_all
qed

text \<open>One step of the scan, and what it needs of the chosen match.\<close>

definition scanMatch :: "deltaIndex \<Rightarrow> bytes \<Rightarrow> nat \<Rightarrow> nat \<Rightarrow> delta_match option" where
  "scanMatch index target pos lit =
     (case (if DELTA_BLOCK_BYTES \<le> length target - pos
            then findBestMatch index target pos lit else None) of
        Some m \<Rightarrow> if DELTA_BLOCK_BYTES \<le> matchLength m then Some m else None
      | None \<Rightarrow> None)"

lemma encodeLoop_step:
  "encodeLoop index target st pos lit =
     (if pos < length target then
        (case scanMatch index target pos lit of
           Some m \<Rightarrow> (case emitMatch st target lit m of
               None \<Rightarrow> None
             | Some (st', pos', lit') \<Rightarrow> encodeLoop index target st' pos' lit')
         | None \<Rightarrow>
             if pos + 1 - lit < MAX_INSERT_BYTES then encodeLoop index target st (pos + 1) lit
             else (case emit st (encodeInsert (subarray target lit (pos + 1))) of
                 (ok, st') \<Rightarrow> if \<not> ok then None else encodeLoop index target st' (pos + 1) (pos + 1)))
      else Some (st, lit))"
  by (subst encodeLoop.simps)
    (simp add: scanMatch_def Let_def split: option.splits)

lemma scanMatch_good:
  assumes "indexOk index" "lit \<le> pos" "pos \<le> length target" "scanMatch index target pos lit = Some m"
  shows "goodMatch (base index) target lit m" "0 < matchLength m" "progresses pos lit m"
  using assms findBestMatch_good [OF assms(1-3)] findBestMatch_progresses [of index target pos lit]
  by (auto simp: scanMatch_def DELTA_BLOCK_BYTES_def split: option.splits if_splits)

lemma scanMatch_start:
  assumes "lit \<le> pos" "pos - lit < MAX_INSERT_BYTES" "scanMatch index target pos lit = Some m"
  shows "targetStart m - lit \<le> MAX_INSERT_BYTES"
proof -
  have le: "targetStart (evaluateCandidate index target bo pos lit) \<le> pos" for bo
    by (simp add: evaluateCandidate_def Let_def)
  have "findBestMatch index target pos lit = Some m"
    using assms(3) by (auto simp: scanMatch_def split: option.splits if_splits)
  then have "targetStart m \<le> pos"
    unfolding findBestMatch_def Let_def
    by (rule findLoop_invariant [where P = "\<lambda>m. targetStart m \<le> pos" and Q = "\<lambda>_. True", rotated 4])
      (use le in auto)
  then show ?thesis using assms(2) by linarith
qed

lemma scan_induct [case_names step]:
  fixes n :: nat
  assumes "\<And>st pos lit. (\<And>st' pos' lit'. pos < n \<Longrightarrow>
      pos < pos' \<or> pos' = pos \<and> pos' - lit' < pos - lit \<Longrightarrow> P st' pos' lit') \<Longrightarrow> P st pos lit"
  shows "P (st :: 'a) pos (lit :: nat)"
proof -
  have "n - pos = e \<Longrightarrow> pos - lit = d \<Longrightarrow> P st pos lit" for e d st pos lit
  proof (induction e arbitrary: d st pos lit rule: less_induct)
    case outer: (less e)
    show ?case using outer.prems
    proof (induction d arbitrary: st lit rule: less_induct)
      case inner: (less d)
      show ?case
      proof (rule assms)
        fix st' pos' lit'
        assume lt: "pos < n" and step: "pos < pos' \<or> pos' = pos \<and> pos' - lit' < pos - lit"
        show "P st' pos' lit'"
        proof (cases "pos < pos'")
          case True
          with lt inner.prems have "n - pos' < e" by simp
          then show ?thesis by (rule outer.IH [OF _ refl refl])
        next
          case False
          with step have eq: "pos' = pos" and "pos - lit' < d" using inner.prems by auto
          then show ?thesis unfolding eq by (intro inner.IH [OF _ inner.prems(1) refl])
        qed
      qed
    qed
  qed
  then show ?thesis by blast
qed

lemma encodeLoop_emits:
  assumes ok: "indexOk index" "base index = b" "length b < 4294967296"
  shows "encodeLoop index t st pos lit = Some (st', lit') \<Longrightarrow> \<exists>is. emits hdr b t st lit is \<Longrightarrow>
    lit \<le> pos \<Longrightarrow> pos \<le> length t \<Longrightarrow> pos - lit < MAX_INSERT_BYTES \<Longrightarrow>
    (\<exists>is. emits hdr b t st' lit' is) \<and> lit' \<le> length t \<and> length t - lit' < MAX_INSERT_BYTES \<and>
    maxSize st' = maxSize st"
proof (induction st pos lit rule: scan_induct [where n = "length t"])
  case (step st pos lit)
  obtain "is" where em: "emits hdr b t st lit is" using step.prems(2) by blast
  show ?case
  proof (cases "pos < length t")
    case False
    then have "encodeLoop index t st pos lit = Some (st, lit)"
      by (subst encodeLoop_step) simp
    then show ?thesis using step.prems False by auto
  next
    case lt: True
    show ?thesis
    proof (cases "scanMatch index t pos lit")
      case (Some m)
      obtain st1 pos1 lit1 where em1: "emitMatch st t lit m = Some (st1, pos1, lit1)"
        and rest: "encodeLoop index t st1 pos1 lit1 = Some (st', lit')"
        using step.prems(1) lt Some
        by (auto simp: encodeLoop_step [of index t st pos lit] split: option.splits)
      note g = scanMatch_good [OF ok(1) step.prems(3,4) Some, unfolded ok(2)]
      note me = match_emits [OF em em1 g(1,2) scanMatch_start [OF step.prems(3,5) Some] ok(3)]
      have "pos < pos1 \<or> pos1 = pos \<and> pos1 - lit1 < pos - lit"
        using g me by (auto simp: progresses_def)
      then have "(\<exists>is. emits hdr b t st' lit' is) \<and> lit' \<le> length t \<and>
          length t - lit' < MAX_INSERT_BYTES \<and> maxSize st' = maxSize st1"
        by (rule step.IH [OF lt _ rest me(1)]) (use me in \<open>simp_all add: MAX_INSERT_BYTES_def\<close>)
      then show ?thesis using me(2) by simp
    next
      case None
      show ?thesis
      proof (cases "pos + 1 - lit < MAX_INSERT_BYTES")
        case True
        then have rest: "encodeLoop index t st (pos + 1) lit = Some (st', lit')"
          using step.prems(1) lt None by (simp add: encodeLoop_step [of index t st pos lit])
        show ?thesis
          by (rule step.IH [OF lt disjI1 rest step.prems(2)]) (use step.prems lt True in simp_all)
      next
        case False
        let ?i = "Insert (subarray t lit (pos + 1))"
        obtain st1 where e1: "emit st (instructionBytes ?i) = (True, st1)"
          and rest: "encodeLoop index t st1 (pos + 1) (pos + 1) = Some (st', lit')"
          using step.prems(1) lt None False
          by (auto simp: encodeLoop_step [of index t st pos lit] split: prod.splits if_splits)
        have "validInstruction ?i"
          using step.prems(3,5) lt by (intro insert_instruction) auto
        then have e2: "\<exists>is. emits hdr b t st1 (pos + 1) is" "maxSize st1 = maxSize st"
          using emit_emits [OF em e1, of "pos + 1"] step.prems(3) by auto
        have "(\<exists>is. emits hdr b t st' lit' is) \<and> lit' \<le> length t \<and>
            length t - lit' < MAX_INSERT_BYTES \<and> maxSize st' = maxSize st1"
          by (rule step.IH [OF lt disjI1 rest e2(1)])
            (use lt in \<open>simp_all add: MAX_INSERT_BYTES_def\<close>)
        then show ?thesis using e2(2) by simp
      qed
    qed
  qed
qed

text \<open>Without a size budget nothing is refused and the scan always completes.\<close>

lemma emit_unbounded:
  "maxSize st = None \<Longrightarrow> \<exists>st'. emit st bs = (True, st') \<and> maxSize st' = None"
  by (auto simp: emit_True)

lemma flush_unbounded:
  "maxSize st = None \<Longrightarrow> \<exists>st'. flushPendingLiteral st t lit stop = (True, st') \<and> maxSize st' = None"
  by (auto simp: flushPendingLiteral_def emit_unbounded)

lemma emitMatch_unbounded:
  assumes "maxSize st = None"
  shows "\<exists>st' pos lit'. emitMatch st t lit m = Some (st', pos, lit') \<and> maxSize st' = None"
proof -
  obtain st1 where 1: "flushPendingLiteral st t lit (targetStart m) = (True, st1)" "maxSize st1 = None"
    using flush_unbounded [OF assms] by blast
  obtain st2 where "emit st1 (encodeCopy (baseOffset m) (matchLength m)) = (True, st2)" "maxSize st2 = None"
    using emit_unbounded [OF 1(2)] by blast
  with 1 show ?thesis by (simp add: emitMatch_def Let_def)
qed

lemma encodeLoop_unbounded:
  "maxSize st = None \<Longrightarrow> \<exists>st' lit'. encodeLoop index t st pos lit = Some (st', lit') \<and> maxSize st' = None"
proof (induction st pos lit rule: scan_induct [where n = "length t"])
  case (step st pos lit)
  show ?case
  proof (cases "pos < length t")
    case False
    then show ?thesis using step.prems by (simp add: encodeLoop_step [of index t st pos lit])
  next
    case lt: True
    show ?thesis
    proof (cases "scanMatch index t pos lit")
      case (Some m)
      obtain st1 pos1 lit1 where em: "emitMatch st t lit m = Some (st1, pos1, lit1)" "maxSize st1 = None"
        using emitMatch_unbounded [OF step.prems] by blast
      have "findBestMatch index t pos lit = Some m" "DELTA_BLOCK_BYTES \<le> matchLength m"
        using Some by (auto simp: scanMatch_def split: option.splits if_splits)
      then have "progresses pos lit m" "0 < matchLength m"
        by (auto intro: findBestMatch_progresses simp: DELTA_BLOCK_BYTES_def)
      then have "pos < pos1 \<or> pos1 = pos \<and> pos1 - lit1 < pos - lit"
        using emitMatch_cursor [OF em(1)] by (auto simp: progresses_def)
      from step.IH [OF lt this em(2)] show ?thesis
        using em(1) Some lt by (simp add: encodeLoop_step [of index t st pos lit])
    next
      case None
      show ?thesis
      proof (cases "pos + 1 - lit < MAX_INSERT_BYTES")
        case True
        have "\<exists>st' lit'. encodeLoop index t st (pos + 1) lit = Some (st', lit') \<and> maxSize st' = None"
          by (rule step.IH [OF lt disjI1 step.prems]) simp
        then show ?thesis using None lt True by (simp add: encodeLoop_step [of index t st pos lit])
      next
        case False
        obtain st1 where e: "emit st (encodeInsert (subarray t lit (pos + 1))) = (True, st1)"
          "maxSize st1 = None"
          using emit_unbounded [OF step.prems] by blast
        have "\<exists>st' lit'. encodeLoop index t st1 (pos + 1) (pos + 1) = Some (st', lit') \<and> maxSize st' = None"
          by (rule step.IH [OF lt disjI1 e(2)]) simp
        then show ?thesis using None lt False e by (simp add: encodeLoop_step [of index t st pos lit])
      qed
    qed
  qed
qed

lemma encodeVarLoop_ok: "v < 128 ^ k \<Longrightarrow> 0 < k \<Longrightarrow> \<exists>bs. encodeVarLoop k v = Inr bs"
proof (induction k arbitrary: v)
  case (Suc k)
  show ?case
  proof (cases "v div 128 = 0")
    case False
    then have "0 < k" using Suc.prems by (cases k) auto
    moreover have "v div 128 < 128 ^ k" using Suc.prems by (simp add: less_mult_imp_div_less mult.commute)
    ultimately obtain bs where "encodeVarLoop k (v div 128) = Inr bs" using Suc.IH by blast
    then show ?thesis by (simp add: Let_def)
  qed (simp add: Let_def)
qed simp

lemma encodeDeltaVarInt_ok: "v < 4294967296 \<Longrightarrow> \<exists>bs. encodeDeltaVarInt v = Inr bs"
  by (simp add: encodeDeltaVarInt_def MAX_VARINT_BYTES_def encodeVarLoop_ok)

lemma emitHeader_emits:
  assumes "emitHeader \<lparr>parts = [], maxSize = mx, emitted = 0\<rparr> (length b) (length t) = Inr (True, st)"
  obtains s u where "encodeDeltaVarInt (length b) = Inr s" "encodeDeltaVarInt (length t) = Inr u"
    "emits (s @ u) b t st 0 []" "maxSize st = mx"
proof -
  obtain s where s: "encodeDeltaVarInt (length b) = Inr s"
    using assms by (auto simp: emitHeader_def bindE_Inr_iff)
  obtain st1 where st1: "emit \<lparr>parts = [], maxSize = mx, emitted = 0\<rparr> s = (True, st1)"
    using assms s by (auto simp: emitHeader_def split: prod.splits if_splits)
  obtain u where u: "encodeDeltaVarInt (length t) = Inr u" and "emit st1 u = (True, st)"
    using assms s st1 by (auto simp: emitHeader_def bindE_Inr_iff)
  then have "emits (s @ u) b t st 0 []" "maxSize st = mx"
    using st1 by (auto simp: emits_def emit_True)
  with s u show thesis by (rule that)
qed

lemma encodeDelta_shape:
  assumes "length b < 4294967296" "encodeDelta b t mx = Inr (Some d)"
  obtains s u "is" where "encodeDeltaVarInt (length b) = Inr s" "encodeDeltaVarInt (length t) = Inr u"
    "d = deltaBytes s u is" "list_all validInstruction is"
    "list_all (instructionInBounds (length b)) is" "runInstructions b is = t"
    "pred_option (\<lambda>m. length d \<le> m) mx"
proof -
  let ?index = "createDeltaIndex b"
  note ok = createDeltaIndex_ok [OF assms(1)]
  obtain st1 st2 lit st3
    where hd: "emitHeader \<lparr>parts = [], maxSize = mx, emitted = 0\<rparr> (length b) (length t) = Inr (True, st1)"
      and lp: "encodeLoop ?index t st1 0 0 = Some (st2, lit)"
      and fl: "flushPendingLiteral st2 t lit (length t) = (True, st3)"
      and d: "d = assembleParts (parts st3) (emitted st3)"
    using assms(2)
    by (auto simp: encodeDelta_def encodeDeltaFromIndex_def Let_def bindE_Inr_iff ok(2)
        split: option.splits prod.splits if_splits)
  obtain s u where su: "encodeDeltaVarInt (length b) = Inr s" "encodeDeltaVarInt (length t) = Inr u"
    and e1: "emits (s @ u) b t st1 0 []" and mx: "maxSize st1 = mx"
    using emitHeader_emits [OF hd] by blast
  have e2: "(\<exists>is. emits (s @ u) b t st2 lit is) \<and> lit \<le> length t \<and>
      length t - lit < MAX_INSERT_BYTES \<and> maxSize st2 = maxSize st1"
    using encodeLoop_emits [OF ok assms(1) lp, of "s @ u"] e1 by (auto simp: MAX_INSERT_BYTES_def)
  then obtain is2 where is2: "emits (s @ u) b t st2 lit is2" by blast
  obtain "is" where e3: "emits (s @ u) b t st3 (length t) is" and m3: "maxSize st3 = mx"
    using flush_emits [OF is2 fl] e2 mx by auto
  have "d = concat (parts st3)"
    unfolding d using e3 by (intro assembleParts_concat) (simp add: emits_def)
  then have "d = deltaBytes s u is" "length d = emitted st3"
    using e3 by (simp_all add: emits_def deltaBytes_def)
  then show thesis
    using e3 m3 su by (intro that [of s u "is"]) (auto simp: emits_def)
qed

section \<open>Applying an encoded delta gives back the target\<close>

lemma applyDelta_encodeDelta:
  assumes "length b < 4294967296" "length t \<le> MAX_TARGET_LENGTH" "encodeDelta b t mx = Inr (Some d)"
  shows "applyDelta b d = Inr t"
proof -
  obtain s u "is" where e: "encodeDeltaVarInt (length b) = Inr s" "encodeDeltaVarInt (length t) = Inr u"
    "d = deltaBytes s u is" "list_all validInstruction is"
    "list_all (instructionInBounds (length b)) is" "runInstructions b is = t"
    using encodeDelta_shape [OF assms(1,3)] by metis
  have "length t < 4294967296" using assms(2) by (simp add: MAX_TARGET_LENGTH_def)
  from parseDelta_deltaBytes [OF e(1,2) assms(1) this e(4)]
  have "parseDelta d = Inr \<lparr>sourceLength = length b, targetLength = length t, instructions = is\<rparr>"
    using e(3) by simp
  then show ?thesis
    unfolding applyDelta_iff_parse using e assms(2) by simp
qed

lemma encodeDelta_within_budget:
  assumes "length b < 4294967296" "encodeDelta b t (Some m) = Inr (Some d)"
  shows "length d \<le> m"
  using encodeDelta_shape [OF assms] by (metis option.pred_inject(2))

lemma encodeDelta_unbounded_ok:
  assumes "length b < 4294967296" "length t < 4294967296"
  shows "\<exists>d. encodeDelta b t None = Inr (Some d)"
proof -
  let ?index = "createDeltaIndex b" and ?st = "\<lparr>parts = [], maxSize = None, emitted = 0\<rparr>"
  obtain s u where su: "encodeDeltaVarInt (length b) = Inr s" "encodeDeltaVarInt (length t) = Inr u"
    using encodeDeltaVarInt_ok [OF assms(1)] encodeDeltaVarInt_ok [OF assms(2)] by blast
  obtain st0 where st0: "emit ?st s = (True, st0)" "maxSize st0 = None"
    using emit_unbounded [of ?st s] by auto
  obtain st1 where st1: "emit st0 u = (True, st1)" "maxSize st1 = None"
    using emit_unbounded [OF st0(2)] by blast
  obtain st2 lit where st2: "encodeLoop ?index t st1 0 0 = Some (st2, lit)" "maxSize st2 = None"
    using encodeLoop_unbounded [OF st1(2)] by blast
  obtain st3 where "flushPendingLiteral st2 t lit (length t) = (True, st3)"
    using flush_unbounded [OF st2(2)] by blast
  then show ?thesis
    using su st0 st1 st2 createDeltaIndex_ok(2) [OF assms(1)]
    by (simp add: encodeDelta_def encodeDeltaFromIndex_def emitHeader_def)
qed

end
