(* ===== verification/Codec.thy ===== *)
theory Codec
  imports Errors
begin

text \<open>
  The contract of a self-delimiting encoding: its decoder, placed at the start of an encoded value
  anywhere in a buffer, returns the value and the position just behind it. The variable-length
  integers of deltas, the size field and the base distance of pack entries are instances.
\<close>

locale prefix_codec =
  fixes valid :: "'a \<Rightarrow> bool"
    and enc :: "'a \<Rightarrow> bytes"
    and dec :: "bytes \<Rightarrow> nat \<Rightarrow> tsgit_error + ('a \<times> nat)"
  assumes dec_enc:
    "valid x \<Longrightarrow> dec (pre @ enc x @ post) (length pre) = Inr (x, length pre + length (enc x))"
begin

lemma dec_at:
  assumes "valid x" "drop pos bs = enc x @ post" "pos \<le> length bs"
  shows "dec bs pos = Inr (x, pos + length (enc x))"
proof -
  have "bs = take pos bs @ enc x @ post" using assms(2) by (metis append_take_drop_id)
  moreover have "length (take pos bs) = pos" using assms(3) by simp
  ultimately show ?thesis using dec_enc [OF assms(1), of "take pos bs" post] by simp
qed

lemma prefix_free:
  assumes "valid x" "valid y" "enc x @ r = enc y @ s"
  shows "x = y \<and> r = s"
proof -
  have "dec (enc x @ r) 0 = Inr (x, length (enc x))" "dec (enc y @ s) 0 = Inr (y, length (enc y))"
    using dec_enc [OF assms(1), of "[]" r] dec_enc [OF assms(2), of "[]" s] by simp_all
  then have "x = y" using assms(3) by simp
  then show ?thesis using assms(3) by simp
qed

text \<open>A row of encoded values, read one after the other.\<close>

fun decMany :: "bytes \<Rightarrow> nat \<Rightarrow> nat \<Rightarrow> tsgit_error + ('a list \<times> nat)" where
  "decMany bs pos 0 = Inr ([], pos)"
| "decMany bs pos (Suc n) =
     bindE (dec bs pos) (\<lambda>(x, pos'). bindE (decMany bs pos' n) (\<lambda>(xs, e). Inr (x # xs, e)))"

lemma decMany_concat:
  "list_all valid xs \<Longrightarrow> drop pos bs = concat (map enc xs) @ post \<Longrightarrow> pos \<le> length bs \<Longrightarrow>
    decMany bs pos (length xs) = Inr (xs, pos + length (concat (map enc xs)))"
proof (induction xs arbitrary: pos)
  case (Cons x xs)
  have d: "drop pos bs = enc x @ (concat (map enc xs) @ post)" using Cons.prems(2) by simp
  have "length (drop pos bs) = length (enc x) + length (concat (map enc xs) @ post)" using d by simp
  then have le: "pos + length (enc x) \<le> length bs" using Cons.prems(3) by simp
  have "drop (pos + length (enc x)) bs = concat (map enc xs) @ post"
    using d by (metis add.commute append_eq_conv_conj drop_drop)
  then have "decMany bs (pos + length (enc x)) (length xs)
      = Inr (xs, pos + length (enc x) + length (concat (map enc xs)))"
    using Cons.prems(1) le by (intro Cons.IH) simp_all
  then show ?case using dec_at [OF _ d Cons.prems(3)] Cons.prems(1) by simp
qed simp

end

end
