(* ===== verification/DeltaProps.thy ===== *)
theory DeltaProps
  imports DeltaScan Codec
begin

text \<open>
  What the delta component promises to the pack code: the header integers are a self-delimiting code,
  an instruction list survives serialisation, \<open>applyDelta\<close> runs exactly the instructions that
  \<open>parseDelta\<close> reads, and applying what \<open>encodeDelta\<close> wrote gives back the target.
\<close>

definition varIntBytes :: "nat \<Rightarrow> bytes" where
  "varIntBytes v = (case encodeDeltaVarInt v of Inr enc \<Rightarrow> enc | Inl _ \<Rightarrow> [])"

interpretation delta_varint: prefix_codec "\<lambda>v. v < 4294967296" varIntBytes readVariableLengthInt
proof unfold_locales
  fix x :: nat and pre post :: bytes
  assume x: "x < 4294967296"
  then obtain enc where enc: "encodeDeltaVarInt x = Inr enc" using encodeDeltaVarInt_ok by blast
  then show "readVariableLengthInt (pre @ varIntBytes x @ post) (length pre) = Inr (x, length pre + length (varIntBytes x))"
    using readVariableLengthInt_encode [OF enc, of "length pre" "pre @ enc @ post" post] x by (simp add: varIntBytes_def)
qed

section \<open>Properties\<close>

text \<open>C1: Applying an encoded delta gives back the target, whatever base, target and size budget: for a base
  below \<open>2^32\<close> bytes and a target within the decoder's cap, a delta that \<open>encodeDelta\<close> produces under a
  budget fits that budget and \<open>applyDelta\<close> rebuilds the target from it byte for byte.\<close>

theorem delta_apply_encode:
  assumes "length bs < 4294967296" "length target \<le> MAX_TARGET_LENGTH" "encodeDelta bs target budget = Inr (Some d)"
  shows "applyDelta bs d = Inr target \<and> (\<forall>m. budget = Some m \<longrightarrow> length d \<le> m)"
  using applyDelta_encodeDelta [OF assms] encodeDelta_within_budget [of bs target _ d] assms by auto

theorem delta_apply_encode_witness:
  "applyDelta [7, 8, 9] [3, 4, 4, 7, 8, 9, 1] = Inr [7, 8, 9, 1] \<and> length [3, 4, 4, 7, 8, 9, 1::byte] \<le> 20"
proof -
  have "encodeDelta [7, 8, 9] [7, 8, 9, 1] (Some 20) = Inr (Some [3, 4, 4, 7, 8, 9, 1])" by code_simp
  then show ?thesis
    using delta_apply_encode [of "[7, 8, 9]" "[7, 8, 9, 1]" "Some 20" "[3, 4, 4, 7, 8, 9, 1]"]
    by (simp add: MAX_TARGET_LENGTH_def)
qed

text \<open>C38: Without a budget the encoder always answers: for every base and target below \<open>2^32\<close> bytes the scan
  terminates, the header varints fit, no instruction is refused and a delta comes out.\<close>

theorem encodeDelta_total:
  assumes "length bs < 4294967296" "length target < 4294967296"
  shows "\<exists>d. encodeDelta bs target None = Inr (Some d)"
  by (rule encodeDelta_unbounded_ok [OF assms])

theorem encodeDelta_total_witness: "\<exists>d. encodeDelta [1, 2, 3] [] None = Inr (Some d)"
  by (rule encodeDelta_total) simp_all

text \<open>C35: The one-pass decoder is the instruction interpreter: \<open>applyDelta\<close> succeeds with \<open>r\<close> exactly when
  \<open>parseDelta\<close> accepts the delta, the declared source length is the base's, the declared target length is
  within the cap, every copy lies inside the base, and running the instructions in order yields \<open>r\<close> at the
  declared length. Every other delta is refused, so no read leaves the base and no write leaves the result.\<close>

theorem applyDelta_refines_instructions:
  "applyDelta bs delta = Inr r \<longleftrightarrow>
     (\<exists>p. parseDelta delta = Inr p \<and> sourceLength p = length bs \<and> targetLength p \<le> MAX_TARGET_LENGTH \<and>
        list_all (instructionInBounds (length bs)) (instructions p) \<and>
        r = runInstructions bs (instructions p) \<and> length r = targetLength p)"
  by (rule applyDelta_iff_parse)

text \<open>An instruction list survives serialisation: whatever \<open>serializeDelta\<close> accepts with lengths below
  \<open>2^32\<close>, \<open>parseDelta\<close> reads back as the same lengths and the same instructions.\<close>

theorem delta_parse_serialize:
  assumes "serializeDelta src tgt is = Inr d" "src < 4294967296" "tgt < 4294967296"
  shows "parseDelta d = Inr \<lparr>sourceLength = src, targetLength = tgt, instructions = is\<rparr>"
  using assms parseDelta_deltaBytes unfolding serializeDelta_iff by blast

theorem delta_parse_serialize_witness:
  "parseDelta [5, 131, 2, 144, 2, 1, 9]
    = Inr \<lparr>sourceLength = 5, targetLength = 259, instructions = [Copy 0 2, Insert [9]]\<rparr>"
proof (rule delta_parse_serialize)
  have five: "MAX_VARINT_BYTES = Suc (Suc (Suc (Suc (Suc 0))))" by (simp add: MAX_VARINT_BYTES_def)
  have copy: "encodeCopy 0 2 = [144, 2]" by code_simp
  show "serializeDelta 5 259 [Copy 0 2, Insert [9]] = Inr [5, 131, 2, 144, 2, 1, 9]"
    by (simp add: serializeDelta_def encodeDeltaVarInt_def five toByte_def js_or_def toInt32_nonneg copy
        assertValidCopy_def assertValidInsert_def MAX_COPY_BYTES_def MAX_INSERT_BYTES_def encodeInsert_def blit_def
        assembleParts_def)
qed simp_all

text \<open>The header integers are a prefix code: two lengths below \<open>2^32\<close> whose encodings, followed by
  anything, form the same bytes are equal, and so is what follows.\<close>

theorem varInt_prefix_free:
  assumes "v < 4294967296" "w < 4294967296" "varIntBytes v @ r = varIntBytes w @ s"
  shows "v = w \<and> r = s"
  using delta_varint.prefix_free [OF assms] .

theorem varInt_prefix_free_witness: "(300::nat) = 300 \<and> [1::byte] = [1]"
  by (rule varInt_prefix_free [of 300 300 "[1]" "[1]"]) simp_all


end
