(* ===== verification/Utf8.thy ===== *)
theory Utf8
  imports JsString
begin

text \<open>
  The platform's \<open>TextEncoder\<close> and \<open>TextDecoder\<close> as the Encoding Standard specifies them: UTF-8
  with U+FFFD for every maximal ill-formed subpart on decoding and for every lone surrogate on
  encoding. The lemmas relate both to the well-formed sequences of Unicode's Table 3-7.
\<close>

section \<open>TextEncoder\<close>

definition isHigh :: "nat \<Rightarrow> bool" where
  "isHigh u \<longleftrightarrow> 55296 \<le> u \<and> u \<le> 56319"

definition isLow :: "nat \<Rightarrow> bool" where
  "isLow u \<longleftrightarrow> 56320 \<le> u \<and> u \<le> 57343"

definition utf8_scalar :: "nat \<Rightarrow> bytes" where
  "utf8_scalar c =
     (if c < 128 then [of_nat c]
      else if c < 2048 then [of_nat (192 + c div 64), of_nat (128 + c mod 64)]
      else if c < 65536 then
        [of_nat (224 + c div 4096), of_nat (128 + c div 64 mod 64), of_nat (128 + c mod 64)]
      else [of_nat (240 + c div 262144), of_nat (128 + c div 4096 mod 64),
            of_nat (128 + c div 64 mod 64), of_nat (128 + c mod 64)])"

definition surrogatePair :: "nat \<Rightarrow> nat \<Rightarrow> nat" where
  "surrogatePair hi lo = 65536 + (hi - 55296) * 1024 + (lo - 56320)"

fun utf8_encode :: "jsstr \<Rightarrow> bytes" where
  "utf8_encode [] = []"
| "utf8_encode [u] = utf8_scalar (if isHigh u \<or> isLow u then 65533 else u)"
| "utf8_encode (u # v # us) =
     (if isHigh u \<and> isLow v then utf8_scalar (surrogatePair u v) @ utf8_encode us
      else utf8_scalar (if isHigh u \<or> isLow u then 65533 else u) @ utf8_encode (v # us))"

section \<open>TextDecoder\<close>

definition utf16_scalar :: "nat \<Rightarrow> jsstr" where
  "utf16_scalar c =
     (if c < 65536 then [c] else [55296 + (c - 65536) div 1024, 56320 + (c - 65536) mod 1024])"

text \<open>The decoder's state: the code point so far, the bytes still needed and the range the next
  one must fall in. A byte outside it is replaced and read again as a lead byte.\<close>

function utf8_go :: "nat \<Rightarrow> nat \<Rightarrow> nat \<Rightarrow> nat \<Rightarrow> bytes \<Rightarrow> jsstr" where
  "utf8_go cp needed lower upper [] = (if needed = 0 then [] else [65533])"
| "utf8_go cp needed lower upper (w # bs) =
     (let b = unat w in
      if needed = 0 then
        if b \<le> 127 then b # utf8_go 0 0 128 191 bs
        else if 194 \<le> b \<and> b \<le> 223 then utf8_go (b - 192) 1 128 191 bs
        else if 224 \<le> b \<and> b \<le> 239 then
          utf8_go (b - 224) 2 (if b = 224 then 160 else 128) (if b = 237 then 159 else 191) bs
        else if 240 \<le> b \<and> b \<le> 244 then
          utf8_go (b - 240) 3 (if b = 240 then 144 else 128) (if b = 244 then 143 else 191) bs
        else 65533 # utf8_go 0 0 128 191 bs
      else if b < lower \<or> upper < b then 65533 # utf8_go 0 0 128 191 (w # bs)
      else if needed = 1 then utf16_scalar (cp * 64 + (b - 128)) @ utf8_go 0 0 128 191 bs
      else utf8_go (cp * 64 + (b - 128)) (needed - 1) 128 191 bs)"
  by pat_completeness auto
termination
  by (relation "measure (\<lambda>(cp, needed, lower, upper, bs). 2 * length bs + (if needed = 0 then 0 else 1))")
    auto

declare utf8_go.simps(2) [simp del]

definition utf8_decode :: "bytes \<Rightarrow> jsstr" where
  "utf8_decode bs = utf8_go 0 0 128 191 bs"

text \<open>The default decoder drops one leading byte-order mark.\<close>

definition utf8_decode_bom :: "bytes \<Rightarrow> jsstr" where
  "utf8_decode_bom bs =
     utf8_decode (if take 3 bs = [239, 187, 191] then drop 3 bs else bs)"

section \<open>Well-formed sequences\<close>

text \<open>The well-formed sequence a byte string opens with, by its length; 0 when it opens with none.\<close>

definition isCont :: "byte \<Rightarrow> bool" where
  "isCont w \<longleftrightarrow> 128 \<le> unat w \<and> unat w \<le> 191"

fun utf8_len :: "bytes \<Rightarrow> nat" where
  "utf8_len (a # bs) =
     (let l = unat a in
      if l \<le> 127 then 1
      else if 194 \<le> l \<and> l \<le> 223 then
        (case bs of b # _ \<Rightarrow> if isCont b then 2 else 0 | [] \<Rightarrow> 0)
      else if 224 \<le> l \<and> l \<le> 239 then
        (case bs of b # c # _ \<Rightarrow>
             if (if l = 224 then 160 else 128) \<le> unat b \<and> unat b \<le> (if l = 237 then 159 else 191) \<and> isCont c
             then 3 else 0
         | _ \<Rightarrow> 0)
      else if 240 \<le> l \<and> l \<le> 244 then
        (case bs of b # c # d # _ \<Rightarrow>
             if (if l = 240 then 144 else 128) \<le> unat b \<and> unat b \<le> (if l = 244 then 143 else 191)
               \<and> isCont c \<and> isCont d
             then 4 else 0
         | _ \<Rightarrow> 0)
      else 0)"
| "utf8_len [] = 0"

declare utf8_len.simps(1) [simp del]

text \<open>A scalar value in UTF-16: one unit that is no surrogate, or a surrogate pair.\<close>

definition unit16 :: "jsstr \<Rightarrow> bool" where
  "unit16 us \<longleftrightarrow> (\<exists>u. us = [u] \<and> \<not> isHigh u \<and> \<not> isLow u) \<or> (\<exists>h l. us = [h, l] \<and> isHigh h \<and> isLow l)"

lemma utf8_encode_unit16: "unit16 us \<Longrightarrow> utf8_encode (us @ rest) = utf8_encode us @ utf8_encode rest"
  by (cases rest) (auto simp: unit16_def isHigh_def isLow_def)

lemma scalar_digits:
  fixes x y z w :: nat
  assumes "y < 64" "z < 64" "w < 64"
  shows "(x * 64 + y) div 64 = x" "(x * 64 + y) mod 64 = y"
    "((x * 64 + y) * 64 + z) div 4096 = x" "((x * 64 + y) * 64 + z) div 64 = x * 64 + y"
    "((x * 64 + y) * 64 + z) mod 64 = z"
    "(((x * 64 + y) * 64 + z) * 64 + w) div 262144 = x"
    "(((x * 64 + y) * 64 + z) * 64 + w) div 4096 = x * 64 + y"
    "(((x * 64 + y) * 64 + z) * 64 + w) div 64 = (x * 64 + y) * 64 + z"
    "(((x * 64 + y) * 64 + z) * 64 + w) mod 64 = w"
proof -
  have d: "(a * 64 + b) div 64 = a" "(a * 64 + b) mod 64 = b" if "b < 64" for a b :: nat
    using that by auto
  have q: "n div 4096 = n div 64 div 64" "n div 262144 = n div 64 div 64 div 64" for n :: nat
    by (simp_all add: div_mult2_eq [symmetric])
  show "(x * 64 + y) div 64 = x" "(x * 64 + y) mod 64 = y"
    "((x * 64 + y) * 64 + z) div 4096 = x" "((x * 64 + y) * 64 + z) div 64 = x * 64 + y"
    "((x * 64 + y) * 64 + z) mod 64 = z"
    "(((x * 64 + y) * 64 + z) * 64 + w) div 262144 = x"
    "(((x * 64 + y) * 64 + z) * 64 + w) div 4096 = x * 64 + y"
    "(((x * 64 + y) * 64 + z) * 64 + w) div 64 = (x * 64 + y) * 64 + z"
    "(((x * 64 + y) * 64 + z) * 64 + w) mod 64 = w"
    unfolding q using assms by (simp_all only: d)
qed

lemma of_nat_sub_unat:
  "k \<le> unat w \<Longrightarrow> n = k + (unat (w :: byte) - k) \<Longrightarrow> (of_nat n :: byte) = w"
  by simp

lemma surrogatePair_scalar:
  assumes "65536 \<le> c" "c < 1114112"
  shows "isHigh (55296 + (c - 65536) div 1024)" "isLow (56320 + (c - 65536) mod 1024)"
    "surrogatePair (55296 + (c - 65536) div 1024) (56320 + (c - 65536) mod 1024) = c"
proof -
  have "(c - 65536) div 1024 < 1024" using assms by (intro less_mult_imp_div_less) simp
  then show "isHigh (55296 + (c - 65536) div 1024)" by (simp add: isHigh_def)
  have "(c - 65536) mod 1024 < 1024" by simp
  then show "isLow (56320 + (c - 65536) mod 1024)" unfolding isLow_def by linarith
  have "(c - 65536) div 1024 * 1024 + (c - 65536) mod 1024 = c - 65536" by simp
  then show "surrogatePair (55296 + (c - 65536) div 1024) (56320 + (c - 65536) mod 1024) = c"
    using assms(1) by (simp add: surrogatePair_def)
qed

lemma scalar_roundtrip:
  assumes "c < 1114112" "\<not> isHigh c" "\<not> isLow c"
  shows "utf8_encode (utf16_scalar c) = utf8_scalar c" "unit16 (utf16_scalar c)"
  using assms surrogatePair_scalar [of c]
  by (auto simp: utf16_scalar_def unit16_def)

lemma go_lead:
  "utf8_decode (w # bs) =
     (let b = unat w in
      if b \<le> 127 then b # utf8_decode bs
      else if 194 \<le> b \<and> b \<le> 223 then utf8_go (b - 192) 1 128 191 bs
      else if 224 \<le> b \<and> b \<le> 239 then
        utf8_go (b - 224) 2 (if b = 224 then 160 else 128) (if b = 237 then 159 else 191) bs
      else if 240 \<le> b \<and> b \<le> 244 then
        utf8_go (b - 240) 3 (if b = 240 then 144 else 128) (if b = 244 then 143 else 191) bs
      else 65533 # utf8_decode bs)"
  by (simp add: utf8_decode_def utf8_go.simps(2) [of _ 0] Let_def)

lemma go_cont:
  assumes "lower \<le> unat w" "unat w \<le> upper" "0 < n"
  shows "utf8_go cp n lower upper (w # bs) =
    (if n = 1 then utf16_scalar (cp * 64 + (unat w - 128)) @ utf8_decode bs
     else utf8_go (cp * 64 + (unat w - 128)) (n - 1) 128 191 bs)"
  using assms by (simp add: utf8_decode_def utf8_go.simps(2) Let_def)

lemma go_reject:
  assumes "0 < n" "\<And>w rest. bs = w # rest \<Longrightarrow> unat w < lower \<or> upper < unat w"
  shows "utf8_go cp n lower upper bs = 65533 # utf8_decode bs"
  using assms by (cases bs) (auto simp: utf8_decode_def utf8_go.simps(2) [of cp] Let_def)

lemma decode_Nil [simp]: "utf8_decode [] = []"
  by (simp add: utf8_decode_def)

lemma not_surrogate:
  fixes x y z :: nat
  assumes "x < 16" "y < 64" "z < 64" "x = 13 \<longrightarrow> y < 32"
  shows "\<not> isHigh ((x * 64 + y) * 64 + z)" "\<not> isLow ((x * 64 + y) * 64 + z)"
proof -
  have "(x * 64 + y) * 64 + z < 55296 \<or> 57343 < (x * 64 + y) * 64 + z"
  proof (cases "x \<le> 13")
    case True
    then have "(x * 64 + y) * 64 + z < 55296" using assms by (cases "x = 13") auto
    then show ?thesis ..
  next
    case False
    then have "57343 < (x * 64 + y) * 64 + z" by auto
    then show ?thesis ..
  qed
  then show "\<not> isHigh ((x * 64 + y) * 64 + z)" "\<not> isLow ((x * 64 + y) * 64 + z)"
    by (auto simp: isHigh_def isLow_def)
qed

lemma codepoint_bounds:
  fixes x y z w :: nat
  shows "x < 16 \<Longrightarrow> y < 64 \<Longrightarrow> z < 64 \<Longrightarrow> (x * 64 + y) * 64 + z < 65536"
    and "x \<noteq> 0 \<or> 16 \<le> y \<Longrightarrow> 65536 \<le> ((x * 64 + y) * 64 + z) * 64 + w"
    and "x \<le> 4 \<Longrightarrow> x < 4 \<or> y < 16 \<Longrightarrow> y < 64 \<Longrightarrow> z < 64 \<Longrightarrow> w < 64 \<Longrightarrow>
      ((x * 64 + y) * 64 + z) * 64 + w < 1114112"
  by auto

text \<open>Each well-formed sequence decodes into the units of one scalar value, which encode back
  into it.\<close>

definition decodes_to :: "bytes \<Rightarrow> jsstr \<Rightarrow> bool" where
  "decodes_to seq us \<longleftrightarrow> unit16 us \<and> utf8_encode us = seq \<and>
     (\<forall>rest. utf8_decode (seq @ rest) = us @ utf8_decode rest)"

lemma decodes_to_scalar:
  assumes "c < 1114112" "\<not> isHigh c" "\<not> isLow c" "utf8_scalar c = seq"
    "\<And>rest. utf8_decode (seq @ rest) = utf16_scalar c @ utf8_decode rest"
  shows "decodes_to seq (utf16_scalar c)"
  using assms scalar_roundtrip [of c] by (simp add: decodes_to_def)

lemma decodes_to_1: "unat a \<le> 127 \<Longrightarrow> decodes_to [a] (utf16_scalar (unat a))"
  by (rule decodes_to_scalar) (simp_all add: isHigh_def isLow_def utf8_scalar_def go_lead utf16_scalar_def)

lemma decodes_to_2:
  assumes "194 \<le> unat a" "unat a \<le> 223" "isCont b"
  shows "decodes_to [a, b] (utf16_scalar ((unat a - 192) * 64 + (unat b - 128)))"
proof -
  let ?x = "unat a - 192" and ?y = "unat b - 128"
  have b: "128 \<le> unat b" "unat b \<le> 191" using assms(3) by (auto simp: isCont_def)
  have r: "2 \<le> ?x" "?x < 32" "?y < 64" using assms b by auto
  then have c: "128 \<le> ?x * 64 + ?y" "?x * 64 + ?y < 2048" by linarith+
  have "utf8_scalar (?x * 64 + ?y) = [a, b]"
    unfolding utf8_scalar_def using c scalar_digits [OF r(3) r(3) r(3)] assms(1) b
    by (simp add: of_nat_sub_unat)
  then show ?thesis
    using c assms b
    by (intro decodes_to_scalar) (simp_all add: isHigh_def isLow_def go_lead go_cont Let_def)
qed

lemma decodes_to_3:
  assumes "224 \<le> unat a" "unat a \<le> 239"
    "(if unat a = 224 then 160 else 128) \<le> unat b" "unat b \<le> (if unat a = 237 then 159 else 191)" "isCont c"
  shows "decodes_to [a, b, c] (utf16_scalar (((unat a - 224) * 64 + (unat b - 128)) * 64 + (unat c - 128)))"
proof -
  let ?x = "unat a - 224" and ?y = "unat b - 128" and ?z = "unat c - 128"
  have c: "128 \<le> unat c" "unat c \<le> 191" using assms(5) by (auto simp: isCont_def)
  have b: "128 \<le> unat b" "unat b \<le> 191" using assms(3,4) by (auto split: if_splits)
  have r: "?x < 16" "?y < 64" "?z < 64" using assms b c by auto
  have "?x \<noteq> 0 \<or> 32 \<le> ?y" using assms(1,3) by (cases "unat a = 224") auto
  then have lo: "2048 \<le> (?x * 64 + ?y) * 64 + ?z"
  proof
    assume "?x \<noteq> 0"
    then have "1 * 64 \<le> ?x * 64" by (intro mult_le_mono1) simp
    then have "64 * 64 \<le> (?x * 64 + ?y) * 64" by (intro mult_le_mono1) simp
    then show ?thesis by simp
  qed simp
  have hi: "(?x * 64 + ?y) * 64 + ?z < 65536" using r by (rule codepoint_bounds(1))
  have s: "?x = 13 \<longrightarrow> ?y < 32" using assms(1,4) by (auto split: if_splits)
  have "utf8_scalar ((?x * 64 + ?y) * 64 + ?z) = [a, b, c]"
    unfolding utf8_scalar_def using lo hi scalar_digits [OF r(2) r(3) r(3)] assms(1) b c
    by (simp add: of_nat_sub_unat)
  then show ?thesis
    using lo hi assms b c not_surrogate [OF r s]
    by (intro decodes_to_scalar) (simp_all add: go_lead go_cont Let_def)
qed

lemma utf8_scalar_4:
  fixes x y z w :: nat
  assumes "y < 64" "z < 64" "w < 64" "65536 \<le> c" "c = ((x * 64 + y) * 64 + z) * 64 + w"
  shows "utf8_scalar c = [of_nat (240 + x), of_nat (128 + y), of_nat (128 + z), of_nat (128 + w)]"
proof -
  note d = scalar_digits [OF assms(1-3), of x]
  have "c div 262144 = x" "c div 4096 mod 64 = y" "c div 64 mod 64 = z" "c mod 64 = w"
    unfolding assms(5) using d by (simp_all only: d)
  then show ?thesis using assms(4) by (simp add: utf8_scalar_def)
qed

lemma decodes_to_4:
  assumes "240 \<le> unat a" "unat a \<le> 244"
    "(if unat a = 240 then 144 else 128) \<le> unat b" "unat b \<le> (if unat a = 244 then 143 else 191)"
    "isCont c" "isCont d"
  shows "decodes_to [a, b, c, d]
    (utf16_scalar ((((unat a - 240) * 64 + (unat b - 128)) * 64 + (unat c - 128)) * 64 + (unat d - 128)))"
proof -
  let ?x = "unat a - 240" and ?y = "unat b - 128" and ?z = "unat c - 128" and ?w = "unat d - 128"
  have cd: "128 \<le> unat c" "unat c \<le> 191" "128 \<le> unat d" "unat d \<le> 191"
    using assms(5,6) by (auto simp: isCont_def)
  have b: "128 \<le> unat b" "unat b \<le> 191" using assms(3,4) by (auto split: if_splits)
  have r: "?x \<le> 4" "?y < 64" "?z < 64" "?w < 64" using assms b cd by auto
  have "?x \<noteq> 0 \<or> 16 \<le> ?y" using assms(1,3) by (cases "unat a = 240") auto
  then have lo: "65536 \<le> ((?x * 64 + ?y) * 64 + ?z) * 64 + ?w" by (rule codepoint_bounds(2))
  have "?x < 4 \<or> ?y < 16" using assms(1,2,4) by (auto split: if_splits)
  then have hi: "((?x * 64 + ?y) * 64 + ?z) * 64 + ?w < 1114112"
    using r(2-4) by (rule codepoint_bounds(3) [OF r(1)])
  have s: "\<not> isHigh (((?x * 64 + ?y) * 64 + ?z) * 64 + ?w)" "\<not> isLow (((?x * 64 + ?y) * 64 + ?z) * 64 + ?w)"
    using lo by (auto simp: isHigh_def isLow_def)
  have "utf8_scalar (((?x * 64 + ?y) * 64 + ?z) * 64 + ?w) = [a, b, c, d]"
    using assms(1) b cd
    by (subst utf8_scalar_4 [OF r(2-4) lo refl]) (simp only: le_add_diff_inverse, simp)
  then show ?thesis
    using hi s assms b cd
    by (intro decodes_to_scalar) (simp_all add: go_lead go_cont Let_def)
qed

lemma utf8_len_decodes:
  assumes "utf8_len bs \<noteq> 0"
  shows "utf8_len bs \<le> length bs \<and> (\<exists>us. decodes_to (take (utf8_len bs) bs) us)"
proof (cases bs)
  case Nil
  then show ?thesis using assms by simp
next
  case (Cons a r)
  consider "unat a \<le> 127" | "194 \<le> unat a" "unat a \<le> 223" | "224 \<le> unat a" "unat a \<le> 239"
    | "240 \<le> unat a" "unat a \<le> 244"
    using assms Cons by (force simp: utf8_len.simps Let_def)
  then show ?thesis
  proof cases
    case 1
    then have "utf8_len bs = 1" using Cons by (simp add: utf8_len.simps)
    then show ?thesis using decodes_to_1 [OF 1] Cons by auto
  next
    case 2
    then obtain b r' where r: "r = b # r'" "isCont b"
      using assms Cons by (cases r) (auto simp: utf8_len.simps Let_def split: if_splits)
    then have "utf8_len bs = 2" using Cons 2 by (simp add: utf8_len.simps)
    then show ?thesis using decodes_to_2 [OF 2 r(2)] Cons r by auto
  next
    case 3
    then obtain b c r' where r: "r = b # c # r'" "(if unat a = 224 then 160 else 128) \<le> unat b"
        "unat b \<le> (if unat a = 237 then 159 else 191)" "isCont c"
      using assms Cons
      by (cases r; cases "List.tl r") (simp_all add: utf8_len.simps Let_def split: if_splits)
    then have "utf8_len bs = 3" using Cons 3 by (simp add: utf8_len.simps)
    then show ?thesis using decodes_to_3 [OF 3 r(2-4)] Cons r(1) by auto
  next
    case 4
    then obtain b c d r' where r: "r = b # c # d # r'" "(if unat a = 240 then 144 else 128) \<le> unat b"
        "unat b \<le> (if unat a = 244 then 143 else 191)" "isCont c" "isCont d"
      using assms Cons
      by (cases r; cases "List.tl r"; cases "List.tl (List.tl r)")
        (simp_all add: utf8_len.simps Let_def split: if_splits)
    then have "utf8_len bs = 4" using Cons 4 by (simp add: utf8_len.simps)
    then show ?thesis using decodes_to_4 [OF 4 r(2-5)] Cons r(1) by auto
  qed
qed

lemma utf8_len_sequence:
  assumes "utf8_len bs \<noteq> 0"
  obtains us where "decodes_to (take (utf8_len bs) bs) us"
    "utf8_decode bs = us @ utf8_decode (drop (utf8_len bs) bs)"
  using utf8_len_decodes [OF assms] unfolding decodes_to_def
  by (metis append_take_drop_id)

lemma utf8_len_0_lead: "utf8_len (w # bs) = 0 \<Longrightarrow> 128 \<le> unat w"
  by (auto simp: utf8_len.simps Let_def split: if_splits)

text \<open>An ill-formed start is replaced by one U+FFFD and some of its bytes are skipped.\<close>

fun accepts :: "nat \<Rightarrow> nat \<Rightarrow> nat \<Rightarrow> bytes \<Rightarrow> bool" where
  "accepts 0 lower upper bs = True"
| "accepts (Suc n) lower upper [] = False"
| "accepts (Suc n) lower upper (w # bs) = (lower \<le> unat w \<and> unat w \<le> upper \<and> accepts n 128 191 bs)"

lemma go_accepts_or_replaces:
  "0 < n \<Longrightarrow> accepts n lower upper bs \<or>
    (\<exists>k. utf8_go cp n lower upper bs = 65533 # utf8_decode (drop k bs))"
proof (induction n lower upper bs arbitrary: cp rule: accepts.induct)
  case (2 n lower upper)
  have "utf8_go cp (Suc n) lower upper [] = 65533 # utf8_decode (drop 0 [])" by simp
  then show ?case by blast
next
  case (3 n lower upper w bs)
  show ?case
  proof (cases "lower \<le> unat w \<and> unat w \<le> upper")
    case False
    then have "utf8_go cp (Suc n) lower upper (w # bs) = 65533 # utf8_decode (drop 0 (w # bs))"
      by (simp only: drop_0) (rule go_reject, auto simp: not_le)
    then show ?thesis by blast
  next
    case True
    show ?thesis
    proof (cases "n = 0")
      case False
      have "utf8_go cp (Suc n) lower upper (w # bs) = utf8_go (cp * 64 + (unat w - 128)) n 128 191 bs"
        using True False by (simp add: go_cont)
      moreover have "drop k bs = drop (Suc k) (w # bs)" for k by simp
      ultimately show ?thesis
        using "3.IH" [of "cp * 64 + (unat w - 128)"] True False by (metis accepts.simps(3) bot_nat_0.not_eq_extremum)
    qed (use True in simp)
  qed
qed simp

lemma utf8_len_0_decode:
  assumes "utf8_len (w # bs) = 0"
  shows "\<exists>k. utf8_decode (w # bs) = 65533 # utf8_decode (drop k bs)"
proof -
  let ?l2 = "if unat w = 224 then 160 else 128" and ?u2 = "if unat w = 237 then 159 else 191"
  let ?l3 = "if unat w = 240 then 144 else 128" and ?u3 = "if unat w = 244 then 143 else 191"
  have lead: "128 \<le> unat w" using assms by (rule utf8_len_0_lead)
  have ex: "utf8_decode (w # bs) = 65533 # utf8_decode (drop 0 bs) \<Longrightarrow> ?thesis" by blast
  consider "194 \<le> unat w" "unat w \<le> 223" | "224 \<le> unat w" "unat w \<le> 239"
    | "240 \<le> unat w" "unat w \<le> 244" | "unat w < 194 \<or> 244 < unat w" by linarith
  then show ?thesis
  proof cases
    case 1
    then have "\<not> accepts 1 128 191 bs"
      using assms by (cases bs) (auto simp: utf8_len.simps Let_def isCont_def split: if_splits)
    then show ?thesis
      using go_accepts_or_replaces [of 1 128 191 bs] 1 by (simp add: go_lead)
  next
    case 2
    then have "\<not> accepts 2 ?l2 ?u2 bs"
      using assms by (cases bs; cases "List.tl bs")
        (simp_all add: utf8_len.simps Let_def isCont_def numeral_2_eq_2 split: if_splits)
    then show ?thesis
      using go_accepts_or_replaces [of 2 ?l2 ?u2 bs] 2 by (simp add: go_lead Let_def)
  next
    case 3
    then have "\<not> accepts 3 ?l3 ?u3 bs"
      using assms by (cases bs; cases "List.tl bs"; cases "List.tl (List.tl bs)")
        (simp_all add: utf8_len.simps Let_def isCont_def numeral_3_eq_3 split: if_splits)
    then show ?thesis
      using go_accepts_or_replaces [of 3 ?l3 ?u3 bs] 3 by (simp add: go_lead Let_def)
  next
    case 4
    then show ?thesis using lead by (intro ex) (auto simp: go_lead Let_def)
  qed
qed

text \<open>Every byte string splits into well-formed sequences and ill-formed starts.\<close>

lemma utf8_induct [case_names Nil seq bad]:
  assumes "P []"
    and "\<And>bs us. bs \<noteq> [] \<Longrightarrow> utf8_len bs \<noteq> 0 \<Longrightarrow> decodes_to (take (utf8_len bs) bs) us \<Longrightarrow>
      utf8_decode bs = us @ utf8_decode (drop (utf8_len bs) bs) \<Longrightarrow>
      P (drop (utf8_len bs) bs) \<Longrightarrow> P bs"
    and "\<And>w bs. utf8_len (w # bs) = 0 \<Longrightarrow> (\<And>k. P (drop k bs)) \<Longrightarrow> P (w # bs)"
  shows "P bs"
proof (induction "length bs" arbitrary: bs rule: less_induct)
  case less
  show ?case
  proof (cases bs)
    case Nil
    then show ?thesis using assms(1) by simp
  next
    case (Cons w r)
    show ?thesis
    proof (cases "utf8_len bs = 0")
      case True
      then show ?thesis using Cons less by (auto intro!: assms(3))
    next
      case False
      obtain us where "decodes_to (take (utf8_len bs) bs) us"
          "utf8_decode bs = us @ utf8_decode (drop (utf8_len bs) bs)"
        using utf8_len_sequence [OF False] by blast
      moreover have "length (drop (utf8_len bs) bs) < length bs" using False Cons by simp
      ultimately show ?thesis
        using False Cons by (intro assms(2) [of bs us] less.hyps) simp_all
    qed
  qed
qed

fun noLone :: "jsstr \<Rightarrow> bool" where
  "noLone [] = True"
| "noLone [u] = (\<not> isHigh u \<and> \<not> isLow u)"
| "noLone (u # v # us) =
     (if isHigh u then isLow v \<and> noLone us else \<not> isLow u \<and> noLone (v # us))"

lemma noLone_unit16: "unit16 us \<Longrightarrow> noLone (us @ rest) = noLone rest"
  by (cases rest) (auto simp: unit16_def isHigh_def isLow_def)

lemma noLone_decode: "noLone (utf8_decode bs)"
proof (induction bs rule: utf8_induct)
  case (seq bs us)
  then show ?case using noLone_unit16 [of us] by (simp add: decodes_to_def)
next
  case (bad w bs)
  have "unit16 [65533]" by (simp add: unit16_def isHigh_def isLow_def)
  then have "noLone (65533 # us) = noLone us" for us using noLone_unit16 [of "[65533]" us] by simp
  then show ?case using utf8_len_0_decode [OF bad(1)] bad(2) by auto
qed simp

lemma encode_decode_lossless: "65533 \<notin> set (utf8_decode bs) \<Longrightarrow> utf8_encode (utf8_decode bs) = bs"
proof (induction bs rule: utf8_induct)
  case (seq bs us)
  then show ?case using utf8_encode_unit16 [of us] by (simp add: decodes_to_def)
next
  case (bad w bs)
  then show ?case using utf8_len_0_decode [OF bad(1)] by auto
qed simp

end
