(* ===== verification/Encoding.thy ===== *)
theory Encoding
  imports Errors Utf8
begin

text \<open>
  \<open>objects/encoding.ts\<close>: hexadecimal text, byte comparison and search, the UTF-8 sequence
  scanner, the surrogate-escape codec and the header-block helpers of commits and tags.
\<close>

section \<open>Hexadecimal text\<close>

definition HEX_TABLE :: "jsstr list" where
  "HEX_TABLE = map (\<lambda>i. padStart (toStringRadix 16 i) 2 48) [0..<256]"

definition bytesToHex :: "bytes \<Rightarrow> jsstr" where
  "bytesToHex bs = foldl (\<lambda>hex b. hex @ HEX_TABLE ! unat b) [] bs"

definition parseHexDigit :: "nat \<Rightarrow> int" where
  "parseHexDigit charCode =
     (if 48 \<le> charCode \<and> charCode \<le> 57 then int charCode - 48
      else if 97 \<le> charCode \<and> charCode \<le> 102 then int charCode - 87
      else - 1)"

text \<open>The loop of \<open>hexToBytes\<close> over the remaining pairs, at index \<open>i\<close>.\<close>

fun hexLoop :: "nat \<Rightarrow> jsstr \<Rightarrow> tsgit_error + bytes" where
  "hexLoop i (h # l # rest) =
     (let high = parseHexDigit h; low = parseHexDigit l in
      if high = - 1 \<or> low = - 1
      then Inl (PlainError (Reason ''Invalid hex character at position #'' [int i]))
      else bindE (hexLoop (i + 2) rest) (\<lambda>bs. Inr (toByte (js_or (js_shl high 4) low) # bs)))"
| "hexLoop i _ = Inr []"

definition hexToBytes :: "jsstr \<Rightarrow> tsgit_error + bytes" where
  "hexToBytes hex =
     (if length hex mod 2 \<noteq> 0 then Inl (PlainError (Reason ''Hex string must have even length'' []))
      else hexLoop 0 hex)"

section \<open>Bytes\<close>

fun compareBytes :: "bytes \<Rightarrow> bytes \<Rightarrow> int" where
  "compareBytes (a # as) (b # bs) = (if a \<noteq> b then u8 a - u8 b else compareBytes as bs)"
| "compareBytes as bs = int (length as) - int (length bs)"

definition concatBytes :: "bytes list \<Rightarrow> bytes" where
  "concatBytes parts =
     fst (foldl (\<lambda>(out, offset) part. (blit out part offset, offset + length part))
       (replicate (foldl (\<lambda>total part. total + length part) 0 parts) 0, 0) parts)"

definition bytesEqual :: "bytes \<Rightarrow> bytes \<Rightarrow> bool" where
  "bytesEqual a b =
     (length a = length b \<and> list_all (\<lambda>i. a ! i = b ! i) [0..<length a])"

definition indexOf :: "bytes \<Rightarrow> byte \<Rightarrow> nat \<Rightarrow> nat option" where
  "indexOf bs target fromIndex = indexOfUnit bs target fromIndex"

section \<open>Text\<close>

definition encode :: "jsstr \<Rightarrow> bytes" where
  "encode str = utf8_encode str"

definition decode :: "bytes \<Rightarrow> jsstr" where
  "decode bs = utf8_decode_bom bs"

definition decodePreservingBom :: "bytes \<Rightarrow> jsstr" where
  "decodePreservingBom bs = utf8_decode bs"

definition decodesLosslessly :: "jsstr \<Rightarrow> bytes \<Rightarrow> bool" where
  "decodesLosslessly text raw = (65533 \<notin> set text \<or> bytesEqual (encode text) raw)"

definition byteAt :: "bytes \<Rightarrow> nat \<Rightarrow> nat option" where
  "byteAt bs at = (if at < length bs then Some (unat (bs ! at)) else None)"

definition isContinuation :: "nat option \<Rightarrow> bool" where
  "isContinuation byte = (case byte of None \<Rightarrow> False | Some b \<Rightarrow> 128 \<le> b \<and> b \<le> 191)"

definition secondByteRange :: "nat \<Rightarrow> nat \<times> nat" where
  "secondByteRange lead =
     (if lead = 224 then (160, 191)
      else if lead = 237 then (128, 159)
      else if lead = 240 then (144, 191)
      else if lead = 244 then (128, 143)
      else (128, 191))"

definition expectedLength :: "nat \<Rightarrow> nat" where
  "expectedLength lead =
     (if lead \<le> 127 then 1
      else if 194 \<le> lead \<and> lead \<le> 223 then 2
      else if 224 \<le> lead \<and> lead \<le> 239 then 3
      else if 240 \<le> lead \<and> lead \<le> 244 then 4
      else 0)"

text \<open>An index at the end of the buffer reads \<open>undefined\<close>, which fails every comparison.\<close>

definition wellFormedSequenceLength :: "bytes \<Rightarrow> nat \<Rightarrow> nat" where
  "wellFormedSequenceLength bs at =
     (case byteAt bs at of None \<Rightarrow> 0
      | Some lead \<Rightarrow>
          let len = expectedLength lead in
          if len \<le> 1 then len
          else
            let (mn, mx) = secondByteRange lead in
            (case byteAt bs (at + 1) of None \<Rightarrow> 0
             | Some second \<Rightarrow>
                 if second < mn \<or> mx < second then 0
                 else if list_all (\<lambda>i. isContinuation (byteAt bs (at + i))) [2..<len] then len
                 else 0))"

definition isNonCharacterTail :: "bytes \<Rightarrow> nat \<Rightarrow> bool" where
  "isNonCharacterTail bs at =
     (byteAt bs at = Some 239 \<and> byteAt bs (at + 1) = Some 191 \<and>
      (case byteAt bs (at + 2) of None \<Rightarrow> False | Some b \<Rightarrow> 190 \<le> b))"

definition gitPickerSequenceLength :: "bytes \<Rightarrow> nat \<Rightarrow> nat" where
  "gitPickerSequenceLength bs at =
     (let len = wellFormedSequenceLength bs at in if isNonCharacterTail bs at then 0 else len)"

function pickerLoop :: "bytes \<Rightarrow> nat \<Rightarrow> nat" where
  "pickerLoop bs at =
     (if at < length bs then
        let len = gitPickerSequenceLength bs at in
        if len = 0 then at else pickerLoop bs (at + len)
      else length bs)"
  by pat_completeness auto
termination by (relation "measure (\<lambda>(bs, at). length bs - at)") auto

declare pickerLoop.simps [simp del]

definition gitPickerValidPrefix :: "bytes \<Rightarrow> nat" where
  "gitPickerValidPrefix bs = pickerLoop bs 0"

text \<open>The surrogate-escape decoder and its inverse.\<close>

function escapeLoop :: "bytes \<Rightarrow> jsstr \<Rightarrow> nat \<Rightarrow> nat \<Rightarrow> jsstr" where
  "escapeLoop bs result runStart at =
     (if at < length bs then
        let len = wellFormedSequenceLength bs at in
        if 0 < len then escapeLoop bs result runStart (at + len)
        else escapeLoop bs
          (result @ decodePreservingBom (subarray bs runStart at) @ [56320 + unat (bs ! at)])
          (at + 1) (at + 1)
      else result @ decodePreservingBom (drop runStart bs))"
  by pat_completeness auto
termination by (relation "measure (\<lambda>(bs, result, runStart, at). length bs - at)") auto

declare escapeLoop.simps [simp del]

definition decodeEscapingInvalid :: "bytes \<Rightarrow> jsstr" where
  "decodeEscapingInvalid bs =
     (let view = decodePreservingBom bs in
      if decodesLosslessly view bs then view else escapeLoop bs [] 0 0)"

definition isHighSurrogate :: "nat \<Rightarrow> bool" where
  "isHighSurrogate unit = (55296 \<le> unit \<and> unit \<le> 56319)"

definition isEscapeUnit :: "nat \<Rightarrow> bool" where
  "isEscapeUnit unit = (56448 \<le> unit \<and> unit \<le> 56575)"

text \<open>The pattern \<open>LONE_ESCAPE\<close>: an escape unit not preceded by a high surrogate.\<close>

definition loneEscapeAt :: "jsstr \<Rightarrow> nat \<Rightarrow> bool" where
  "loneEscapeAt text i =
     (isEscapeUnit (text ! i) \<and> \<not> (0 < i \<and> isHighSurrogate (text ! (i - 1))))"

definition hasEscapedBytes :: "jsstr \<Rightarrow> bool" where
  "hasEscapedBytes text = list_ex (loneEscapeAt text) [0..<length text]"

text \<open>The pattern \<open>LONE_SURROGATE\<close> replaced by U+FFFD.\<close>

fun wellFormed :: "jsstr \<Rightarrow> jsstr" where
  "wellFormed [] = []"
| "wellFormed [u] = [if isHigh u \<or> isLow u then 65533 else u]"
| "wellFormed (u # v # us) =
     (if isHigh u \<and> isLow v then u # v # wellFormed us
      else (if isHigh u \<or> isLow u then 65533 else u) # wellFormed (v # us))"

fun unescapeLoop :: "jsstr \<Rightarrow> nat list \<Rightarrow> bytes list \<Rightarrow> nat \<Rightarrow> bytes list" where
  "unescapeLoop text [] parts runStart = parts @ [encode (drop runStart text)]"
| "unescapeLoop text (i # is) parts runStart =
     (let unit = text ! i in
      if unit < 56448 \<or> 56575 < unit then unescapeLoop text is parts runStart
      else if 0 < i \<and> isHighSurrogate (text ! (i - 1)) then unescapeLoop text is parts runStart
      else unescapeLoop text is
        (parts @ [encode (subarray text runStart i), [of_nat (unit - 56320)]]) (i + 1))"

definition encodeEscaped :: "jsstr \<Rightarrow> bytes" where
  "encodeEscaped text =
     (if \<not> hasEscapedBytes text then encode text
      else concatBytes (unescapeLoop text [0..<length text] [] 0))"

section \<open>Header blocks\<close>

definition splitHeaderAndMessage :: "jsstr \<Rightarrow> jsstr \<times> jsstr" where
  "splitHeaderAndMessage text =
     (case indexOfStr text [10, 10] of
        None \<Rightarrow> (text, [])
      | Some blankIndex \<Rightarrow> (take blankIndex text, drop (blankIndex + 2) text))"

definition formatContinuationHeader :: "jsstr \<Rightarrow> jsstr \<Rightarrow> tsgit_error + jsstr" where
  "formatContinuationHeader key value =
     (if 10 \<in> set key \<or> 32 \<in> set key \<or> key = []
      then Inl (PlainErrorText ''invalid header key: '' key)
      else
        let valueParts = splitUnit 10 value;
            first = key @ [32] @ hd valueParts;
            rest = map (\<lambda>line. 32 # line) (drop 1 valueParts)
        in Inr (joinUnit 10 (first # rest)))"

definition parseHeaderLine :: "jsstr \<Rightarrow> jsstr \<times> jsstr" where
  "parseHeaderLine line =
     (case indexOfUnit line 32 0 of
        None \<Rightarrow> (line, [])
      | Some spaceIdx \<Rightarrow> (take spaceIdx line, drop (spaceIdx + 1) line))"

text \<open>The inner loop of \<open>parseOptionalHeaderBlock\<close>: the continuation lines that follow, and the
  lines left.\<close>

fun continuationLines :: "jsstr list \<Rightarrow> jsstr list \<times> jsstr list" where
  "continuationLines [] = ([], [])"
| "continuationLines (l # ls) =
     (if startsWith l [32] then
        let (parts, rest) = continuationLines ls in (drop 1 l # parts, rest)
      else ([], l # ls))"

lemma continuationLines_length: "length (snd (continuationLines ls)) \<le> length ls"
  by (induction ls) (auto simp: split_beta Let_def)

text \<open>The two callbacks never return: \<open>onInvalidKey\<close> and \<open>onDuplicateGpgsig\<close> build the error
  thrown.\<close>

function optionalHeaderLoop ::
    "jsstr list \<Rightarrow> (string \<Rightarrow> tsgit_error) \<Rightarrow> (string \<Rightarrow> tsgit_error) \<Rightarrow>
     jsstr option \<Rightarrow> (jsstr \<times> jsstr) list \<Rightarrow> tsgit_error + (jsstr option \<times> (jsstr \<times> jsstr) list)" where
  "optionalHeaderLoop [] onInvalidKey onDuplicateGpgsig gpg extra = Inr (gpg, extra)"
| "optionalHeaderLoop (line # more) onInvalidKey onDuplicateGpgsig gpg extra =
     (let (key, firstValue) = parseHeaderLine line in
      if key = [] then Inl (onInvalidKey ''unexpected continuation line without preceding header'')
      else
        let (parts, rest) = continuationLines more;
            value = joinUnit 10 (firstValue # parts)
        in if key = jslit ''gpgsig'' then
             if gpg \<noteq> None then Inl (onDuplicateGpgsig ''duplicate gpgsig header'')
             else optionalHeaderLoop rest onInvalidKey onDuplicateGpgsig (Some value) extra
           else optionalHeaderLoop rest onInvalidKey onDuplicateGpgsig gpg (extra @ [(key, value)]))"
  by pat_completeness auto
termination
proof (relation "measure (\<lambda>(ls, a, b, c, d). length ls)")
  show "wf (measure (\<lambda>(ls, a, b, c, d). length ls))" by simp
next
  fix line :: jsstr and more and a b :: "string \<Rightarrow> tsgit_error"
    and gpg :: "jsstr option" and extra :: "(jsstr \<times> jsstr) list"
  fix x key firstValue y parts rest val
  assume "y = continuationLines more" "(parts, rest) = y"
  then have "length rest < length (line # more)"
    using continuationLines_length [of more] by (metis le_imp_less_Suc length_Cons snd_conv)
  then show "((rest, a, b, Some val, extra), line # more, a, b, gpg, extra)
      \<in> measure (\<lambda>(ls, a, b, c, d). length ls)"
    and "((rest, a, b, gpg, extra @ [(key, val)]), line # more, a, b, gpg, extra)
      \<in> measure (\<lambda>(ls, a, b, c, d). length ls)"
    by simp_all
qed

definition parseOptionalHeaderBlock ::
    "jsstr list \<Rightarrow> nat \<Rightarrow> (string \<Rightarrow> tsgit_error) \<Rightarrow> (string \<Rightarrow> tsgit_error) \<Rightarrow>
     tsgit_error + (jsstr option \<times> (jsstr \<times> jsstr) list)" where
  "parseOptionalHeaderBlock lines startIndex onInvalidKey onDuplicateGpgsig =
     optionalHeaderLoop (drop startIndex lines) onInvalidKey onDuplicateGpgsig None []"

section \<open>Hexadecimal and byte lemmas\<close>

lemma toStringRadix_hex:
  assumes "n < 256"
  shows "padStart (toStringRadix 16 n) 2 48 = [hexDigit (n div 16), hexDigit (n mod 16)]"
proof (cases "n < 16")
  case True
  then show ?thesis by (simp add: padStart_def toStringRadix.simps [of 16 n] hexDigit_def)
next
  case False
  then have "n div 16 < 16" using assms by (simp add: less_mult_imp_div_less)
  then show ?thesis using False
    by (simp add: padStart_def toStringRadix.simps [of 16 n] toStringRadix.simps [of 16 "n div 16"])
qed

lemma HEX_TABLE_nth:
  "HEX_TABLE ! unat (b :: byte) = [hexDigit (unat b div 16), hexDigit (unat b mod 16)]"
  using unat_byte_less [of b] by (simp add: HEX_TABLE_def toStringRadix_hex)

lemma bytesToHex_eq:
  "bytesToHex bs = concat (map (\<lambda>b. [hexDigit (unat b div 16), hexDigit (unat b mod 16)]) bs)"
proof -
  have "foldl (\<lambda>hex b. hex @ HEX_TABLE ! unat b) acc bs
      = acc @ concat (map (\<lambda>b. [hexDigit (unat b div 16), hexDigit (unat b mod 16)]) bs)" for acc
    by (induction bs arbitrary: acc) (simp_all add: HEX_TABLE_nth)
  then show ?thesis by (simp add: bytesToHex_def)
qed

lemma bytesToHex_Nil [simp]: "bytesToHex [] = []"
  by (simp add: bytesToHex_eq)

lemma bytesToHex_Cons [simp]:
  "bytesToHex (b # bs) = hexDigit (unat b div 16) # hexDigit (unat b mod 16) # bytesToHex bs"
  by (simp add: bytesToHex_eq)

lemma bytesToHex_append [simp]: "bytesToHex (as @ bs) = bytesToHex as @ bytesToHex bs"
  by (simp add: bytesToHex_eq)

lemma length_bytesToHex [simp]: "length (bytesToHex bs) = 2 * length bs"
  by (induction bs) simp_all

lemma parseHexDigit_hexDigit [simp]: "d < 16 \<Longrightarrow> parseHexDigit (hexDigit d) = int d"
  by (auto simp: parseHexDigit_def hexDigit_def)

lemma hexDigit_parseHexDigit:
  "parseHexDigit c \<noteq> - 1 \<Longrightarrow> \<exists>d < 16. c = hexDigit d \<and> parseHexDigit c = int d"
  by (intro exI [of _ "nat (parseHexDigit c)"])
    (auto simp: parseHexDigit_def hexDigit_def nat_diff_distrib split: if_splits)

lemma nibbles_byte:
  assumes "h < 16" "l < 16"
  shows "toByte (js_or (js_shl (int h) 4) (int l)) = of_nat (16 * h + l)"
proof -
  have "js_shl (int h) 4 = int h * 16" using assms(1) by (subst js_shl_mult) simp_all
  moreover have "int l OR (int h * 16) = int l + int h * 16"
    using or_disjoint_add [of "int l" 4 "int h"] assms(2) by simp
  ultimately have "js_or (js_shl (int h) 4) (int l) = int (16 * h + l)"
    using assms by (simp add: js_or_def or.commute toInt32_nonneg)
  then show ?thesis by (simp add: toByte_def)
qed

lemma unat_div_16: "unat (b :: byte) div 16 < 16"
  using unat_byte_less [of b] by (simp add: less_mult_imp_div_less)

lemma hexLoop_bytesToHex: "hexLoop i (bytesToHex bs) = Inr bs"
proof (induction bs arbitrary: i)
  case (Cons b bs)
  have "toByte (js_or (js_shl (int (unat b div 16)) 4) (int (unat b mod 16))) = b"
    using unat_div_16 [of b] by (subst nibbles_byte) simp_all
  then show ?case using Cons unat_div_16 [of b] by simp
qed simp

lemma bytesToHex_hexLoop: "even (length h) \<Longrightarrow> hexLoop i h = Inr bs \<Longrightarrow> bytesToHex bs = h"
proof (induction i h arbitrary: bs rule: hexLoop.induct)
  case (1 i c d rest)
  let ?c = "parseHexDigit c" and ?d = "parseHexDigit d"
  from 1(3) obtain bs' where ok: "?c \<noteq> - 1" "?d \<noteq> - 1" and r: "hexLoop (i + 2) rest = Inr bs'"
    and bs: "bs = toByte (js_or (js_shl ?c 4) ?d) # bs'"
    by (auto simp: Let_def bindE_Inr_iff split: if_splits)
  obtain x where x: "x < 16" "c = hexDigit x" "?c = int x" using hexDigit_parseHexDigit [OF ok(1)] by blast
  obtain y where y: "y < 16" "d = hexDigit y" "?d = int y" using hexDigit_parseHexDigit [OF ok(2)] by blast
  have "bytesToHex bs' = rest" using 1(1) [OF refl refl] 1(2) ok r by simp
  moreover have "unat (of_nat (16 * x + y) :: byte) = 16 * x + y"
    using x y by (simp only: unat_byte_of_nat) simp
  ultimately show ?case using bs x y by (simp add: nibbles_byte del: of_nat_add of_nat_mult)
qed auto

lemma compareBytes_zero [simp]: "compareBytes a b = 0 \<longleftrightarrow> a = b"
  by (induction a b rule: compareBytes.induct) (auto simp: u8_inject)

lemma u8_less_iff: "u8 a < u8 b \<longleftrightarrow> a < b"
  by (simp add: u8_def word_less_def)

lemma compareBytes_less: "compareBytes a b < 0 \<longleftrightarrow> ord_class.lexordp a b"
proof (induction a b rule: compareBytes.induct)
  case (1 a as b bs)
  then show ?case using u8_less_iff [of a b] u8_less_iff [of b a] by (cases "a = b") auto
qed simp_all

lemma compareBytes_swap: "compareBytes b a = - compareBytes a b"
proof (induction a b rule: compareBytes.induct)
  case (1 a as b bs)
  then show ?case by (cases "a = b") simp_all
qed simp_all

lemma bytesEqual_eq [simp]: "bytesEqual a b \<longleftrightarrow> a = b"
  unfolding bytesEqual_def list_all_iff by (auto intro: nth_equalityI)

lemma compareBytes_le: "compareBytes a b \<le> 0 \<longleftrightarrow> ord_class.lexordp_eq a b"
  using compareBytes_less [of a b] compareBytes_zero [of a b]
  by (metis lexordp_conv_lexordp_eq lexordp_eq_conv_lexord lexordp_eq_refl order.order_iff_strict)

lemma concatBytes_concat [simp]: "concatBytes parts = concat parts"
  using blit_fold_concat [of parts "length (concat parts)" "[]"]
  by (simp add: concatBytes_def foldl_length_sum)

lemma hexToBytes_hex [simp]: "hexToBytes (bytesToHex bs) = Inr bs"
  by (simp add: hexToBytes_def hexLoop_bytesToHex)

lemma compareBytes_consistent: "consistent (\<lambda>a b. compareBytes (f a) (f b)) A"
  unfolding consistent_def compareBytes_le
  using lexordp_eq_linear lexordp_eq_trans by blast

section \<open>Properties\<close>

text \<open>\<open>bytesToHex\<close> and \<open>hexToBytes\<close> are inverse bijections between byte strings and the even-length
  strings of lowercase hexadecimal digits: decoding the hexadecimal of a byte string gives it back,
  and whatever \<open>hexToBytes\<close> accepts is exactly the hexadecimal of its result.\<close>

theorem hex_bijection: "hexToBytes h = Inr bs \<longleftrightarrow> h = bytesToHex bs"
proof
  assume "hexToBytes h = Inr bs"
  then have "even (length h)" "hexLoop 0 h = Inr bs"
    by (auto simp: hexToBytes_def split: if_splits)
  then show "h = bytesToHex bs" by (simp add: bytesToHex_hexLoop)
qed (simp add: hexToBytes_def hexLoop_bytesToHex)

text \<open>\<open>compareBytes\<close> is a total order on byte strings, the lexicographic one: its sign is negative
  exactly when the first argument is lexicographically smaller, zero exactly on equal arguments,
  and swapping the arguments negates it.\<close>

theorem compareBytes_lexicographic:
  "(compareBytes a b < 0 \<longleftrightarrow> ord_class.lexordp a b) \<and> (compareBytes a b = 0 \<longleftrightarrow> a = b) \<and>
   compareBytes b a = - compareBytes a b"
  by (intro conjI compareBytes_less compareBytes_zero compareBytes_swap)

end
