(* ===== verification/TextCodec.thy ===== *)
theory TextCodec
  imports Encoding
begin

text \<open>
  Correctness of the text half of \<open>objects/encoding.ts\<close>: the sequence scanner accepts exactly the
  well-formed UTF-8 sequences, the surrogate-escape codec loses no byte, and a rendered header
  block parses back into its headers.
\<close>

section \<open>The sequence scanner and the escape codec\<close>

lemma byteAt_drop: "at \<le> length bs \<Longrightarrow> byteAt bs (at + i) = byteAt (drop at bs) i"
  by (auto simp: byteAt_def)

lemma byteAt_Cons [simp]:
  "byteAt (w # bs) 0 = Some (unat w)" "byteAt (w # bs) (Suc i) = byteAt bs i" "byteAt [] i = None"
  by (simp_all add: byteAt_def)

lemma byteAt_Cons_numeral [simp]: "byteAt (w # bs) (numeral k) = byteAt bs (pred_numeral k)"
  by (simp add: numeral_eq_Suc)

lemma isContinuation_byteAt: "isContinuation (Some (unat w)) = isCont w" "\<not> isContinuation None"
  by (simp_all add: isContinuation_def isCont_def)

lemma sequence_length_0: "wellFormedSequenceLength bs 0 = utf8_len bs"
proof (cases bs)
  case Nil
  then show ?thesis by (simp add: wellFormedSequenceLength_def)
next
  case (Cons a r)
  consider "unat a \<le> 127" | "194 \<le> unat a" "unat a \<le> 223" | "224 \<le> unat a" "unat a \<le> 239"
    | "240 \<le> unat a" "unat a \<le> 244" | "127 < unat a" "unat a < 194 \<or> 244 < unat a" by linarith
  then show ?thesis
  proof cases
    case 1
    then show ?thesis using Cons by (simp add: wellFormedSequenceLength_def expectedLength_def utf8_len.simps)
  next
    case 2
    then show ?thesis using Cons
      by (cases r) (auto simp: wellFormedSequenceLength_def expectedLength_def utf8_len.simps
          secondByteRange_def isCont_def Let_def)
  next
    case 3
    then have e: "expectedLength (unat a) = 3"
      "secondByteRange (unat a) = (if unat a = 224 then 160 else 128, if unat a = 237 then 159 else 191)"
      by (auto simp: expectedLength_def secondByteRange_def)
    have u: "[2..<3] = [Suc (Suc 0)]" by (simp add: upt_rec)
    show ?thesis using Cons 3
      by (cases r; cases "List.tl r")
        (simp_all add: wellFormedSequenceLength_def e u utf8_len.simps isContinuation_byteAt Let_def
          split: if_splits)
  next
    case 4
    then have e: "expectedLength (unat a) = 4"
      "secondByteRange (unat a) = (if unat a = 240 then 144 else 128, if unat a = 244 then 143 else 191)"
      by (auto simp: expectedLength_def secondByteRange_def)
    have u: "[2..<4] = [Suc (Suc 0), Suc (Suc (Suc 0))]" by (simp add: upt_rec)
    show ?thesis using Cons 4
      by (cases r; cases "List.tl r"; cases "List.tl (List.tl r)")
        (simp_all add: wellFormedSequenceLength_def e u utf8_len.simps isContinuation_byteAt Let_def
          split: if_splits)
  next
    case 5
    then show ?thesis using Cons
      by (auto simp: wellFormedSequenceLength_def expectedLength_def utf8_len.simps Let_def)
  qed
qed

lemma wellFormedSequenceLength_eq:
  assumes "at \<le> length bs"
  shows "wellFormedSequenceLength bs at = utf8_len (drop at bs)"
proof -
  have "wellFormedSequenceLength bs at = wellFormedSequenceLength (drop at bs) 0"
    unfolding wellFormedSequenceLength_def add_0 byteAt_drop [OF assms]
      byteAt_drop [OF assms, of 0, unfolded add_0_right] by (rule refl)
  then show ?thesis by (simp add: sequence_length_0)
qed

text \<open>What both directions of the escape codec compute, sequence by sequence.\<close>

function escapeSpec :: "bytes \<Rightarrow> jsstr" where
  "escapeSpec [] = []"
| "escapeSpec (w # bs) =
     (let n = utf8_len (w # bs) in
      if n = 0 then (56320 + unat w) # escapeSpec bs
      else utf8_decode (take n (w # bs)) @ escapeSpec (drop n (w # bs)))"
  by pat_completeness auto
termination by (relation "measure length") auto

declare escapeSpec.simps(2) [simp del]

fun unescapeSpec :: "jsstr \<Rightarrow> bytes" where
  "unescapeSpec [] = []"
| "unescapeSpec [u] =
     (if isEscapeUnit u then [of_nat (u - 56320)]
      else utf8_scalar (if isHigh u \<or> isLow u then 65533 else u))"
| "unescapeSpec (u # v # us) =
     (if isHigh u \<and> isLow v then utf8_scalar (surrogatePair u v) @ unescapeSpec us
      else if isEscapeUnit u then of_nat (u - 56320) # unescapeSpec (v # us)
      else utf8_scalar (if isHigh u \<or> isLow u then 65533 else u) @ unescapeSpec (v # us))"

lemma escape_not_high: "isEscapeUnit u \<Longrightarrow> \<not> isHigh u"
  by (auto simp: isEscapeUnit_def isHigh_def)

lemma escape_low: "isEscapeUnit u \<Longrightarrow> isLow u"
  by (auto simp: isEscapeUnit_def isLow_def)

lemma unescapeSpec_unit16: "unit16 us \<Longrightarrow> unescapeSpec (us @ rest) = utf8_encode us @ unescapeSpec rest"
  by (cases rest) (auto simp: unit16_def dest: escape_low)

lemma unescapeSpec_escape: "isEscapeUnit u \<Longrightarrow> unescapeSpec (u # us) = of_nat (u - 56320) # unescapeSpec us"
  by (cases us) (auto dest: escape_not_high)

lemma unescape_escape: "unescapeSpec (escapeSpec bs) = bs"
proof (induction bs rule: escapeSpec.induct)
  case (2 w bs)
  show ?case
  proof (cases "utf8_len (w # bs) = 0")
    case True
    have "isEscapeUnit (56320 + unat w)"
      using utf8_len_0_lead [OF True] unat_byte_less [of w] unfolding isEscapeUnit_def by linarith
    then have "unescapeSpec ((56320 + unat w) # escapeSpec bs) = w # unescapeSpec (escapeSpec bs)"
      by (subst unescapeSpec_escape) simp_all
    then show ?thesis using 2(1) True by (simp add: escapeSpec.simps)
  next
    case False
    let ?seq = "take (utf8_len (w # bs)) (w # bs)"
    obtain us where d: "decodes_to ?seq us" using utf8_len_sequence [OF False] by blast
    then have "utf8_decode (?seq @ []) = us @ utf8_decode []" unfolding decodes_to_def by blast
    then have e: "utf8_decode ?seq = us" by simp
    have "unescapeSpec (escapeSpec (w # bs)) = unescapeSpec (us @ escapeSpec (drop (utf8_len (w # bs)) (w # bs)))"
      using False e by (simp add: escapeSpec.simps(2) [of w bs] Let_def)
    also have "\<dots> = utf8_encode us @ unescapeSpec (escapeSpec (drop (utf8_len (w # bs)) (w # bs)))"
      using d unescapeSpec_unit16 by (simp add: decodes_to_def)
    also have "\<dots> = ?seq @ drop (utf8_len (w # bs)) (w # bs)"
      using d 2(2) [OF refl False] by (simp add: decodes_to_def)
    finally show ?thesis by simp
  qed
qed simp

text \<open>The decoding loop.\<close>

definition splitsOff :: "bytes \<Rightarrow> bool" where
  "splitsOff pre \<longleftrightarrow> (\<forall>rest. utf8_decode (pre @ rest) = utf8_decode pre @ utf8_decode rest)"

lemma splitsOff_Nil: "splitsOff []"
  by (simp add: splitsOff_def)

lemma splitsOff_sequence:
  assumes "splitsOff pre" "decodes_to seq us"
  shows "splitsOff (pre @ seq)" "utf8_decode (pre @ seq) = utf8_decode pre @ utf8_decode seq"
proof -
  have "utf8_decode (seq @ rest) = utf8_decode seq @ utf8_decode rest" for rest
    using assms(2) decodes_to_def [of seq us] by (metis append_Nil2 decode_Nil)
  then show "splitsOff (pre @ seq)" "utf8_decode (pre @ seq) = utf8_decode pre @ utf8_decode seq"
    using assms(1) by (simp_all add: splitsOff_def)
qed

lemma escapeLoop_eq:
  "runStart \<le> at \<Longrightarrow> at \<le> length bs \<Longrightarrow> splitsOff (subarray bs runStart at) \<Longrightarrow>
    escapeLoop bs result runStart at
      = result @ utf8_decode (subarray bs runStart at) @ escapeSpec (drop at bs)"
proof (induction bs result runStart at rule: escapeLoop.induct)
  case (1 bs result runStart at)
  show ?case
  proof (cases "at < length bs")
    case False
    then have "drop runStart bs = subarray bs runStart at" "drop at bs = []"
      using 1(4) by (simp_all add: subarray_def)
    then show ?thesis using False
      by (simp add: escapeLoop.simps [of bs result runStart at] decodePreservingBom_def)
  next
    case lt: True
    let ?n = "wellFormedSequenceLength bs at"
    have n: "?n = utf8_len (drop at bs)" using lt by (simp add: wellFormedSequenceLength_eq)
    have d: "drop at bs = bs ! at # drop (Suc at) bs" using lt by (simp add: Cons_nth_drop_Suc)
    show ?thesis
    proof (cases "?n = 0")
      case True
      have "escapeLoop bs result runStart at = escapeLoop bs
          (result @ utf8_decode (subarray bs runStart at) @ [56320 + unat (bs ! at)]) (at + 1) (at + 1)"
        using lt True by (simp add: escapeLoop.simps [of bs result runStart at] decodePreservingBom_def)
      also have "\<dots> = (result @ utf8_decode (subarray bs runStart at) @ [56320 + unat (bs ! at)])
          @ escapeSpec (drop (at + 1) bs)"
        using 1(2) [OF lt refl] True lt by (simp add: splitsOff_Nil decodePreservingBom_def)
      also have "escapeSpec (drop at bs) = (56320 + unat (bs ! at)) # escapeSpec (drop (at + 1) bs)"
        using True n d by (simp add: escapeSpec.simps)
      ultimately show ?thesis by simp
    next
      case False
      have fit: "at + ?n \<le> length bs" using utf8_len_decodes [of "drop at bs"] False n lt by auto
      obtain us where us: "decodes_to (take ?n (drop at bs)) us"
        using utf8_len_sequence [of "drop at bs"] False n by metis
      have sub: "subarray bs runStart (at + ?n) = subarray bs runStart at @ take ?n (drop at bs)"
        using subarray_split [of runStart at "at + ?n" bs] 1(3) by (simp add: subarray_def)
      note so = splitsOff_sequence [OF 1(5) us]
      have "escapeLoop bs result runStart at = escapeLoop bs result runStart (at + ?n)"
        using lt False by (simp add: escapeLoop.simps [of bs result runStart at])
      also have "\<dots> = result @ utf8_decode (subarray bs runStart (at + ?n)) @ escapeSpec (drop (at + ?n) bs)"
        using 1(1) [OF lt refl] False 1(3) fit so sub by simp
      also have "\<dots> = result @ utf8_decode (subarray bs runStart at)
          @ utf8_decode (take ?n (drop at bs)) @ escapeSpec (drop ?n (drop at bs))"
        using sub so by (simp add: add.commute)
      also have "utf8_decode (take ?n (drop at bs)) @ escapeSpec (drop ?n (drop at bs)) = escapeSpec (drop at bs)"
        using False n d escapeSpec.simps(2) [of "bs ! at" "drop (Suc at) bs"] by (simp add: Let_def)
      finally show ?thesis .
    qed
  qed
qed

text \<open>The encoding loop.\<close>

fun loneFree :: "bool \<Rightarrow> jsstr \<Rightarrow> bool" where
  "loneFree prevHigh [] = True"
| "loneFree prevHigh (u # us) = ((isEscapeUnit u \<longrightarrow> prevHigh) \<and> loneFree (isHigh u) us)"

lemma loneFree_append:
  "loneFree h (us @ [u]) \<longleftrightarrow> loneFree h us \<and> (isEscapeUnit u \<longrightarrow> (if us = [] then h else isHigh (last us)))"
  by (induction us arbitrary: h) auto

lemma loneFree_mono: "loneFree False us \<Longrightarrow> loneFree h us"
  by (cases us) auto

lemma unescapeSpec_run:
  "loneFree False pre \<Longrightarrow> pre = [] \<or> \<not> isHigh (last pre) \<or> rest = [] \<Longrightarrow>
    unescapeSpec (pre @ rest) = utf8_encode pre @ unescapeSpec rest"
proof (induction pre rule: utf8_encode.induct)
  case (2 u)
  then show ?case by (cases rest) auto
next
  case (3 u v us)
  show ?case
  proof (cases "isHigh u \<and> isLow v")
    case True
    then have nv: "\<not> isHigh v" by (auto simp: isHigh_def isLow_def)
    have "loneFree False us" using 3(3) nv by simp
    moreover have "us = [] \<or> \<not> isHigh (last us) \<or> rest = []" using 3(4) by (cases "us = []") auto
    ultimately show ?thesis using 3(1) True by simp
  next
    case False
    have "\<not> isEscapeUnit u" using 3(3) by auto
    moreover have "loneFree False (v # us)" using 3(3) False escape_low by auto
    moreover have "v # us = [] \<or> \<not> isHigh (last (v # us)) \<or> rest = []" using 3(4) by auto
    ultimately show ?thesis using 3(2) [OF False] False by auto
  qed
qed simp

lemma isHighSurrogate_eq: "isHighSurrogate = isHigh"
  by (simp add: fun_eq_iff isHighSurrogate_def isHigh_def)

lemma unescapeLoop_eq:
  assumes "runStart \<le> i" "i \<le> length text" "loneFree False (subarray text runStart i)"
    and "runStart = 0 \<or> \<not> isHigh (text ! (runStart - 1))"
  shows "concat (unescapeLoop text [i..<length text] parts runStart)
    = concat parts @ unescapeSpec (drop runStart text)"
  using assms
proof (induction "length text - i" arbitrary: i parts runStart)
  case 0
  then have "drop runStart text = subarray text runStart i" by (simp add: subarray_def)
  then show ?case using 0 unescapeSpec_run [of "drop runStart text" "[]"] by (simp add: encode_def)
next
  case (Suc n)
  then have lt: "i < length text" by simp
  define pre u where "pre = subarray text runStart i" and "u = text ! i"
  have dr: "drop runStart text = pre @ u # drop (i + 1) text"
    unfolding pre_def u_def subarray_def using Suc.prems(1) lt
    by (metis Cons_nth_drop_Suc Suc_eq_plus1 append_take_drop_id drop_drop le_add_diff_inverse2)
  have pre': "subarray text runStart (i + 1) = pre @ [u]"
    using subarray_split [of runStart i "i + 1" "text"] subarray_Suc [of i "i + 1" "text"] Suc.prems(1) lt
    by (simp add: pre_def u_def)
  have pre0: "pre = [] \<longleftrightarrow> runStart = i"
    using Suc.prems(1) lt by (auto simp: pre_def subarray_def)
  have lastpre: "last pre = text ! (i - 1)" if "pre \<noteq> []"
  proof -
    have "runStart < i" using that pre0 Suc.prems(1) by simp
    then show ?thesis using that lt by (simp add: pre_def last_conv_nth nth_subarray)
  qed
  have upt: "[i..<length text] = i # [i + 1..<length text]" using lt by (simp add: upt_rec)
  show ?case
  proof (cases "isEscapeUnit u \<and> \<not> (0 < i \<and> isHigh (text ! (i - 1)))")
    case True
    then have esc: "\<not> (u < 56448 \<or> 56575 < u)" by (auto simp: isEscapeUnit_def)
    have isrun: "pre = [] \<or> \<not> isHigh (last pre)"
      using True lastpre pre0 Suc.prems(1) by (cases "pre = []") auto
    have "unescapeSpec (drop runStart text) = utf8_encode pre @ of_nat (u - 56320) # unescapeSpec (drop (i + 1) text)"
      using unescapeSpec_run [of pre "u # drop (i + 1) text"] isrun Suc.prems(3) True
      by (simp add: dr pre_def unescapeSpec_escape)
    moreover have "\<not> isHigh (text ! (i + 1 - 1))" using True escape_not_high by (simp add: u_def)
    ultimately show ?thesis
      using True esc Suc.hyps(1) [of "i + 1" "i + 1"] Suc.hyps(2) lt
      by (auto simp: upt Let_def isHighSurrogate_eq encode_def pre_def u_def)
  next
    case False
    have "loneFree False (subarray text runStart (i + 1))"
      unfolding pre' loneFree_append using False Suc.prems(3,4) lastpre pre0
      by (auto simp: pre_def)
    then have "concat (unescapeLoop text [i + 1..<length text] parts runStart)
        = concat parts @ unescapeSpec (drop runStart text)"
      using Suc.hyps(2) Suc.prems lt by (intro Suc.hyps(1)) auto
    moreover have "u < 56448 \<or> 56575 < u \<or> (0 < i \<and> isHigh (text ! (i - 1)))"
      using False by (auto simp: isEscapeUnit_def)
    ultimately show ?thesis by (auto simp: upt Let_def isHighSurrogate_eq u_def)
  qed
qed

lemma loneFree_iff: "loneFree False text \<longleftrightarrow> \<not> hasEscapedBytes text"
proof -
  have "i \<le> length text \<Longrightarrow> loneFree False (take i text) \<longleftrightarrow> (\<forall>j < i. \<not> loneEscapeAt text j)" for i
  proof (induction i)
    case (Suc i)
    have "take i text = [] \<longleftrightarrow> i = 0" using Suc.prems by auto
    moreover have "last (take i text) = text ! (i - 1)" if "i \<noteq> 0"
      using that Suc.prems by (subst last_conv_nth) (auto simp: min_def)
    ultimately show ?case
      using Suc by (auto simp: take_Suc_conv_app_nth loneFree_append loneEscapeAt_def
          isHighSurrogate_eq less_Suc_eq)
  qed simp
  from this [of "length text"] show ?thesis
    by (auto simp: hasEscapedBytes_def list_ex_iff)
qed

lemma noLone_loneFree: "noLone us \<Longrightarrow> loneFree False us"
proof (induction us rule: noLone.induct)
  case (3 u v us)
  then show ?case
    by (cases "isHigh u") (auto dest: escape_low escape_not_high simp: isHigh_def isLow_def)
qed (auto dest: escape_low)

lemma encodeEscaped_eq: "encodeEscaped text = unescapeSpec text"
proof (cases "hasEscapedBytes text")
  case False
  then show ?thesis
    using unescapeSpec_run [of "text" "[]"] loneFree_iff by (simp add: encodeEscaped_def encode_def)
next
  case True
  then show ?thesis
    using unescapeLoop_eq [of 0 0 "text" "[]"] by (simp add: encodeEscaped_def)
qed


section \<open>Header blocks\<close>

lemma continuationLines_append:
  assumes "rest = [] \<or> \<not> startsWith (hd rest) [32]"
  shows "continuationLines (map ((#) 32) ps @ rest) = (ps, rest)"
  using assms by (induction ps) (cases rest; auto)+

lemma parseHeaderLine_key: "32 \<notin> set k \<Longrightarrow> parseHeaderLine (k @ 32 # v) = (k, v)"
  using indexOfUnit_append [of 32 k 0 "[]" v] by (simp add: parseHeaderLine_def)

definition headerKeyOk :: "jsstr \<Rightarrow> bool" where
  "headerKeyOk k \<longleftrightarrow> k \<noteq> [] \<and> 10 \<notin> set k \<and> 32 \<notin> set k"

lemma formatContinuationHeader_lines:
  assumes "formatContinuationHeader k v = Inr l"
  obtains p ps where "splitUnit 10 l = (k @ 32 # p) # map ((#) 32) ps" "joinUnit 10 (p # ps) = v"
    "headerKeyOk k"
proof -
  obtain p ps where s: "splitUnit 10 v = p # ps" by (metis neq_Nil_conv splitUnit_nonempty)
  have k: "headerKeyOk k" using assms by (auto simp: formatContinuationHeader_def headerKeyOk_def split: if_splits)
  have l: "l = joinUnit 10 ((k @ 32 # p) # map ((#) 32) ps)"
    using assms s by (auto simp: formatContinuationHeader_def Let_def split: if_splits)
  have n: "10 \<notin> set w" if "w \<in> set (p # ps)" for w
    using splitUnit_no_sep [of w 10 v] s that by simp
  have "splitUnit 10 l = (k @ 32 # p) # map ((#) 32) ps"
    unfolding l using k n by (intro splitUnit_joinUnit) (auto simp: list_all_iff headerKeyOk_def)
  moreover have "joinUnit 10 (p # ps) = v" using s joinUnit_splitUnit [of 10 v] by simp
  ultimately show thesis using k that by blast
qed

lemma optionalHeaderLoop_step:
  assumes "headerKeyOk k" "joinUnit 10 (p # ps) = v" "rest = [] \<or> \<not> startsWith (hd rest) [32]"
  shows "optionalHeaderLoop ((k @ 32 # p) # map ((#) 32) ps @ rest) e1 e2 gpg extra =
    (if k = jslit ''gpgsig'' then
       if gpg \<noteq> None then Inl (e2 ''duplicate gpgsig header'')
       else optionalHeaderLoop rest e1 e2 (Some v) extra
     else optionalHeaderLoop rest e1 e2 gpg (extra @ [(k, v)]))"
  using assms continuationLines_append [OF assms(3)] parseHeaderLine_key [of k p]
  by (simp add: headerKeyOk_def Let_def)

lemma optionalHeaderLoop_headers:
  assumes "list_all2 (\<lambda>(k, v) l. formatContinuationHeader k v = Inr l) hs ls"
    and "length (filter (\<lambda>(k, v). k = jslit ''gpgsig'') hs) + (if gpg = None then 0 else 1) \<le> 1"
  shows "optionalHeaderLoop (concat (map (splitUnit 10) ls)) e1 e2 gpg extra =
    Inr (case find (\<lambda>(k, v). k = jslit ''gpgsig'') hs of None \<Rightarrow> gpg | Some (k, v) \<Rightarrow> Some v,
      extra @ filter (\<lambda>(k, v). k \<noteq> jslit ''gpgsig'') hs)"
  using assms
proof (induction hs ls arbitrary: gpg extra rule: list_all2_induct)
  case (Cons h hs l ls)
  obtain k v where h: "h = (k, v)" by (cases h)
  obtain p ps where l: "splitUnit 10 l = (k @ 32 # p) # map ((#) 32) ps" "joinUnit 10 (p # ps) = v"
      "headerKeyOk k"
    using formatContinuationHeader_lines [of k v l] Cons.hyps(1) h by auto
  let ?rest = "concat (map (splitUnit 10) ls)"
  have rest: "?rest = [] \<or> \<not> startsWith (hd ?rest) [32]"
  proof (cases ls)
    case Nil
    then show ?thesis by simp
  next
    case (Cons l2 ls2)
    then obtain k2 v2 where "formatContinuationHeader k2 v2 = Inr l2"
      using \<open>list_all2 _ hs ls\<close> by (cases hs) auto
    then obtain p2 ps2 where "splitUnit 10 l2 = (k2 @ 32 # p2) # map ((#) 32) ps2" "headerKeyOk k2"
      using formatContinuationHeader_lines by metis
    then show ?thesis using Cons by (cases k2) (auto simp: headerKeyOk_def)
  qed
  have none: "find (\<lambda>(k, v). k = jslit ''gpgsig'') hs = None" if "k = jslit ''gpgsig''"
    using Cons.prems that h
    by (auto simp: find_None_iff filter_empty_conv split: if_splits)
  show ?case
  proof (cases "k = jslit ''gpgsig''")
    case True
    then have "gpg = None" "length (filter (\<lambda>(k, v). k = jslit ''gpgsig'') hs) + 1 \<le> 1"
      using Cons.prems h by (auto split: if_splits)
    then show ?thesis
      using True none Cons.IH [of "Some v" extra] optionalHeaderLoop_step [OF l(3,2) rest] h l(1)
      by simp
  next
    case False
    then show ?thesis
      using Cons.IH [of gpg "extra @ [(k, v)]"] optionalHeaderLoop_step [OF l(3,2) rest] h l(1) Cons.prems
      by simp
  qed
qed simp

section \<open>Properties\<close>

text \<open>C37: Decoding arbitrary bytes into a string with surrogate escapes and encoding it back is
  lossless: every byte string, well-formed UTF-8 or not, comes back unchanged, through the lossless
  shortcut as well as through the escaping loop.\<close>

theorem escape_roundtrip: "encodeEscaped (decodeEscapingInvalid bs) = bs"
proof (cases "decodesLosslessly (decodePreservingBom bs) bs")
  case True
  have "utf8_encode (utf8_decode bs) = bs"
    using True encode_decode_lossless
    by (auto simp: decodesLosslessly_def decodePreservingBom_def encode_def)
  moreover have "\<not> hasEscapedBytes (utf8_decode bs)"
    using noLone_loneFree [OF noLone_decode] loneFree_iff by blast
  ultimately show ?thesis
    using True by (simp add: decodeEscapingInvalid_def encodeEscaped_def encode_def decodePreservingBom_def)
next
  case False
  then show ?thesis
    using escapeLoop_eq [of 0 0 bs "[]"] splitsOff_Nil unescape_escape
    by (simp add: decodeEscapingInvalid_def encodeEscaped_eq)
qed

text \<open>A block of continuation headers parses back: when every header renders with
  \<open>formatContinuationHeader\<close> and at most one of them is \<open>gpgsig\<close>, \<open>parseOptionalHeaderBlock\<close> on the
  lines of the block returns the signature and all other headers, in order, multi-line values
  included.\<close>

theorem header_block_roundtrip:
  assumes "list_all2 (\<lambda>(k, v) l. formatContinuationHeader k v = Inr l) hs ls"
    and "length (filter (\<lambda>(k, v). k = jslit ''gpgsig'') hs) \<le> 1"
  shows "parseOptionalHeaderBlock (concat (map (splitUnit 10) ls)) 0 e1 e2 =
    Inr (map_option snd (find (\<lambda>(k, v). k = jslit ''gpgsig'') hs),
      filter (\<lambda>(k, v). k \<noteq> jslit ''gpgsig'') hs)"
  using optionalHeaderLoop_headers [of hs ls None e1 e2 "[]"] assms
  by (simp add: parseOptionalHeaderBlock_def split: option.splits)

theorem header_block_roundtrip_witness:
  "parseOptionalHeaderBlock [jslit ''gpgsig ab'', jslit '' cd'', jslit ''mergetag x''] 0
      (\<lambda>_. RangeError) (\<lambda>_. RangeError)
    = Inr (Some (jslit ''ab'' @ [10] @ jslit ''cd''), [(jslit ''mergetag'', jslit ''x'')])"
  using header_block_roundtrip [of "[(jslit ''gpgsig'', jslit ''ab'' @ [10] @ jslit ''cd''), (jslit ''mergetag'', jslit ''x'')]"
      "[jslit ''gpgsig ab'' @ [10] @ jslit '' cd'', jslit ''mergetag x'']" "\<lambda>_. RangeError" "\<lambda>_. RangeError"]
  by (simp add: jslit_def formatContinuationHeader_def)

end
