(* ===== verification/ObjectIds.thy ===== *)
theory ObjectIds
  imports Encoding
begin

text \<open>
  \<open>objects/hash-config.ts\<close> and \<open>objects/object-id.ts\<close>: the two hash widths and the validated object
  ids, reference names and file paths, with the display sanitiser of \<open>domain/error.ts\<close> that the
  id refusal applies.
\<close>

section \<open>Hash configuration\<close>

datatype algorithm = Sha1 | Sha256

record hashConfig =
  algorithm :: algorithm
  digestLength :: nat
  hexLength :: nat

definition SHA1_CONFIG :: hashConfig where
  "SHA1_CONFIG = \<lparr>algorithm = Sha1, digestLength = 20, hexLength = 40\<rparr>"

definition SHA256_CONFIG :: hashConfig where
  "SHA256_CONFIG = \<lparr>algorithm = Sha256, digestLength = 32, hexLength = 64\<rparr>"

definition configFor :: "algorithm \<Rightarrow> hashConfig" where
  "configFor a = (if a = Sha256 then SHA256_CONFIG else SHA1_CONFIG)"

section \<open>Object ids\<close>

definition toUpperHex :: "nat \<Rightarrow> nat" where
  "toUpperHex c = (if 97 \<le> c \<and> c \<le> 122 then c - 32 else c)"

definition sanitizeForDisplay :: "jsstr \<Rightarrow> jsstr" where
  "sanitizeForDisplay s =
     foldl (\<lambda>out code.
       if code = 9 \<or> code = 10 \<or> (32 \<le> code \<and> code \<le> 126) then out @ [code]
       else out @ [92, 120] @ padStart (map toUpperHex (toStringRadix 16 code)) 2 48) [] s"

definition invalidObjectId :: "jsstr \<Rightarrow> tsgit_error" where
  "invalidObjectId value = InvalidObjectId (take 64 (sanitizeForDisplay value))"

definition isHexDigitCodeUnit :: "nat \<Rightarrow> bool" where
  "isHexDigitCodeUnit codeUnit =
     (if 48 \<le> codeUnit \<and> codeUnit \<le> 57 then True else 97 \<le> codeUnit \<and> codeUnit \<le> 102)"

definition isValidObjectIdHex :: "jsstr \<Rightarrow> bool" where
  "isValidObjectIdHex hex =
     (if length hex \<noteq> 40 \<and> length hex \<noteq> 64 then False
      else list_all (\<lambda>i. isHexDigitCodeUnit (hex ! i)) [0..<length hex])"

type_synonym objectId = jsstr

definition ObjectId_from :: "jsstr \<Rightarrow> tsgit_error + objectId" where
  "ObjectId_from hex = (if \<not> isValidObjectIdHex hex then Inl (invalidObjectId hex) else Inr hex)"

definition ObjectId_fromTrustedHex :: "jsstr \<Rightarrow> tsgit_error + objectId" where
  "ObjectId_fromTrustedHex hex =
     (if length hex \<noteq> 40 \<and> length hex \<noteq> 64 then Inl (invalidObjectId hex) else Inr hex)"

definition ObjectId_fromRaw :: "bytes \<Rightarrow> tsgit_error + objectId" where
  "ObjectId_fromRaw bs =
     (if length bs \<noteq> 20 \<and> length bs \<noteq> 32
      then Inl (invalidObjectId
        (jslit ''raw bytes length '' @ toStringRadix 10 (length bs) @ jslit '' is not 20 or 32''))
      else Inr (bytesToHex bs))"

definition ZERO_OID :: objectId where
  "ZERO_OID = replicate 40 48"

definition ZERO_OID_SHA256 :: objectId where
  "ZERO_OID_SHA256 = replicate 64 48"

definition zeroOid :: "hashConfig \<Rightarrow> objectId" where
  "zeroOid config = (if algorithm config = Sha256 then ZERO_OID_SHA256 else ZERO_OID)"

definition EMPTY_TREE_OID :: objectId where
  "EMPTY_TREE_OID = jslit ''4b825dc642cb6eb9a060e54bf8d69288fbee4904''"

definition EMPTY_TREE_OID_SHA256 :: objectId where
  "EMPTY_TREE_OID_SHA256 = jslit ''6ef19b41225c5369f1c104d45d8d85efa9b057b53b14b4b9b939dd74decc5321''"

definition emptyTreeOid :: "hashConfig \<Rightarrow> objectId" where
  "emptyTreeOid config = (if algorithm config = Sha256 then EMPTY_TREE_OID_SHA256 else EMPTY_TREE_OID)"

definition EMPTY_BLOB_OID_SHA1 :: objectId where
  "EMPTY_BLOB_OID_SHA1 = jslit ''e69de29bb2d1d6434b8b29ae775ad8c2e48c5391''"

definition EMPTY_BLOB_OID_SHA256 :: objectId where
  "EMPTY_BLOB_OID_SHA256 = jslit ''473a0f4c3be8a93681a267e3b1e9a7dcda1185436fe141f7749120a303721813''"

definition emptyBlobOid :: "hashConfig \<Rightarrow> objectId" where
  "emptyBlobOid config = (if algorithm config = Sha256 then EMPTY_BLOB_OID_SHA256 else EMPTY_BLOB_OID_SHA1)"

definition RefName_from :: "jsstr \<Rightarrow> tsgit_error + jsstr" where
  "RefName_from name =
     (if name = [] then Inl (PlainError (Reason ''RefName must not be empty'' [])) else Inr name)"

definition FilePath_from :: "jsstr \<Rightarrow> tsgit_error + jsstr" where
  "FilePath_from path =
     (if path = [] then Inl (PlainError (Reason ''FilePath must not be empty'' [])) else Inr path)"

section \<open>Lemmas\<close>

lemma isHexDigitCodeUnit_iff: "isHexDigitCodeUnit c \<longleftrightarrow> parseHexDigit c \<noteq> - 1"
  by (auto simp: isHexDigitCodeUnit_def parseHexDigit_def)

lemma hexDigit_valid: "d < 16 \<Longrightarrow> isHexDigitCodeUnit (hexDigit d)"
  by (simp add: isHexDigitCodeUnit_iff)

lemma hex_chars: "c \<in> set (bytesToHex bs) \<Longrightarrow> isHexDigitCodeUnit c"
  using unat_div_16 by (induction bs) (auto intro: hexDigit_valid)

lemma hexLoop_total:
  "(\<And>c. c \<in> set h \<Longrightarrow> isHexDigitCodeUnit c) \<Longrightarrow> \<exists>bs. hexLoop i h = Inr bs"
proof (induction i h rule: hexLoop.induct)
  case (1 i a b rest)
  then have ok: "parseHexDigit a \<noteq> - 1" "parseHexDigit b \<noteq> - 1" by (simp_all add: isHexDigitCodeUnit_iff)
  obtain bs where "hexLoop (i + 2) rest = Inr bs" using 1(1) [OF refl refl] ok 1(2) by auto
  then show ?case using ok by simp
qed simp_all

lemma fromRaw_Inr: "ObjectId_fromRaw bs = Inr h \<longleftrightarrow> (length bs = 20 \<or> length bs = 32) \<and> h = bytesToHex bs"
  by (auto simp: ObjectId_fromRaw_def)

lemma validHex_iff: "isValidObjectIdHex h \<longleftrightarrow> (length h = 40 \<or> length h = 64) \<and> (\<forall>c\<in>set h. isHexDigitCodeUnit c)"
  by (auto simp: isValidObjectIdHex_def list_all_iff all_set_conv_all_nth)

lemma valid_id_raw:
  assumes "isValidObjectIdHex h"
  obtains bs where "h = bytesToHex bs" "hexToBytes h = Inr bs" "2 * length bs = length h"
proof -
  have ev: "even (length h)" using assms by (auto simp: validHex_iff)
  obtain bs where bs: "hexLoop 0 h = Inr bs" using hexLoop_total [of h 0] assms by (auto simp: validHex_iff)
  then have h: "bytesToHex bs = h" using ev by (simp add: bytesToHex_hexLoop)
  moreover have "hexToBytes h = Inr bs" using bs ev by (simp add: hexToBytes_def)
  moreover have "2 * length bs = length h" using length_bytesToHex [of bs] h by simp
  ultimately show thesis using that [of bs] by simp
qed

section \<open>Properties\<close>

text \<open>C39: \<open>ObjectId.from\<close> accepts exactly the ids that \<open>ObjectId.fromRaw\<close> can produce: a string passes the
  untrusted-input scan if and only if it is the hexadecimal of some 20- or 32-byte digest. So the
  scan \<open>fromRaw\<close> skips could never have refused its result.\<close>

theorem objectId_from_iff_raw:
  "ObjectId_from h = Inr h' \<longleftrightarrow> h' = h \<and> (\<exists>bs. ObjectId_fromRaw bs = Inr h)"
proof -
  have "isValidObjectIdHex h \<longleftrightarrow> (\<exists>bs. ObjectId_fromRaw bs = Inr h)"
  proof
    assume v: "isValidObjectIdHex h"
    then obtain bs where "h = bytesToHex bs" "2 * length bs = length h" by (rule valid_id_raw)
    moreover have "length h = 40 \<or> length h = 64" using v by (simp add: validHex_iff)
    ultimately show "\<exists>bs. ObjectId_fromRaw bs = Inr h" by (auto simp: fromRaw_Inr)
  next
    assume "\<exists>bs. ObjectId_fromRaw bs = Inr h"
    then show "isValidObjectIdHex h" by (auto simp: fromRaw_Inr validHex_iff dest: hex_chars)
  qed
  then show ?thesis by (auto simp: ObjectId_from_def)
qed

end
