(* ===== verification/FileMode.thy ===== *)
theory FileMode
  imports TextCodec ObjectIds
begin

text \<open>
  \<open>objects/file-mode.ts\<close>: the five modes of a tree entry, their validation from text and from the
  raw bytes of a tree, zero-padded spellings included.
\<close>

section \<open>Model\<close>

datatype fileMode = REGULAR | EXECUTABLE | SYMLINK | DIRECTORY | GITLINK

primrec FILE_MODE :: "fileMode \<Rightarrow> jsstr" where
  "FILE_MODE REGULAR = jslit ''100644''"
| "FILE_MODE EXECUTABLE = jslit ''100755''"
| "FILE_MODE SYMLINK = jslit ''120000''"
| "FILE_MODE DIRECTORY = jslit ''40000''"
| "FILE_MODE GITLINK = jslit ''160000''"

definition VALID_MODES :: "fileMode list" where
  "VALID_MODES = [REGULAR, EXECUTABLE, SYMLINK, DIRECTORY, GITLINK]"

definition validateFileMode :: "jsstr \<Rightarrow> tsgit_error + fileMode" where
  "validateFileMode mode =
     (case find (\<lambda>m. FILE_MODE m = mode) VALID_MODES of
        None \<Rightarrow> Inl (InvalidFileMode mode) | Some m \<Rightarrow> Inr m)"

text \<open>The shape both zero-skipping loops share: step over \<open>0\<close> while more than one digit is left.\<close>

fun dropZeros :: "'a \<Rightarrow> 'a list \<Rightarrow> 'a list" where
  "dropZeros z (x # y # xs) = (if x = z then dropZeros z (y # xs) else x # y # xs)"
| "dropZeros z xs = xs"

definition stripModeZeros :: "jsstr \<Rightarrow> jsstr" where
  "stripModeZeros mode = dropZeros 48 mode"

definition normalizeFileMode :: "jsstr \<Rightarrow> tsgit_error + fileMode" where
  "normalizeFileMode mode = validateFileMode (stripModeZeros mode)"

definition isDirectory :: "fileMode \<Rightarrow> bool" where
  "isDirectory mode = (mode = DIRECTORY)"

function skipModeZeros :: "bytes \<Rightarrow> nat \<Rightarrow> nat \<Rightarrow> nat" where
  "skipModeZeros buf i stop =
     (if i + 1 < stop \<and> byteAt buf i = Some 48 then skipModeZeros buf (i + 1) stop else i)"
  by pat_completeness auto
termination by (relation "measure (\<lambda>(buf, i, stop). stop - i)") auto

declare skipModeZeros.simps [simp del]

definition matchesBytes :: "bytes \<Rightarrow> nat \<Rightarrow> bytes \<Rightarrow> bool" where
  "matchesBytes buf start target =
     list_all (\<lambda>i. byteAt buf (start + i) = Some (unat (target ! i))) [0..<length target]"

definition matchSixByteMode :: "bytes \<Rightarrow> nat \<Rightarrow> fileMode option" where
  "matchSixByteMode buf start =
     (if matchesBytes buf start (encode (FILE_MODE REGULAR)) then Some REGULAR
      else if matchesBytes buf start (encode (FILE_MODE EXECUTABLE)) then Some EXECUTABLE
      else if matchesBytes buf start (encode (FILE_MODE SYMLINK)) then Some SYMLINK
      else if matchesBytes buf start (encode (FILE_MODE GITLINK)) then Some GITLINK
      else None)"

definition decodeModeForError :: "bytes \<Rightarrow> nat \<Rightarrow> nat \<Rightarrow> jsstr" where
  "decodeModeForError buf start stop =
     (if stop - start \<le> 16 then decode (subarray buf start stop)
      else decode (subarray buf start (start + 16)) @ [8230])"

definition matchFileModeBytes :: "bytes \<Rightarrow> nat \<Rightarrow> nat \<Rightarrow> tsgit_error + fileMode" where
  "matchFileModeBytes buf start stop =
     (let from = skipModeZeros buf start stop; len = stop - from in
      if len = 5 \<and> matchesBytes buf from (encode (FILE_MODE DIRECTORY)) then Inr DIRECTORY
      else case (if len = 6 then matchSixByteMode buf from else None) of
        Some m \<Rightarrow> Inr m
      | None \<Rightarrow> Inl (InvalidFileMode (decodeModeForError buf start stop)))"

record workingStat =
  isSymbolicLink :: bool
  stat_mode :: nat

definition deriveWorkingMode :: "workingStat \<Rightarrow> fileMode" where
  "deriveWorkingMode stat =
     (if isSymbolicLink stat then SYMLINK
      else if js_and (int (stat_mode stat)) 73 \<noteq> 0 then EXECUTABLE else REGULAR)"

section \<open>Lemmas\<close>

lemma find_Some_holds: "find P xs = Some x \<Longrightarrow> P x"
  by (induction xs) (auto split: if_splits)

lemma find_total: "x \<in> set xs \<Longrightarrow> P x \<Longrightarrow> \<exists>y. find P xs = Some y"
  by (induction xs) auto

lemma FILE_MODE_inject [simp]: "FILE_MODE a = FILE_MODE b \<longleftrightarrow> a = b"
  by (cases a; cases b) (simp_all add: jslit_def)

lemma validateFileMode_Inr: "validateFileMode s = Inr m \<longleftrightarrow> FILE_MODE m = s"
proof
  assume "validateFileMode s = Inr m"
  then have "find (\<lambda>m. FILE_MODE m = s) VALID_MODES = Some m"
    by (simp add: validateFileMode_def split: option.splits)
  then show "FILE_MODE m = s" by (rule find_Some_holds)
next
  assume s: "FILE_MODE m = s"
  have "m \<in> set VALID_MODES" by (cases m) (simp_all add: VALID_MODES_def)
  then obtain m' where "find (\<lambda>m. FILE_MODE m = s) VALID_MODES = Some m'"
    using find_total [of m VALID_MODES "\<lambda>m. FILE_MODE m = s"] s by blast
  moreover from this have "FILE_MODE m' = s" by (rule find_Some_holds)
  then have "m' = m" using s FILE_MODE_inject by metis
  ultimately show "validateFileMode s = Inr m" by (simp add: validateFileMode_def)
qed

lemma dropZeros_skip:
  assumes "start \<le> stop" "stop \<le> length buf"
  shows "subarray buf (skipModeZeros buf start stop) stop = dropZeros 48 (subarray buf start stop)"
    and "start \<le> skipModeZeros buf start stop"
proof -
  have "subarray buf (skipModeZeros buf start stop) stop = dropZeros 48 (subarray buf start stop) \<and>
      start \<le> skipModeZeros buf start stop"
    using assms
  proof (induction buf start stop rule: skipModeZeros.induct)
    case (1 buf i stop)
    show ?case
    proof (cases "i + 1 < stop")
      case True
      then have s: "subarray buf i stop = buf ! i # buf ! (i + 1) # subarray buf (i + 2) stop"
        "subarray buf (i + 1) stop = buf ! (i + 1) # subarray buf (i + 2) stop"
        using 1(3) subarray_Suc [of i stop buf] subarray_Suc [of "i + 1" stop buf] by simp_all
      have b: "byteAt buf i = Some 48 \<longleftrightarrow> buf ! i = 48"
      proof -
        have "unat (48 :: byte) = 48" by simp
        then show ?thesis using True 1(3) by (metis byteAt_def less_trans option.inject less_add_one unsigned_word_eqI less_le_trans)
      qed
      show ?thesis
      proof (cases "buf ! i = 48")
        case z: True
        then show ?thesis using 1 True s b by (simp add: skipModeZeros.simps [of buf i stop])
      next
        case False
        then show ?thesis using True s b by (simp add: skipModeZeros.simps [of buf i stop])
      qed
    next
      case False
      then have "length (subarray buf i stop) \<le> 1" by simp
      then have "dropZeros 48 (subarray buf i stop) = subarray buf i stop"
        by (cases "subarray buf i stop"; cases "List.tl (subarray buf i stop)") auto
      then show ?thesis using False by (simp add: skipModeZeros.simps [of buf i stop])
    qed
  qed
  then show "subarray buf (skipModeZeros buf start stop) stop = dropZeros 48 (subarray buf start stop)"
    and "start \<le> skipModeZeros buf start stop" by auto
qed

lemma byteAt_eq_unat: "byteAt buf i = Some (unat (w :: byte)) \<longleftrightarrow> i < length buf \<and> buf ! i = w"
  by (auto simp: byteAt_def word_unat_eq_iff)

lemma matchesBytes_iff:
  assumes "start + length target = stop" "stop \<le> length buf"
  shows "matchesBytes buf start target \<longleftrightarrow> subarray buf start stop = target"
proof -
  have "matchesBytes buf start target \<longleftrightarrow> (\<forall>i < length target. buf ! (start + i) = target ! i)"
    using assms by (auto simp: matchesBytes_def list_all_iff byteAt_eq_unat)
  also have "\<dots> \<longleftrightarrow> subarray buf start stop = target"
    using assms by (auto simp: list_eq_iff_nth_eq nth_subarray)
  finally show ?thesis .
qed

text \<open>The encodings of the modes.\<close>

definition modeBytes :: "fileMode \<Rightarrow> bytes" where
  "modeBytes m = map of_nat (FILE_MODE m)"

lemma FILE_MODE_ascii: "c \<in> set (FILE_MODE m) \<Longrightarrow> c < 128"
  by (cases m) (auto simp: jslit_def)

lemma utf8_encode_ascii: "(\<And>c. c \<in> set s \<Longrightarrow> c < 128) \<Longrightarrow> utf8_encode s = map of_nat s"
proof (induction s rule: utf8_encode.induct)
  case (3 u v us)
  have "u < 128" using "3.prems" by simp
  then have "\<not> isHigh u" "\<not> isLow u" by (auto simp: isHigh_def isLow_def)
  moreover from this have "utf8_encode (v # us) = map of_nat (v # us)" using "3.prems" by (intro "3.IH") auto
  ultimately show ?case using \<open>u < 128\<close> by (simp add: utf8_scalar_def)
qed (auto simp: isHigh_def isLow_def utf8_scalar_def)

lemma encode_mode [simp]: "encode (FILE_MODE m) = modeBytes m"
  using utf8_encode_ascii [of "FILE_MODE m"] FILE_MODE_ascii by (simp add: encode_def modeBytes_def)

lemma length_modeBytes: "length (modeBytes m) = (if m = DIRECTORY then 5 else 6)"
  by (cases m) (simp_all add: modeBytes_def)

lemma utf8_decode_ascii: "(\<And>w. w \<in> set bs \<Longrightarrow> unat w < 128) \<Longrightarrow> utf8_decode bs = map unat bs"
proof (induction bs)
  case (Cons w bs)
  then have "unat w \<le> 127" by fastforce
  then show ?case using Cons by (simp add: go_lead)
qed simp

lemma decode_ascii:
  assumes "\<And>w. w \<in> set bs \<Longrightarrow> unat w < 128"
  shows "decode bs = map unat bs"
proof -
  have "take 3 bs \<noteq> [239, 187, 191]" using assms [of 239] in_set_takeD [of 239 3 bs] by fastforce
  then show ?thesis using assms by (simp add: decode_def utf8_decode_bom_def utf8_decode_ascii)
qed

lemma dropZeros_map: "inj f \<Longrightarrow> dropZeros (f z) (map f xs) = map f (dropZeros z xs)"
  by (induction z xs rule: dropZeros.induct) (auto simp: inj_eq)

lemma modeBytes_inject [simp]: "modeBytes a = modeBytes b \<longleftrightarrow> a = b"
  by (cases a; cases b) (simp_all add: modeBytes_def jslit_def)

lemma map_unat_modeBytes: "map unat bs = FILE_MODE m \<longleftrightarrow> bs = modeBytes m"
proof
  assume "map unat bs = FILE_MODE m"
  then have "modeBytes m = map (of_nat \<circ> unat) bs" by (metis modeBytes_def map_map)
  then show "bs = modeBytes m" by (simp add: map_idI)
next
  assume "bs = modeBytes m"
  moreover have "map unat (modeBytes m) = FILE_MODE m"
    by (cases m) (simp_all add: modeBytes_def jslit_def)
  ultimately show "map unat bs = FILE_MODE m" by simp
qed

lemma matchFileModeBytes_Inr:
  assumes "start \<le> stop" "stop \<le> length buf"
  shows "matchFileModeBytes buf start stop = Inr m \<longleftrightarrow>
    dropZeros 48 (subarray buf start stop) = modeBytes m"
proof -
  define fr where "fr = skipModeZeros buf start stop"
  define d where "d = subarray buf fr stop"
  have d: "d = dropZeros 48 (subarray buf start stop)"
    unfolding d_def fr_def by (rule dropZeros_skip(1) [OF assms])
  have len: "length d = stop - fr" using assms(2) by (simp add: d_def)
  have m: "matchesBytes buf fr (modeBytes k) \<longleftrightarrow> d = modeBytes k" if "stop - fr = length (modeBytes k)" for k
    unfolding d_def using that assms(2) length_modeBytes [of k]
    by (intro matchesBytes_iff) (auto split: if_splits)
  show ?thesis
    unfolding matchFileModeBytes_def Let_def fr_def [symmetric] d [symmetric] matchSixByteMode_def encode_mode
    using m [of REGULAR] m [of EXECUTABLE] m [of SYMLINK] m [of DIRECTORY] m [of GITLINK] len
    by (cases m) (auto simp: length_modeBytes)
qed

lemma normalizeFileMode_Inr:
  assumes "\<And>w. w \<in> set bs \<Longrightarrow> unat w < 128"
  shows "normalizeFileMode (decode bs) = Inr m \<longleftrightarrow> dropZeros 48 bs = modeBytes m"
proof -
  have "inj (unat :: byte \<Rightarrow> nat)" by (simp add: inj_def word_unat_eq_iff)
  then have "dropZeros (unat (48 :: byte)) (map unat bs) = map unat (dropZeros 48 bs)" by (rule dropZeros_map)
  then show ?thesis
    using map_unat_modeBytes [of "dropZeros 48 bs" m] decode_ascii [OF assms]
    by (simp add: normalizeFileMode_def validateFileMode_Inr stripModeZeros_def) (metis (no_types))
qed

end
