(* ===== verification/TreeEntryBytes.thy ===== *)
theory TreeEntryBytes
  imports FileMode
begin

text \<open>
  \<open>objects/tree-entry-bytes.ts\<close>: the octal scan of a mode, the lossless name key, and git's fold of
  the names an HFS+ or NTFS file system would resolve to \<open>.git\<close> and its sibling files.
\<close>

section \<open>Model\<close>

definition hasNonOctalByte :: "bytes \<Rightarrow> nat \<Rightarrow> nat \<Rightarrow> bool" where
  "hasNonOctalByte buf start stop =
     list_ex (\<lambda>i. unat (buf ! i) < 48 \<or> 55 < unat (buf ! i)) [start..<stop]"

definition KEY_CHUNK_SIZE :: nat where
  "KEY_CHUNK_SIZE = 1024"

function keyLoop :: "bytes \<Rightarrow> nat \<Rightarrow> nat \<Rightarrow> jsstr \<Rightarrow> jsstr" where
  "keyLoop buf chunkStart stop key =
     (if chunkStart < stop then
        let chunkEnd = min (chunkStart + KEY_CHUNK_SIZE) stop
        in keyLoop buf (chunkStart + KEY_CHUNK_SIZE) stop (key @ map unat (subarray buf chunkStart chunkEnd))
      else key)"
  by pat_completeness auto
termination
  by (relation "measure (\<lambda>(buf, chunkStart, stop, key). stop - chunkStart)") (auto simp: KEY_CHUNK_SIZE_def)

declare keyLoop.simps [simp del]

definition entryNameKey :: "bytes \<Rightarrow> nat \<Rightarrow> nat \<Rightarrow> jsstr" where
  "entryNameKey buf start stop = keyLoop buf start stop []"

datatype dotgitAliasName = Git | Gitmodules | Gitattributes | Gitignore | Mailmap

primrec aliasText :: "dotgitAliasName \<Rightarrow> jsstr" where
  "aliasText Git = jslit ''git''"
| "aliasText Gitmodules = jslit ''gitmodules''"
| "aliasText Gitattributes = jslit ''gitattributes''"
| "aliasText Gitignore = jslit ''gitignore''"
| "aliasText Mailmap = jslit ''mailmap''"

definition HFS_IGNORABLE_CODE_POINTS :: "int set" where
  "HFS_IGNORABLE_CODE_POINTS =
     {8204, 8205, 8206, 8207, 8234, 8235, 8236, 8237, 8238, 8298, 8299, 8300, 8301, 8302, 8303, 65279}"

definition foldAsciiCodePoint :: "nat \<Rightarrow> nat" where
  "foldAsciiCodePoint codePoint =
     (if 65 \<le> codePoint \<and> codePoint \<le> 90 then codePoint + 32 else codePoint)"

definition threeByteCodePoint :: "bytes \<Rightarrow> nat \<Rightarrow> int" where
  "threeByteCodePoint name at =
     js_or (js_or (js_shl (js_and (u8 (name ! at)) 15) 12) (js_shl (js_and (u8 (name ! (at + 1))) 63) 6))
       (js_and (u8 (name ! (at + 2))) 63)"

lemma picker_in_range: "gitPickerSequenceLength name at \<noteq> 0 \<Longrightarrow> at < length name"
  by (auto simp: gitPickerSequenceLength_def wellFormedSequenceLength_def byteAt_def Let_def
      split: if_splits option.splits)

function skipIgnorableSequences :: "bytes \<Rightarrow> nat \<Rightarrow> nat" where
  "skipIgnorableSequences name cursor =
     (if gitPickerSequenceLength name cursor = 3 \<and>
         threeByteCodePoint name cursor \<in> HFS_IGNORABLE_CODE_POINTS
      then skipIgnorableSequences name (cursor + 3) else cursor)"
  by pat_completeness auto
termination
proof (relation "measure (\<lambda>(name, cursor). length name - cursor)")
  fix name cursor
  assume "gitPickerSequenceLength name cursor = 3 \<and>
    threeByteCodePoint name cursor \<in> HFS_IGNORABLE_CODE_POINTS"
  then have "cursor < length name" using picker_in_range [of name cursor] by simp
  then show "((name, cursor + 3), name, cursor) \<in> measure (\<lambda>(name, cursor). length name - cursor)"
    by simp
qed simp

declare skipIgnorableSequences.simps [simp del]

definition endsHfsName :: "bytes \<Rightarrow> nat \<Rightarrow> bool" where
  "endsHfsName name at = (byteAt name at = Some 47 \<or> gitPickerSequenceLength name at = 0)"

text \<open>The needle loop of \<open>foldsToHfsAlias\<close> over the characters still wanted.\<close>

fun hfsLoop :: "bytes \<Rightarrow> nat \<Rightarrow> jsstr \<Rightarrow> bool" where
  "hfsLoop name at [] = endsHfsName name at"
| "hfsLoop name at (want # wants) =
     (if foldAsciiCodePoint (case byteAt name at of None \<Rightarrow> 0 | Some b \<Rightarrow> b) \<noteq> want then False
      else hfsLoop name (skipIgnorableSequences name (at + 1)) wants)"

definition foldsToHfsAlias :: "bytes \<Rightarrow> nat \<Rightarrow> nat \<Rightarrow> dotgitAliasName \<Rightarrow> bool" where
  "foldsToHfsAlias buf start stop al =
     (let name = subarray buf start stop
      in hfsLoop name (skipIgnorableSequences name 0) (46 # aliasText al))"

text \<open>The scan of \<open>isNtfsTail\<close> over the bytes left.\<close>

fun tailLoop :: "bool \<Rightarrow> nat list \<Rightarrow> bool" where
  "tailLoop isGit [] = True"
| "tailLoop isGit (b # bs) =
     (if b = 58 then True
      else if isGit \<and> (b = 47 \<or> b = 92) then True
      else if b \<noteq> 46 \<and> b \<noteq> 32 then False
      else tailLoop isGit bs)"

definition isNtfsTail :: "bytes \<Rightarrow> nat \<Rightarrow> nat \<Rightarrow> dotgitAliasName \<Rightarrow> bool" where
  "isNtfsTail buf start stop al = tailLoop (al = Git) (map (\<lambda>i. unat (buf ! i)) [start..<stop])"

definition isDigitIn :: "nat option \<Rightarrow> nat \<Rightarrow> bool" where
  "isDigitIn byte low = (case byte of None \<Rightarrow> False | Some b \<Rightarrow> low \<le> b \<and> b \<le> 57)"

definition matchesAsciiCaseInsensitive :: "bytes \<Rightarrow> nat \<Rightarrow> jsstr \<Rightarrow> bool" where
  "matchesAsciiCaseInsensitive buf start literal =
     list_all (\<lambda>i. map_option foldAsciiCodePoint (byteAt buf (start + i)) = Some (literal ! i))
       [0..<length literal]"

primrec NTFS_FALLBACK_SHORT_NAME_PREFIX :: "dotgitAliasName \<Rightarrow> jsstr" where
  "NTFS_FALLBACK_SHORT_NAME_PREFIX Git = []"
| "NTFS_FALLBACK_SHORT_NAME_PREFIX Gitmodules = jslit ''gi7eba''"
| "NTFS_FALLBACK_SHORT_NAME_PREFIX Gitattributes = jslit ''gi7d29''"
| "NTFS_FALLBACK_SHORT_NAME_PREFIX Gitignore = jslit ''gi250a''"
| "NTFS_FALLBACK_SHORT_NAME_PREFIX Mailmap = jslit ''maba30''"

text \<open>Called for every alias but \<open>git\<close>, which has no fall-back prefix.\<close>

definition foldsToNtfsFallbackShortName :: "bytes \<Rightarrow> nat \<Rightarrow> nat \<Rightarrow> dotgitAliasName \<Rightarrow> bool" where
  "foldsToNtfsFallbackShortName buf start stop al =
     (let shortEnd = start + 8 in
      if stop < shortEnd then False
      else case indexOfUnit (subarray buf start (start + 7)) 126 0 of
        None \<Rightarrow> False
      | Some tilde \<Rightarrow>
          if \<not> matchesAsciiCaseInsensitive buf start (take tilde (NTFS_FALLBACK_SHORT_NAME_PREFIX al))
          then False
          else if \<not> isDigitIn (byteAt buf (start + tilde + 1)) 49 then False
          else if \<not> list_all (\<lambda>i. isDigitIn (byteAt buf i) 48) [start + tilde + 2..<shortEnd] then False
          else isNtfsTail buf shortEnd stop al)"

definition foldsToNtfsShortName :: "bytes \<Rightarrow> nat \<Rightarrow> nat \<Rightarrow> dotgitAliasName \<Rightarrow> bool" where
  "foldsToNtfsShortName buf start stop al =
     (if al = Git then
        let shortName = jslit ''git~1'' in
        start + length shortName \<le> stop \<and>
        matchesAsciiCaseInsensitive buf start shortName \<and>
        isNtfsTail buf (start + length shortName) stop al
      else
        let shortPrefix = take 6 (aliasText al);
            digitOffset = start + length shortPrefix + 1;
            regular =
              (start + length shortPrefix + 2 \<le> stop \<and>
               matchesAsciiCaseInsensitive buf start shortPrefix \<and>
               byteAt buf (start + length shortPrefix) = Some 126 \<and>
               (case byteAt buf digitOffset of None \<Rightarrow> False | Some d \<Rightarrow> 49 \<le> d \<and> d \<le> 52) \<and>
               isNtfsTail buf (digitOffset + 1) stop al)
        in regular \<or> foldsToNtfsFallbackShortName buf start stop al)"

definition matchesNtfsDotgitAlias :: "bytes \<Rightarrow> nat \<Rightarrow> nat \<Rightarrow> dotgitAliasName \<Rightarrow> bool" where
  "matchesNtfsDotgitAlias buf start stop al =
     (let dotPrefix = 46 # aliasText al in
      if start + length dotPrefix \<le> stop \<and>
         matchesAsciiCaseInsensitive buf start dotPrefix \<and>
         isNtfsTail buf (start + length dotPrefix) stop al
      then True
      else foldsToNtfsShortName buf start stop al)"

definition matchesDotgitAlias :: "bytes \<Rightarrow> nat \<Rightarrow> nat \<Rightarrow> dotgitAliasName \<Rightarrow> bool" where
  "matchesDotgitAlias buf start stop al =
     (foldsToHfsAlias buf start stop al \<or> matchesNtfsDotgitAlias buf start stop al)"

definition backslashSegmentStarts :: "bytes \<Rightarrow> nat \<Rightarrow> nat \<Rightarrow> nat list" where
  "backslashSegmentStarts buf start stop =
     concat (map (\<lambda>i. if buf ! i = 92 then [i + 1] else []) [start..<stop])"

definition namesGitmodules :: "bytes \<Rightarrow> nat \<Rightarrow> nat \<Rightarrow> bool" where
  "namesGitmodules buf start stop =
     (if matchesDotgitAlias buf start stop Gitmodules then True
      else list_ex (\<lambda>segment. matchesNtfsDotgitAlias buf segment stop Gitmodules)
        (backslashSegmentStarts buf start stop))"

section \<open>Lemmas\<close>

lemma hasNonOctalByte_iff:
  assumes "stop \<le> length buf"
  shows "\<not> hasNonOctalByte buf start stop \<longleftrightarrow>
    (\<forall>w\<in>set (subarray buf start stop). 48 \<le> unat w \<and> unat w \<le> 55)"
proof -
  have "(\<forall>w\<in>set (subarray buf start stop). P w) \<longleftrightarrow> (\<forall>i\<in>{start..<stop}. P (buf ! i))" for P
  proof
    assume l: "\<forall>w\<in>set (subarray buf start stop). P w"
    show "\<forall>i\<in>{start..<stop}. P (buf ! i)"
    proof
      fix i assume i: "i \<in> {start..<stop}"
      then have "subarray buf start stop ! (i - start) = buf ! i" "i - start < length (subarray buf start stop)"
        using assms by (auto simp: nth_subarray diff_less_mono)
      then show "P (buf ! i)" using l nth_mem by metis
    qed
  next
    assume "\<forall>i\<in>{start..<stop}. P (buf ! i)"
    then show "\<forall>w\<in>set (subarray buf start stop). P w"
      using assms by (auto simp: in_set_conv_nth nth_subarray)
  qed
  then show ?thesis by (auto simp: hasNonOctalByte_def list_ex_iff not_less)
qed

lemma keyLoop_eq:
  "chunkStart \<le> stop \<Longrightarrow> keyLoop buf chunkStart stop key = key @ map unat (subarray buf chunkStart stop)"
proof (induction buf chunkStart stop key rule: keyLoop.induct)
  case (1 buf chunkStart stop key)
  let ?e = "min (chunkStart + KEY_CHUNK_SIZE) stop"
  show ?case
  proof (cases "chunkStart < stop")
    case lt: True
    have sp: "subarray buf chunkStart ?e @ subarray buf ?e stop = subarray buf chunkStart stop"
      using lt by (intro subarray_split) (auto simp: KEY_CHUNK_SIZE_def)
    show ?thesis
    proof (cases "chunkStart + KEY_CHUNK_SIZE \<le> stop")
      case True
      then have "keyLoop buf (chunkStart + KEY_CHUNK_SIZE) stop (key @ map unat (subarray buf chunkStart ?e))
          = (key @ map unat (subarray buf chunkStart ?e)) @ map unat (subarray buf (chunkStart + KEY_CHUNK_SIZE) stop)"
        using 1(1) [OF lt refl] by simp
      then show ?thesis using lt True sp by (simp add: keyLoop.simps [of buf chunkStart] min_def flip: map_append)
    next
      case False
      then show ?thesis using lt
        by (simp add: keyLoop.simps [of buf chunkStart] keyLoop.simps [of buf "chunkStart + KEY_CHUNK_SIZE"] min_def)
    qed
  next
    case False
    then show ?thesis using 1(2) by (subst keyLoop.simps) simp
  qed
qed

text \<open>The HFS+ fold: what the picker accepts at a position depends only on the sequence there.\<close>

lemma utf8_len_append: "utf8_len seq \<noteq> 0 \<Longrightarrow> utf8_len (seq @ rest) = utf8_len seq"
  by (cases seq; cases "List.tl seq"; cases "List.tl (List.tl seq)"; cases "List.tl (List.tl (List.tl seq))")
    (simp_all add: utf8_len.simps Let_def split: if_splits list.splits)

definition ignorable :: "bytes \<Rightarrow> bool" where
  "ignorable seq \<longleftrightarrow> length seq = 3 \<and> gitPickerSequenceLength seq 0 = 3 \<and>
     threeByteCodePoint seq 0 \<in> HFS_IGNORABLE_CODE_POINTS"

lemma byteAt_append:
  "byteAt (pre @ seq @ post) (length pre + i) = (if i < length seq then byteAt seq i else byteAt post (i - length seq))"
  by (auto simp: byteAt_def nth_append)

lemma picker_at_ignorable:
  assumes "ignorable seq"
  shows "gitPickerSequenceLength (pre @ seq @ post) (length pre) = 3"
    and "threeByteCodePoint (pre @ seq @ post) (length pre) \<in> HFS_IGNORABLE_CODE_POINTS"
proof -
  have w: "wellFormedSequenceLength (pre @ seq @ post) (length pre) = utf8_len (seq @ post)"
    using wellFormedSequenceLength_eq [of "length pre" "pre @ seq @ post"] by simp
  have l3: "length seq = 3" and u: "utf8_len seq = 3" and nt: "\<not> isNonCharacterTail seq 0"
    using assms by (auto simp: ignorable_def gitPickerSequenceLength_def sequence_length_0 Let_def split: if_splits)
  have "isNonCharacterTail (pre @ seq @ post) (length pre) = isNonCharacterTail seq 0"
    using byteAt_append [of pre seq post 0] byteAt_append [of pre seq post 1] byteAt_append [of pre seq post 2] l3
    by (simp add: isNonCharacterTail_def numeral_2_eq_2)
  then show "gitPickerSequenceLength (pre @ seq @ post) (length pre) = 3"
    using w u nt utf8_len_append [of seq post] by (simp add: gitPickerSequenceLength_def)
  have "(pre @ seq @ post) ! (length pre + i) = seq ! i" if "i < 3" for i
    using that l3 by (simp add: nth_append)
  from this [of 0] this [of 1] this [of 2]
  have "threeByteCodePoint (pre @ seq @ post) (length pre) = threeByteCodePoint seq 0"
    by (simp add: threeByteCodePoint_def numeral_2_eq_2)
  then show "threeByteCodePoint (pre @ seq @ post) (length pre) \<in> HFS_IGNORABLE_CODE_POINTS"
    using assms by (simp add: ignorable_def)
qed

lemma picker_ascii:
  assumes "unat c < 128"
  shows "gitPickerSequenceLength (pre @ c # post) (length pre) = 1"
proof -
  have "wellFormedSequenceLength (pre @ c # post) (length pre) = 1"
    using wellFormedSequenceLength_eq [of "length pre" "pre @ c # post"] assms by (simp add: utf8_len.simps)
  moreover have "byteAt (pre @ c # post) (length pre) = Some (unat c)" by (simp add: byteAt_def)
  ultimately show ?thesis using assms by (simp add: gitPickerSequenceLength_def isNonCharacterTail_def)
qed

lemma picker_end: "gitPickerSequenceLength bs (length bs) = 0"
  using picker_in_range [of bs "length bs"] by auto

lemma skip_ignorables:
  assumes "list_all ignorable igs" "\<And>c rest. post = c # rest \<Longrightarrow> unat c < 128"
  shows "skipIgnorableSequences (pre @ concat igs @ post) (length pre) = length (pre @ concat igs)"
  using assms(1)
proof (induction igs arbitrary: pre)
  case Nil
  have "gitPickerSequenceLength (pre @ post) (length pre) \<noteq> 3"
    using picker_ascii picker_end [of pre] assms(2) by (cases post) auto
  then show ?case by (simp add: skipIgnorableSequences.simps)
next
  case (Cons g igs)
  then have g: "ignorable g" and "length g = 3" by (simp_all add: ignorable_def)
  note p = picker_at_ignorable [OF g, of pre "concat igs @ post"]
  have "skipIgnorableSequences (pre @ concat (g # igs) @ post) (length pre)
      = skipIgnorableSequences ((pre @ g) @ concat igs @ post) (length (pre @ g))"
    using p \<open>length g = 3\<close> by (simp add: skipIgnorableSequences.simps [of _ "length pre"])
  then show ?case using Cons.IH [of "pre @ g"] Cons.prems by simp
qed

definition disguised :: "(byte \<times> bytes list) list \<Rightarrow> bytes" where
  "disguised ps = concat (map (\<lambda>(c, igs). c # concat igs) ps)"

lemma foldAscii_ascii: "foldAsciiCodePoint n < 128 \<Longrightarrow> n < 128"
  by (auto simp: foldAsciiCodePoint_def split: if_splits)

lemma hfsLoop_disguised:
  assumes "map (\<lambda>(c, igs). foldAsciiCodePoint (unat c)) ps = wants" "\<And>w. w \<in> set wants \<Longrightarrow> w < 128"
    and "list_all (\<lambda>(c, igs). list_all ignorable igs) ps"
  shows "hfsLoop (pre @ disguised ps) (length pre) wants"
  using assms
proof (induction ps arbitrary: pre wants)
  case Nil
  then show ?case using picker_end [of pre] by (simp add: disguised_def endsHfsName_def)
next
  case (Cons p ps)
  obtain c igs where p: "p = (c, igs)" by (cases p)
  obtain wants' where w: "wants = foldAsciiCodePoint (unat c) # wants'"
    "wants' = map (\<lambda>(c, igs). foldAsciiCodePoint (unat c)) ps" using Cons.prems(1) p by auto
  have asc: "unat d < 128" if ds: "disguised ps = d # rest" for d rest
  proof -
    obtain i ps' where "ps = (d, i) # ps'" using ds by (cases ps) (auto simp: disguised_def split: prod.splits)
    then have "foldAsciiCodePoint (unat d) < 128" using Cons.prems(2) w by simp
    then show ?thesis by (rule foldAscii_ascii)
  qed
  have at: "byteAt (pre @ disguised (p # ps)) (length pre) = Some (unat c)"
    by (simp add: byteAt_def disguised_def p)
  have e: "pre @ disguised (p # ps) = (pre @ [c]) @ concat igs @ disguised ps"
    by (simp add: disguised_def p)
  have "skipIgnorableSequences (pre @ disguised (p # ps)) (length pre + 1)
      = length (pre @ [c] @ concat igs)"
    using skip_ignorables [of igs "disguised ps" "pre @ [c]"] Cons.prems(3) p asc unfolding e by simp
  moreover have "hfsLoop ((pre @ [c] @ concat igs) @ disguised ps) (length (pre @ [c] @ concat igs)) wants'"
    using Cons.prems w by (intro Cons.IH) auto
  ultimately show ?case using at w e by simp
qed

lemma aliasText_ascii: "w \<in> set (46 # aliasText al) \<Longrightarrow> w < 128"
  by (cases al) (auto simp: jslit_def)

text \<open>The NTFS tail: dots and spaces.\<close>

lemma tailLoop_dots: "(\<And>b. b \<in> set bs \<Longrightarrow> b = 46 \<or> b = 32) \<Longrightarrow> tailLoop g bs"
  by (induction bs) auto

lemma matchesAscii_append:
  assumes "map (foldAsciiCodePoint \<circ> unat) cs = literal" "start = length pre"
  shows "matchesAsciiCaseInsensitive (pre @ cs @ post) start literal"
proof -
  have "map_option foldAsciiCodePoint (byteAt (pre @ cs @ post) (start + i)) = Some (literal ! i)"
    if "i < length cs" for i
    using that assms byteAt_append [of pre cs post i] by (auto simp: byteAt_def)
  then show ?thesis using assms(1) by (auto simp: matchesAsciiCaseInsensitive_def list_all_iff)
qed

lemma isNtfsTail_dots:
  assumes "\<And>w. w \<in> set tail \<Longrightarrow> w = 46 \<or> w = 32" "start = length pre" "stop = start + length tail"
  shows "isNtfsTail (pre @ tail @ post) start stop al"
  unfolding isNtfsTail_def
proof (rule tailLoop_dots)
  fix b assume "b \<in> set (map (\<lambda>i. unat ((pre @ tail @ post) ! i)) [start..<stop])"
  then obtain i where i: "start \<le> i" "i < stop" "b = unat ((pre @ tail @ post) ! i)" by auto
  then have "(pre @ tail @ post) ! i = tail ! (i - start)" "i - start < length tail"
    using assms(2,3) by (auto simp: nth_append)
  then have "(pre @ tail @ post) ! i = 46 \<or> (pre @ tail @ post) ! i = 32" using assms(1) by simp
  then show "b = 46 \<or> b = 32" using i(3) by auto
qed

section \<open>Properties\<close>

text \<open>The chunked \<open>entryNameKey\<close> is the byte-for-byte image of the name whatever its length, so two spans
  have the same key exactly when they hold the same bytes.\<close>

theorem entryNameKey_lossless:
  assumes "s \<le> e" "s' \<le> e'"
  shows "entryNameKey buf s e = map unat (subarray buf s e) \<and>
    (entryNameKey buf s e = entryNameKey buf' s' e' \<longleftrightarrow> subarray buf s e = subarray buf' s' e')"
proof -
  have "inj (unat :: byte \<Rightarrow> nat)" by (simp add: inj_def word_unat_eq_iff)
  then show ?thesis
    using keyLoop_eq [OF assms(1), of buf "[]"] keyLoop_eq [OF assms(2), of buf' "[]"]
    by (simp add: entryNameKey_def inj_map_eq_map)
qed

theorem entryNameKey_lossless_witness:
  "entryNameKey [97, 98, 99] 1 3 = [98, 99] \<and>
   (entryNameKey [97, 98, 99] 1 3 = entryNameKey [98, 99] 0 2 \<longleftrightarrow>
     subarray [97, 98, 99 :: byte] 1 3 = subarray [98, 99] 0 2)"
proof -
  have "map unat (subarray [97, 98, 99 :: byte] 1 3) = [98, 99]" by (simp add: subarray_def)
  then show ?thesis using entryNameKey_lossless [of 1 3 0 2 "[97, 98, 99]" "[98, 99]"] by (simp, metis)
qed

text \<open>No disguise of a reserved name gets past the fold: a name that spells \<open>.git\<close>, \<open>.gitmodules\<close> or
  another alias in any mix of upper and lower case, with any number of HFS+-ignorable code points in
  front of, between and after its characters, is recognised as that alias.\<close>

theorem hfs_disguise_caught:
  assumes "map (\<lambda>(c, igs). foldAsciiCodePoint (unat c)) ps = 46 # aliasText al"
    and "list_all ignorable front" "list_all (\<lambda>(c, igs). list_all ignorable igs) ps"
    and "name = concat front @ disguised ps"
  shows "matchesDotgitAlias name 0 (length name) al"
proof -
  obtain c igs ps' where ps: "ps = (c, igs) # ps'" using assms(1) by (cases ps) auto
  have "foldAsciiCodePoint (unat c) = 46" using assms(1) ps by simp
  then have c: "unat c < 128" using foldAscii_ascii [of "unat c"] by simp
  have "skipIgnorableSequences name 0 = length (concat front)"
    using skip_ignorables [OF assms(2), of "disguised ps" "[]"] c assms(4) ps by (simp add: disguised_def)
  moreover have "hfsLoop name (length (concat front)) (46 # aliasText al)"
    unfolding assms(4) by (rule hfsLoop_disguised [OF assms(1) aliasText_ascii assms(3)])
  ultimately show ?thesis
    by (simp add: matchesDotgitAlias_def foldsToHfsAlias_def del: hfsLoop.simps)
qed

theorem hfs_disguise_caught_witness:
  "matchesDotgitAlias [46, 71, 226, 128, 140, 105, 84] 0 (length [46, 71, 226, 128, 140, 105, 84 :: byte]) Git"
  using hfs_disguise_caught [of "[(46, []), (71, [[226, 128, 140]]), (105, []), (84, [])]" Git "[]"
      "[46, 71, 226, 128, 140, 105, 84]"]
  by (simp add: disguised_def ignorable_def foldAsciiCodePoint_def jslit_def gitPickerSequenceLength_def
      sequence_length_0 utf8_len.simps isCont_def isNonCharacterTail_def threeByteCodePoint_def
      HFS_IGNORABLE_CODE_POINTS_def js_or_def js_shl_def js_and_def u8_def toInt32_nonneg)

text \<open>Nor does the NTFS disguise: \<open>.git\<close> and its siblings in any case followed by any run of dots
  and spaces are recognised, wherever the name stands in the buffer.\<close>

theorem ntfs_disguise_caught:
  assumes "map (foldAsciiCodePoint \<circ> unat) cs = 46 # aliasText al"
    and "\<And>w. w \<in> set tail \<Longrightarrow> w = 46 \<or> w = 32"
  shows "matchesDotgitAlias (pre @ cs @ tail @ post) (length pre) (length pre + length cs + length tail) al"
proof -
  have l: "length cs = length (46 # aliasText al)" using assms(1) by (metis length_map)
  have "isNtfsTail ((pre @ cs) @ tail @ post) (length (pre @ cs)) (length pre + length cs + length tail) al"
    using assms(2) by (intro isNtfsTail_dots) simp_all
  then have "isNtfsTail (pre @ cs @ tail @ post) (length pre + length (46 # aliasText al))
      (length pre + length cs + length tail) al" using l by simp
  then show ?thesis
    using matchesAscii_append [OF assms(1) refl, of pre "tail @ post"] l
    unfolding matchesDotgitAlias_def matchesNtfsDotgitAlias_def Let_def by simp
qed

theorem ntfs_disguise_caught_witness: "matchesDotgitAlias [120, 46, 103, 73, 116, 46, 32, 120] (length [120 :: byte])
    (length [120 :: byte] + length [46, 103, 73, 116 :: byte] + length [46, 32 :: byte]) Git"
  using ntfs_disguise_caught [of "[46, 103, 73, 116]" Git "[46, 32]" "[120]" "[120]"]
  by (simp add: foldAsciiCodePoint_def jslit_def)

end
