(* ===== verification/TreeObject.thy ===== *)
theory TreeObject
  imports TreeEntryBytes
begin

text \<open>
  \<open>objects/tree.ts\<close> and \<open>objects/tree-cursor.ts\<close>: the parser and serializer of tree objects and the
  raw cursor that walks the same bytes in place.
\<close>

section \<open>Model: trees\<close>

record treeEntry =
  mode :: fileMode
  entryName :: jsstr
  nameBytes :: bytes
  entryId :: objectId

record tree =
  treeId :: objectId
  entries :: "treeEntry list"

datatype entryNameArg = NameString jsstr | NameBytes bytes

definition treeEntryOf :: "fileMode \<Rightarrow> entryNameArg \<Rightarrow> objectId \<Rightarrow> treeEntry" where
  "treeEntryOf m name oid =
     (let bs = (case name of NameString s \<Rightarrow> encode s | NameBytes b \<Rightarrow> b)
      in \<lparr>mode = m, entryName = decodePreservingBom bs, nameBytes = bs, entryId = oid\<rparr>)"

definition treeEntryFromParsedView :: "fileMode \<Rightarrow> bytes \<Rightarrow> objectId \<Rightarrow> treeEntry" where
  "treeEntryFromParsedView m nameView oid =
     \<lparr>mode = m, entryName = decodePreservingBom nameView, nameBytes = nameView, entryId = oid\<rparr>"

lemma indexOf_range: "indexOf bs w from = Some k \<Longrightarrow> from \<le> k \<and> k < length bs"
  by (simp add: indexOf_def indexOfUnit_Some)

function parseTreeLoop :: "bytes \<Rightarrow> hashConfig \<Rightarrow> nat \<Rightarrow> treeEntry list \<Rightarrow> tsgit_error + treeEntry list" where
  "parseTreeLoop body hash offset acc =
     (if offset < length body then
        case indexOf body 32 offset of
          None \<Rightarrow> Inl (InvalidTreeEntry offset (Reason ''missing space after mode'' []))
        | Some spaceIndex \<Rightarrow>
            if spaceIndex = offset \<or> hasNonOctalByte body offset spaceIndex
            then Inl (InvalidTreeEntry offset (Reason ''malformed mode'' []))
            else case indexOf body 0 (spaceIndex + 1) of
              None \<Rightarrow> Inl (InvalidTreeEntry offset (Reason ''missing null after name'' []))
            | Some nullIndex \<Rightarrow>
                if nullIndex = spaceIndex + 1
                then Inl (InvalidTreeEntry offset (Reason ''empty filename'' []))
                else if length body < nullIndex + 1 + digestLength hash
                then Inl (InvalidTreeEntry offset (Reason ''truncated hash'' []))
                else
                  bindE (ObjectId_fromRaw (subarray body (nullIndex + 1) (nullIndex + 1 + digestLength hash))) (\<lambda>oid.
                  bindE (normalizeFileMode (decode (subarray body offset spaceIndex))) (\<lambda>m.
                    parseTreeLoop body hash (nullIndex + 1 + digestLength hash)
                      (acc @ [treeEntryFromParsedView m (subarray body (spaceIndex + 1) nullIndex) oid])))
      else Inr acc)"
  by pat_completeness auto
termination
proof (relation "measure (\<lambda>(body, hash, offset, acc). length body - offset)")
  fix body hash offset acc spaceIndex nullIndex oid m
  assume "offset < length body" "indexOf body 32 offset = Some spaceIndex"
    "indexOf body 0 (spaceIndex + 1) = Some nullIndex"
  then have "offset < nullIndex + 1 + digestLength hash" by (auto dest!: indexOf_range)
  then show "((body, hash, nullIndex + 1 + digestLength hash,
        acc @ [treeEntryFromParsedView m (subarray body (spaceIndex + 1) nullIndex) oid]), body, hash, offset, acc)
      \<in> measure (\<lambda>(body, hash, offset, acc). length body - offset)"
    using \<open>offset < length body\<close> by simp
qed simp

declare parseTreeLoop.simps [simp del]

definition parseTreeContent :: "objectId \<Rightarrow> bytes \<Rightarrow> hashConfig \<Rightarrow> tsgit_error + tree" where
  "parseTreeContent oid content hash =
     bindE (parseTreeLoop content hash 0 []) (\<lambda>es. Inr \<lparr>treeId = oid, entries = es\<rparr>)"

definition encodeEntryName :: "bytes \<Rightarrow> bool \<Rightarrow> bytes" where
  "encodeEntryName name isDir =
     (if \<not> isDir then name else (blit (replicate (length name + 1) 0) name 0)[length name := 47])"

definition sortTreeEntries :: "treeEntry list \<Rightarrow> treeEntry list" where
  "sortTreeEntries es =
     (let decorated = map (\<lambda>e. (e, encodeEntryName (nameBytes e) (isDirectory (mode e)))) es
      in map fst (jsSort (\<lambda>a b. compareBytes (snd a) (snd b)) decorated))"

definition treeEntryCompare :: "treeEntry \<Rightarrow> treeEntry \<Rightarrow> int" where
  "treeEntryCompare a b =
     compareBytes (encodeEntryName (nameBytes a) (isDirectory (mode a)))
       (encodeEntryName (nameBytes b) (isDirectory (mode b)))"

text \<open>\<open>result.set\<close> throws when the source does not fit; an element store outside the array does nothing.\<close>

fun writeEntries :: "bytes \<Rightarrow> nat \<Rightarrow> (bytes \<times> bytes \<times> bytes) list \<Rightarrow> tsgit_error + bytes" where
  "writeEntries result offset [] = Inr result"
| "writeEntries result offset ((m, n, h) # es) =
     bindE (setBytes result m offset) (\<lambda>r1.
       let o1 = offset + length m; r2 = r1[o1 := 32]; o2 = o1 + 1 in
       bindE (setBytes r2 n o2) (\<lambda>r3.
         let o3 = o2 + length n; r4 = r3[o3 := 0]; o4 = o3 + 1 in
         bindE (setBytes r4 h o4) (\<lambda>r5. writeEntries r5 (o4 + length h) es)))"

definition serializeTreeContent :: "tree \<Rightarrow> hashConfig \<Rightarrow> tsgit_error + bytes" where
  "serializeTreeContent t hash =
     (let sorted_es = sortTreeEntries (entries t) in
      bindE (mapE (\<lambda>e. bindE (hexToBytes (entryId e)) (\<lambda>h. Inr (encode (FILE_MODE (mode e)), nameBytes e, h))) sorted_es)
        (\<lambda>encoded.
          let totalLength = foldl (\<lambda>total (m, n, h). total + length m + 1 + length n + 1 + digestLength hash) 0 encoded
          in writeEntries (replicate totalLength 0) 0 encoded))"

section \<open>Model: the cursor\<close>

record treeCursor =
  buf :: bytes
  cursorDigestLength :: nat
  offset :: nat
  modeEnd :: nat
  nameStart :: nat
  nameEnd :: nat
  oidStart :: nat
  isDir :: bool
  isDone :: bool

definition scanMode :: "treeCursor \<Rightarrow> nat \<Rightarrow> tsgit_error + treeCursor" where
  "scanMode c start =
     (case indexOf (buf c) 32 start of
        None \<Rightarrow> Inl (InvalidTreeEntry start (Reason ''missing space after mode'' []))
      | Some e \<Rightarrow>
          if e = start \<or> hasNonOctalByte (buf c) start e
          then Inl (InvalidTreeEntry start (Reason ''malformed mode'' []))
          else Inr (c\<lparr>modeEnd := e\<rparr>))"

definition scanName :: "treeCursor \<Rightarrow> tsgit_error + treeCursor" where
  "scanName c =
     (let s = modeEnd c + 1 in
      case indexOf (buf c) 0 s of
        None \<Rightarrow> Inl (InvalidTreeEntry (offset c) (Reason ''missing null after name'' []))
      | Some e \<Rightarrow>
          if e = s then Inl (InvalidTreeEntry (offset c) (Reason ''empty filename'' []))
          else Inr (c\<lparr>nameStart := s, nameEnd := e\<rparr>))"

definition scanOid :: "treeCursor \<Rightarrow> tsgit_error + treeCursor" where
  "scanOid c =
     (let s = nameEnd c + 1 in
      if length (buf c) < s + cursorDigestLength c
      then Inl (InvalidTreeEntry (offset c) (Reason ''truncated hash'' []))
      else Inr (c\<lparr>oidStart := s\<rparr>))"

definition computeIsDir :: "bytes \<Rightarrow> nat \<Rightarrow> nat \<Rightarrow> bool" where
  "computeIsDir b modeStart e =
     (let len = e - modeStart in
      if len < 5 \<or> byteAt b (e - 5) \<noteq> Some 52 then False
      else if len = 5 then True
      else (u8 (b ! (e - 6)) - 48) mod 2 = 0)"

definition scanEntryAt :: "treeCursor \<Rightarrow> nat \<Rightarrow> tsgit_error + treeCursor" where
  "scanEntryAt c start =
     bindE (scanMode (c\<lparr>offset := start\<rparr>) start) (\<lambda>c1.
     bindE (scanName c1) (\<lambda>c2.
     bindE (scanOid c2) (\<lambda>c3.
       Inr (c3\<lparr>isDir := computeIsDir (buf c3) (offset c3) (modeEnd c3)\<rparr>))))"

definition openTreeCursor :: "bytes \<Rightarrow> hashConfig \<Rightarrow> tsgit_error + treeCursor" where
  "openTreeCursor b hash =
     (let c = \<lparr>buf = b, cursorDigestLength = digestLength hash, offset = 0, modeEnd = 0, nameStart = 0,
        nameEnd = 0, oidStart = 0, isDir = False, isDone = (length b = 0)\<rparr>
      in if \<not> isDone c then scanEntryAt c 0 else Inr c)"

definition advanceCursor :: "treeCursor \<Rightarrow> tsgit_error + treeCursor" where
  "advanceCursor c =
     (let n = oidStart c + cursorDigestLength c in
      if length (buf c) \<le> n then Inr (c\<lparr>isDone := True\<rparr>) else scanEntryAt c n)"

text \<open>The name comparison loop, from index \<open>i\<close> on.\<close>

function compareNamesLoop :: "treeCursor \<Rightarrow> treeCursor \<Rightarrow> nat \<Rightarrow> nat \<Rightarrow> nat \<Rightarrow> nat \<Rightarrow> int" where
  "compareNamesLoop a b aRealLen bRealLen stop i =
     (if i < stop then
        let av = (if i < aRealLen then u8 (buf a ! (nameStart a + i)) else 47);
            bv = (if i < bRealLen then u8 (buf b ! (nameStart b + i)) else 47);
            diff = av - bv
        in if diff \<noteq> 0 then diff else compareNamesLoop a b aRealLen bRealLen stop (i + 1)
      else int (aRealLen + (if isDir a then 1 else 0)) - int (bRealLen + (if isDir b then 1 else 0)))"
  by pat_completeness auto
termination by (relation "measure (\<lambda>(a, b, al, bl, stop, i). stop - i)") auto

declare compareNamesLoop.simps [simp del]

definition compareCursorNames :: "treeCursor \<Rightarrow> treeCursor \<Rightarrow> int" where
  "compareCursorNames a b =
     (let aRealLen = nameEnd a - nameStart a;
          aLen = aRealLen + (if isDir a then 1 else 0);
          bRealLen = nameEnd b - nameStart b;
          bLen = bRealLen + (if isDir b then 1 else 0)
      in compareNamesLoop a b aRealLen bRealLen (min aLen bLen) 0)"

definition cursorNameEquals :: "treeCursor \<Rightarrow> bytes \<Rightarrow> bool" where
  "cursorNameEquals c target =
     (let len = nameEnd c - nameStart c in
      if len \<noteq> length target then False
      else list_all (\<lambda>i. buf c ! (nameStart c + i) = target ! i) [0..<len])"

definition sameOid :: "treeCursor \<Rightarrow> treeCursor \<Rightarrow> bool" where
  "sameOid a b =
     list_all (\<lambda>i. byteAt (buf a) (oidStart a + i) = byteAt (buf b) (oidStart b + i)) [0..<cursorDigestLength a]"

text \<open>The loop is the one of \<open>skipModeZeros\<close>, written out again in \<open>tree-cursor.ts\<close>.\<close>

definition skipLeadingZeros :: "bytes \<Rightarrow> nat \<Rightarrow> nat \<Rightarrow> nat" where
  "skipLeadingZeros b start stop = skipModeZeros b start stop"

definition sameMode :: "treeCursor \<Rightarrow> treeCursor \<Rightarrow> bool" where
  "sameMode a b =
     (let aStart = skipLeadingZeros (buf a) (offset a) (modeEnd a);
          bStart = skipLeadingZeros (buf b) (offset b) (modeEnd b);
          aLength = modeEnd a - aStart;
          bLength = modeEnd b - bStart
      in if aLength \<noteq> bLength then False
         else list_all (\<lambda>i. byteAt (buf a) (aStart + i) = byteAt (buf b) (bStart + i)) [0..<aLength])"

definition cursorsSame :: "treeCursor \<Rightarrow> treeCursor \<Rightarrow> bool" where
  "cursorsSame a b = (sameOid a b \<and> sameMode a b)"

definition cursorNameBytes :: "treeCursor \<Rightarrow> bytes" where
  "cursorNameBytes c = subarray (buf c) (nameStart c) (nameEnd c)"

definition cursorName :: "treeCursor \<Rightarrow> jsstr" where
  "cursorName c = decodePreservingBom (subarray (buf c) (nameStart c) (nameEnd c))"

definition cursorOid :: "treeCursor \<Rightarrow> tsgit_error + objectId" where
  "cursorOid c = ObjectId_fromRaw (subarray (buf c) (oidStart c) (oidStart c + cursorDigestLength c))"

definition cursorMode :: "treeCursor \<Rightarrow> tsgit_error + fileMode" where
  "cursorMode c = matchFileModeBytes (buf c) (offset c) (modeEnd c)"

end
