(* ===== verification/TreeProofs.thy ===== *)
theory TreeProofs
  imports TreeObject
begin

text \<open>
  Trees: the serializer writes the entries in git's order and the parser reads them back; the raw
  cursor emits the entries the parser returns and compares names as the serializer sorts them.
\<close>

section \<open>The sort order\<close>

lemma blit_zeros: "at = length pre \<Longrightarrow> blit (pre @ replicate (length src + k) z) src at = pre @ src @ replicate k z"
  by (simp add: blit_def replicate_add)

lemma setBytes_fresh:
  "at = length pre \<Longrightarrow> setBytes (pre @ replicate (length src + k) 0) src at = Inr ((pre @ src) @ replicate k 0)"
  by (simp add: setBytes_def blit_zeros)

lemma store_zeros: "at = length pre \<Longrightarrow> (pre @ replicate (1 + k) z)[at := w] = (pre @ [w]) @ replicate k z"
  by simp

lemma encodeEntryName_eq: "encodeEntryName name d = name @ (if d then [47] else [])"
  using blit_zeros [of 0 "[]" name 1 0] by (simp add: encodeEntryName_def)

lemma sortTreeEntries_eq: "sortTreeEntries es = jsSort treeEntryCompare es"
proof -
  have ins: "jsInsert (\<lambda>a b. compareBytes (snd a) (snd b)) (e, k e) (map (\<lambda>e. (e, k e)) xs)
      = map (\<lambda>e. (e, k e)) (jsInsert (\<lambda>a b. compareBytes (k a) (k b)) e xs)"
    for e xs and k :: "treeEntry \<Rightarrow> bytes"
    by (induction xs) auto
  have "jsSort (\<lambda>a b. compareBytes (snd a) (snd b)) (map (\<lambda>e. (e, k e)) xs)
      = map (\<lambda>e. (e, k e)) (jsSort (\<lambda>a b. compareBytes (k a) (k b)) xs)"
    for xs and k :: "treeEntry \<Rightarrow> bytes"
    unfolding jsSort_def by (induction xs) (simp_all add: ins)
  then show ?thesis
    unfolding sortTreeEntries_def Let_def treeEntryCompare_def by (simp add: comp_def)
qed

lemma treeEntryCompare_consistent: "consistent treeEntryCompare A"
  unfolding treeEntryCompare_def by (rule compareBytes_consistent)

section \<open>Serialising\<close>

definition entryBytes :: "treeEntry \<Rightarrow> bytes \<Rightarrow> bytes" where
  "entryBytes e h = modeBytes (mode e) @ [32] @ nameBytes e @ [0] @ h"

lemma writeEntries_eq:
  assumes "length (concat (map (\<lambda>(m, n, h). m @ [32] @ n @ [0] @ h) es)) \<le> n"
  shows "writeEntries (pre @ replicate n 0) (length pre) es
    = Inr (pre @ concat (map (\<lambda>(m, n, h). m @ [32] @ n @ [0] @ h) es)
        @ replicate (n - length (concat (map (\<lambda>(m, n, h). m @ [32] @ n @ [0] @ h) es))) 0)"
  using assms
proof (induction es arbitrary: pre n)
  case (Cons e es)
  obtain m nm h where e: "e = (m, nm, h)" by (cases e)
  let ?one = "m @ [32] @ nm @ [0] @ h"
  obtain k where n: "n = length m + (1 + (length nm + (1 + (length h + k))))"
    using Cons.prems e by (auto simp: le_iff_add)
  have r1: "setBytes (pre @ replicate n 0) m (length pre)
      = Inr ((pre @ m) @ replicate (1 + (length nm + (1 + (length h + k)))) 0)"
    unfolding n by (rule setBytes_fresh) simp
  have r2: "((pre @ m) @ replicate (1 + j) (0 :: byte))[length pre + length m := 32]
      = (pre @ m @ [32]) @ replicate j 0" for j
    using store_zeros [of "length pre + length m" "pre @ m" j 0 32] by simp
  have r3: "setBytes ((pre @ m @ [32]) @ replicate (length nm + (1 + (length h + k))) 0) nm (length pre + length m + 1)
      = Inr ((pre @ m @ [32] @ nm) @ replicate (1 + (length h + k)) 0)"
    using setBytes_fresh [of "length pre + length m + 1" "pre @ m @ [32]" nm "1 + (length h + k)"] by simp
  have r4: "((pre @ m @ [32] @ nm) @ replicate (1 + j) (0 :: byte))[length pre + length m + 1 + length nm := 0]
      = (pre @ m @ [32] @ nm @ [0]) @ replicate j 0" for j
    using store_zeros [of "length pre + length m + 1 + length nm" "pre @ m @ [32] @ nm" j 0 0] by simp
  have r5: "setBytes ((pre @ m @ [32] @ nm @ [0]) @ replicate (length h + k) 0) h (length pre + length m + 1 + length nm + 1)
      = Inr ((pre @ ?one) @ replicate k 0)"
    using setBytes_fresh [of "length pre + length m + 1 + length nm + 1" "pre @ m @ [32] @ nm @ [0]" h k] by simp
  have "writeEntries (pre @ replicate n 0) (length pre) (e # es)
      = writeEntries ((pre @ ?one) @ replicate k 0) (length (pre @ ?one)) es"
    unfolding e writeEntries.simps(2) Let_def r1 bindE_simps r2 r3 r4 r5 by (simp add: add.assoc)
  then show ?case using Cons.IH [of k "pre @ ?one"] Cons.prems e n by simp
qed simp

lemma foldl_total:
  "foldl (\<lambda>total (m, n, h). total + length m + 1 + length n + 1 + d) k es
    = k + sum_list (map (\<lambda>(m, n, h). length m + 1 + length n + 1 + d) es)"
  by (induction es arbitrary: k) (auto simp: split_beta)

definition entryOk :: "hashConfig \<Rightarrow> treeEntry \<Rightarrow> bool" where
  "entryOk hash e \<longleftrightarrow> nameBytes e \<noteq> [] \<and> 0 \<notin> set (nameBytes e) \<and>
     entryName e = decodePreservingBom (nameBytes e) \<and>
     (\<exists>raw. length raw = digestLength hash \<and> entryId e = bytesToHex raw)"

definition rawId :: "treeEntry \<Rightarrow> bytes" where
  "rawId e = (case hexToBytes (entryId e) of Inr raw \<Rightarrow> raw | Inl _ \<Rightarrow> [])"

lemma entryOk_rawId:
  assumes "entryOk hash e"
  shows "hexToBytes (entryId e) = Inr (rawId e)" "entryId e = bytesToHex (rawId e)" "length (rawId e) = digestLength hash"
  using assms by (auto simp: entryOk_def rawId_def)

definition treeBytes :: "treeEntry list \<Rightarrow> bytes" where
  "treeBytes es = concat (map (\<lambda>e. entryBytes e (rawId e)) es)"

lemma serializeTreeContent_eq:
  assumes "list_all (entryOk hash) (entries t)"
  shows "serializeTreeContent t hash = Inr (treeBytes (sortTreeEntries (entries t)))"
proof -
  let ?es = "sortTreeEntries (entries t)"
  let ?enc = "map (\<lambda>e. (modeBytes (mode e), nameBytes e, rawId e)) ?es"
  have ok: "entryOk hash e" if "e \<in> set ?es" for e
    using that assms by (simp add: sortTreeEntries_eq list_all_iff)
  have m: "mapE (\<lambda>e. bindE (hexToBytes (entryId e)) (\<lambda>h. Inr (encode (FILE_MODE (mode e)), nameBytes e, h))) ?es = Inr ?enc"
    using entryOk_rawId(1) [OF ok] by (intro mapE_Inr) simp
  have c: "concat (map (\<lambda>(m, n, h). m @ [32] @ n @ [0] @ h) ?enc) = treeBytes ?es"
    by (simp add: treeBytes_def entryBytes_def comp_def)
  have "sum_list (map (\<lambda>(m, n, h). length m + 1 + length n + 1 + digestLength hash) ?enc)
      = length (concat (map (\<lambda>(m, n, h). m @ [32] @ n @ [0] @ h) ?enc))"
    using entryOk_rawId(3) [OF ok] by (auto simp: length_concat comp_def intro!: arg_cong [where f = sum_list])
  then show ?thesis
    using writeEntries_eq [of ?enc "length (treeBytes ?es)" "[]"]
    unfolding serializeTreeContent_def Let_def m bindE_simps foldl_total c by simp
qed

section \<open>Parsing back\<close>

lemma modeBytes_octal: "w \<in> set (modeBytes m) \<Longrightarrow> 48 \<le> unat w \<and> unat w \<le> 55"
  by (cases m) (auto simp: modeBytes_def jslit_def)

lemma modeBytes_no_space: "32 \<notin> set (modeBytes m)"
  using modeBytes_octal [of 32 m] by auto

lemma dropZeros_modeBytes: "dropZeros 48 (modeBytes m) = modeBytes m"
  by (cases m) (simp_all add: modeBytes_def jslit_def)

lemma subarray_drop: "drop s xs = ys @ zs \<Longrightarrow> subarray xs s (s + length ys) = ys"
  by (simp add: subarray_def)

lemma drop_split: "drop s xs = ys @ zs \<Longrightarrow> drop (s + length ys) xs = zs"
  by (metis add.commute append_eq_conv_conj drop_drop)

lemma indexOf_drop:
  assumes "drop s xs = ys @ w # zs" "w \<notin> set ys"
  shows "indexOf xs w s = Some (s + length ys)"
  using assms by (simp add: indexOf_def indexOfUnit_def indexOfFrom_append)

lemma parseTreeLoop_entry:
  assumes ok: "entryOk hash e" and d: "digestLength hash = 20 \<or> digestLength hash = 32"
    and at: "drop at body = entryBytes e (rawId e) @ rest"
  shows "parseTreeLoop body hash at acc = parseTreeLoop body hash (at + length (entryBytes e (rawId e))) (acc @ [e])"
proof -
  let ?m = "modeBytes (mode e)" and ?n = "nameBytes e" and ?h = "rawId e"
  let ?sp = "at + length ?m" and ?nu = "at + length ?m + 1 + length ?n"
  have n: "?n \<noteq> []" "0 \<notin> set ?n" "entryName e = decodePreservingBom ?n" using ok by (auto simp: entryOk_def)
  have h: "length ?h = digestLength hash" "entryId e = bytesToHex ?h" using entryOk_rawId [OF ok] by simp_all
  have d1: "drop at body = ?m @ 32 # (?n @ 0 # (?h @ rest))" using at by (simp add: entryBytes_def)
  have d2: "drop (?sp + 1) body = ?n @ 0 # (?h @ rest)"
    using drop_split [of at body "?m @ [32]" "?n @ 0 # (?h @ rest)"] d1 by simp
  have d3: "drop (?nu + 1) body = ?h @ rest"
    using drop_split [of "?sp + 1" body "?n @ [0]" "?h @ rest"] d2 by simp
  have lt: "at < length body" using d1 by (metis drop_all list.distinct(1) append_is_Nil_conv not_less)
  have len: "?nu + 1 + length ?h \<le> length body"
  proof -
    have "length (drop at body) = length ?m + 1 + length ?n + 1 + length ?h + length rest" using d1 by simp
    then show ?thesis using lt by simp
  qed
  have i1: "indexOf body 32 at = Some ?sp" using d1 modeBytes_no_space by (rule indexOf_drop)
  have i2: "indexOf body 0 (?sp + 1) = Some ?nu" using indexOf_drop [OF d2 n(2)] by simp
  have s1: "subarray body at ?sp = ?m" using d1 by (rule subarray_drop)
  have s2: "subarray body (?sp + 1) ?nu = ?n" using subarray_drop [OF d2] by simp
  have s3: "subarray body (?nu + 1) (?nu + 1 + digestLength hash) = ?h" using subarray_drop [OF d3] h(1) by simp
  have oct: "\<not> hasNonOctalByte body at ?sp"
    using hasNonOctalByte_iff [of ?sp body at] len s1 modeBytes_octal by auto
  have md: "normalizeFileMode (decode ?m) = Inr (mode e)"
    using normalizeFileMode_Inr [of ?m "mode e"] modeBytes_octal dropZeros_modeBytes by force
  have ne: "?sp \<noteq> at" "?nu \<noteq> ?sp + 1" using n(1) length_modeBytes [of "mode e"] by auto
  have "ObjectId_fromRaw ?h = Inr (entryId e)" using d h by (simp add: fromRaw_Inr)
  moreover have "treeEntryFromParsedView (mode e) ?n (entryId e) = e"
    using n(3) by (simp add: treeEntryFromParsedView_def)
  moreover have fin: "at + length (entryBytes e ?h) = ?nu + 1 + digestLength hash"
    using h by (simp add: entryBytes_def)
  ultimately show ?thesis
    unfolding fin using lt i1 i2 oct ne len h(1) md
    by (subst parseTreeLoop.simps) (simp add: s1 s2 s3 del: One_nat_def add_Suc_right)
qed

lemma parseTreeLoop_entries:
  assumes "list_all (entryOk hash) es" "digestLength hash = 20 \<or> digestLength hash = 32"
    and "drop at body = treeBytes es" "at \<le> length body"
  shows "parseTreeLoop body hash at acc = Inr (acc @ es)"
  using assms(1,3,4)
proof (induction es arbitrary: at acc)
  case Nil
  then have "length body \<le> at" by (simp add: treeBytes_def)
  then show ?case by (subst parseTreeLoop.simps) simp
next
  case (Cons e es)
  let ?b = "entryBytes e (rawId e)"
  have at: "drop at body = ?b @ treeBytes es" using Cons.prems(2) by (simp add: treeBytes_def)
  have "length (drop at body) = length ?b + length (treeBytes es)" using at by simp
  then have "at + length ?b \<le> length body" using Cons.prems(3) by simp
  moreover have "drop (at + length ?b) body = treeBytes es" using at by (rule drop_split)
  ultimately show ?case
    using parseTreeLoop_entry [OF _ assms(2) at, of acc] Cons.IH [of "at + length ?b" "acc @ [e]"] Cons.prems(1)
    by simp
qed

section \<open>The cursor reads the same entries\<close>

text \<open>One structurally sound entry at an offset: the positions of its space and its NUL.\<close>

definition entryAt :: "bytes \<Rightarrow> nat \<Rightarrow> nat \<Rightarrow> nat \<Rightarrow> nat \<Rightarrow> bool" where
  "entryAt b dl s sp nu \<longleftrightarrow> indexOf b 32 s = Some sp \<and> sp \<noteq> s \<and> \<not> hasNonOctalByte b s sp \<and>
     indexOf b 0 (sp + 1) = Some nu \<and> nu \<noteq> sp + 1 \<and> nu + 1 + dl \<le> length b"

lemma entryAt_order: "entryAt b dl s sp nu \<Longrightarrow> s < sp \<and> sp + 1 < nu \<and> nu + 1 + dl \<le> length b"
  using indexOf_range [of b 32 s sp] indexOf_range [of b 0 "sp + 1" nu] by (auto simp: entryAt_def)

lemma scanEntryAt_Inr:
  "scanEntryAt c s = Inr c' \<longleftrightarrow> (\<exists>sp nu. entryAt (buf c) (cursorDigestLength c) s sp nu \<and>
     c' = c\<lparr>offset := s, modeEnd := sp, nameStart := sp + 1, nameEnd := nu, oidStart := nu + 1,
       isDir := computeIsDir (buf c) s sp\<rparr>)"
  unfolding scanEntryAt_def scanMode_def scanName_def scanOid_def entryAt_def bindE_def Let_def
  by (auto split: option.splits if_splits)

lemma parseTreeLoop_Inr:
  assumes "s < length b"
  shows "parseTreeLoop b hash s acc = Inr es \<longleftrightarrow>
    (\<exists>sp nu m oid. entryAt b (digestLength hash) s sp nu \<and>
       ObjectId_fromRaw (subarray b (nu + 1) (nu + 1 + digestLength hash)) = Inr oid \<and>
       normalizeFileMode (decode (subarray b s sp)) = Inr m \<and>
       parseTreeLoop b hash (nu + 1 + digestLength hash)
         (acc @ [treeEntryFromParsedView m (subarray b (sp + 1) nu) oid]) = Inr es)"
  using assms by (subst parseTreeLoop.simps) (auto simp: entryAt_def bindE_Inr_iff split: option.splits if_splits)

lemma cursor_mode_agrees:
  assumes "entryAt b dl s sp nu"
  shows "matchFileModeBytes b s sp = Inr m \<longleftrightarrow> normalizeFileMode (decode (subarray b s sp)) = Inr m"
proof -
  have o: "s < sp" "sp \<le> length b" using entryAt_order [OF assms] by auto
  have "unat w < 128" if "w \<in> set (subarray b s sp)" for w
    using assms that hasNonOctalByte_iff [OF o(2), of s] by (fastforce simp: entryAt_def)
  then show ?thesis
    using matchFileModeBytes_Inr [of s sp b m] normalizeFileMode_Inr [of "subarray b s sp" m] o by simp
qed

text \<open>A client that reads every entry through the cursor. Each step moves the cursor forward, so the
  length of the buffer is fuel enough.\<close>

definition cursorEntry :: "treeCursor \<Rightarrow> tsgit_error + treeEntry" where
  "cursorEntry c =
     bindE (cursorOid c) (\<lambda>oid.
     bindE (cursorMode c) (\<lambda>m.
       Inr \<lparr>mode = m, entryName = cursorName c, nameBytes = cursorNameBytes c, entryId = oid\<rparr>))"

fun cursorWalk :: "nat \<Rightarrow> treeCursor \<Rightarrow> (tsgit_error + treeEntry list) option" where
  "cursorWalk 0 c = None"
| "cursorWalk (Suc fuel) c =
     (if isDone c then Some (Inr [])
      else case cursorEntry c of
        Inl e \<Rightarrow> Some (Inl e)
      | Inr entry \<Rightarrow>
          (case advanceCursor c of
             Inl e \<Rightarrow> Some (Inl e)
           | Inr c' \<Rightarrow> map_option (\<lambda>r. bindE r (\<lambda>es. Inr (entry # es))) (cursorWalk fuel c')))"

text \<open>A cursor that stands on the entry at an offset.\<close>

definition standsOn :: "treeCursor \<Rightarrow> bytes \<Rightarrow> nat \<Rightarrow> nat \<Rightarrow> nat \<Rightarrow> nat \<Rightarrow> bool" where
  "standsOn c b dl s sp nu \<longleftrightarrow> entryAt b dl s sp nu \<and> buf c = b \<and> cursorDigestLength c = dl \<and>
     offset c = s \<and> modeEnd c = sp \<and> nameStart c = sp + 1 \<and> nameEnd c = nu \<and> oidStart c = nu + 1 \<and>
     isDir c = computeIsDir b s sp \<and> \<not> isDone c"

lemma cursorEntry_Inr:
  assumes "standsOn c b dl s sp nu"
  shows "cursorEntry c = Inr e \<longleftrightarrow>
    (\<exists>m oid. ObjectId_fromRaw (subarray b (nu + 1) (nu + 1 + dl)) = Inr oid \<and>
       normalizeFileMode (decode (subarray b s sp)) = Inr m \<and>
       e = treeEntryFromParsedView m (subarray b (sp + 1) nu) oid)"
  using assms cursor_mode_agrees [of b dl s sp nu]
  by (auto simp: standsOn_def cursorEntry_def cursorOid_def cursorMode_def cursorName_def cursorNameBytes_def
      treeEntryFromParsedView_def bindE_Inr_iff)

lemma advanceCursor_Inr:
  assumes "standsOn c b dl s sp nu"
  shows "advanceCursor c = Inr c' \<longleftrightarrow>
    (if length b \<le> nu + 1 + dl then c' = c\<lparr>isDone := True\<rparr>
     else \<exists>sp' nu'. entryAt b dl (nu + 1 + dl) sp' nu' \<and>
       c' = c\<lparr>offset := nu + 1 + dl, modeEnd := sp', nameStart := sp' + 1, nameEnd := nu', oidStart := nu' + 1,
         isDir := computeIsDir b (nu + 1 + dl) sp'\<rparr>)"
  using assms by (auto simp: standsOn_def advanceCursor_def scanEntryAt_Inr)

lemma parseTreeLoop_acc:
  "parseTreeLoop b hash s acc = Inr r \<longleftrightarrow> (\<exists>es. r = acc @ es \<and> parseTreeLoop b hash s [] = Inr es)"
proof (induction "length b - s" arbitrary: s acc r rule: less_induct)
  case less
  show ?case
  proof (cases "s < length b")
    case False
    then show ?thesis by (auto simp: parseTreeLoop.simps [of b hash s])
  next
    case True
    let ?n = "\<lambda>nu. nu + 1 + digestLength hash"
    have ih: "parseTreeLoop b hash (?n nu) acc' = Inr r' \<longleftrightarrow>
        (\<exists>es. r' = acc' @ es \<and> parseTreeLoop b hash (?n nu) [] = Inr es)"
      if "entryAt b (digestLength hash) s sp nu" for sp nu acc' r'
      using entryAt_order [OF that] True by (intro less.hyps) auto
    let ?e = "\<lambda>sp nu m oid. treeEntryFromParsedView m (subarray b (sp + 1) nu) oid"
    let ?ok = "\<lambda>sp nu m oid. entryAt b (digestLength hash) s sp nu \<and>
       ObjectId_fromRaw (subarray b (nu + 1) (?n nu)) = Inr oid \<and>
       normalizeFileMode (decode (subarray b s sp)) = Inr m"
    have "(?ok sp nu m oid \<and> parseTreeLoop b hash (?n nu) (acc' @ [?e sp nu m oid]) = Inr r') \<longleftrightarrow>
        (\<exists>es. r' = acc' @ es \<and> ?ok sp nu m oid \<and> parseTreeLoop b hash (?n nu) [?e sp nu m oid] = Inr es)"
      for sp nu m oid acc' r'
      using ih [of sp nu "acc' @ [?e sp nu m oid]" r'] ih [of sp nu "[?e sp nu m oid]"] by fastforce
    then show ?thesis
      unfolding parseTreeLoop_Inr [OF True] append_Nil by (metis (no_types, lifting))
  qed
qed

lemma cursorWalk_parse:
  assumes "standsOn c b (digestLength hash) s sp nu" "length b - s < fuel"
  shows "(\<exists>r. cursorWalk fuel c = Some r) \<and>
    (\<forall>es. parseTreeLoop b hash s [] = Inr es \<longleftrightarrow> cursorWalk fuel c = Some (Inr es))"
  using assms
proof (induction fuel arbitrary: c s sp nu)
  case (Suc fuel)
  let ?dl = "digestLength hash"
  let ?n = "nu + 1 + ?dl"
  have o: "s < sp" "sp + 1 < nu" "?n \<le> length b" using entryAt_order Suc.prems(1) by (auto simp: standsOn_def)
  note st = Suc.prems(1) cursorEntry_Inr [OF Suc.prems(1)] advanceCursor_Inr [OF Suc.prems(1)]
  have nd: "\<not> isDone c" using st(1) by (simp add: standsOn_def)
  have uniq: "entryAt b ?dl s sp' nu' \<longleftrightarrow> sp' = sp \<and> nu' = nu" for sp' nu'
    using Suc.prems(1) by (auto simp: standsOn_def entryAt_def)
  have step: "parseTreeLoop b hash s [] = Inr es \<longleftrightarrow>
      (\<exists>e es'. cursorEntry c = Inr e \<and> es = e # es' \<and> parseTreeLoop b hash ?n [] = Inr es')" for es
    using parseTreeLoop_Inr [of s b hash "[]" es] o st(2) parseTreeLoop_acc [of b hash ?n "[_]"]
    unfolding uniq by auto
  show ?case
  proof (cases "cursorEntry c")
    case (Inl err)
    then show ?thesis using nd step by auto
  next
    case e: (Inr e)
    show ?thesis
    proof (cases "length b \<le> ?n")
      case True
      then have "advanceCursor c = Inr (c\<lparr>isDone := True\<rparr>)" using st(3) by simp
      moreover have "parseTreeLoop b hash ?n [] = Inr []" using True by (subst parseTreeLoop.simps) simp
      moreover obtain k where "fuel = Suc k" using Suc.prems(2) o by (cases fuel) auto
      ultimately show ?thesis using nd step e by auto
    next
      case False
      show ?thesis
      proof (cases "advanceCursor c")
        case (Inl err)
        then have "\<not> entryAt b ?dl ?n sp' nu'" for sp' nu' using st(3) False by auto
        then have "parseTreeLoop b hash ?n [] \<noteq> Inr es'" for es'
          using parseTreeLoop_Inr [of ?n b hash "[]" es'] False by auto
        then show ?thesis using nd step e Inl by auto
      next
        case (Inr c')
        then obtain sp' nu' where "entryAt b ?dl ?n sp' nu'"
          "c' = c\<lparr>offset := ?n, modeEnd := sp', nameStart := sp' + 1, nameEnd := nu', oidStart := nu' + 1,
             isDir := computeIsDir b ?n sp'\<rparr>"
          using st(3) False by auto
        then have "standsOn c' b ?dl ?n sp' nu'" using st(1) by (simp add: standsOn_def)
        moreover have "length b - ?n < fuel" using Suc.prems(2) o by linarith
        ultimately have "(\<exists>r. cursorWalk fuel c' = Some r) \<and>
            (\<forall>es. parseTreeLoop b hash ?n [] = Inr es \<longleftrightarrow> cursorWalk fuel c' = Some (Inr es))"
          by (rule Suc.IH)
        then show ?thesis using nd step e Inr by (auto simp: bindE_Inr_iff)
      qed
    qed
  qed
qed simp

section \<open>The cursor orders entries as the serializer does\<close>

lemma dropZeros_replicate: "\<exists>k. xs = replicate k z @ dropZeros z xs"
proof (induction z xs rule: dropZeros.induct)
  case (1 z x y xs)
  show ?case
  proof (cases "x = z")
    case True
    then obtain k where "y # xs = replicate k z @ dropZeros z (y # xs)" using 1 by blast
    then have "x # y # xs = replicate (Suc k) z @ dropZeros z (x # y # xs)" using True by simp
    then show ?thesis by blast
  next
    case False
    then have "x # y # xs = replicate 0 z @ dropZeros z (x # y # xs)" by simp
    then show ?thesis by blast
  qed
qed (rule exI [of _ 0], simp)+

lemma byteAt_subarray:
  assumes "s \<le> i" "i < e" "e \<le> length b"
  shows "byteAt b i = Some (unat (subarray b s e ! (i - s)))" "b ! i = subarray b s e ! (i - s)"
  using assms by (simp_all add: byteAt_def nth_subarray diff_less_mono)

lemma isDir_mode:
  assumes "s \<le> e" "e \<le> length b" "dropZeros 48 (subarray b s e) = modeBytes m"
  shows "computeIsDir b s e \<longleftrightarrow> isDirectory m"
proof -
  obtain k where sp: "subarray b s e = replicate k 48 @ modeBytes m"
    using dropZeros_replicate [of "subarray b s e" 48] assms(3) by metis
  have len: "e - s = k + length (modeBytes m)"
    using sp assms(1,2) by (metis length_append length_replicate length_subarray min.absorb1 diff_le_mono)
  have l5: "5 \<le> length (modeBytes m)" by (simp add: length_modeBytes)
  have at5: "byteAt b (e - 5) = Some (unat (modeBytes m ! (length (modeBytes m) - 5)))"
  proof -
    define j where "j = length (modeBytes m) - 5"
    have i: "e - 5 - s = k + j" "s \<le> e - 5" "e - 5 < e" using len l5 by (auto simp: j_def)
    have "(replicate k 48 @ modeBytes m) ! (k + j) = modeBytes m ! j" by (simp add: nth_append)
    then show ?thesis
      using byteAt_subarray(1) [OF i(2,3) assms(2)] unfolding i(1) sp j_def by simp
  qed
  show ?thesis
  proof (cases "m = DIRECTORY")
    case True
    have "(u8 (b ! (e - 6)) - 48) mod 2 = 0" if "e - s \<noteq> 5"
    proof -
      have k: "0 < k" "e - 6 - s = k - 1" "s \<le> e - 6" "e - 6 < e"
        using that len True by (auto simp: length_modeBytes)
      then have "b ! (e - 6) = 48"
        using byteAt_subarray(2) [of s "e - 6" e b] assms(2) sp by (simp add: nth_append)
      then show ?thesis by (simp add: u8_def)
    qed
    then show ?thesis
      using at5 len True by (auto simp: computeIsDir_def Let_def isDirectory_def modeBytes_def jslit_def)
  next
    case False
    then have "unat (modeBytes m ! (length (modeBytes m) - 5)) \<noteq> 52"
      by (cases m) (simp_all add: modeBytes_def jslit_def)
    then show ?thesis using at5 False by (simp add: computeIsDir_def isDirectory_def)
  qed
qed

definition sortKey :: "treeCursor \<Rightarrow> bytes" where
  "sortKey c = cursorNameBytes c @ (if isDir c then [47] else [])"

lemma compareBytes_Nil: "xs = [] \<or> ys = [] \<Longrightarrow> compareBytes xs ys = int (length xs) - int (length ys)"
  by (cases xs; cases ys) simp_all

lemma compareNamesLoop_eq:
  assumes "nameEnd a \<le> length (buf a)" "nameStart a \<le> nameEnd a"
    and "nameEnd b \<le> length (buf b)" "nameStart b \<le> nameEnd b"
    and "stop = min (length (sortKey a)) (length (sortKey b))" "i \<le> stop"
  shows "compareNamesLoop a b (nameEnd a - nameStart a) (nameEnd b - nameStart b) stop i
    = compareBytes (drop i (sortKey a)) (drop i (sortKey b))"
  using assms(6)
proof (induction "stop - i" arbitrary: i)
  case 0
  have la: "length (sortKey a) = nameEnd a - nameStart a + (if isDir a then 1 else 0)"
    and lb: "length (sortKey b) = nameEnd b - nameStart b + (if isDir b then 1 else 0)"
    using assms(1-4) by (auto simp: sortKey_def cursorNameBytes_def min_def)
  have i: "i = stop" using 0 by simp
  have "drop i (sortKey a) = [] \<or> drop i (sortKey b) = []" using i assms(5) by (simp add: min_def)
  then have "compareBytes (drop i (sortKey a)) (drop i (sortKey b))
      = int (length (sortKey a) - i) - int (length (sortKey b) - i)"
    by (simp add: compareBytes_Nil)
  then show ?case
    using i assms(5) la lb by (simp add: compareNamesLoop.simps [of a b] min_def of_nat_diff split: if_splits)
next
  case (Suc n)
  have key: "u8 (sortKey c ! i) = (if i < nameEnd c - nameStart c then u8 (buf c ! (nameStart c + i)) else 47)"
    if "nameEnd c \<le> length (buf c)" "nameStart c \<le> nameEnd c" "i < length (sortKey c)" for c
    using that by (auto simp: sortKey_def cursorNameBytes_def nth_append nth_subarray min_def u8_def split: if_splits)
  have lt: "i < stop" using Suc.hyps(2) by simp
  then have l: "i < length (sortKey a)" "i < length (sortKey b)" using assms(5) by auto
  have d: "drop i (sortKey a) = sortKey a ! i # drop (i + 1) (sortKey a)"
    "drop i (sortKey b) = sortKey b ! i # drop (i + 1) (sortKey b)"
    using l by (simp_all add: Cons_nth_drop_Suc)
  have ih: "compareNamesLoop a b (nameEnd a - nameStart a) (nameEnd b - nameStart b) stop (i + 1)
      = compareBytes (drop (i + 1) (sortKey a)) (drop (i + 1) (sortKey b))"
    using Suc.hyps(2) lt by (intro Suc.hyps(1)) auto
  show ?case
    unfolding d compareBytes.simps(1)
    using lt ih key [of a] key [of b] l assms(1-4)
    by (subst compareNamesLoop.simps) (simp add: Let_def u8_inject [symmetric])
qed


section \<open>Properties\<close>

text \<open>C34: A tree survives serialisation: when every entry has a non-empty name without NUL and an id of
  the repository's hash width, \<open>serializeTreeContent\<close> succeeds and \<open>parseTreeContent\<close> on its bytes
  returns exactly the entries of the tree, in sorted order.\<close>

theorem tree_roundtrip:
  assumes "list_all (entryOk hash) (entries t)" "digestLength hash = 20 \<or> digestLength hash = 32"
  shows "\<exists>bs. serializeTreeContent t hash = Inr bs \<and>
    parseTreeContent oid bs hash = Inr \<lparr>treeId = oid, entries = sortTreeEntries (entries t)\<rparr>"
proof -
  let ?es = "sortTreeEntries (entries t)"
  have ok: "list_all (entryOk hash) ?es" using assms(1) by (simp add: sortTreeEntries_eq list_all_iff)
  have "parseTreeLoop (treeBytes ?es) hash 0 [] = Inr ?es"
    using parseTreeLoop_entries [OF ok assms(2), of 0 "treeBytes ?es" "[]"] by simp
  then show ?thesis
    using serializeTreeContent_eq [OF assms(1)] by (simp add: parseTreeContent_def)
qed

text \<open>A tree with one file and one directory, whose byte order puts the directory \<open>a\<close> after \<open>a.b\<close>.\<close>

definition exampleTree :: tree where
  "exampleTree = \<lparr>treeId = ZERO_OID, entries =
     [treeEntryFromParsedView DIRECTORY [97] (bytesToHex (replicate 20 1)),
      treeEntryFromParsedView REGULAR [97, 46, 98] (bytesToHex (replicate 20 2))]\<rparr>"

lemma exampleTree_ok: "list_all (entryOk SHA1_CONFIG) (entries exampleTree)"
  unfolding exampleTree_def treeEntryFromParsedView_def entryOk_def SHA1_CONFIG_def
  by (auto intro: exI [of _ "replicate 20 1"] exI [of _ "replicate 20 2"])

theorem tree_roundtrip_witness:
  "\<exists>bs. serializeTreeContent exampleTree SHA1_CONFIG = Inr bs \<and>
    parseTreeContent ZERO_OID bs SHA1_CONFIG =
      Inr \<lparr>treeId = ZERO_OID, entries = sortTreeEntries (entries exampleTree)\<rparr>"
  using tree_roundtrip [OF exampleTree_ok, of ZERO_OID] by (simp add: SHA1_CONFIG_def)

text \<open>\<open>sortTreeEntries\<close> returns a permutation of the entries in which each is at or below every later
  one under git's order, the byte order of the names with a slash behind directory names.\<close>

theorem sortTreeEntries_sorted:
  "mset (sortTreeEntries es) = mset es \<and>
   sorted_wrt (\<lambda>a b. treeEntryCompare a b \<le> 0) (sortTreeEntries es)"
  unfolding sortTreeEntries_eq by (intro conjI mset_jsSort sorted_jsSort treeEntryCompare_consistent)


text \<open>\<open>compareCursorNames\<close>, which never materialises a name, orders two cursors exactly as
  \<open>treeEntryCompare\<close> orders the entries they emit, so a merge-join over cursors agrees with the order
  the serializer writes.\<close>

theorem cursor_compare_agrees:
  assumes "standsOn a ba da sa spa nua" "standsOn b bb db sb spb nub"
    and "cursorEntry a = Inr ea" "cursorEntry b = Inr eb"
  shows "compareCursorNames a b = treeEntryCompare ea eb"
proof -
  have key: "sortKey c = encodeEntryName (nameBytes e) (isDirectory (mode e)) \<and>
      nameEnd c \<le> length (buf c) \<and> nameStart c \<le> nameEnd c"
    if st: "standsOn c b' d s sp nu" and e: "cursorEntry c = Inr e" for c b' d s sp nu e
  proof -
    have o: "s < sp" "sp + 1 < nu" "nu + 1 + d \<le> length b'" "entryAt b' d s sp nu"
      using st entryAt_order [of b' d s sp nu] by (auto simp: standsOn_def)
    obtain m oid where m: "normalizeFileMode (decode (subarray b' s sp)) = Inr m"
      and em: "e = treeEntryFromParsedView m (subarray b' (sp + 1) nu) oid"
      using cursorEntry_Inr [OF st, of e] e by blast
    have "matchFileModeBytes b' s sp = Inr m" using cursor_mode_agrees [OF o(4)] m by simp
    then have "dropZeros 48 (subarray b' s sp) = modeBytes m"
      using matchFileModeBytes_Inr [of s sp b' m] o by simp
    then have "computeIsDir b' s sp \<longleftrightarrow> isDirectory m" using o by (intro isDir_mode) simp_all
    then show ?thesis
      using st em o by (auto simp: standsOn_def sortKey_def cursorNameBytes_def encodeEntryName_eq
          treeEntryFromParsedView_def)
  qed
  note ka = key [OF assms(1,3)] and kb = key [OF assms(2,4)]
  have len: "length (sortKey c) = nameEnd c - nameStart c + (if isDir c then 1 else 0)"
    if "nameEnd c \<le> length (buf c)" "nameStart c \<le> nameEnd c" for c
    using that by (auto simp: sortKey_def cursorNameBytes_def min_def)
  have "compareCursorNames a b = compareBytes (sortKey a) (sortKey b)"
    unfolding compareCursorNames_def Let_def
    using compareNamesLoop_eq [of a b _ 0] ka kb len [of a] len [of b] by simp
  then show ?thesis using ka kb by (simp add: treeEntryCompare_def)
qed

definition exampleBuffer :: "byte \<Rightarrow> bytes" where
  "exampleBuffer w = [52, 48, 48, 48, 48, 32, w, 0] @ replicate 20 7"

definition exampleCursor :: "byte \<Rightarrow> treeCursor" where
  "exampleCursor w = \<lparr>buf = exampleBuffer w, cursorDigestLength = 20, offset = 0, modeEnd = 5, nameStart = 6,
     nameEnd = 7, oidStart = 8, isDir = True, isDone = False\<rparr>"

lemma exampleCursor_stands: "w \<noteq> 0 \<Longrightarrow> standsOn (exampleCursor w) (exampleBuffer w) 20 0 5 7"
  by (simp add: standsOn_def exampleCursor_def exampleBuffer_def entryAt_def indexOf_def indexOfUnit_def
      hasNonOctalByte_def computeIsDir_def byteAt_def upt_rec)

lemma exampleCursor_entry:
  "cursorEntry (exampleCursor w) = Inr \<lparr>mode = DIRECTORY, entryName = cursorName (exampleCursor w),
     nameBytes = cursorNameBytes (exampleCursor w), entryId = bytesToHex (replicate 20 7)\<rparr>"
proof -
  have "subarray (exampleBuffer w) 0 5 = modeBytes DIRECTORY"
    by (simp add: exampleBuffer_def subarray_def modeBytes_def jslit_def)
  then have "matchFileModeBytes (exampleBuffer w) 0 5 = Inr DIRECTORY"
    using matchFileModeBytes_Inr [of 0 5 "exampleBuffer w" DIRECTORY] dropZeros_modeBytes
    by (simp add: exampleBuffer_def)
  then show ?thesis
    by (simp add: cursorEntry_def cursorOid_def cursorMode_def exampleCursor_def ObjectId_fromRaw_def
        exampleBuffer_def subarray_def)
qed

theorem cursor_compare_agrees_witness:
  "\<exists>ea eb. cursorEntry (exampleCursor 97) = Inr ea \<and> cursorEntry (exampleCursor 98) = Inr eb \<and>
    compareCursorNames (exampleCursor 97) (exampleCursor 98) = treeEntryCompare ea eb"
  using cursor_compare_agrees [OF exampleCursor_stands [of 97] exampleCursor_stands [of 98]
      exampleCursor_entry exampleCursor_entry] exampleCursor_entry [of 97] exampleCursor_entry [of 98]
  by simp

end
