(* ===== verification/PackEntry.thy ===== *)
theory PackEntry
  imports ObjectIds Codec
begin

text \<open>
  \<open>storage/pack-entry.ts\<close>: the header of a packfile and of each of its entries, with the size field
  that follows the type nibble and the base distance of an offset delta.
\<close>

section \<open>Model\<close>

datatype packEntryType = COMMIT | TREE | BLOB | TAG | OFS_DELTA | REF_DELTA

primrec PACK_ENTRY_TYPE :: "packEntryType \<Rightarrow> int" where
  "PACK_ENTRY_TYPE COMMIT = 1"
| "PACK_ENTRY_TYPE TREE = 2"
| "PACK_ENTRY_TYPE BLOB = 3"
| "PACK_ENTRY_TYPE TAG = 4"
| "PACK_ENTRY_TYPE OFS_DELTA = 6"
| "PACK_ENTRY_TYPE REF_DELTA = 7"

text \<open>\<open>PackEntryHeader\<close>: size and data offset, and the base of a delta.\<close>

datatype packEntryHeader =
    BasePackEntryHeader int int nat
  | OfsPackEntryHeader int nat nat
  | RefPackEntryHeader int nat objectId

record packHeader =
  packVersion :: nat
  objectCount :: nat

definition PACK_MAGIC :: nat where
  "PACK_MAGIC = 1346454347"

definition SUPPORTED_PACK_VERSIONS :: "nat set" where
  "SUPPORTED_PACK_VERSIONS = {2, 3}"

definition GENERATED_PACK_VERSION :: nat where
  "GENERATED_PACK_VERSION = 2"

definition PACK_HEADER_SIZE :: nat where
  "PACK_HEADER_SIZE = 12"

definition parsePackHeader :: "bytes \<Rightarrow> tsgit_error + packHeader" where
  "parsePackHeader bs =
     (if length bs < PACK_HEADER_SIZE
      then Inl (InvalidPackHeader (Reason ''truncated: pack header requires 12 bytes'' []))
      else bindE (getUint32 bs 0) (\<lambda>magic.
        if magic \<noteq> PACK_MAGIC
        then Inl (InvalidPackHeader (Reason ''invalid magic: expected 0x5041434b, got 0x#'' [int magic]))
        else bindE (getUint32 bs 4) (\<lambda>version.
          if version \<notin> SUPPORTED_PACK_VERSIONS
          then Inl (InvalidPackHeader (Reason ''unsupported version: expected 2 or 3, got #'' [int version]))
          else bindE (getUint32 bs 8) (\<lambda>cnt. Inr \<lparr>packVersion = version, objectCount = cnt\<rparr>))))"

definition serializePackHeader :: "nat \<Rightarrow> nat \<Rightarrow> bytes" where
  "serializePackHeader version cnt =
     blit (blit (blit (replicate PACK_HEADER_SIZE 0) (u32_bytes PACK_MAGIC) 0) (u32_bytes version) 4)
       (u32_bytes cnt) 8"

definition MAX_SIZE_EXTENSION_BYTES :: nat where
  "MAX_SIZE_EXTENSION_BYTES = 5"

function sizeLoop :: "bytes \<Rightarrow> nat \<Rightarrow> nat \<Rightarrow> int \<Rightarrow> nat \<Rightarrow> nat \<Rightarrow> tsgit_error + (int \<times> nat)" where
  "sizeLoop bs offset pos sz shift extensionBytes =
     (if js_and (u8 (bs ! pos)) 128 \<noteq> 0 then
        if MAX_SIZE_EXTENSION_BYTES < extensionBytes + 1
        then Inl (InvalidPackEntry offset (Reason ''size encoding too long'' []))
        else if length bs \<le> pos + 1
        then Inl (InvalidPackEntry offset (Reason ''unexpected end of header'' []))
        else sizeLoop bs offset (pos + 1)
          (js_or sz (js_shl (js_and (u8 (bs ! (pos + 1))) 127) shift)) (shift + 7) (extensionBytes + 1)
      else Inr (sz, pos + 1))"
  by pat_completeness auto
termination by (relation "measure (\<lambda>(bs, offset, pos, sz, shift, k). length bs - pos)") auto

declare sizeLoop.simps [simp del]

definition decodeTypeAndSize :: "bytes \<Rightarrow> nat \<Rightarrow> tsgit_error + (int \<times> int \<times> nat)" where
  "decodeTypeAndSize bs offset =
     (if length bs \<le> offset then Inl (InvalidPackEntry offset (Reason ''unexpected end of header'' []))
      else
        let firstByte = u8 (bs ! offset);
            type = js_and (js_shr firstByte 4) 7;
            sz = js_and firstByte 15
        in bindE (sizeLoop bs offset offset sz 4 0) (\<lambda>(size', nextPos). Inr (type, size', nextPos)))"

definition MAX_OFS_DISTANCE_BYTES :: nat where
  "MAX_OFS_DISTANCE_BYTES = 4"

text \<open>The distance accumulates in floating point, exactly: it stays far below the 53-bit bound.\<close>

function ofsLoop :: "bytes \<Rightarrow> nat \<Rightarrow> nat \<Rightarrow> nat \<Rightarrow> nat \<Rightarrow> tsgit_error + (nat \<times> nat)" where
  "ofsLoop bs entryOffset currentPos distance continuationCount =
     (if js_and (u8 (bs ! currentPos)) 128 \<noteq> 0 then
        if MAX_OFS_DISTANCE_BYTES < continuationCount + 1
        then Inl (InvalidPackEntry entryOffset (Reason ''OFS_DELTA distance encoding too long'' []))
        else if length bs \<le> currentPos + 1
        then Inl (InvalidPackEntry entryOffset (Reason ''unexpected end of OFS_DELTA distance'' []))
        else ofsLoop bs entryOffset (currentPos + 1)
          ((distance + 1) * 128 + nat (js_and (u8 (bs ! (currentPos + 1))) 127)) (continuationCount + 1)
      else Inr (distance, currentPos + 1))"
  by pat_completeness auto
termination by (relation "measure (\<lambda>(bs, off, pos, d, k). length bs - pos)") auto

declare ofsLoop.simps [simp del]

definition decodeOfsDistance :: "bytes \<Rightarrow> nat \<Rightarrow> nat \<Rightarrow> tsgit_error + (nat \<times> nat)" where
  "decodeOfsDistance bs pos entryOffset =
     (if length bs \<le> pos
      then Inl (InvalidPackEntry entryOffset (Reason ''unexpected end of OFS_DELTA distance'' []))
      else ofsLoop bs entryOffset pos (nat (js_and (u8 (bs ! pos)) 127)) 0)"

definition validateEntryType :: "int \<Rightarrow> nat \<Rightarrow> tsgit_error + unit" where
  "validateEntryType type offset =
     (if type = 5 then Inl (InvalidPackEntry offset (Reason ''reserved type 5'' []))
      else if type < 1 \<or> 7 < type then Inl (InvalidPackEntry offset (Reason ''unknown type #'' [type]))
      else Inr ())"

definition parsePackEntryHeader :: "bytes \<Rightarrow> nat \<Rightarrow> hashConfig \<Rightarrow> tsgit_error + packEntryHeader" where
  "parsePackEntryHeader bs offset hash =
     bindE (decodeTypeAndSize bs offset) (\<lambda>(type, sz, pos).
     bindE (validateEntryType type offset) (\<lambda>_.
       if type = PACK_ENTRY_TYPE OFS_DELTA then
         bindE (decodeOfsDistance bs pos offset) (\<lambda>(distance, nextPos).
           Inr (OfsPackEntryHeader sz nextPos distance))
       else if type = PACK_ENTRY_TYPE REF_DELTA then
         let endPos = pos + digestLength hash in
         if length bs < endPos
         then Inl (InvalidPackEntry offset (Reason ''unexpected end of REF_DELTA base id'' []))
         else Inr (RefPackEntryHeader sz endPos (bytesToHex (subarray bs pos endPos)))
       else Inr (BasePackEntryHeader type sz pos)))"

lemma ushr_less: "0 < r \<Longrightarrow> js_ushr r 7 < r"
proof -
  assume r: "0 < r"
  have "js_ushr r 7 = r mod 2 ^ 32 div 128" by (simp add: js_ushr_mod_div)
  also have "\<dots> \<le> r div 128" using r by (intro zdiv_mono1 zmod_le_nonneg_dividend) auto
  also have "\<dots> < r" using r by (intro int_div_less_self) simp_all
  finally show ?thesis .
qed

function encodeSizeLoop :: "int \<Rightarrow> bytes" where
  "encodeSizeLoop remaining =
     (if 0 < remaining then
        let nextByte = js_and remaining 127;
            rest = js_ushr remaining 7;
            nextByte' = (if 0 < rest then js_or nextByte 128 else nextByte)
        in toByte nextByte' # encodeSizeLoop rest
      else [])"
  by pat_completeness auto
termination by (relation "measure nat") (auto simp: ushr_less)

declare encodeSizeLoop.simps [simp del]

definition encodePackEntryHeader :: "packEntryType \<Rightarrow> nat \<Rightarrow> bytes" where
  "encodePackEntryHeader type sz =
     (let firstByte = js_or (js_shl (js_and (PACK_ENTRY_TYPE type) 7) 4) (js_and (int sz) 15);
          remaining = js_ushr (int sz) 4;
          firstByte' = (if 0 < remaining then js_or firstByte 128 else firstByte)
      in toByte firstByte' # encodeSizeLoop remaining)"

function encodeOfsLoop :: "int \<Rightarrow> bytes \<Rightarrow> bytes" where
  "encodeOfsLoop remaining result =
     (if 0 < remaining then
        let r = remaining - 1
        in encodeOfsLoop (js_ushr r 7) (result @ [toByte (js_or 128 (js_and r 127))])
      else result)"
  by pat_completeness auto
termination
proof (relation "measure (\<lambda>(r, result). nat r)")
  fix remaining r :: int and result :: bytes
  assume a: "0 < remaining" "r = remaining - 1"
  have "js_ushr r 7 < remaining"
  proof (cases "0 < r")
    case True
    then show ?thesis using ushr_less [of r] a by linarith
  next
    case False
    then have "r = 0" using a by simp
    then show ?thesis using a by (simp add: js_ushr_mod_div)
  qed
  then show "((js_ushr r 7, result @ [toByte (js_or 128 (js_and r 127))]), (remaining, result))
      \<in> measure (\<lambda>(r, result). nat r)" using a by simp
qed simp

declare encodeOfsLoop.simps [simp del]

definition encodeOfsDistance :: "nat \<Rightarrow> bytes" where
  "encodeOfsDistance distance =
     rev (encodeOfsLoop (js_ushr (int distance) 7) [toByte (js_and (int distance) 127)])"

datatype objectType = BlobType | TreeType | CommitType | TagType

text \<open>\<open>BasePackEntryType\<close> is the four base types; the table has no entry for the deltas.\<close>

fun packEntryTypeToObjectType :: "packEntryType \<Rightarrow> objectType option" where
  "packEntryTypeToObjectType COMMIT = Some CommitType"
| "packEntryTypeToObjectType TREE = Some TreeType"
| "packEntryTypeToObjectType BLOB = Some BlobType"
| "packEntryTypeToObjectType TAG = Some TagType"
| "packEntryTypeToObjectType _ = None"

primrec objectTypeToPackEntryType :: "objectType \<Rightarrow> packEntryType" where
  "objectTypeToPackEntryType CommitType = COMMIT"
| "objectTypeToPackEntryType TreeType = TREE"
| "objectTypeToPackEntryType BlobType = BLOB"
| "objectTypeToPackEntryType TagType = TAG"

section \<open>The pack header\<close>

lemma serializePackHeader_eq:
  "serializePackHeader v n = u32_bytes PACK_MAGIC @ u32_bytes v @ u32_bytes n"
  unfolding serializePackHeader_def PACK_HEADER_SIZE_def blit_def
  by simp

section \<open>The size field\<close>

lemma sizeLoop_encode:
  assumes "drop pos bs = w # encodeSizeLoop (int r) @ post" "js_and (u8 w) 128 \<noteq> 0 \<longleftrightarrow> 0 < r"
    and "int acc < 2 ^ shift" "acc + r * 2 ^ shift < 2147483648" "shift = 4 + 7 * k"
  shows "sizeLoop bs offset pos (int acc) shift k
    = Inr (int (acc + r * 2 ^ shift), pos + 1 + length (encodeSizeLoop (int r)))"
  using assms
proof (induction r arbitrary: pos w acc shift k rule: less_induct)
  case (less r)
  have at: "bs ! pos = w" "pos < length bs" "drop (pos + 1) bs = encodeSizeLoop (int r) @ post"
    using nth_of_drop [OF less.prems(1)] by auto
  show ?case
  proof (cases "r = 0")
    case True
    then show ?thesis using less.prems(2) at by (simp add: sizeLoop.simps [of bs] encodeSizeLoop.simps)
  next
    case False
    have "1 * 2 ^ shift \<le> r * 2 ^ shift" using False by (intro mult_le_mono1) simp
    then have "(2 :: nat) ^ shift < 2147483648" using less.prems(4) by linarith
    then have "(2 :: nat) ^ shift < 2 ^ 31" by simp
    then have sh: "shift < 31" using power_less_imp_less_exp [of "2 :: nat" shift 31] by simp
    have r32: "int r < 2 ^ 32"
    proof -
      have "r * 1 \<le> r * 2 ^ shift" by (intro mult_le_mono2) simp
      then have "r < 2147483648" using less.prems(4) by linarith
      then show ?thesis by simp
    qed
    let ?q = "r div 128" and ?b = "js_and (int r) 127"
    have q: "js_ushr (int r) 7 = int ?q" using r32 by (simp add: js_ushr_div zdiv_int)
    have b: "?b = int (r mod 128)" by (simp add: js_and_127 zmod_int)
    let ?w = "toByte (if 0 < int ?q then js_or ?b 128 else ?b)"
    have enc: "encodeSizeLoop (int r) = ?w # encodeSizeLoop (int ?q)"
      using False q by (simp add: encodeSizeLoop.simps [of "int r"] Let_def)
    have u8w: "u8 ?w = (if 0 < ?q then ?b + 128 else ?b)"
      using js_or_low_128 [of ?b] b by simp
    have cont: "js_and (u8 ?w) 128 \<noteq> 0 \<longleftrightarrow> 0 < ?q"
      using u8w cont_bit [of ?b] b by (auto simp: js_and_128)
    have low: "js_and (u8 ?w) 127 = int (r mod 128)"
      using u8w b by (simp add: js_and_127 mod_add_right_eq [symmetric] zmod_int)
    have at1: "bs ! (pos + 1) = ?w" "pos + 1 < length bs"
      using nth_of_drop [of "pos + 1" bs ?w "encodeSizeLoop (int ?q) @ post"] at(3) enc by auto
    let ?acc = "acc + r mod 128 * 2 ^ shift"
    have rsplit: "r * 2 ^ shift = r mod 128 * 2 ^ shift + ?q * 2 ^ (shift + 7)"
    proof -
      have "(a + q * 128) * p = a * p + q * (p * 128)" for a q p :: nat by (simp add: algebra_simps)
      from this [of "r mod 128" ?q "2 ^ shift"] show ?thesis by (simp add: power_add)
    qed
    have acc: "js_or (int acc) (js_shl (js_and (u8 ?w) 127) shift) = int ?acc"
    proof -
      have "int acc + int (r mod 128) * 2 ^ shift < 2147483648"
      proof -
        have "acc + r mod 128 * 2 ^ shift < 2147483648" using less.prems(4) rsplit by linarith
        then have "int (acc + r mod 128 * 2 ^ shift) < int 2147483648" by (simp only: of_nat_less_iff)
        then show ?thesis by (simp only: of_nat_add of_nat_mult of_nat_power of_nat_numeral)
      qed
      then show ?thesis using low js_or_shl_add [of "int acc" shift "int (r mod 128)"] less.prems(3) sh by simp
    qed
    have bound: "int ?acc < 2 ^ (shift + 7)"
    proof -
      have "acc < 2 ^ shift" using less.prems(3) by (simp add: of_nat_less_iff [symmetric] del: of_nat_less_iff)
      moreover have "r mod 128 * 2 ^ shift \<le> 127 * 2 ^ shift" by (intro mult_le_mono1) simp
      ultimately have "?acc < 128 * 2 ^ shift" by linarith
      then have "?acc < 2 ^ (shift + 7)" by (simp add: power_add)
      then show ?thesis by (metis of_nat_less_iff of_nat_numeral of_nat_power)
    qed
    have k: "\<not> MAX_SIZE_EXTENSION_BYTES < k + 1"
      using sh less.prems(5) by (simp add: MAX_SIZE_EXTENSION_BYTES_def)
    have "sizeLoop bs offset (pos + 1) (int ?acc) (shift + 7) (k + 1)
        = Inr (int (?acc + ?q * 2 ^ (shift + 7)), pos + 1 + 1 + length (encodeSizeLoop (int ?q)))"
    proof (rule less.IH)
      show "?q < r" using False by simp
      show "drop (pos + 1) bs = ?w # encodeSizeLoop (int ?q) @ post" using at(3) enc by simp
      show "?acc + ?q * 2 ^ (shift + 7) < 2147483648" using less.prems(4) rsplit by linarith
    qed (use cont bound less.prems(5) in simp_all)
    moreover have "?acc + ?q * 2 ^ (shift + 7) = acc + r * 2 ^ shift" using rsplit by linarith
    ultimately show ?thesis
      using less.prems(2) False at at1 k acc enc by (simp add: sizeLoop.simps [of bs offset pos])
  qed
qed

lemma toInt32_u8: "toInt32 (u8 b) = u8 b"
  using u8_bounds [of b] by (intro toInt32_nonneg) linarith+

lemma type_nibble:
  assumes "0 \<le> x" "x < 16"
  shows "js_and (js_shr (u8 (toByte (if c then js_or (js_or (js_shl (js_and (PACK_ENTRY_TYPE t) 7) 4) x) 128
        else js_or (js_shl (js_and (PACK_ENTRY_TYPE t) 7) 4) x))) 4) 7 = PACK_ENTRY_TYPE t"
    and "js_and (u8 (toByte (if c then js_or (js_or (js_shl (js_and (PACK_ENTRY_TYPE t) 7) 4) x) 128
        else js_or (js_shl (js_and (PACK_ENTRY_TYPE t) 7) 4) x))) 15 = x"
    and "js_and (u8 (toByte (if c then js_or (js_or (js_shl (js_and (PACK_ENTRY_TYPE t) 7) 4) x) 128
        else js_or (js_shl (js_and (PACK_ENTRY_TYPE t) 7) 4) x))) 128 \<noteq> 0 \<longleftrightarrow> c"
proof -
  let ?t = "PACK_ENTRY_TYPE t"
  have t: "0 \<le> ?t" "?t < 8" by (cases t; simp)+
  have 1: "js_shl (js_and ?t 7) 4 = ?t * 16"
    using t by (subst js_shl_mult) (simp_all add: js_and_7)
  have 2: "js_or (?t * 16) x = x + ?t * 16"
    using or_disjoint_add [of x 4 ?t] assms t by (simp add: js_or_def or.commute toInt32_nonneg)
  have r: "0 \<le> x + ?t * 16" "x + ?t * 16 < 128" using assms t by auto
  have 3: "js_or (x + ?t * 16) 128 = x + ?t * 16 + 128" using r by (rule js_or_low_128)
  define f where "f = toByte (if c then js_or (js_or (js_shl (js_and ?t 7) 4) x) 128
        else js_or (js_shl (js_and ?t 7) 4) x)"
  have u: "u8 f = x + ?t * 16 + (if c then 128 else 0)"
    unfolding f_def 1 2 3 using r by simp
  have "js_shr (u8 f) 4 = u8 f div 16"
    by (simp add: js_shr_def toInt32_u8 drop_bit_eq_div)
  also have "\<dots> = ?t + (if c then 8 else 0)" unfolding u using assms by (cases c) auto
  finally have "js_and (js_shr (u8 f) 4) 7 = ?t" using t by (simp add: js_and_7)
  then show "js_and (js_shr (u8 (toByte (if c then js_or (js_or (js_shl (js_and ?t 7) 4) x) 128
        else js_or (js_shl (js_and ?t 7) 4) x))) 4) 7 = ?t" by (simp only: f_def)
  have "u8 f = x + (?t + (if c then 8 else 0)) * 16" unfolding u by simp
  then have "js_and (u8 f) 15 = x" using assms by (simp only: js_and_15 mod_mult_self1) simp
  then show "js_and (u8 (toByte (if c then js_or (js_or (js_shl (js_and ?t 7) 4) x) 128
        else js_or (js_shl (js_and ?t 7) 4) x))) 15 = x" by (simp only: f_def)
  have "js_and (u8 f) 128 \<noteq> 0 \<longleftrightarrow> c" unfolding u using r cont_bit [OF r] by (cases c) (simp_all add: js_and_128)
  then show "js_and (u8 (toByte (if c then js_or (js_or (js_shl (js_and ?t 7) 4) x) 128
        else js_or (js_shl (js_and ?t 7) 4) x))) 128 \<noteq> 0 \<longleftrightarrow> c" by (simp only: f_def)
qed

lemma decodeTypeAndSize_encode:
  assumes "sz < 2147483648" "drop pos bs = encodePackEntryHeader t sz @ post"
  shows "decodeTypeAndSize bs pos = Inr (PACK_ENTRY_TYPE t, int sz, pos + length (encodePackEntryHeader t sz))"
proof -
  let ?x = "js_and (int sz) 15" and ?r = "sz div 16"
  have x: "?x = int (sz mod 16)" by (simp add: js_and_15 zmod_int)
  then have xr: "0 \<le> ?x" "?x < 16" by simp_all
  have r: "js_ushr (int sz) 4 = int ?r" using assms(1) by (simp add: js_ushr_div zdiv_int)
  let ?first = "toByte (if 0 < ?r then js_or (js_or (js_shl (js_and (PACK_ENTRY_TYPE t) 7) 4) ?x) 128
      else js_or (js_shl (js_and (PACK_ENTRY_TYPE t) 7) 4) ?x)"
  have enc: "encodePackEntryHeader t sz = ?first # encodeSizeLoop (int ?r)"
    by (simp add: encodePackEntryHeader_def Let_def r)
  note tn = type_nibble [OF xr, of "0 < ?r" t]
  have d: "drop pos bs = ?first # encodeSizeLoop (int ?r) @ post" using assms(2) enc by simp
  have at: "bs ! pos = ?first" "pos < length bs" using nth_of_drop [OF d] by auto
  have "sizeLoop bs pos pos (int (sz mod 16)) 4 0
      = Inr (int (sz mod 16 + ?r * 2 ^ 4), pos + 1 + length (encodeSizeLoop (int ?r)))"
    using assms(1) by (intro sizeLoop_encode [OF d tn(3)]) simp_all
  then show ?thesis
    using at tn(1,2) x enc by (simp add: decodeTypeAndSize_def Let_def)
qed

section \<open>The base distance\<close>

text \<open>The bytes in front of the last one, most significant first, and what the decoder makes of them.\<close>

fun ofsDigits :: "nat \<Rightarrow> bytes" where
  "ofsDigits r = (if r = 0 then [] else ofsDigits ((r - 1) div 128) @ [of_nat (128 + (r - 1) mod 128)])"

declare ofsDigits.simps [simp del]

definition ofsStep :: "int \<Rightarrow> byte \<Rightarrow> int" where
  "ofsStep d w = (d + 1) * 128 + int (unat w mod 128)"

lemma encodeOfsLoop_eq: "r < 4294967296 \<Longrightarrow> rev (encodeOfsLoop (int r) acc) = ofsDigits r @ rev acc"
proof (induction r arbitrary: acc rule: less_induct)
  case (less r)
  show ?case
  proof (cases "r = 0")
    case True
    then show ?thesis by (simp add: encodeOfsLoop.simps ofsDigits.simps)
  next
    case False
    let ?p = "r - 1"
    have p: "int r - 1 = int ?p" using False by simp
    have q: "js_ushr (int ?p) 7 = int (?p div 128)" using less.prems by (simp add: js_ushr_div zdiv_int)
    have m: "js_and (int ?p) 127 = int (?p mod 128)" by (simp add: js_and_127 zmod_int)
    have "js_or 128 (int (?p mod 128)) = int (128 + ?p mod 128)"
      using js_or_low_128 [of "int (?p mod 128)"] by (simp add: js_or_def or.commute)
    then have b: "toByte (js_or 128 (js_and (int ?p) 127)) = of_nat (128 + ?p mod 128)"
      unfolding m toByte_def by (simp only: of_int_of_nat_eq)
    have "rev (encodeOfsLoop (int r) acc) = rev (encodeOfsLoop (int (?p div 128)) (acc @ [of_nat (128 + ?p mod 128)]))"
      using False by (subst encodeOfsLoop.simps) (simp only: p q b Let_def if_True of_nat_0_less_iff neq0_conv [symmetric] not_False_eq_True)
    also have "\<dots> = ofsDigits (?p div 128) @ rev (acc @ [of_nat (128 + ?p mod 128)])"
      using False less.prems by (intro less.IH) (auto intro: le_less_trans [OF div_le_dividend])
    finally show ?thesis using False by (simp add: ofsDigits.simps [of r])
  qed
qed

lemma encodeOfsDistance_eq:
  assumes "d < 4294967296"
  shows "encodeOfsDistance d = ofsDigits (d div 128) @ [of_nat (d mod 128)]"
proof -
  have "js_ushr (int d) 7 = int (d div 128)" using assms by (simp add: js_ushr_div zdiv_int)
  moreover have "toByte (js_and (int d) 127) = of_nat (d mod 128)"
  proof -
    have "js_and (int d) 127 = int (d mod 128)" by (simp add: js_and_127 zmod_int)
    then show ?thesis by (simp only: toByte_def of_int_of_nat_eq)
  qed
  ultimately show ?thesis
    using assms encodeOfsLoop_eq [of "d div 128"] by (simp add: encodeOfsDistance_def le_less_trans [OF div_le_dividend])
qed

lemma ofsDigits_value: "foldl ofsStep (- 1) (ofsDigits r) = int r - 1"
proof (induction r rule: ofsDigits.induct)
  case (1 r)
  show ?case
  proof (cases "r = 0")
    case False
    let ?p = "r - 1"
    have "unat (of_nat (128 + ?p mod 128) :: byte) mod 128 = ?p mod 128" by (simp only: unat_byte_of_nat) simp
    moreover have "foldl ofsStep (- 1) (ofsDigits r)
        = ofsStep (foldl ofsStep (- 1) (ofsDigits (?p div 128))) (of_nat (128 + ?p mod 128))"
      using False by (simp add: ofsDigits.simps [of r])
    ultimately have "foldl ofsStep (- 1) (ofsDigits r) = (int (?p div 128) - 1 + 1) * 128 + int (?p mod 128)"
      unfolding 1 [OF False] by (simp only: ofsStep_def)
    also have "\<dots> = int (?p div 128 * 128 + ?p mod 128)"
      by (simp only: of_nat_add of_nat_mult of_nat_numeral diff_add_cancel)
    also have "\<dots> = int ?p" by (simp only: div_mult_mod_eq)
    also have "\<dots> = int r - 1" using False by simp
    finally show ?thesis .
  qed (simp add: ofsDigits.simps)
qed

lemma ofsDigits_bit: "w \<in> set (ofsDigits r) \<Longrightarrow> js_and (u8 w) 128 \<noteq> 0"
proof (induction r rule: ofsDigits.induct)
  case (1 r)
  show ?case
  proof (cases "w \<in> set (ofsDigits ((r - 1) div 128)) \<and> r \<noteq> 0")
    case True
    then show ?thesis using 1 by auto
  next
    case False
    then have w: "w = of_nat (128 + (r - 1) mod 128)"
      using "1.prems" by (auto simp: ofsDigits.simps [of r] split: if_splits)
    have "unat w = 128 + (r - 1) mod 128" unfolding w by (simp only: unat_byte_of_nat) simp
    then have "u8 w = int ((r - 1) mod 128) + 128" by (simp add: u8_def uint_nat)
    then show ?thesis using cont_bit [of "int ((r - 1) mod 128)"] by simp
  qed
qed

lemma ofsDigits_length: "r < 128 ^ k \<Longrightarrow> length (ofsDigits r) \<le> k"
proof (induction k arbitrary: r)
  case 0
  then show ?case by (simp add: ofsDigits.simps)
next
  case (Suc k)
  have "(r - 1) div 128 < 128 ^ k" using Suc.prems by (intro less_mult_imp_div_less) (simp add: mult.commute)
  then show ?case using Suc.IH [of "(r - 1) div 128"] by (simp add: ofsDigits.simps [of r])
qed

lemma ofsLoop_more:
  "js_and (u8 (bs ! pos)) 128 \<noteq> 0 \<Longrightarrow> k < 4 \<Longrightarrow> pos + 1 < length bs \<Longrightarrow>
    ofsLoop bs off pos d k =
      ofsLoop bs off (pos + 1) ((d + 1) * 128 + nat (js_and (u8 (bs ! (pos + 1))) 127)) (k + 1)"
  by (subst ofsLoop.simps) (simp add: MAX_OFS_DISTANCE_BYTES_def)

lemma ofsLoop_stop: "js_and (u8 (bs ! pos)) 128 = 0 \<Longrightarrow> ofsLoop bs off pos d k = Inr (d, pos + 1)"
  by (subst ofsLoop.simps) simp

lemma u8_int: "u8 b = int (unat b)"
  by (simp add: u8_def)

lemma low7: "js_and (u8 l) 127 = int (unat l mod 128)"
  unfolding js_and_127 u8_int by (simp only: of_nat_mod of_nat_numeral)

lemma low7_nat: "nat (js_and (u8 l) 127) = unat l mod 128"
  by (simp only: low7 nat_int)

lemma ofsStep_nat: "(d + 1) * 128 + nat (js_and (u8 l) 127) = nat (ofsStep (int d) l)"
proof -
  have "ofsStep (int d) l = int ((d + 1) * 128 + unat l mod 128)" by (simp add: ofsStep_def)
  then show ?thesis by (simp only: low7_nat nat_int)
qed

lemma ofsStep_nonneg: "0 \<le> ofsStep (int d) l"
  by (simp add: ofsStep_def)

lemma ofsLoop_digits:
  assumes "drop pos bs = w # cs @ l # post" "\<forall>c \<in> set (w # cs). js_and (u8 c) 128 \<noteq> 0"
    and "js_and (u8 l) 128 = 0" "k + length (w # cs) \<le> 4"
  shows "ofsLoop bs off pos d k = Inr (nat (foldl ofsStep (int d) (cs @ [l])), pos + 1 + length cs + 1)"
  using assms
proof (induction cs arbitrary: pos w d k)
  case Nil
  have at: "bs ! pos = w" "drop (pos + 1) bs = l # post" using nth_of_drop [of pos bs w "l # post"] Nil.prems(1) by auto
  have at1: "bs ! (pos + 1) = l" "pos + 1 < length bs" using nth_of_drop [OF at(2)] by auto
  have "ofsLoop bs off pos d k = ofsLoop bs off (pos + 1) (nat (ofsStep (int d) l)) (k + 1)"
    using ofsLoop_more [of bs pos k off d] Nil.prems(2,4) at at1 unfolding ofsStep_nat by simp
  then show ?case using ofsLoop_stop [of bs "pos + 1"] at1(1) Nil.prems(3) by simp
next
  case (Cons c cs)
  have at: "bs ! pos = w" "drop (pos + 1) bs = c # cs @ l # post"
    using nth_of_drop [of pos bs w "c # cs @ l # post"] Cons.prems(1) by auto
  have at1: "bs ! (pos + 1) = c" "pos + 1 < length bs" using nth_of_drop [OF at(2)] by auto
  have st: "int (nat (ofsStep (int d) c)) = ofsStep (int d) c" using ofsStep_nonneg by simp
  have "ofsLoop bs off pos d k = ofsLoop bs off (pos + 1) (nat (ofsStep (int d) c)) (k + 1)"
    using ofsLoop_more [of bs pos k off d] Cons.prems(2,4) at at1 unfolding ofsStep_nat by simp
  also have "\<dots> = Inr (nat (foldl ofsStep (ofsStep (int d) c) (cs @ [l])), pos + 1 + 1 + length cs + 1)"
    using Cons.IH [OF at(2), of "k + 1" "nat (ofsStep (int d) c)"] Cons.prems(2,3,4) unfolding st by simp
  finally show ?case by simp
qed

lemma decodeOfsDistance_encode:
  assumes "d < 4294967296" "drop pos bs = encodeOfsDistance d @ post"
  shows "decodeOfsDistance bs pos off = Inr (d, pos + length (encodeOfsDistance d))"
proof -
  let ?l = "of_nat (d mod 128) :: byte"
  have u: "unat ?l = d mod 128" by (simp only: unat_byte_of_nat) simp
  have ul: "u8 ?l = int (d mod 128)" unfolding u8_def uint_nat u by (rule refl)
  have l: "js_and (u8 ?l) 128 = 0" "nat (js_and (u8 ?l) 127) = d mod 128"
    unfolding ul by (simp_all add: js_and_128 js_and_127 zmod_int [symmetric])
  have eqs: "encodeOfsDistance d = ofsDigits (d div 128) @ [?l]" using assms(1) by (rule encodeOfsDistance_eq)
  show ?thesis
  proof (cases "ofsDigits (d div 128)")
    case Nil
    then have "d div 128 = 0" by (simp add: ofsDigits.simps split: if_splits)
    then have "d < 128" by (simp add: div_eq_0_iff)
    moreover have "bs ! pos = ?l \<and> pos < length bs"
      using nth_of_drop [of pos bs ?l post] assms(2) eqs Nil by simp
    ultimately show ?thesis
      using l eqs Nil ofsLoop_stop [of bs pos off d 0] by (simp add: decodeOfsDistance_def)
  next
    case (Cons w cs)
    have dr: "drop pos bs = w # cs @ ?l # post" using assms(2) eqs Cons by simp
    have at: "bs ! pos = w" "pos < length bs" using nth_of_drop [OF dr] by auto
    have "d div 128 < 128 ^ 4" using assms(1) by (simp add: less_mult_imp_div_less)
    then have len: "0 + length (w # cs) \<le> 4" using ofsDigits_length [of "d div 128" 4] Cons by simp
    have bits: "\<forall>c \<in> set (w # cs). js_and (u8 c) 128 \<noteq> 0" using ofsDigits_bit [of _ "d div 128"] Cons by simp
    have w0: "int (nat (js_and (u8 w) 127)) = ofsStep (- 1) w"
      by (simp add: ofsStep_def low7_nat)
    have "int (d div 128) * 128 + int (d mod 128) = int d"
      by (metis div_mult_mod_eq of_nat_add of_nat_mult of_nat_numeral)
    then have "foldl ofsStep (ofsStep (- 1) w) (cs @ [?l]) = int d"
      using ofsDigits_value [of "d div 128"] Cons u by (simp add: ofsStep_def)
    then show ?thesis
      using ofsLoop_digits [OF dr bits l(1) len, of off "nat (js_and (u8 w) 127)"] at w0 eqs Cons
      by (simp add: decodeOfsDistance_def)
  qed
qed

section \<open>The codecs\<close>

definition typeSizeDec :: "bytes \<Rightarrow> nat \<Rightarrow> tsgit_error + ((int \<times> int) \<times> nat)" where
  "typeSizeDec bs pos = bindE (decodeTypeAndSize bs pos) (\<lambda>(t, sz, e). Inr ((t, sz), e))"

definition typeSizeEnc :: "int \<times> int \<Rightarrow> bytes" where
  "typeSizeEnc x = (case find (\<lambda>t. PACK_ENTRY_TYPE t = fst x) [COMMIT, TREE, BLOB, TAG, OFS_DELTA, REF_DELTA] of
     Some t \<Rightarrow> encodePackEntryHeader t (nat (snd x)) | None \<Rightarrow> [])"

lemma typeSizeEnc_code: "0 \<le> sz \<Longrightarrow> typeSizeEnc (PACK_ENTRY_TYPE t, sz) = encodePackEntryHeader t (nat sz)"
  by (cases t) (simp_all add: typeSizeEnc_def)

interpretation entry_size: prefix_codec
  "\<lambda>(t, sz). (\<exists>ty. t = PACK_ENTRY_TYPE ty) \<and> 0 \<le> sz \<and> sz < 2147483648" typeSizeEnc typeSizeDec
proof
  fix x :: "int \<times> int" and pre post :: bytes
  assume v: "case x of (t, sz) \<Rightarrow> (\<exists>ty. t = PACK_ENTRY_TYPE ty) \<and> 0 \<le> sz \<and> sz < 2147483648"
  then obtain ty sz where x: "x = (PACK_ENTRY_TYPE ty, sz)" and sz: "0 \<le> sz" "nat sz < 2147483648" by auto
  have "decodeTypeAndSize (pre @ encodePackEntryHeader ty (nat sz) @ post) (length pre)
      = Inr (PACK_ENTRY_TYPE ty, int (nat sz), length pre + length (encodePackEntryHeader ty (nat sz)))"
    by (rule decodeTypeAndSize_encode [OF sz(2)]) simp
  then show "typeSizeDec (pre @ typeSizeEnc x @ post) (length pre) = Inr (x, length pre + length (typeSizeEnc x))"
    using x sz(1) by (simp add: typeSizeDec_def typeSizeEnc_code)
qed

interpretation ofs_distance: prefix_codec "\<lambda>d. d < 4294967296" encodeOfsDistance
  "\<lambda>bs pos. decodeOfsDistance bs pos off" for off
  by unfold_locales (rule decodeOfsDistance_encode, simp_all)

lemma parsePackEntryHeader_encode:
  assumes "sz < 2147483648" "d < 4294967296" "length raw = digestLength hash"
    and "packEntryTypeToObjectType t \<noteq> None"
  shows "parsePackEntryHeader (pre @ encodePackEntryHeader t sz @ post) (length pre) hash
      = Inr (BasePackEntryHeader (PACK_ENTRY_TYPE t) (int sz) (length pre + length (encodePackEntryHeader t sz))) \<and>
    parsePackEntryHeader (pre @ (encodePackEntryHeader OFS_DELTA sz @ encodeOfsDistance d) @ post) (length pre) hash
      = Inr (OfsPackEntryHeader (int sz)
          (length pre + length (encodePackEntryHeader OFS_DELTA sz @ encodeOfsDistance d)) d) \<and>
    parsePackEntryHeader (pre @ (encodePackEntryHeader REF_DELTA sz @ raw) @ post) (length pre) hash
      = Inr (RefPackEntryHeader (int sz) (length pre + length (encodePackEntryHeader REF_DELTA sz @ raw)) (bytesToHex raw))"
proof (intro conjI)
  note ts = decodeTypeAndSize_encode [OF assms(1)]
  have "PACK_ENTRY_TYPE t \<in> {1, 2, 3, 4}" using assms(4) by (cases t) auto
  then show "parsePackEntryHeader (pre @ encodePackEntryHeader t sz @ post) (length pre) hash
      = Inr (BasePackEntryHeader (PACK_ENTRY_TYPE t) (int sz) (length pre + length (encodePackEntryHeader t sz)))"
    using ts [of "length pre" "pre @ encodePackEntryHeader t sz @ post" t post]
    by (auto simp: parsePackEntryHeader_def validateEntryType_def)
  let ?h = "encodePackEntryHeader OFS_DELTA sz"
  let ?b = "pre @ (?h @ encodeOfsDistance d) @ post"
  have "decodeTypeAndSize ?b (length pre) = Inr (6, int sz, length pre + length ?h)"
    using ts [of "length pre" ?b OFS_DELTA "encodeOfsDistance d @ post"] by simp
  moreover have "decodeOfsDistance ?b (length pre + length ?h) (length pre)
      = Inr (d, length pre + length ?h + length (encodeOfsDistance d))"
    using decodeOfsDistance_encode [OF assms(2), of "length (pre @ ?h)" ?b post] by simp
  ultimately show "parsePackEntryHeader ?b (length pre) hash
      = Inr (OfsPackEntryHeader (int sz) (length pre + length (?h @ encodeOfsDistance d)) d)"
    by (simp add: parsePackEntryHeader_def validateEntryType_def add.assoc)
  let ?g = "encodePackEntryHeader REF_DELTA sz"
  let ?c = "pre @ (?g @ raw) @ post"
  have "decodeTypeAndSize ?c (length pre) = Inr (7, int sz, length pre + length ?g)"
    using ts [of "length pre" ?c REF_DELTA "raw @ post"] by simp
  moreover have "subarray ?c (length pre + length ?g) (length pre + length ?g + length raw) = raw"
    using subarray_append_same [of "length pre + length ?g" "pre @ ?g" "length pre + length ?g + length raw" raw post]
    by simp
  ultimately show "parsePackEntryHeader ?c (length pre) hash
      = Inr (RefPackEntryHeader (int sz) (length pre + length (?g @ raw)) (bytesToHex raw))"
    using assms(3) by (simp add: parsePackEntryHeader_def validateEntryType_def Let_def add.assoc)
qed

lemma parsePackHeader_serialize:
  assumes "v = 2 \<or> v = 3" "n < 4294967296"
  shows "parsePackHeader (serializePackHeader v n @ rest) = Inr \<lparr>packVersion = v, objectCount = n\<rparr>"
proof -
  let ?b = "serializePackHeader v n @ rest"
  have b: "?b = u32_bytes PACK_MAGIC @ u32_bytes v @ u32_bytes n @ rest" by (simp add: serializePackHeader_eq)
  have "getUint32 ?b 0 = Inr PACK_MAGIC"
    unfolding b using getUint32_u32 [of 0 "[]" PACK_MAGIC] by (simp add: PACK_MAGIC_def)
  moreover have "getUint32 ?b 4 = Inr v"
    unfolding b using getUint32_u32 [of 4 "u32_bytes PACK_MAGIC" v] assms(1) by auto
  moreover have "getUint32 ?b 8 = Inr n"
    unfolding b using getUint32_u32 [of 8 "u32_bytes PACK_MAGIC @ u32_bytes v" n] assms(2) by simp
  moreover have "\<not> length ?b < PACK_HEADER_SIZE" by (simp add: serializePackHeader_eq PACK_HEADER_SIZE_def)
  ultimately show ?thesis using assms(1) by (auto simp: parsePackHeader_def SUPPORTED_PACK_VERSIONS_def)
qed

section \<open>Properties\<close>

text \<open>Every entry header round-trips at any position of a pack: for sizes below \<open>2^31\<close>, the header of a
  base object, of an offset delta at a distance below \<open>2^32\<close> and of a reference delta are decoded into
  exactly what was encoded, and the data offset is the position just behind the header.\<close>

theorem packEntryHeader_roundtrip:
  assumes "sz < 2147483648" "d < 4294967296" "length raw = digestLength hash"
    and "packEntryTypeToObjectType t \<noteq> None"
  shows "parsePackEntryHeader (pre @ encodePackEntryHeader t sz @ post) (length pre) hash
      = Inr (BasePackEntryHeader (PACK_ENTRY_TYPE t) (int sz) (length pre + length (encodePackEntryHeader t sz))) \<and>
    parsePackEntryHeader (pre @ (encodePackEntryHeader OFS_DELTA sz @ encodeOfsDistance d) @ post) (length pre) hash
      = Inr (OfsPackEntryHeader (int sz)
          (length pre + length (encodePackEntryHeader OFS_DELTA sz @ encodeOfsDistance d)) d) \<and>
    parsePackEntryHeader (pre @ (encodePackEntryHeader REF_DELTA sz @ raw) @ post) (length pre) hash
      = Inr (RefPackEntryHeader (int sz) (length pre + length (encodePackEntryHeader REF_DELTA sz @ raw)) (bytesToHex raw))"
  by (rule parsePackEntryHeader_encode [OF assms])

theorem packEntryHeader_roundtrip_witness:
  "parsePackEntryHeader ([9] @ encodePackEntryHeader BLOB 300 @ [1]) (length [9 :: byte]) SHA1_CONFIG
    = Inr (BasePackEntryHeader 3 300 (length [9 :: byte] + length (encodePackEntryHeader BLOB 300)))"
  using packEntryHeader_roundtrip [of 300 5 "replicate 20 0" SHA1_CONFIG BLOB "[9]" "[1]"]
  by (simp add: SHA1_CONFIG_def)

text \<open>The base distance is a prefix code: two distances below \<open>2^32\<close> whose encodings, followed by anything,
  give the same bytes are equal, and so is what follows them.\<close>

theorem ofsDistance_prefix_free:
  assumes "d < 4294967296" "d' < 4294967296" "encodeOfsDistance d @ r = encodeOfsDistance d' @ r'"
  shows "d = d' \<and> r = r'"
  using ofs_distance.prefix_free [OF assms] .

theorem ofsDistance_prefix_free_witness: "(7 :: nat) = 7 \<and> [1 :: byte] = [1]"
  using ofsDistance_prefix_free [of 7 7 "[1]" "[1]"] by simp

end
