(* ===== verification/PackOrder.thy ===== *)
theory PackOrder
  imports Encoding
begin

text \<open>
  \<open>storage/pack-order.ts\<close>: the entry slabs of a pack in emission order, the oid-ascending
  permutation both index artefacts are written from, and the structural gate they share.
\<close>

section \<open>Model\<close>

record packIndexEntries =
  entryCount :: nat
  slabDigestLength :: nat
  oids :: bytes
  crcValues :: "nat list"
  offsets :: "nat list"

record sortedPackIndex =
  slabs :: packIndexEntries
  order :: "nat list"

text \<open>The comparison callback: a byte read outside the slab makes the difference \<open>NaN\<close>, which the sort
  takes for zero.\<close>

function compareOidsLoop :: "bytes \<Rightarrow> nat \<Rightarrow> nat \<Rightarrow> nat \<Rightarrow> nat \<Rightarrow> int" where
  "compareOidsLoop slab aStart bStart dl i =
     (if i < dl then
        (case (byteAt slab (aStart + i), byteAt slab (bStart + i)) of
           (Some x, Some y) \<Rightarrow>
             if int x - int y \<noteq> 0 then int x - int y else compareOidsLoop slab aStart bStart dl (i + 1)
         | _ \<Rightarrow> 0)
      else 0)"
  by pat_completeness auto
termination by (relation "measure (\<lambda>(slab, a, b, dl, i). dl - i)") auto

declare compareOidsLoop.simps [simp del]

definition sortPackIndexEntries :: "packIndexEntries \<Rightarrow> sortedPackIndex" where
  "sortPackIndexEntries es =
     \<lparr>slabs = es,
      order = jsSort (\<lambda>a b. compareOidsLoop (oids es) (a * slabDigestLength es) (b * slabDigestLength es)
        (slabDigestLength es) 0) [0..<entryCount es]\<rparr>"

datatype sortedPackIndexDefect = DefectHashId | DefectSize | DefectCount

definition assertValidSortedPackIndex ::
    "sortedPackIndex \<Rightarrow> nat \<Rightarrow> (sortedPackIndexDefect \<Rightarrow> reason \<Rightarrow> tsgit_error) \<Rightarrow> tsgit_error + unit" where
  "assertValidSortedPackIndex spi dl fail =
     (if dl \<noteq> 20 \<and> dl \<noteq> 32
      then Inl (fail DefectHashId (Reason ''packChecksum must be 20 or 32 bytes, got #'' [int dl]))
      else
        let es = slabs spi; n = entryCount es in
        if slabDigestLength es \<noteq> dl
        then Inl (fail DefectHashId (Reason ''entries digestLength # does not match packChecksum length #''
          [int (slabDigestLength es), int dl]))
        else if length (oids es) < n * dl
        then Inl (fail DefectSize (Reason ''oids too short: need #, got #'' [int (n * dl), int (length (oids es))]))
        else if length (crcValues es) < n
        then Inl (fail DefectSize (Reason ''crcValues too short: need #, got #'' [int n, int (length (crcValues es))]))
        else if length (offsets es) < n
        then Inl (fail DefectSize (Reason ''offsets too short: need #, got #'' [int n, int (length (offsets es))]))
        else if length (order spi) \<noteq> n
        then Inl (fail DefectCount (Reason ''order length # does not match entries count #''
          [int (length (order spi)), int n]))
        else Inr ())"

section \<open>The oid order\<close>

text \<open>The oid of entry \<open>k\<close>.\<close>

definition slabOid :: "packIndexEntries \<Rightarrow> nat \<Rightarrow> bytes" where
  "slabOid es k = subarray (oids es) (k * slabDigestLength es) (k * slabDigestLength es + slabDigestLength es)"

definition slabsOk :: "packIndexEntries \<Rightarrow> bool" where
  "slabsOk es \<longleftrightarrow> (slabDigestLength es = 20 \<or> slabDigestLength es = 32) \<and>
     entryCount es * slabDigestLength es \<le> length (oids es) \<and>
     entryCount es \<le> length (crcValues es) \<and> entryCount es \<le> length (offsets es)"

lemma slot_fits: "k < n \<Longrightarrow> n * w \<le> l \<Longrightarrow> k * w + w \<le> (l :: nat)"
proof -
  assume "k < n" "n * w \<le> l"
  moreover have "(k + 1) * w \<le> n * w" using \<open>k < n\<close> by (intro mult_le_mono1) simp
  ultimately show ?thesis by simp
qed

lemma length_slabOid: "slabsOk es \<Longrightarrow> k < entryCount es \<Longrightarrow> length (slabOid es k) = slabDigestLength es"
  using slot_fits [of k "entryCount es" "slabDigestLength es" "length (oids es)"]
  by (simp add: slabOid_def slabsOk_def min_def)

lemma compareOidsLoop_eq:
  assumes "aStart + dl \<le> length slab" "bStart + dl \<le> length slab" "i \<le> dl"
  shows "compareOidsLoop slab aStart bStart dl i =
    compareBytes (drop i (subarray slab aStart (aStart + dl))) (drop i (subarray slab bStart (bStart + dl)))"
  using assms(3)
proof (induction "dl - i" arbitrary: i)
  case 0
  then show ?case using assms by (simp add: compareOidsLoop.simps)
next
  case (Suc n)
  let ?a = "subarray slab aStart (aStart + dl)" and ?b = "subarray slab bStart (bStart + dl)"
  have lt: "i < dl" using Suc.hyps(2) by simp
  have l: "length ?a = dl" "length ?b = dl" using assms by (simp_all add: length_subarray_fit del: length_subarray)
  have n: "?a ! i = slab ! (aStart + i)" "?b ! i = slab ! (bStart + i)"
    using lt assms by (simp_all add: nth_subarray)
  have d: "drop i ?a = ?a ! i # drop (i + 1) ?a" "drop i ?b = ?b ! i # drop (i + 1) ?b"
    using l lt by (simp_all only: Suc_eq_plus1 [symmetric] Cons_nth_drop_Suc)
  have at: "byteAt slab (aStart + i) = Some (unat (?a ! i))" "byteAt slab (bStart + i) = Some (unat (?b ! i))"
    using n lt assms by (simp_all add: byteAt_def)
  have ih: "compareOidsLoop slab aStart bStart dl (i + 1) = compareBytes (drop (i + 1) ?a) (drop (i + 1) ?b)"
    using Suc.hyps(2) lt by (intro Suc.hyps(1)) simp_all
  show ?case
    unfolding d compareBytes.simps(1) using lt ih
    by (subst compareOidsLoop.simps) (simp add: at u8_def word_uint_eq_iff)
qed

lemma compareOids_slabOid:
  assumes "slabsOk es" "a < entryCount es" "b < entryCount es"
  shows "compareOidsLoop (oids es) (a * slabDigestLength es) (b * slabDigestLength es) (slabDigestLength es) 0
    = compareBytes (slabOid es a) (slabOid es b)"
proof -
  have "entryCount es * slabDigestLength es \<le> length (oids es)" using assms(1) by (simp add: slabsOk_def)
  then show ?thesis
    using compareOidsLoop_eq [of "a * slabDigestLength es" "slabDigestLength es" "oids es" "b * slabDigestLength es" 0]
      slot_fits assms(2,3) by (simp add: slabOid_def)
qed

end
