(* ===== verification/RevIndex.thy ===== *)
theory RevIndex
  imports PackOrder ObjectIds
begin

text \<open>
  \<open>storage/rev-index.ts\<close>: the pack reverse index, the map from a pack position (rank by offset) to
  the index position (rank by oid).
\<close>

section \<open>Model\<close>

definition REV_MAGIC :: nat where
  "REV_MAGIC = 1380533336"

definition REV_HEADER_SIZE :: nat where
  "REV_HEADER_SIZE = 12"

record packRevIndex =
  revHashId :: nat
  revDigestLength :: nat
  revObjectCount :: nat
  revPackChecksum :: bytes
  revBytes :: bytes

definition parsePackRevIndex :: "bytes \<Rightarrow> nat \<Rightarrow> nat \<Rightarrow> tsgit_error + packRevIndex" where
  "parsePackRevIndex bs dl cnt =
     (if length bs < REV_HEADER_SIZE + 2 * dl
      then Inl (InvalidPackRevIndex ChkSize (Reason ''reverse index is too small'' []))
      else bindE (getUint32 bs 0) (\<lambda>signature.
        if signature \<noteq> REV_MAGIC
        then Inl (InvalidPackRevIndex ChkSignature
          (Reason ''invalid signature: expected 0x52494458, got 0x#'' [int signature]))
        else bindE (getUint32 bs 4) (\<lambda>version.
          if version \<noteq> 1
          then Inl (InvalidPackRevIndex ChkVersion (Reason ''unsupported version: expected 1, got #'' [int version]))
          else bindE (getUint32 bs 8) (\<lambda>hashId.
            if hashId \<noteq> 1 \<and> hashId \<noteq> 2
            then Inl (InvalidPackRevIndex ChkHashId
              (Reason ''unsupported hash id: expected 1 or 2, got #'' [int hashId]))
            else if length bs \<noteq> REV_HEADER_SIZE + 4 * cnt + 2 * dl
            then Inl (InvalidPackRevIndex ChkSize (Reason ''reverse index is corrupt'' []))
            else
              let checksumStart = REV_HEADER_SIZE + 4 * cnt
              in Inr \<lparr>revHashId = hashId, revDigestLength = dl, revObjectCount = cnt,
                   revPackChecksum = subarray bs checksumStart (checksumStart + dl), revBytes = bs\<rparr>))))"

definition assertValidRevInput :: "sortedPackIndex \<Rightarrow> nat \<Rightarrow> tsgit_error + unit" where
  "assertValidRevInput spi dl =
     assertValidSortedPackIndex spi dl (\<lambda>defect r.
       InvalidPackRevIndex (case defect of DefectCount \<Rightarrow> ChkSize | DefectSize \<Rightarrow> ChkSize | DefectHashId \<Rightarrow> ChkHashId) r)"

text \<open>The offset of an entry the permutation names outside the slab is \<open>undefined\<close> and lands in the
  float array as \<open>NaN\<close>; the comparison with it is \<open>NaN\<close>, which the sort takes for zero.\<close>

definition packPositionsByOffset :: "sortedPackIndex \<Rightarrow> nat list" where
  "packPositionsByOffset spi =
     (let es = slabs spi; n = entryCount es;
          offsetsByPosition = map (\<lambda>p.
            let k = order spi ! p in if k < length (offsets es) then Some (offsets es ! k) else None) [0..<n]
      in jsSort (\<lambda>a b. case (offsetsByPosition ! a, offsetsByPosition ! b) of
           (Some x, Some y) \<Rightarrow> int x - int y | _ \<Rightarrow> 0) [0..<n])"

definition serializePackRevIndex :: "sortedPackIndex \<Rightarrow> bytes \<Rightarrow> tsgit_error + bytes" where
  "serializePackRevIndex spi packChecksum =
     (let dl = length packChecksum in
      bindE (assertValidRevInput spi dl) (\<lambda>_.
        let n = entryCount (slabs spi);
            hashId = (if dl = 32 then 2 else 1);
            body = packPositionsByOffset spi;
            bs = replicate (REV_HEADER_SIZE + 4 * n + 2 * dl) 0
        in bindE (setUint32 bs 0 REV_MAGIC) (\<lambda>b1.
           bindE (setUint32 b1 4 1) (\<lambda>b2.
           bindE (setUint32 b2 8 hashId) (\<lambda>b3.
           bindE (foldE (\<lambda>p b. setUint32 b (REV_HEADER_SIZE + p * 4) (body ! p)) [0..<length body] b3) (\<lambda>b4.
             setBytes b4 packChecksum (REV_HEADER_SIZE + 4 * n)))))))"

definition revIndexPositionAt :: "packRevIndex \<Rightarrow> nat \<Rightarrow> tsgit_error + nat" where
  "revIndexPositionAt ri p =
     (if revObjectCount ri \<le> p
      then Inl (InvalidPackRevIndex ChkSize
        (Reason ''pack position # out of range for # objects'' [int p, int (revObjectCount ri)]))
      else getUint32 (revBytes ri) (REV_HEADER_SIZE + p * 4))"

end
