(* ===== verification/BinarySearch.thy ===== *)
theory BinarySearch
  imports Encoding
begin

text \<open>
  The three binary-search loops the index readers share (\<open>storage/pack-index.ts\<close>), over the comparison of
  a table slot with the target, and the contract they rely on: the slots are in order.
\<close>

section \<open>Model\<close>

text \<open>\<open>(low + high) >>> 1\<close> wraps once the sum leaves 32 bits, and then a loop need not end: not returning
  is the outer \<^const>\<open>None\<close>.\<close>

definition midpoint :: "nat \<Rightarrow> nat \<Rightarrow> nat" where
  "midpoint low high = nat (js_ushr (int (low + high)) 1)"

partial_function (option) searchLoop :: "(nat \<Rightarrow> int) \<Rightarrow> nat \<Rightarrow> nat \<Rightarrow> nat option option" where
  "searchLoop cmp low high =
     (if low < high then
        let mid = midpoint low high; c = cmp mid in
        if c < 0 then searchLoop cmp (mid + 1) high
        else if 0 < c then searchLoop cmp low mid
        else Some (Some mid)
      else Some None)"

partial_function (option) lowerLoop :: "(nat \<Rightarrow> int) \<Rightarrow> nat \<Rightarrow> nat \<Rightarrow> nat option" where
  "lowerLoop cmp low high =
     (if low < high then
        let mid = midpoint low high in
        if cmp mid < 0 then lowerLoop cmp (mid + 1) high else lowerLoop cmp low mid
      else Some low)"

partial_function (option) upperLoop :: "(nat \<Rightarrow> int) \<Rightarrow> nat \<Rightarrow> nat \<Rightarrow> nat option" where
  "upperLoop cmp low high =
     (if low < high then
        let mid = midpoint low high in
        if cmp mid \<le> 0 then upperLoop cmp (mid + 1) high else upperLoop cmp low mid
      else Some low)"

declare searchLoop.simps [code] lowerLoop.simps [code] upperLoop.simps [code]

section \<open>The contract\<close>

lemma midpoint_within:
  assumes "low < high" "high \<le> 2147483648"
  shows "low \<le> midpoint low high" "midpoint low high < high"
proof -
  have "int (low + high) < 2 ^ 32" using assms by simp
  then have "midpoint low high = (low + high) div 2"
    by (simp add: midpoint_def js_ushr_div nat_div_distrib nat_add_distrib)
  then show "low \<le> midpoint low high" "midpoint low high < high" using assms(1) by auto
qed

locale slot_order =
  fixes cmp :: "nat \<Rightarrow> int" and lo hi :: nat
  assumes below: "lo \<le> i \<Longrightarrow> i < j \<Longrightarrow> j < hi \<Longrightarrow> cmp j < 0 \<Longrightarrow> cmp i < 0"
    and above: "lo \<le> i \<Longrightarrow> i < j \<Longrightarrow> j < hi \<Longrightarrow> 0 < cmp i \<Longrightarrow> 0 < cmp j"
    and width: "hi \<le> 2147483648"
begin

text \<open>The window \<open>[low, high)\<close> of a running search: everything left of it is below the target,
  everything right of it above.\<close>

lemma search_window:
  assumes "lo \<le> low" "low \<le> high" "high \<le> hi"
    and "\<And>i. lo \<le> i \<Longrightarrow> i < low \<Longrightarrow> cmp i \<noteq> 0" "\<And>i. high \<le> i \<Longrightarrow> i < hi \<Longrightarrow> cmp i \<noteq> 0"
  shows "\<exists>r. searchLoop cmp low high = Some r \<and>
    (case r of Some p \<Rightarrow> low \<le> p \<and> p < high \<and> cmp p = 0 | None \<Rightarrow> \<forall>i. lo \<le> i \<and> i < hi \<longrightarrow> cmp i \<noteq> 0)"
  using assms
proof (induction "high - low" arbitrary: low high rule: less_induct)
  case less
  show ?case
  proof (cases "low < high")
    case False
    then have "searchLoop cmp low high = Some None" by (simp add: searchLoop.simps)
    moreover have "cmp i \<noteq> 0" if "lo \<le> i" "i < hi" for i
      using that less.prems(4,5) [of i] False by (cases "i < low") auto
    ultimately show ?thesis by auto
  next
    case True
    define mid where "mid = midpoint low high"
    have m: "low \<le> mid" "mid < high"
      using midpoint_within [OF True] less.prems(3) width by (simp_all add: mid_def)
    consider "cmp mid < 0" | "0 < cmp mid" | "cmp mid = 0" by linarith
    then show ?thesis
    proof cases
      case 1
      have eq: "searchLoop cmp low high = searchLoop cmp (mid + 1) high"
        using True 1 by (subst searchLoop.simps) (simp add: mid_def Let_def)
      have "cmp i \<noteq> 0" if "lo \<le> i" "i < mid + 1" for i
        using below [of i mid] that 1 m less.prems(3) by (cases "i = mid") auto
      then have "\<exists>r. searchLoop cmp (mid + 1) high = Some r \<and>
          (case r of Some p \<Rightarrow> mid + 1 \<le> p \<and> p < high \<and> cmp p = 0 | None \<Rightarrow> \<forall>i. lo \<le> i \<and> i < hi \<longrightarrow> cmp i \<noteq> 0)"
        using m less.prems by (intro less.hyps) auto
      then show ?thesis unfolding eq using m by (auto split: option.splits)
    next
      case 2
      have eq: "searchLoop cmp low high = searchLoop cmp low mid"
        using True 2 by (subst searchLoop.simps) (simp add: mid_def Let_def)
      have "cmp i \<noteq> 0" if "mid \<le> i" "i < hi" for i
        using above [of mid i] that 2 m less.prems(1) by (cases "i = mid") auto
      then have "\<exists>r. searchLoop cmp low mid = Some r \<and>
          (case r of Some p \<Rightarrow> low \<le> p \<and> p < mid \<and> cmp p = 0 | None \<Rightarrow> \<forall>i. lo \<le> i \<and> i < hi \<longrightarrow> cmp i \<noteq> 0)"
        using m less.prems by (intro less.hyps) auto
      then show ?thesis unfolding eq using m by (auto split: option.splits)
    next
      case 3
      then have "searchLoop cmp low high = Some (Some mid)"
        using True by (subst searchLoop.simps) (simp add: mid_def Let_def)
      then show ?thesis using m 3 by auto
    qed
  qed
qed

lemma search_complete:
  assumes "lo \<le> hi"
  shows "\<exists>r. searchLoop cmp lo hi = Some r \<and>
    (case r of Some p \<Rightarrow> lo \<le> p \<and> p < hi \<and> cmp p = 0 | None \<Rightarrow> \<forall>i. lo \<le> i \<and> i < hi \<longrightarrow> cmp i \<noteq> 0)"
  using assms by (intro search_window) auto

text \<open>The bounds split the table into what is below, equal to and above the target.\<close>

lemma lower_window:
  assumes "lo \<le> low" "low \<le> high" "high \<le> hi"
    and "\<And>i. lo \<le> i \<Longrightarrow> i < low \<Longrightarrow> cmp i < 0" "\<And>i. high \<le> i \<Longrightarrow> i < hi \<Longrightarrow> 0 \<le> cmp i"
  shows "\<exists>l. lowerLoop cmp low high = Some l \<and> low \<le> l \<and> l \<le> high \<and>
    (\<forall>i. lo \<le> i \<and> i < hi \<longrightarrow> (cmp i < 0 \<longleftrightarrow> i < l))"
  using assms
proof (induction "high - low" arbitrary: low high rule: less_induct)
  case less
  show ?case
  proof (cases "low < high")
    case False
    then have e: "low = high" using less.prems(2) by simp
    then have "lowerLoop cmp low high = Some low" by (simp add: lowerLoop.simps)
    moreover have "cmp i < 0 \<longleftrightarrow> i < low" if "lo \<le> i" "i < hi" for i
      using that less.prems(4,5) [of i] e by (cases "i < low") auto
    ultimately show ?thesis using e by auto
  next
    case True
    define mid where "mid = midpoint low high"
    have m: "low \<le> mid" "mid < high"
      using midpoint_within [OF True] less.prems(3) width by (simp_all add: mid_def)
    show ?thesis
    proof (cases "cmp mid < 0")
      case c: True
      have eq: "lowerLoop cmp low high = lowerLoop cmp (mid + 1) high"
        using True c by (subst lowerLoop.simps) (simp add: mid_def Let_def)
      have "cmp i < 0" if "lo \<le> i" "i < mid + 1" for i
        using below [of i mid] that c m less.prems(3) by (cases "i = mid") auto
      then have "\<exists>l. lowerLoop cmp (mid + 1) high = Some l \<and> mid + 1 \<le> l \<and> l \<le> high \<and>
          (\<forall>i. lo \<le> i \<and> i < hi \<longrightarrow> (cmp i < 0 \<longleftrightarrow> i < l))"
        using m less.prems by (intro less.hyps) auto
      then show ?thesis unfolding eq using m by auto
    next
      case c: False
      have eq: "lowerLoop cmp low high = lowerLoop cmp low mid"
        using True c by (subst lowerLoop.simps) (simp add: mid_def Let_def)
      have "0 \<le> cmp i" if "mid \<le> i" "i < hi" for i
      proof (rule ccontr)
        assume "\<not> 0 \<le> cmp i"
        then have "cmp mid < 0" using below [of mid i] that c m less.prems(1) by (cases "i = mid") auto
        then show False using c by simp
      qed
      then have "\<exists>l. lowerLoop cmp low mid = Some l \<and> low \<le> l \<and> l \<le> mid \<and>
          (\<forall>i. lo \<le> i \<and> i < hi \<longrightarrow> (cmp i < 0 \<longleftrightarrow> i < l))"
        using m less.prems by (intro less.hyps) auto
      then show ?thesis unfolding eq using m by auto
    qed
  qed
qed

lemma lower_bound:
  "lo \<le> hi \<Longrightarrow> \<exists>l. lowerLoop cmp lo hi = Some l \<and> lo \<le> l \<and> l \<le> hi \<and>
    (\<forall>i. lo \<le> i \<and> i < hi \<longrightarrow> (cmp i < 0 \<longleftrightarrow> i < l))"
  by (intro lower_window) auto

end

text \<open>An upper bound is a lower bound for the comparison that counts equal slots as below.\<close>

lemma upperLoop_lower:
  "high \<le> 2147483648 \<Longrightarrow> upperLoop cmp low high = lowerLoop (\<lambda>i. if cmp i \<le> 0 then - 1 else 1) low high"
proof (induction "high - low" arbitrary: low high rule: less_induct)
  case less
  show ?case
  proof (cases "low < high")
    case False
    then show ?thesis by (simp add: upperLoop.simps lowerLoop.simps)
  next
    case True
    define mid where "mid = midpoint low high"
    have m: "low \<le> mid" "mid < high" using midpoint_within [OF True less.prems] by (simp_all add: mid_def)
    have "upperLoop cmp (mid + 1) high = lowerLoop (\<lambda>i. if cmp i \<le> 0 then - 1 else 1) (mid + 1) high"
      "upperLoop cmp low mid = lowerLoop (\<lambda>i. if cmp i \<le> 0 then - 1 else 1) low mid"
      using m less.prems by (intro less.hyps; simp)+
    then show ?thesis
      using True by (subst upperLoop.simps, subst lowerLoop.simps) (simp add: Let_def mid_def)
  qed
qed

context slot_order
begin

lemma counts_equal: "slot_order (\<lambda>i. if cmp i \<le> 0 then - 1 else 1) lo hi"
proof
  fix i j
  assume ij: "lo \<le> i" "i < j" "j < hi"
  show "(if cmp i \<le> 0 then - 1 else 1 :: int) < 0" if "(if cmp j \<le> 0 then - 1 else 1 :: int) < 0"
    using above [OF ij] that by (cases "0 < cmp i") (auto split: if_splits)
  show "0 < (if cmp j \<le> 0 then - 1 else 1 :: int)" if "0 < (if cmp i \<le> 0 then - 1 else 1 :: int)"
    using above [OF ij] that by (auto split: if_splits)
qed (rule width)

lemma upper_bound:
  assumes "lo \<le> hi"
  shows "\<exists>u. upperLoop cmp lo hi = Some u \<and> lo \<le> u \<and> u \<le> hi \<and>
    (\<forall>i. lo \<le> i \<and> i < hi \<longrightarrow> (cmp i \<le> 0 \<longleftrightarrow> i < u))"
proof -
  obtain u where u: "lowerLoop (\<lambda>i. if cmp i \<le> 0 then - 1 else 1) lo hi = Some u" "lo \<le> u" "u \<le> hi"
    "\<forall>i. lo \<le> i \<and> i < hi \<longrightarrow> ((if cmp i \<le> 0 then - 1 else 1 :: int) < 0 \<longleftrightarrow> i < u)"
    using slot_order.lower_bound [OF counts_equal assms] by blast
  have "cmp i \<le> 0 \<longleftrightarrow> i < u" if "lo \<le> i" "i < hi" for i
    using u(4) that by (auto split: if_splits)
  then show ?thesis using u(1-3) width by (auto simp: upperLoop_lower)
qed

end

text \<open>Every table of byte strings in the order of the serializers is such a row of slots.\<close>

lemma compareBytes_trans: "compareBytes a b \<le> 0 \<Longrightarrow> compareBytes b c \<le> 0 \<Longrightarrow> compareBytes a c \<le> 0"
  unfolding compareBytes_le by (rule lexordp_eq_trans)

lemma compareBytes_less_trans:
  "compareBytes a b \<le> 0 \<Longrightarrow> compareBytes b c < 0 \<Longrightarrow> compareBytes a c < 0"
  using compareBytes_trans [of c a b] compareBytes_swap [of a c] compareBytes_swap [of b c] by linarith

lemma compareBytes_chain:
  assumes "sorted_wrt (\<lambda>a b. compareBytes a b \<le> 0) ks" "i < j" "j < length ks"
  shows "compareBytes (ks ! j) t < 0 \<Longrightarrow> compareBytes (ks ! i) t < 0"
    and "0 < compareBytes (ks ! i) t \<Longrightarrow> 0 < compareBytes (ks ! j) t"
proof -
  have ij: "compareBytes (ks ! i) (ks ! j) \<le> 0"
    using assms sorted_wrt_nth_less by fastforce
  show "compareBytes (ks ! i) t < 0" if "compareBytes (ks ! j) t < 0"
    using ij that by (rule compareBytes_less_trans)
  show "0 < compareBytes (ks ! j) t" if "0 < compareBytes (ks ! i) t"
    using compareBytes_trans [OF ij, of t] that by linarith
qed

interpretation sorted_table: slot_order "\<lambda>i. compareBytes (jsSort compareBytes ks ! i) t" 0
  "min (length ks) 2147483648" for ks t
proof
  fix i j :: nat
  assume ij: "i < j" "j < min (length ks) 2147483648"
  have s: "sorted_wrt (\<lambda>a b. compareBytes a b \<le> 0) (jsSort compareBytes ks)"
    using sorted_jsSort [OF compareBytes_consistent [of "\<lambda>x. x"]] by simp
  show "compareBytes (jsSort compareBytes ks ! i) t < 0" if "compareBytes (jsSort compareBytes ks ! j) t < 0"
    using compareBytes_chain(1) [OF s ij(1)] ij(2) that by simp
  show "0 < compareBytes (jsSort compareBytes ks ! j) t" if "0 < compareBytes (jsSort compareBytes ks ! i) t"
    using compareBytes_chain(2) [OF s ij(1)] ij(2) that by simp
qed simp

end
