(* ===== verification/PackIndex.thy ===== *)
theory PackIndex
  imports RevIndex BinarySearch
begin

text \<open>
  \<open>storage/pack-index.ts\<close>: the v2 pack index, its parser, the fanout-narrowed binary searches and the
  large-offset indirection.
\<close>

section \<open>Model\<close>

definition IDX_MAGIC :: nat where
  "IDX_MAGIC = 4285812579"

definition IDX_VERSION :: nat where
  "IDX_VERSION = 2"

definition IDX_HEADER_SIZE :: nat where
  "IDX_HEADER_SIZE = 8"

definition IDX_FANOUT_SIZE :: nat where
  "IDX_FANOUT_SIZE = 1024"

definition IDX_SHA_TABLE_OFFSET :: nat where
  "IDX_SHA_TABLE_OFFSET = 1032"

record packIndex =
  idxObjectCount :: nat
  idxDigestLength :: nat
  crc32TableOffset :: nat
  smallOffsetsTableOffset :: nat
  largeOffsetsTableOffset :: nat
  trailerOffset :: nat
  idxBytes :: bytes

definition idxTrailerSize :: "nat \<Rightarrow> nat" where
  "idxTrailerSize dl = 2 * dl"

definition hexCharsFor :: "nat \<Rightarrow> nat" where
  "hexCharsFor dl = 2 * dl"

definition shaSlotOffset :: "nat \<Rightarrow> nat \<Rightarrow> nat" where
  "shaSlotOffset position dl = IDX_SHA_TABLE_OFFSET + position * dl"

fun fanoutLoop :: "bytes \<Rightarrow> nat list \<Rightarrow> nat \<Rightarrow> tsgit_error + unit" where
  "fanoutLoop bs [] prev = Inr ()"
| "fanoutLoop bs (i # is) prev =
     bindE (getUint32 bs (IDX_HEADER_SIZE + i * 4)) (\<lambda>current.
       if current < prev
       then Inl (InvalidPackIndex (Reason ''non-monotonic fanout at index #: # > #'' [int i, int prev, int current]))
       else fanoutLoop bs is current)"

definition validateFanoutMonotonicity :: "bytes \<Rightarrow> tsgit_error + unit" where
  "validateFanoutMonotonicity bs = fanoutLoop bs [0..<256] 0"

definition parsePackIndex :: "bytes \<Rightarrow> nat \<Rightarrow> tsgit_error + packIndex" where
  "parsePackIndex bs dl =
     (if length bs < IDX_HEADER_SIZE + IDX_FANOUT_SIZE
      then Inl (InvalidPackIndex (Reason ''truncated: file too short for header and fanout'' []))
      else bindE (getUint32 bs 0) (\<lambda>magic.
        if magic \<noteq> IDX_MAGIC
        then Inl (InvalidPackIndex (Reason ''invalid magic: expected 0xff744f63, got 0x#'' [int magic]))
        else bindE (getUint32 bs 4) (\<lambda>version.
          if version \<noteq> IDX_VERSION
          then Inl (InvalidPackIndex (Reason ''unsupported version: expected 2, got #'' [int version]))
          else bindE (validateFanoutMonotonicity bs) (\<lambda>_.
            bindE (getUint32 bs (IDX_HEADER_SIZE + 255 * 4)) (\<lambda>cnt.
              let crcOff = shaSlotOffset cnt dl;
                  smallOff = crcOff + cnt * 4;
                  largeOff = smallOff + cnt * 4;
                  trailerOff = length bs - idxTrailerSize dl;
                  minExpectedSize = largeOff + idxTrailerSize dl
              in if length bs < minExpectedSize
                 then Inl (InvalidPackIndex (Reason ''truncated: expected at least # bytes for # objects, got #''
                   [int minExpectedSize, int cnt, int (length bs)]))
                 else Inr \<lparr>idxObjectCount = cnt, idxDigestLength = dl, crc32TableOffset = crcOff,
                   smallOffsetsTableOffset = smallOff, largeOffsetsTableOffset = largeOff,
                   trailerOffset = trailerOff, idxBytes = bs\<rparr>)))))"

definition readFanout :: "packIndex \<Rightarrow> nat \<Rightarrow> tsgit_error + nat" where
  "readFanout index byte = getUint32 (idxBytes index) (IDX_HEADER_SIZE + byte * 4)"

function compareShaLoop :: "bytes \<Rightarrow> nat \<Rightarrow> bytes \<Rightarrow> nat \<Rightarrow> nat \<Rightarrow> int" where
  "compareShaLoop bs slot target dl k =
     (if k < dl then
        let diff = u8 (bs ! (slot + k)) - u8 (target ! k)
        in if diff \<noteq> 0 then diff else compareShaLoop bs slot target dl (k + 1)
      else 0)"
  by pat_completeness auto
termination by (relation "measure (\<lambda>(bs, slot, target, dl, k). dl - k)") auto

declare compareShaLoop.simps [simp del]

definition compareShaAtIndex :: "packIndex \<Rightarrow> nat \<Rightarrow> bytes \<Rightarrow> int" where
  "compareShaAtIndex index i targetBytes =
     compareShaLoop (idxBytes index) (shaSlotOffset i (idxDigestLength index)) targetBytes (idxDigestLength index) 0"

definition readOffset :: "packIndex \<Rightarrow> nat \<Rightarrow> tsgit_error + nat" where
  "readOffset index i =
     bindE (getUint32 (idxBytes index) (smallOffsetsTableOffset index + i * 4)) (\<lambda>raw.
       if js_and (int raw) 2147483648 \<noteq> 0 then
         let largeIdx = nat (js_and (int raw) 2147483647);
             largeOffset = largeOffsetsTableOffset index + largeIdx * 8
         in if trailerOffset index < largeOffset + 8
            then Inl (InvalidPackIndex (Reason ''large offset index # out of range'' [int largeIdx]))
            else bindE (getUint32 (idxBytes index) largeOffset) (\<lambda>high.
                 bindE (getUint32 (idxBytes index) (largeOffset + 4)) (\<lambda>low.
                   if 2097151 < high
                   then Inl (InvalidPackIndex
                     (Reason ''pack offset exceeds safe JavaScript number range: high word=#'' [int high]))
                   else Inr (high * 4294967296 + low)))
       else Inr raw)"

definition entryOffsets :: "packIndex \<Rightarrow> tsgit_error + nat list" where
  "entryOffsets index =
     foldE (\<lambda>i acc. bindE (readOffset index i) (\<lambda>off. Inr (acc @ [off]))) [0..<idxObjectCount index] []"

definition entryOffsetsF64 :: "packIndex \<Rightarrow> tsgit_error + nat list" where
  "entryOffsetsF64 index =
     foldE (\<lambda>i acc. bindE (readOffset index i) (\<lambda>off. Inr (acc[i := off])))
       [0..<idxObjectCount index] (replicate (idxObjectCount index) 0)"

definition offsetAtPackPosition :: "packIndex \<Rightarrow> packRevIndex \<Rightarrow> nat \<Rightarrow> tsgit_error + nat option" where
  "offsetAtPackPosition index ri p =
     bindE (revIndexPositionAt ri p) (\<lambda>indexPosition.
       if idxObjectCount index \<le> indexPosition then Inr None
       else bindE (readOffset index indexPosition) (\<lambda>off. Inr (Some off)))"

text \<open>A result that may throw inside a loop that may not return.\<close>

definition liftLoop :: "('e + 'a option) \<Rightarrow> ('a \<Rightarrow> 'e + 'b) \<Rightarrow> ('e + 'b) option" where
  "liftLoop r f = (case r of Inl e \<Rightarrow> Some (Inl e) | Inr None \<Rightarrow> None | Inr (Some x) \<Rightarrow> Some (f x))"

definition searchIndexPosition :: "packIndex \<Rightarrow> bytes \<Rightarrow> tsgit_error + nat option option" where
  "searchIndexPosition index targetBytes =
     (if length targetBytes \<noteq> idxDigestLength index then Inr (Some None)
      else
        let firstByte = unat (targetBytes ! 0) in
        bindE (if firstByte = 0 then Inr 0 else readFanout index (firstByte - 1)) (\<lambda>lo.
        bindE (readFanout index firstByte) (\<lambda>hi.
          Inr (searchLoop (\<lambda>i. compareShaAtIndex index i targetBytes) lo hi))))"

definition lookupPackIndexPosition :: "packIndex \<Rightarrow> objectId \<Rightarrow> (tsgit_error + nat option) option" where
  "lookupPackIndexPosition index oid =
     liftLoop (bindE (hexToBytes oid) (searchIndexPosition index)) Inr"

definition lookupPackIndex :: "packIndex \<Rightarrow> objectId \<Rightarrow> (tsgit_error + nat option) option" where
  "lookupPackIndex index oid =
     liftLoop (bindE (hexToBytes oid) (searchIndexPosition index)) (\<lambda>position.
       case position of None \<Rightarrow> Inr None
       | Some p \<Rightarrow> bindE (readOffset index p) (\<lambda>off. Inr (Some off)))"

definition objectIdAt :: "packIndex \<Rightarrow> nat \<Rightarrow> objectId" where
  "objectIdAt index position =
     (let off = shaSlotOffset position (idxDigestLength index)
      in bytesToHex (subarray (idxBytes index) off (off + idxDigestLength index)))"

definition findLowerBound :: "packIndex \<Rightarrow> nat \<Rightarrow> nat \<Rightarrow> bytes \<Rightarrow> nat option" where
  "findLowerBound index lo hi targetBytes = lowerLoop (\<lambda>i. compareShaAtIndex index i targetBytes) lo hi"

definition findUpperBound :: "packIndex \<Rightarrow> nat \<Rightarrow> nat \<Rightarrow> bytes \<Rightarrow> nat option" where
  "findUpperBound index lo hi targetBytes = upperLoop (\<lambda>i. compareShaAtIndex index i targetBytes) lo hi"

definition padEnd :: "jsstr \<Rightarrow> nat \<Rightarrow> nat \<Rightarrow> jsstr" where
  "padEnd s n c = s @ replicate (n - length s) c"

definition findByPrefix :: "packIndex \<Rightarrow> jsstr \<Rightarrow> (tsgit_error + objectId list) option" where
  "findByPrefix index prefix =
     (let hexLen = hexCharsFor (idxDigestLength index) in
      if length prefix < 4
      then Some (Inl (InvalidPackIndex (Reason ''prefix too short: minimum 4 hex chars, got #'' [int (length prefix)])))
      else if hexLen < length prefix
      then Some (Inl (InvalidPackIndex (Reason ''prefix too long: maximum # hex chars, got #'' [int hexLen, int (length prefix)])))
      else if \<not> list_all isHexDigitCodeUnit prefix
      then Some (Inl (InvalidPackIndex (Reason ''prefix contains non-hex characters'' [])))
      else
        liftLoop
          (bindE (hexToBytes (padEnd prefix hexLen 48)) (\<lambda>lowerBytes.
           bindE (hexToBytes (padEnd prefix hexLen 102)) (\<lambda>upperBytes.
             let firstByte = unat (lowerBytes ! 0) in
             bindE (if firstByte = 0 then Inr 0 else readFanout index (firstByte - 1)) (\<lambda>lo.
               let lastByte = unat (upperBytes ! 0) in
               bindE (readFanout index lastByte) (\<lambda>hi.
                 Inr (case findLowerBound index lo hi lowerBytes of None \<Rightarrow> None
                   | Some lowerBound \<Rightarrow>
                       map_option (Pair lowerBound) (findUpperBound index lo hi upperBytes)))))))
          (\<lambda>(lowerBound, upperBound). Inr (map (objectIdAt index) [lowerBound..<upperBound])))"

definition allObjectIds :: "packIndex \<Rightarrow> objectId list" where
  "allObjectIds index = map (objectIdAt index) [0..<idxObjectCount index]"

definition recordedPackChecksum :: "packIndex \<Rightarrow> bytes" where
  "recordedPackChecksum index =
     subarray (idxBytes index) (trailerOffset index) (trailerOffset index + idxDigestLength index)"

definition recordedEntryCrc :: "packIndex \<Rightarrow> nat \<Rightarrow> tsgit_error + nat" where
  "recordedEntryCrc index position = getUint32 (idxBytes index) (crc32TableOffset index + 4 * position)"

end
