(* ===== verification/Crc32.thy ===== *)
theory Crc32
  imports Prelude
begin

text \<open>
  \<open>storage/crc32.ts\<close>: the table-driven CRC-32 of pack entries, and its agreement with the bit-by-bit
  definition of the reflected polynomial.
\<close>

section \<open>Model\<close>

definition crcStep :: "int \<Rightarrow> int" where
  "crcStep c = (if js_and c 1 \<noteq> 0 then js_xor 3988292384 (js_ushr c 1) else js_ushr c 1)"

text \<open>The table is a \<open>Uint32Array\<close>: a stored value is taken modulo \<open>2^32\<close>.\<close>

definition buildCrc32Table :: "int list" where
  "buildCrc32Table = map (\<lambda>i. toUint32 ((crcStep ^^ 8) (int i))) [0..<256]"

definition CRC32_TABLE :: "int list" where
  "CRC32_TABLE = buildCrc32Table"

definition crc32 :: "bytes \<Rightarrow> int" where
  "crc32 dat =
     js_ushr (js_xor
       (foldl (\<lambda>c b. js_xor (CRC32_TABLE ! nat (js_and (js_xor c (u8 b)) 255)) (js_ushr c 8)) 4294967295 dat)
       4294967295) 0"

section \<open>Reference: one bit at a time\<close>

definition bitStep :: "32 word \<Rightarrow> 32 word" where
  "bitStep w = (if odd w then 0xEDB88320 XOR drop_bit 1 w else drop_bit 1 w)"

definition crc32_spec :: "bytes \<Rightarrow> 32 word" where
  "crc32_spec dat = NOT (foldl (\<lambda>w b. (bitStep ^^ 8) (w XOR ucast b)) (NOT 0) dat)"

section \<open>Correctness\<close>

lemma uint_toUint32: "uint (word_of_int x :: 32 word) = toUint32 x"
  by (simp add: toUint32_mod uint_word_of_int)

text \<open>A JavaScript number stands for the word of its low 32 bits.\<close>

lemma word_js_xor: "(word_of_int (js_xor x y) :: 32 word) = word_of_int x XOR word_of_int y"
  by (rule bit_word_eqI) (auto simp: js_xor_def toInt32_def bit_simps)

lemma word_js_ushr: "n < 32 \<Longrightarrow> (word_of_int (js_ushr x n) :: 32 word) = drop_bit n (word_of_int x)"
  by (rule bit_word_eqI) (auto simp: js_ushr_def toUint32_def bit_simps)

lemma word_crcStep: "(word_of_int (crcStep c) :: 32 word) = bitStep (word_of_int c)"
proof -
  have "odd (word_of_int c :: 32 word) \<longleftrightarrow> js_and c 1 \<noteq> 0"
  proof -
    have "bit (word_of_int c :: 32 word) 0 \<longleftrightarrow> bit c 0" by (simp add: bit_word_of_int_iff del: bit_0)
    then show ?thesis by (simp add: bit_0 js_and_1 odd_iff_mod_2_eq_one)
  qed
  then show ?thesis
    by (simp add: crcStep_def bitStep_def word_js_xor word_js_ushr)
qed

lemma word_crcSteps: "(word_of_int ((crcStep ^^ n) c) :: 32 word) = (bitStep ^^ n) (word_of_int c)"
  by (induction n) (simp_all add: word_crcStep)

lemma bitStep_xor: "bitStep (x XOR y) = bitStep x XOR bitStep y"
  by (rule bit_word_eqI) (auto simp: bitStep_def bit_simps even_xor_iff)

lemma bitSteps_xor: "(bitStep ^^ n) (x XOR y) = (bitStep ^^ n) x XOR (bitStep ^^ n) y"
  by (induction n arbitrary: x y) (simp_all add: bitStep_xor funpow_swap1)

lemma bitSteps_high: "take_bit n x = 0 \<Longrightarrow> (bitStep ^^ n) x = drop_bit n x"
proof (induction n arbitrary: x)
  case (Suc n)
  have "even x" using Suc.prems by (metis even_take_bit_eq nat.distinct(1) even_zero)
  then have "bitStep x = drop_bit 1 x" by (simp add: bitStep_def)
  moreover have "take_bit n (drop_bit 1 x) = 0"
    using Suc.prems by (metis drop_bit_take_bit diff_Suc_1 drop_bit_of_0 One_nat_def)
  ultimately show ?case using Suc.IH [of "drop_bit 1 x"] by (simp add: funpow_swap1 drop_bit_drop_bit)
qed simp

lemma byte_step:
  fixes w :: "32 word" and b :: byte
  shows "(bitStep ^^ 8) (w XOR ucast b) = (bitStep ^^ 8) (take_bit 8 (w XOR ucast b)) XOR drop_bit 8 w"
proof -
  let ?x = "w XOR ucast b"
  define h where "h = push_bit 8 (drop_bit 8 ?x)"
  have split: "?x = take_bit 8 ?x XOR h"
  proof (rule bit_word_eqI)
    fix n
    show "bit ?x n = bit (take_bit 8 ?x XOR h) n" if "n < LENGTH(32)"
      using that unfolding h_def by (cases "n < 8") (simp_all add: bit_simps not_less)
  qed
  have "take_bit 8 h = 0" unfolding h_def by (rule bit_word_eqI) (auto simp: bit_simps)
  then have "(bitStep ^^ 8) h = drop_bit 8 h" by (rule bitSteps_high)
  also have "\<dots> = drop_bit 8 w"
    unfolding h_def by (rule bit_word_eqI) (auto simp: bit_simps dest: bit_imp_le_length)
  finally have "(bitStep ^^ 8) h = drop_bit 8 w" .
  then show ?thesis
    using bitSteps_xor [of 8 "take_bit 8 ?x" h] split by metis
qed

lemma table_entry:
  assumes "0 \<le> i" "i < 256"
  shows "(word_of_int (CRC32_TABLE ! nat i) :: 32 word) = (bitStep ^^ 8) (word_of_int i)"
proof -
  have "CRC32_TABLE ! nat i = toUint32 ((crcStep ^^ 8) i)"
  proof -
    have "nat i < 256" using assms by simp
    then show ?thesis
      using assms(1) by (simp add: CRC32_TABLE_def buildCrc32Table_def nth_map [of "nat i" "[0..<256]"] del: upt_rec_numeral)
  qed
  moreover have "(word_of_int (toUint32 x) :: 32 word) = word_of_int x" for x
    by (rule bit_word_eqI) (simp add: toUint32_def bit_simps)
  ultimately show ?thesis by (simp add: word_crcSteps)
qed

lemma word_table_index:
  "(word_of_int (js_and (js_xor c (u8 b)) 255) :: 32 word) = take_bit 8 (word_of_int c XOR ucast b)"
proof -
  have "js_and (js_xor c (u8 b)) 255 = take_bit 8 (js_xor c (u8 b))"
    by (simp add: js_and_255 take_bit_eq_mod)
  then have "(word_of_int (js_and (js_xor c (u8 b)) 255) :: 32 word) = take_bit 8 (word_of_int (js_xor c (u8 b)))"
    by (simp only:) (rule bit_word_eqI, auto simp: bit_simps)
  also have "\<dots> = take_bit 8 (word_of_int c XOR word_of_int (u8 b))" by (simp add: word_js_xor)
  finally show ?thesis by (simp add: u8_def)
qed

lemma crc32_fold:
  "(word_of_int (foldl (\<lambda>c b. js_xor (CRC32_TABLE ! nat (js_and (js_xor c (u8 b)) 255)) (js_ushr c 8)) c dat) :: 32 word)
    = foldl (\<lambda>w b. (bitStep ^^ 8) (w XOR ucast b)) (word_of_int c) dat"
proof (induction dat arbitrary: c)
  case (Cons b dat)
  let ?i = "js_and (js_xor c (u8 b)) 255"
  have i: "0 \<le> ?i" "?i < 256" by (simp_all add: js_and_255)
  have "(word_of_int (js_xor (CRC32_TABLE ! nat ?i) (js_ushr c 8)) :: 32 word)
      = (bitStep ^^ 8) (word_of_int c XOR ucast b)"
    unfolding byte_step word_js_xor table_entry [OF i] word_table_index by (simp add: word_js_ushr)
  then show ?case using Cons.IH by simp
qed simp

section \<open>Properties\<close>

text \<open>The table-driven \<open>crc32\<close> computes, for every byte string, the CRC-32 of the reflected polynomial
  \<open>0xedb88320\<close> defined one bit at a time, as an unsigned 32-bit number, through all of the signed
  intermediate values of the bitwise operators.\<close>

theorem crc32_bitwise: "crc32 dat = uint (crc32_spec dat)"
proof -
  let ?c = "foldl (\<lambda>c b. js_xor (CRC32_TABLE ! nat (js_and (js_xor c (u8 b)) 255)) (js_ushr c 8)) 4294967295 dat"
  let ?w = "foldl (\<lambda>w b. (bitStep ^^ 8) (w XOR ucast b)) (NOT 0 :: 32 word) dat"
  have ones: "(word_of_int 4294967295 :: 32 word) = NOT 0" by simp
  have "(word_of_int (js_xor ?c 4294967295) :: 32 word) = ?w XOR NOT 0"
    unfolding word_js_xor crc32_fold ones by (rule refl)
  also have "\<dots> = NOT ?w" by (rule bit_word_eqI) (auto simp: bit_simps)
  finally have "(word_of_int (js_xor ?c 4294967295) :: 32 word) = crc32_spec dat" by (simp add: crc32_spec_def)
  then show ?thesis
    using uint_toUint32 [of "js_xor ?c 4294967295"] by (simp add: crc32_def js_ushr_0 toUint32_mod)
qed

end
