(* ===== verification/PackWriter.thy ===== *)
theory PackWriter
  imports PackEntry PackIndex Crc32
begin

text \<open>
  \<open>storage/pack-writer.ts\<close>: the packfile body with its base and offset-delta entries, and the v2 index
  over the oid-ascending permutation.
\<close>

section \<open>Model\<close>

text \<open>A base index is a JavaScript number; the model keeps the integers, so the guard against fractions
  has no counterpart.\<close>

datatype packWriterEntry =
    PackWriterBaseEntry packEntryType nat bytes
  | PackWriterDeltaEntry nat bytes int

record packEntryMeta =
  metaCrc32 :: int
  metaOffset :: nat

record packfileResult =
  packData :: bytes
  packMetas :: "packEntryMeta list"

definition assertValidIdxInput :: "sortedPackIndex \<Rightarrow> nat \<Rightarrow> tsgit_error + unit" where
  "assertValidIdxInput spi dl = assertValidSortedPackIndex spi dl (\<lambda>_ r. InvalidPackIndex r)"

definition assertValidBaseIndex :: "int \<Rightarrow> nat \<Rightarrow> nat \<Rightarrow> tsgit_error + unit" where
  "assertValidBaseIndex baseIndex i offset =
     (if int i \<le> baseIndex
      then Inl (InvalidPackEntry offset (Reason ''OFS_DELTA base index # is not before entry #'' [baseIndex, int i]))
      else if baseIndex < 0
      then Inl (InvalidPackEntry offset (Reason ''OFS_DELTA base index # out of range'' [baseIndex]))
      else Inr ())"

fun encodeEntryBytes :: "packWriterEntry \<Rightarrow> nat list \<Rightarrow> nat \<Rightarrow> bytes" where
  "encodeEntryBytes (PackWriterBaseEntry type sz dat) offs currentOffset =
     concatBytes [encodePackEntryHeader type sz, dat]"
| "encodeEntryBytes (PackWriterDeltaEntry sz dat baseIndex) offs currentOffset =
     concatBytes [encodePackEntryHeader OFS_DELTA sz, encodeOfsDistance (currentOffset - offs ! nat baseIndex), dat]"

fun packfileLoop ::
    "packWriterEntry list \<Rightarrow> nat \<Rightarrow> bytes list \<Rightarrow> packEntryMeta list \<Rightarrow> nat list \<Rightarrow> nat \<Rightarrow>
     tsgit_error + (bytes list \<times> packEntryMeta list)" where
  "packfileLoop [] i chunks metas offs currentOffset = Inr (chunks, metas)"
| "packfileLoop (entry # es) i chunks metas offs currentOffset =
     bindE (case entry of PackWriterDeltaEntry _ _ baseIndex \<Rightarrow> assertValidBaseIndex baseIndex i currentOffset
            | PackWriterBaseEntry _ _ _ \<Rightarrow> Inr ()) (\<lambda>_.
       let entryBytes = encodeEntryBytes entry offs currentOffset in
       packfileLoop es (i + 1) (chunks @ [entryBytes])
         (metas @ [\<lparr>metaCrc32 = crc32 entryBytes, metaOffset = currentOffset\<rparr>])
         (offs @ [currentOffset]) (currentOffset + length entryBytes))"

definition serializePackfile :: "packWriterEntry list \<Rightarrow> tsgit_error + packfileResult" where
  "serializePackfile es =
     (let header = serializePackHeader GENERATED_PACK_VERSION (length es) in
      bindE (packfileLoop es 0 [header] [] [] (length header)) (\<lambda>(chunks, metas).
        Inr \<lparr>packData = concatBytes chunks, packMetas = metas\<rparr>))"

text \<open>An element the permutation names outside its slab is \<open>undefined\<close>: not above any bound, stored as 0,
  and counted in no bucket.\<close>

definition slabAt :: "nat list \<Rightarrow> nat \<Rightarrow> nat" where
  "slabAt xs k = (if k < length xs then xs ! k else 0)"

definition bucketCountsOf :: "sortedPackIndex \<Rightarrow> nat \<Rightarrow> nat list" where
  "bucketCountsOf spi dl =
     foldl (\<lambda>counts p.
       case byteAt (oids (slabs spi)) (order spi ! p * dl) of
         None \<Rightarrow> counts
       | Some b \<Rightarrow> counts[b := counts ! b + 1])
       (replicate 256 0) [0..<entryCount (slabs spi)]"

definition fanoutOf :: "nat list \<Rightarrow> nat list" where
  "fanoutOf counts =
     fst (foldl (\<lambda>(fanout, cumulative) i. let c = cumulative + counts ! i in (fanout[i := c], c))
       (replicate 256 0, 0) [0..<256])"

definition offsetStep ::
    "sortedPackIndex \<Rightarrow> nat \<Rightarrow> nat \<Rightarrow> nat \<Rightarrow> bytes \<times> nat \<Rightarrow> tsgit_error + (bytes \<times> nat)" where
  "offsetStep spi offsetStart largeOffsetStart p = (\<lambda>(bs, largeIdx).
     let off = slabAt (offsets (slabs spi)) (order spi ! p) in
     if 2147483647 < off then
       bindE (setUint32 bs (offsetStart + p * 4) (nat (toUint32 (js_or 2147483648 (int largeIdx))))) (\<lambda>b1.
         let high = off div 4294967296; low = nat (js_ushr (int off) 0) in
         bindE (setUint32 b1 (largeOffsetStart + largeIdx * 8) high) (\<lambda>b2.
         bindE (setUint32 b2 (largeOffsetStart + largeIdx * 8 + 4) low) (\<lambda>b3.
           Inr (b3, largeIdx + 1))))
     else bindE (setUint32 bs (offsetStart + p * 4) off) (\<lambda>b1. Inr (b1, largeIdx)))"

definition serializePackIndex :: "sortedPackIndex \<Rightarrow> bytes \<Rightarrow> tsgit_error + bytes" where
  "serializePackIndex spi packChecksum =
     (let dl = length packChecksum in
      bindE (assertValidIdxInput spi dl) (\<lambda>_.
        let es = slabs spi; n = entryCount es;
            largeCount = length (filter (\<lambda>p. 2147483647 < slabAt (offsets es) (order spi ! p)) [0..<n]);
            headerSize = 8; fanoutSize = 1024;
            shaTableSize = n * dl; crcTableSize = n * 4; offsetTableSize = n * 4;
            largeOffsetTableSize = largeCount * 8;
            totalSize = headerSize + fanoutSize + shaTableSize + crcTableSize + offsetTableSize
              + largeOffsetTableSize + 2 * dl;
            bs = replicate totalSize 0;
            fanout = fanoutOf (bucketCountsOf spi dl);
            shaStart = headerSize + fanoutSize;
            crcStart = shaStart + shaTableSize;
            offsetStart = crcStart + crcTableSize;
            largeOffsetStart = offsetStart + offsetTableSize
        in bindE (setUint32 bs 0 4285812579) (\<lambda>b1.
           bindE (setUint32 b1 4 2) (\<lambda>b2.
           bindE (foldE (\<lambda>i b. setUint32 b (headerSize + i * 4) (fanout ! i)) [0..<256] b2) (\<lambda>b3.
           bindE (foldE (\<lambda>p b. let k = order spi ! p in
             setBytes b (subarray (oids es) (k * dl) ((k + 1) * dl)) (shaStart + p * dl)) [0..<n] b3) (\<lambda>b4.
           bindE (foldE (\<lambda>p b. setUint32 b (crcStart + p * 4) (slabAt (crcValues es) (order spi ! p))) [0..<n] b4) (\<lambda>b5.
           bindE (foldE (offsetStep spi offsetStart largeOffsetStart) [0..<n] (b5, 0)) (\<lambda>(b6, _).
             setBytes b6 packChecksum (totalSize - 2 * dl)))))))))"

end
