(* ===== verification/PackImage.thy ===== *)
theory PackImage
  imports PackWriter
begin

text \<open>
  The bytes \<open>serializePackIndex\<close> lays out, table by table, and what the readers of \<open>pack-index.ts\<close> make of
  them: the fanout counts, the fanout-narrowed searches, the offset table with its large entries and the prefix
  range. The last section is about every index \<open>parsePackIndex\<close> accepts, however corrupt its tables.
\<close>

section \<open>Tables of fixed-width slots\<close>

lemma concat_split_at:
  assumes "i < n"
  shows "concat (map f [0..<n]) = concat (map f [0..<i]) @ f i @ concat (map f [Suc i..<n])"
proof -
  have "[0..<n] = [0..<i] @ i # [Suc i..<n]"
    using assms upt_add_eq_append [of 0 i "n - i"] by (simp add: upt_conv_Cons)
  then show ?thesis by simp
qed

lemma length_concat_width: "(\<And>p. p < n \<Longrightarrow> length (f p) = w) \<Longrightarrow> length (concat (map f [0..<n])) = n * w"
  by (induction n) auto

lemma subarray_table:
  assumes "i < n" "\<And>p. p < n \<Longrightarrow> length (f p) = w" "start = length pre"
  shows "subarray (pre @ concat (map f [0..<n]) @ post) (start + i * w) (start + i * w + w) = f i"
proof -
  let ?a = "pre @ concat (map f [0..<i])" and ?b = "concat (map f [Suc i..<n]) @ post"
  have "length ?a = start + i * w" using assms length_concat_width [of i f w] by simp
  moreover have "pre @ concat (map f [0..<n]) @ post = ?a @ f i @ ?b"
    using concat_split_at [OF assms(1), of f] by simp
  ultimately show ?thesis
    using assms(1,2) by (simp only: subarray_append_same)
qed

lemma getUint32_table [view_simps]:
  assumes "i < n" "start = length pre"
  shows "getUint32 (pre @ concat (map (\<lambda>p. u32_bytes (f p)) [0..<n]) @ post) (start + i * 4) = Inr (f i mod 2 ^ 32)"
proof -
  let ?f = "\<lambda>p. u32_bytes (f p)"
  let ?a = "pre @ concat (map ?f [0..<i])" and ?b = "concat (map ?f [Suc i..<n]) @ post"
  have l: "length ?a = start + i * 4" using assms length_concat_width [of i ?f 4] by simp
  have "pre @ concat (map ?f [0..<n]) @ post = ?a @ ?f i @ ?b"
    using concat_split_at [OF assms(1), of ?f] by simp
  then show ?thesis using getUint32_u32 [of "start + i * 4" ?a "f i" ?b] l by simp
qed

lemma foldE_setUint32:
  assumes "length old = n * 4" "start = length pre"
  shows "foldE (\<lambda>i b. setUint32 b (start + i * 4) (f i)) [0..<n] (pre @ old @ post)
    = Inr (pre @ concat (map (\<lambda>i. u32_bytes (f i)) [0..<n]) @ post)"
  unfolding setUint32_def
  using foldE_setBytes [of n "\<lambda>i. u32_bytes (f i)" 4 0 old start pre post] assms by simp

section \<open>The offset table and its large entries\<close>

definition isLarge :: "nat \<Rightarrow> bool" where
  "isLarge off \<longleftrightarrow> 2147483647 < off"

definition largeRank :: "(nat \<Rightarrow> nat) \<Rightarrow> nat \<Rightarrow> nat" where
  "largeRank f i = length (filter (\<lambda>p. isLarge (f p)) [0..<i])"

definition smallWord :: "(nat \<Rightarrow> nat) \<Rightarrow> nat \<Rightarrow> nat" where
  "smallWord f p = (if isLarge (f p) then 2147483648 + largeRank f p else f p)"

definition largeWords :: "(nat \<Rightarrow> nat) \<Rightarrow> nat \<Rightarrow> bytes" where
  "largeWords f p = u32_bytes (f p div 4294967296) @ u32_bytes (f p mod 4294967296)"

lemma largeRank_Suc: "largeRank f (Suc i) = largeRank f i + (if isLarge (f i) then 1 else 0)"
  by (simp add: largeRank_def)

lemma largeRank_mono: "i \<le> j \<Longrightarrow> largeRank f i \<le> largeRank f j"
  by (induction j) (auto simp: le_Suc_eq largeRank_Suc)

lemma largeRank_le: "largeRank f i \<le> i"
  unfolding largeRank_def using length_filter_le [of _ "[0..<i]"] by simp

lemma large_marker: "l < 2147483648 \<Longrightarrow> nat (toUint32 (js_or 2147483648 (int l))) = 2147483648 + l"
proof -
  assume l: "l < 2147483648"
  have "toUint32 (js_or 2147483648 (int l)) = toUint32 (2147483648 OR int l)" by (simp add: js_or_def)
  also have "2147483648 OR int l = int l + 2147483648"
    using or_disjoint_add [of "int l" 31 1] l by (simp add: or.commute)
  finally show ?thesis using l by (simp add: toUint32_mod)
qed

lemma foldE_offsets:
  assumes "n < 2147483648" "offsetStart = length pre" "largeStart = offsetStart + n * 4"
    and f: "\<And>p. p < n \<Longrightarrow> f p = slabAt (offsets (slabs spi)) (order spi ! p)"
  shows "i \<le> n \<Longrightarrow> length done1 = i * 4 \<Longrightarrow> length old1 = (n - i) * 4 \<Longrightarrow>
    length done2 = largeRank f i * 8 \<Longrightarrow> length old2 = (largeRank f n - largeRank f i) * 8 \<Longrightarrow>
    foldE (offsetStep spi offsetStart largeStart) [i..<n] (pre @ done1 @ old1 @ done2 @ old2 @ post, largeRank f i)
      = Inr (pre @ done1 @ concat (map (\<lambda>p. u32_bytes (smallWord f p)) [i..<n]) @
          done2 @ concat (map (largeWords f) (filter (\<lambda>p. isLarge (f p)) [i..<n])) @ post, largeRank f n)"
proof (induction "n - i" arbitrary: i done1 old1 done2 old2)
  case 0
  then show ?case by simp
next
  case (Suc k)
  then have lt: "i < n" by simp
  then have upt: "[i..<n] = i # [Suc i..<n]" by (rule upt_conv_Cons)
  have l1: "length old1 = 4 + (n - Suc i) * 4" using Suc.prems(3) lt by simp
  define a1 b1 where "a1 = take 4 old1" and "b1 = drop 4 old1"
  have o1: "old1 = a1 @ b1" "length a1 = 4" "length b1 = (n - Suc i) * 4" using l1 by (simp_all add: a1_def b1_def)
  have w: "setUint32 (pre @ done1 @ old1 @ rest) (offsetStart + i * 4) v = Inr (pre @ (done1 @ u32_bytes v) @ b1 @ rest)"
    for v rest
    using setBytes_zeros [of "offsetStart + i * 4" "pre @ done1" a1 "u32_bytes v" "b1 @ rest"] o1 Suc.prems(2) assms(2)
    by (simp add: setUint32_def)
  have r: "largeRank f i < 2147483648" using largeRank_le [of f i] lt assms(1) by linarith
  show ?case
  proof (cases "isLarge (f i)")
    case False
    then have rk: "largeRank f (Suc i) = largeRank f i" by (simp add: largeRank_Suc)
    have "offsetStep spi offsetStart largeStart i (pre @ done1 @ old1 @ done2 @ old2 @ post, largeRank f i)
        = Inr (pre @ (done1 @ u32_bytes (f i)) @ b1 @ done2 @ old2 @ post, largeRank f (Suc i))"
      using w False f [OF lt] rk by (simp add: offsetStep_def isLarge_def)
    moreover have "foldE (offsetStep spi offsetStart largeStart) [Suc i..<n]
          (pre @ (done1 @ u32_bytes (f i)) @ b1 @ done2 @ old2 @ post, largeRank f (Suc i))
        = Inr (pre @ (done1 @ u32_bytes (f i)) @ concat (map (\<lambda>p. u32_bytes (smallWord f p)) [Suc i..<n]) @
            done2 @ concat (map (largeWords f) (filter (\<lambda>p. isLarge (f p)) [Suc i..<n])) @ post, largeRank f n)"
      using Suc.hyps(2) Suc.prems o1 rk lt by (intro Suc.hyps(1)) simp_all
    ultimately show ?thesis using upt False by (simp add: smallWord_def)
  next
    case True
    then have rk: "largeRank f (Suc i) = largeRank f i + 1" by (simp add: largeRank_Suc)
    have "largeRank f (Suc i) \<le> largeRank f n" using lt by (intro largeRank_mono) simp
    then have l2: "length old2 = 8 + (largeRank f n - largeRank f (Suc i)) * 8" using Suc.prems(5) rk by simp
    define a2 b2 c2 where "a2 = take 4 old2" and "b2 = take 4 (drop 4 old2)" and "c2 = drop 8 old2"
    have o2: "old2 = a2 @ b2 @ c2" "length a2 = 4" "length b2 = 4" "length c2 = (largeRank f n - largeRank f (Suc i)) * 8"
    proof -
      have "drop 4 old2 = b2 @ c2" unfolding b2_def c2_def by (metis append_take_drop_id drop_drop numeral_Bit0)
      then show "old2 = a2 @ b2 @ c2" unfolding a2_def by (metis append_take_drop_id)
    qed (use l2 in \<open>simp_all add: a2_def b2_def c2_def\<close>)
    let ?d1 = "done1 @ u32_bytes (2147483648 + largeRank f i)"
    have ls: "largeStart + largeRank f i * 8 = length (pre @ ?d1 @ b1 @ done2)"
      using assms(2,3) o1(3) Suc.prems(2,4) lt by simp
    have s1: "setUint32 (pre @ ?d1 @ b1 @ done2 @ old2 @ post) (largeStart + largeRank f i * 8) (f i div 4294967296)
        = Inr (pre @ ?d1 @ b1 @ done2 @ u32_bytes (f i div 4294967296) @ b2 @ c2 @ post)"
      using setBytes_zeros [OF ls, of a2 "u32_bytes (f i div 4294967296)" "b2 @ c2 @ post"] o2
      by (simp add: setUint32_def)
    have s2: "setUint32 (pre @ ?d1 @ b1 @ done2 @ u32_bytes (f i div 4294967296) @ b2 @ c2 @ post)
          (largeStart + largeRank f i * 8 + 4) (f i mod 4294967296)
        = Inr (pre @ ?d1 @ b1 @ (done2 @ largeWords f i) @ c2 @ post)"
      using setBytes_zeros [of "largeStart + largeRank f i * 8 + 4"
          "pre @ ?d1 @ b1 @ done2 @ u32_bytes (f i div 4294967296)" b2 "u32_bytes (f i mod 4294967296)" "c2 @ post"]
        ls o2 by (simp add: setUint32_def largeWords_def)
    have low: "nat (js_ushr (int (f i)) 0) = f i mod 4294967296"
      by (simp add: js_ushr_0 nat_mod_distrib)
    have "offsetStep spi offsetStart largeStart i (pre @ done1 @ old1 @ done2 @ old2 @ post, largeRank f i)
        = Inr (pre @ ?d1 @ b1 @ (done2 @ largeWords f i) @ c2 @ post, largeRank f (Suc i))"
      using w True s1 s2 rk f [OF lt] low large_marker [OF r] by (simp add: offsetStep_def isLarge_def Let_def)
    moreover have "foldE (offsetStep spi offsetStart largeStart) [Suc i..<n]
          (pre @ ?d1 @ b1 @ (done2 @ largeWords f i) @ c2 @ post, largeRank f (Suc i))
        = Inr (pre @ ?d1 @ concat (map (\<lambda>p. u32_bytes (smallWord f p)) [Suc i..<n]) @
            (done2 @ largeWords f i) @ concat (map (largeWords f) (filter (\<lambda>p. isLarge (f p)) [Suc i..<n])) @ post,
            largeRank f n)"
      using Suc.hyps(2) Suc.prems o1 o2 rk lt
      by (intro Suc.hyps(1)) (simp_all add: largeWords_def)
    ultimately show ?thesis using upt True by (simp add: smallWord_def)
  qed
qed

section \<open>The fanout table\<close>

definition fanCount :: "(nat \<Rightarrow> nat) \<Rightarrow> nat \<Rightarrow> nat \<Rightarrow> nat" where
  "fanCount fb n b = length (filter (\<lambda>p. fb p \<le> b) [0..<n])"

lemma fanCount_le: "fanCount fb n b \<le> n"
  unfolding fanCount_def using length_filter_le [of _ "[0..<n]"] by simp

lemma fanCount_mono: "b \<le> c \<Longrightarrow> fanCount fb n b \<le> fanCount fb n c"
  by (induction n) (auto simp: fanCount_def)

lemma fanCount_all: "(\<And>p. p < n \<Longrightarrow> fb p \<le> b) \<Longrightarrow> fanCount fb n b = n"
  by (simp add: fanCount_def)

lemma less_fanCount:
  assumes "\<And>p q. p < q \<Longrightarrow> q < n \<Longrightarrow> fb p \<le> fb q" "p < n"
  shows "p < fanCount fb n b \<longleftrightarrow> fb p \<le> b"
  using assms
proof (induction n)
  case (Suc n)
  show ?case
  proof (cases "fb n \<le> b")
    case True
    have "fb q \<le> b" if "q < Suc n" for q
      using Suc.prems(1) [of q n] True that by (cases "q = n") auto
    then show ?thesis using Suc.prems(2) by (simp add: fanCount_all)
  next
    case False
    then have "fanCount fb (Suc n) b = fanCount fb n b" by (simp add: fanCount_def)
    then show ?thesis using Suc False fanCount_le [of fb n b] by (cases "p = n") auto
  qed
qed simp

lemma bucketCounts_eq:
  assumes "\<And>p. p < n \<Longrightarrow> byteAt slab (ord ! p * dl) = Some (fb p)" "\<And>p. p < n \<Longrightarrow> fb p < 256"
  shows "foldl (\<lambda>counts p. case byteAt slab (ord ! p * dl) of None \<Rightarrow> counts | Some b \<Rightarrow> counts[b := counts ! b + 1])
      (replicate 256 0) [0..<n] = map (\<lambda>b. length (filter (\<lambda>p. fb p = b) [0..<n])) [0..<256]"
  using assms
proof (induction n)
  case 0
  show ?case by (simp add: map_replicate_const)
next
  case (Suc n)
  let ?c = "\<lambda>n b. length (filter (\<lambda>p. fb p = b) [0..<n])"
  have "(map (?c n) [0..<256])[fb n := map (?c n) [0..<256] ! fb n + 1] = map (?c (Suc n)) [0..<256]"
    using Suc.prems(2) [of n] by (intro nth_equalityI) (auto simp: nth_list_update)
  then show ?case using Suc by simp
qed

lemma fanout_loop:
  assumes "k \<le> 256"
  shows "foldl (\<lambda>(fanout, cumulative) i. let c = cumulative + counts ! i in (fanout[i := c], c)) (replicate 256 0, 0) [0..<k]
    = (map (\<lambda>i. if i < k then sum_list (map ((!) counts) [0..<Suc i]) else 0) [0..<256], sum_list (map ((!) counts) [0..<k]))"
  using assms
proof (induction k)
  case 0
  show ?case by (simp add: map_replicate_const)
next
  case (Suc k)
  have "(map (\<lambda>i. if i < k then sum_list (map ((!) counts) [0..<Suc i]) else 0) [0..<256])
        [k := sum_list (map ((!) counts) [0..<k]) + counts ! k]
      = map (\<lambda>i. if i < Suc k then sum_list (map ((!) counts) [0..<Suc i]) else 0) [0..<256]"
    using Suc.prems by (intro nth_equalityI) (auto simp: nth_list_update less_Suc_eq)
  then show ?case using Suc by (simp add: Let_def)
qed

lemma fanCount_Suc: "fanCount fb n (Suc i) = fanCount fb n i + length (filter (\<lambda>p. fb p = Suc i) [0..<n])"
  by (induction n) (auto simp: fanCount_def le_Suc_eq)

lemma bucket_sum: "sum_list (map (\<lambda>b. length (filter (\<lambda>p. fb p = b) [0..<n])) [0..<Suc i]) = fanCount fb n i"
proof (induction i)
  case (Suc i)
  then show ?case by (subst upt_Suc_append) (simp_all only: map_append sum_list_append fanCount_Suc, simp)
qed (simp add: fanCount_def)

lemma fanout_eq:
  assumes "\<And>p. p < n \<Longrightarrow> byteAt (oids (slabs spi)) (order spi ! p * dl) = Some (fb p)" "\<And>p. p < n \<Longrightarrow> fb p < 256"
    "entryCount (slabs spi) = n"
  shows "fanoutOf (bucketCountsOf spi dl) = map (fanCount fb n) [0..<256]"
proof -
  have c: "bucketCountsOf spi dl = map (\<lambda>b. length (filter (\<lambda>p. fb p = b) [0..<n])) [0..<256]"
    unfolding bucketCountsOf_def assms(3) by (rule bucketCounts_eq [OF assms(1,2)])
  have "sum_list (map ((!) (bucketCountsOf spi dl)) [0..<Suc i]) = fanCount fb n i" if "i < 256" for i
    unfolding bucket_sum [symmetric] c using that by (intro arg_cong [of _ _ sum_list] map_cong) auto
  then show ?thesis
    unfolding fanoutOf_def by (simp only: fanout_loop [OF order_refl] fst_conv) (simp del: upt_Suc)
qed

section \<open>The image of a pack index\<close>

definition firstByte :: "(nat \<Rightarrow> bytes) \<Rightarrow> nat \<Rightarrow> nat" where
  "firstByte key p = unat (key p ! 0)"

definition idxImage ::
    "nat \<Rightarrow> (nat \<Rightarrow> bytes) \<Rightarrow> (nat \<Rightarrow> nat) \<Rightarrow> (nat \<Rightarrow> nat) \<Rightarrow> bytes \<Rightarrow> bytes \<Rightarrow> bytes" where
  "idxImage n key crc off cs tr =
     (u32_bytes IDX_MAGIC @ u32_bytes IDX_VERSION) @
     concat (map (\<lambda>b. u32_bytes (fanCount (firstByte key) n b)) [0..<256]) @
     concat (map key [0..<n]) @
     concat (map (\<lambda>p. u32_bytes (crc p)) [0..<n]) @
     concat (map (\<lambda>p. u32_bytes (smallWord off p)) [0..<n]) @
     concat (map (largeWords off) (filter (\<lambda>p. isLarge (off p)) [0..<n])) @
     cs @ tr"

definition sortedKey :: "packIndexEntries \<Rightarrow> nat \<Rightarrow> bytes" where
  "sortedKey es p = slabOid es (order (sortPackIndexEntries es) ! p)"

definition sortedOffset :: "packIndexEntries \<Rightarrow> nat \<Rightarrow> nat" where
  "sortedOffset es p = offsets es ! (order (sortPackIndexEntries es) ! p)"

definition sortedCrc :: "packIndexEntries \<Rightarrow> nat \<Rightarrow> nat" where
  "sortedCrc es p = crcValues es ! (order (sortPackIndexEntries es) ! p)"

lemma order_perm:
  "mset (order (sortPackIndexEntries es)) = mset [0..<entryCount es]"
  "length (order (sortPackIndexEntries es)) = entryCount es"
  "set (order (sortPackIndexEntries es)) = {0..<entryCount es}"
  by (simp_all add: sortPackIndexEntries_def mset_jsSort length_jsSort set_jsSort)

lemma order_less: "p < entryCount es \<Longrightarrow> order (sortPackIndexEntries es) ! p < entryCount es"
  using order_perm(2,3) [of es] nth_mem by fastforce

lemma order_distinct: "distinct (order (sortPackIndexEntries es))"
  by (simp add: sortPackIndexEntries_def distinct_jsSort)

lemma length_sortedKey: "slabsOk es \<Longrightarrow> p < entryCount es \<Longrightarrow> length (sortedKey es p) = slabDigestLength es"
  by (simp add: sortedKey_def length_slabOid order_less)

lemma sortedKey_sorted:
  assumes "slabsOk es" "p < q" "q < entryCount es"
  shows "compareBytes (sortedKey es p) (sortedKey es q) \<le> 0"
proof -
  let ?cmp = "\<lambda>a b. compareOidsLoop (oids es) (a * slabDigestLength es) (b * slabDigestLength es) (slabDigestLength es) 0"
  have "consistent ?cmp (set [0..<entryCount es])
      \<longleftrightarrow> consistent (\<lambda>a b. compareBytes (slabOid es a) (slabOid es b)) (set [0..<entryCount es])"
    by (rule consistent_cong) (simp add: compareOids_slabOid [OF assms(1)])
  then have c: "consistent ?cmp (set [0..<entryCount es])" using compareBytes_consistent by blast
  have "sorted_wrt (\<lambda>a b. ?cmp a b \<le> 0) (order (sortPackIndexEntries es))"
    unfolding sortPackIndexEntries_def by (simp add: sorted_jsSort [OF c])
  then have "?cmp (order (sortPackIndexEntries es) ! p) (order (sortPackIndexEntries es) ! q) \<le> 0"
    using assms(2,3) order_perm(2) [of es] by (auto simp: sorted_wrt_iff_nth_less)
  then show ?thesis
    using compareOids_slabOid [OF assms(1)] order_less assms(2,3) by (simp add: sortedKey_def)
qed

lemma byteAt_slab:
  assumes "slabsOk es" "p < entryCount es"
  shows "byteAt (oids es) (order (sortPackIndexEntries es) ! p * slabDigestLength es) = Some (firstByte (sortedKey es) p)"
proof -
  let ?k = "order (sortPackIndexEntries es) ! p"
  have "?k * slabDigestLength es + slabDigestLength es \<le> length (oids es)"
    using slot_fits [OF order_less [OF assms(2)]] assms(1) by (simp add: slabsOk_def)
  moreover have "0 < slabDigestLength es" using assms(1) by (auto simp: slabsOk_def)
  ultimately show ?thesis
    by (simp add: byteAt_def firstByte_def sortedKey_def slabOid_def nth_subarray)
qed

lemma length_smallLarge:
  "length (concat (map (largeWords off) (filter (\<lambda>p. isLarge (off p)) [0..<n]))) = largeRank off n * 8"
  by (induction n) (simp_all add: largeRank_def largeWords_def)

lemma serializePackIndex_image:
  assumes ok: "slabsOk es" and n: "entryCount es < 2147483648" and cs: "length cs = slabDigestLength es"
  shows "serializePackIndex (sortPackIndexEntries es) cs
    = Inr (idxImage (entryCount es) (sortedKey es) (sortedCrc es) (sortedOffset es) cs (replicate (slabDigestLength es) 0))"
proof -
  define spi where "spi = sortPackIndexEntries es"
  define n dl where "n = entryCount es" and "dl = slabDigestLength es"
  define f where "f = sortedOffset es"
  have sl: "slabs spi = es" "order spi = order (sortPackIndexEntries es)" by (simp_all add: spi_def sortPackIndexEntries_def)
  have gate: "assertValidIdxInput spi dl = Inr ()"
    using ok order_perm(2) [of es] by (auto simp: assertValidIdxInput_def assertValidSortedPackIndex_def sl slabsOk_def dl_def)
  have at: "slabAt (offsets es) (order spi ! p) = f p" "slabAt (crcValues es) (order spi ! p) = sortedCrc es p"
    "subarray (oids es) (order spi ! p * dl) ((order spi ! p + 1) * dl) = sortedKey es p" if "p < n" for p
    using order_less [of p es] that ok
    by (auto simp: slabAt_def sl f_def sortedOffset_def sortedCrc_def sortedKey_def slabOid_def dl_def n_def slabsOk_def
        algebra_simps)
  have lc: "length (filter (\<lambda>p. 2147483647 < slabAt (offsets es) (order spi ! p)) [0..<n]) = largeRank f n"
    using at(1) by (auto simp: largeRank_def isLarge_def intro!: arg_cong [of _ _ length] filter_cong)
  have fb: "fanoutOf (bucketCountsOf spi dl) = map (fanCount (firstByte (sortedKey es)) n) [0..<256]"
    using byteAt_slab [OF ok] by (intro fanout_eq) (simp_all add: sl n_def dl_def firstByte_def)
  let ?h = "u32_bytes IDX_MAGIC @ u32_bytes IDX_VERSION"
  let ?fan = "concat (map (\<lambda>b. u32_bytes (fanCount (firstByte (sortedKey es)) n b)) [0..<256])"
  let ?sha = "concat (map (sortedKey es) [0..<n])"
  let ?crc = "concat (map (\<lambda>p. u32_bytes (sortedCrc es p)) [0..<n])"
  have lens: "length ?fan = 1024" "length ?sha = n * dl" "length ?crc = n * 4"
    using length_concat_width [of 256 "\<lambda>b. u32_bytes (fanCount (firstByte (sortedKey es)) n b)" 4]
      length_concat_width [of n "sortedKey es" dl] length_concat_width [of n "\<lambda>p. u32_bytes (sortedCrc es p)" 4]
      length_sortedKey [OF ok] by (simp_all add: n_def dl_def)
  let ?z = "\<lambda>k. replicate k (0 :: byte)"
  let ?tail = "?z (n * 4) @ ?z (largeRank f n * 8) @ ?z dl @ ?z dl"
  define total where "total = 8 + 1024 + n * dl + n * 4 + n * 4 + largeRank f n * 8 + 2 * dl"
  have zero: "?z total = ?z 4 @ ?z 4 @ ?z 1024 @ ?z (n * dl) @ ?z (n * 4) @ ?tail"
    by (simp add: total_def replicate_add [symmetric])
  have s1: "setUint32 (?z total) 0 4285812579 = Inr (u32_bytes IDX_MAGIC @ ?z 4 @ ?z 1024 @ ?z (n * dl) @ ?z (n * 4) @ ?tail)"
    unfolding zero setUint32_def IDX_MAGIC_def
    using setBytes_zeros [of 0 "[]" "?z 4" "u32_bytes 4285812579" "?z 4 @ ?z 1024 @ ?z (n * dl) @ ?z (n * 4) @ ?tail"] by simp
  have s2: "setUint32 (u32_bytes IDX_MAGIC @ ?z 4 @ ?z 1024 @ ?z (n * dl) @ ?z (n * 4) @ ?tail) 4 2
      = Inr (?h @ ?z 1024 @ ?z (n * dl) @ ?z (n * 4) @ ?tail)"
    using setBytes_zeros [of 4 "u32_bytes IDX_MAGIC" "?z 4" "u32_bytes 2" "?z 1024 @ ?z (n * dl) @ ?z (n * 4) @ ?tail"]
    by (simp add: setUint32_def IDX_VERSION_def)
  have "foldE (\<lambda>i b. setUint32 b (8 + i * 4) (fanCount (firstByte (sortedKey es)) n i)) [0..<256]
      (?h @ ?z 1024 @ ?z (n * dl) @ ?z (n * 4) @ ?tail) = Inr (?h @ ?fan @ ?z (n * dl) @ ?z (n * 4) @ ?tail)"
    by (rule foldE_setUint32) simp_all
  moreover have "foldE (\<lambda>i b. setUint32 b (8 + i * 4) (fanoutOf (bucketCountsOf spi dl) ! i)) [0..<256]
      = foldE (\<lambda>i b. setUint32 b (8 + i * 4) (fanCount (firstByte (sortedKey es)) n i)) [0..<256]"
    unfolding fb by (rule foldE_cong) simp
  ultimately have s3: "foldE (\<lambda>i b. setUint32 b (8 + i * 4) (fanoutOf (bucketCountsOf spi dl) ! i)) [0..<256]
      (?h @ ?z 1024 @ ?z (n * dl) @ ?z (n * 4) @ ?tail) = Inr (?h @ ?fan @ ?z (n * dl) @ ?z (n * 4) @ ?tail)" by simp
  have s4: "foldE (\<lambda>p b. let k = order spi ! p in setBytes b (subarray (oids es) (k * dl) ((k + 1) * dl)) (1032 + p * dl))
        [0..<n] (?h @ ?fan @ ?z (n * dl) @ ?z (n * 4) @ ?tail) = Inr (?h @ ?fan @ ?sha @ ?z (n * 4) @ ?tail)"
  proof -
    have "foldE (\<lambda>p b. let k = order spi ! p in setBytes b (subarray (oids es) (k * dl) ((k + 1) * dl)) (1032 + p * dl)) [0..<n]
        = foldE (\<lambda>p b. setBytes b (sortedKey es p) (1032 + p * dl)) [0..<n]"
      by (rule foldE_cong) (simp add: at(3) [simplified] Let_def)
    then show ?thesis
      using foldE_setBytes [of n "sortedKey es" dl 0 "?z (n * dl)" 1032 "?h @ ?fan" "?z (n * 4) @ ?tail"]
        length_sortedKey [OF ok] lens(1) by (simp add: n_def dl_def)
  qed
  have s5: "foldE (\<lambda>p b. setUint32 b (1032 + n * dl + p * 4) (slabAt (crcValues es) (order spi ! p))) [0..<n]
        (?h @ ?fan @ ?sha @ ?z (n * 4) @ ?tail) = Inr (?h @ ?fan @ ?sha @ ?crc @ ?tail)"
  proof -
    have "foldE (\<lambda>p b. setUint32 b (1032 + n * dl + p * 4) (slabAt (crcValues es) (order spi ! p))) [0..<n]
        = foldE (\<lambda>p b. setUint32 b (1032 + n * dl + p * 4) (sortedCrc es p)) [0..<n]"
      by (rule foldE_cong) (simp add: at(2))
    then show ?thesis
      using foldE_setUint32 [of "?z (n * 4)" n "1032 + n * dl" "?h @ ?fan @ ?sha" "sortedCrc es" ?tail] lens by simp
  qed
  let ?small = "concat (map (\<lambda>p. u32_bytes (smallWord f p)) [0..<n])"
  let ?large = "concat (map (largeWords f) (filter (\<lambda>p. isLarge (f p)) [0..<n]))"
  have s6: "foldE (offsetStep spi (1032 + n * dl + n * 4) (1032 + n * dl + n * 4 + n * 4)) [0..<n]
        (?h @ ?fan @ ?sha @ ?crc @ ?tail, 0) = Inr (?h @ ?fan @ ?sha @ ?crc @ ?small @ ?large @ ?z dl @ ?z dl, largeRank f n)"
    using foldE_offsets [of n "1032 + n * dl + n * 4" "?h @ ?fan @ ?sha @ ?crc" _ f spi 0 "[]" "?z (n * 4)" "[]"
        "?z (largeRank f n * 8)" "?z dl @ ?z dl"] n lens at(1)
    by (simp add: n_def sl largeRank_def)
  have s7: "setBytes (?h @ ?fan @ ?sha @ ?crc @ ?small @ ?large @ ?z dl @ ?z dl) cs (total - 2 * dl)
      = Inr (?h @ ?fan @ ?sha @ ?crc @ ?small @ ?large @ cs @ ?z dl)"
    using setBytes_zeros [of "total - 2 * dl" "?h @ ?fan @ ?sha @ ?crc @ ?small @ ?large" "?z dl" cs "?z dl"] lens
      length_concat_width [of n "\<lambda>p. u32_bytes (smallWord f p)" 4] length_smallLarge [of f n] cs
    by (simp add: total_def dl_def)
  have total: "1032 + n * dl + n * 4 + n * 4 + largeRank f n * 8 + 2 * dl = total" by (simp add: total_def)
  have starts: "8 + 1024 = (1032 :: nat)" by simp
  show ?thesis
    unfolding serializePackIndex_def Let_def cs dl_def [symmetric] spi_def [symmetric] sl(1) n_def [symmetric] gate bindE_simps
      lc total starts s1 s2 s3 s4 [unfolded Let_def] s5 s6 prod.case s7
    by (simp add: idxImage_def f_def)
qed

section \<open>Reading the image\<close>

lemma js_and_top: "x < 4294967296 \<Longrightarrow> js_and (int x) 2147483648 = 0 \<longleftrightarrow> x < 2147483648"
proof -
  assume x: "x < 4294967296"
  have "js_and (int x) 2147483648 = 0 \<longleftrightarrow> int x AND 2 ^ 31 = 0"
  proof -
    have "toUint32 (toInt32 (2 ^ 31)) \<noteq> 0" unfolding toUint32_toInt32 by (simp add: toUint32_mod)
    then have "toInt32 (2 ^ 31) \<noteq> 0" by (auto simp: toUint32_def)
    moreover have "int x AND 2 ^ 31 = (if bit (int x) 31 then 2 ^ 31 else 0)"
      by (rule bit_eqI) (auto simp: bit_and_iff bit_exp_iff simp del: power_numeral)
    ultimately show ?thesis by (auto simp: js_and_def toInt32_def)
  qed
  also have "\<dots> \<longleftrightarrow> even (int x div 2 ^ 31)" by (simp only: and_exp_eq_0_iff bit_iff_odd not_not)
  also have "\<dots> \<longleftrightarrow> x < 2147483648"
  proof -
    have "int x div 2 ^ 31 = (if x < 2147483648 then 0 else 1)" 
      using x int_div_pos_eq [of "int x" 2147483648 1 "int x - 2147483648"] by simp
    then show ?thesis by simp
  qed
  finally show ?thesis .
qed

lemma js_and_low31: "js_and (int x) 2147483647 = int (x mod 2147483648)"
  using js_and_mask [of 31 "int x"] by (simp add: zmod_int)

lemma compareShaLoop_eq:
  assumes "slot + dl \<le> length bs" "length t = dl"
  shows "k \<le> dl \<Longrightarrow> compareShaLoop bs slot t dl k = compareBytes (drop k (subarray bs slot (slot + dl))) (drop k t)"
proof (induction "dl - k" arbitrary: k)
  case 0
  then show ?case using assms by (simp add: compareShaLoop.simps)
next
  case (Suc m)
  let ?a = "subarray bs slot (slot + dl)"
  have lt: "k < dl" using Suc.hyps(2) by simp
  have l: "length ?a = dl" using assms by (simp add: length_subarray_fit del: length_subarray)
  have "drop k ?a = ?a ! k # drop (k + 1) ?a" "drop k t = t ! k # drop (k + 1) t"
    using l lt assms(2) by (simp_all only: Suc_eq_plus1 [symmetric] Cons_nth_drop_Suc)
  moreover have "?a ! k = bs ! (slot + k)" using lt assms by (simp add: nth_subarray)
  moreover have "compareShaLoop bs slot t dl (k + 1) = compareBytes (drop (k + 1) ?a) (drop (k + 1) t)"
    using Suc.hyps(2) lt by (intro Suc.hyps(1)) simp_all
  ultimately show ?case using lt by (subst compareShaLoop.simps) (simp add: Let_def u8_inject)
qed

definition imageOk :: "nat \<Rightarrow> nat \<Rightarrow> (nat \<Rightarrow> bytes) \<Rightarrow> bytes \<Rightarrow> bytes \<Rightarrow> bool" where
  "imageOk n dl key cs tr \<longleftrightarrow> n < 2147483648 \<and> 0 < dl \<and> (\<forall>p<n. length (key p) = dl) \<and> length cs = dl \<and> length tr = dl"

lemma length_tables:
  assumes "imageOk n dl key cs tr"
  shows "length (concat (map (\<lambda>b. u32_bytes (fanCount (firstByte key) n b)) [0..<256])) = 1024"
    "length (concat (map key [0..<n])) = n * dl"
    "length (concat (map (\<lambda>p. u32_bytes (crc p)) [0..<n])) = n * 4"
  using length_concat_width [of 256 "\<lambda>b. u32_bytes (fanCount (firstByte key) n b)" 4]
    length_concat_width [of n key dl] length_concat_width [of n "\<lambda>p. u32_bytes (crc p)" 4] assms
  by (simp_all add: imageOk_def)

lemma length_idxImage:
  assumes "imageOk n dl key cs tr"
  shows "length (idxImage n key crc off cs tr) = 1032 + n * dl + n * 4 + n * 4 + largeRank off n * 8 + 2 * dl"
  using length_tables [OF assms] assms length_smallLarge [of off n] by (simp add: idxImage_def imageOk_def)

lemma idxImage_fan:
  assumes "imageOk n dl key cs tr" "b < 256"
  shows "getUint32 (idxImage n key crc off cs tr) (8 + b * 4) = Inr (fanCount (firstByte key) n b)"
proof -
  have "fanCount (firstByte key) n b < 4294967296"
    using fanCount_le [of "firstByte key" n b] assms(1) unfolding imageOk_def by linarith
  then show ?thesis
    unfolding idxImage_def using assms(2)
    by (subst getUint32_table) simp_all
qed

lemma idxImage_fanoutLoop:
  assumes "imageOk n dl key cs tr"
  shows "i \<le> 256 \<Longrightarrow> prev \<le> fanCount (firstByte key) n i \<Longrightarrow> fanoutLoop (idxImage n key crc off cs tr) [i..<256] prev = Inr ()"
proof (induction "256 - i" arbitrary: i prev)
  case (Suc m)
  then have lt: "i < 256" by simp
  have "fanoutLoop (idxImage n key crc off cs tr) [Suc i..<256] (fanCount (firstByte key) n i) = Inr ()"
    using Suc.hyps(2) lt by (intro Suc.hyps(1) fanCount_mono) simp_all
  then show ?case
    using idxImage_fan [OF assms lt, of crc off] lt Suc.prems(2) by (simp add: upt_conv_Cons IDX_HEADER_SIZE_def)
qed simp

lemma firstByte_less: "firstByte key p < 256"
  by (simp add: firstByte_def)

definition idxOf :: "nat \<Rightarrow> nat \<Rightarrow> bytes \<Rightarrow> packIndex" where
  "idxOf n dl bs = \<lparr>idxObjectCount = n, idxDigestLength = dl, crc32TableOffset = 1032 + n * dl,
     smallOffsetsTableOffset = 1032 + n * dl + n * 4, largeOffsetsTableOffset = 1032 + n * dl + n * 4 + n * 4,
     trailerOffset = length bs - 2 * dl, idxBytes = bs\<rparr>"

lemma parsePackIndex_image:
  assumes ok: "imageOk n dl key cs tr"
  shows "parsePackIndex (idxImage n key crc off cs tr) dl = Inr (idxOf n dl (idxImage n key crc off cs tr))"
proof -
  let ?img = "idxImage n key crc off cs tr"
  have l: "length ?img = 1032 + n * dl + n * 4 + n * 4 + largeRank off n * 8 + 2 * dl" by (rule length_idxImage [OF ok])
  have m: "getUint32 ?img 0 = Inr IDX_MAGIC"
    unfolding idxImage_def append.assoc using getUint32_u32 [of 0 "[]"] by (simp add: IDX_MAGIC_def)
  have v: "getUint32 ?img 4 = Inr IDX_VERSION"
    unfolding idxImage_def append.assoc using getUint32_u32 [of 4 "u32_bytes IDX_MAGIC"] by (simp add: IDX_VERSION_def)
  have c: "fanCount (firstByte key) n 255 = n"
  proof (rule fanCount_all)
    show "firstByte key p \<le> 255" for p using firstByte_less [of key p] by linarith
  qed
  have cnt: "getUint32 ?img (IDX_HEADER_SIZE + 255 * 4) = Inr n"
    using idxImage_fan [OF ok, of 255 crc off] c by (simp add: IDX_HEADER_SIZE_def)
  have f: "validateFanoutMonotonicity ?img = Inr ()"
    unfolding validateFanoutMonotonicity_def by (rule idxImage_fanoutLoop [OF ok]) simp_all
  show ?thesis
    unfolding parsePackIndex_def m v f cnt bindE_simps Let_def
    by (simp add: l idxOf_def IDX_HEADER_SIZE_def IDX_FANOUT_SIZE_def shaSlotOffset_def IDX_SHA_TABLE_OFFSET_def idxTrailerSize_def)
qed

lemma idxImage_key:
  assumes ok: "imageOk n dl key cs tr" and p: "p < n"
  shows "subarray (idxImage n key crc off cs tr) (1032 + p * dl) (1032 + p * dl + dl) = key p"
proof -
  have k: "length (key q) = dl" if "q < n" for q using ok that by (simp add: imageOk_def)
  let ?pre = "(u32_bytes IDX_MAGIC @ u32_bytes IDX_VERSION) @ concat (map (\<lambda>b. u32_bytes (fanCount (firstByte key) n b)) [0..<256])"
  have "1032 = length ?pre" using length_tables(1) [OF ok] by simp
  from subarray_table [where f = key and w = dl, OF p k this] show ?thesis
    unfolding idxImage_def by (simp only: append.assoc)
qed

lemma compareSha_image:
  assumes ok: "imageOk n dl key cs tr" and p: "p < n" and t: "length t = dl"
  shows "compareShaAtIndex (idxOf n dl (idxImage n key crc off cs tr)) p t = compareBytes (key p) t"
proof -
  let ?img = "idxImage n key crc off cs tr"
  have "p * dl + dl \<le> n * dl" using slot_fits [OF p] by simp
  then have "1032 + p * dl + dl \<le> length ?img" using length_idxImage [OF ok, of crc off] by simp
  then show ?thesis
    using compareShaLoop_eq [of "1032 + p * dl" dl ?img t 0] t idxImage_key [OF ok p, of crc off]
    by (simp add: compareShaAtIndex_def idxOf_def shaSlotOffset_def IDX_SHA_TABLE_OFFSET_def)
qed

lemma readOffset_image:
  assumes ok: "imageOk n dl key cs tr" and p: "p < n" and off: "off p < 9007199254740992"
  shows "readOffset (idxOf n dl (idxImage n key crc off cs tr)) p = Inr (off p)"
proof -
  let ?img = "idxImage n key crc off cs tr"
  let ?pre = "((u32_bytes IDX_MAGIC @ u32_bytes IDX_VERSION) @
      concat (map (\<lambda>b. u32_bytes (fanCount (firstByte key) n b)) [0..<256]) @ concat (map key [0..<n]) @
      concat (map (\<lambda>p. u32_bytes (crc p)) [0..<n]))"
  let ?small = "concat (map (\<lambda>p. u32_bytes (smallWord off p)) [0..<n])"
  let ?large = "\<lambda>xs. concat (map (largeWords off) (filter (\<lambda>p. isLarge (off p)) xs))"
  have img: "?img = ?pre @ ?small @ ?large [0..<n] @ cs @ tr" by (simp add: idxImage_def)
  have pre: "1032 + n * dl + n * 4 = length ?pre" using length_tables(1,2) [OF ok] length_tables(3) [OF ok, of crc] by simp
  have rank: "largeRank off p < 2147483648" using largeRank_le [of off p] p ok unfolding imageOk_def by linarith
  then have "smallWord off p < 4294967296" by (simp add: smallWord_def isLarge_def)
  then have raw: "getUint32 ?img (1032 + n * dl + n * 4 + p * 4) = Inr (smallWord off p)"
    unfolding img pre by (subst getUint32_table [OF p refl]) simp
  show ?thesis
  proof (cases "isLarge (off p)")
    case False
    then show ?thesis using raw by (simp add: readOffset_def idxOf_def smallWord_def isLarge_def js_and_top)
  next
    case True
    then have sw: "smallWord off p = 2147483648 + largeRank off p" by (simp add: smallWord_def)
    have bit: "js_and (int (2147483648 + largeRank off p)) 2147483648 \<noteq> 0" using rank by (simp add: js_and_top del: of_nat_add)
    have low: "nat (js_and (int (2147483648 + largeRank off p)) 2147483647) = largeRank off p"
      using rank by (simp add: js_and_low31 del: of_nat_add)
    have "[0..<n] = [0..<p] @ p # [Suc p..<n]" using p upt_add_eq_append [of 0 p "n - p"] by (simp add: upt_conv_Cons)
    then have lg: "?large [0..<n] = ?large [0..<p] @ largeWords off p @ ?large [Suc p..<n]" using True by simp
    let ?at = "1032 + n * dl + n * 4 + n * 4 + largeRank off p * 8"
    let ?front = "?pre @ ?small @ ?large [0..<p]"
    have at: "?at = length ?front"
      using pre length_smallLarge [of off p] length_concat_width [of n "\<lambda>p. u32_bytes (smallWord off p)" 4] by simp
    have hi: "off p div 4294967296 < 2097152" using off by (simp add: less_mult_imp_div_less)
    have img2: "?img = ?front @ u32_bytes (off p div 4294967296) @ u32_bytes (off p mod 4294967296) @ ?large [Suc p..<n] @ cs @ tr"
      unfolding img lg by (simp add: largeWords_def)
    have g1: "getUint32 ?img ?at = Inr (off p div 4294967296)"
      unfolding img2 using getUint32_u32 [OF at] hi by simp
    have img3: "?img = (?front @ u32_bytes (off p div 4294967296)) @ u32_bytes (off p mod 4294967296) @ ?large [Suc p..<n] @ cs @ tr"
      unfolding img2 by simp
    have "?at + 4 = length (?front @ u32_bytes (off p div 4294967296))" using at by simp
    then have g2: "getUint32 ?img (?at + 4) = Inr (off p mod 4294967296)"
      unfolding img3 using getUint32_u32 [of "?at + 4" "?front @ u32_bytes (off p div 4294967296)" "off p mod 4294967296"] by simp
    have "largeRank off (Suc p) \<le> largeRank off n" using p by (intro largeRank_mono) simp
    then have fits: "\<not> trailerOffset (idxOf n dl ?img) < ?at + 8"
      using True length_idxImage [OF ok, of crc off] by (simp add: idxOf_def largeRank_Suc)
    show ?thesis
      using raw g1 g2 fits bit low hi unfolding sw
      by (simp add: readOffset_def idxOf_def Let_def add.assoc del: of_nat_add)
  qed
qed

lemma readFanout_image:
  "imageOk n dl key cs tr \<Longrightarrow> b < 256 \<Longrightarrow>
    readFanout (idxOf n dl (idxImage n key crc off cs tr)) b = Inr (fanCount (firstByte key) n b)"
  by (simp add: readFanout_def idxOf_def IDX_HEADER_SIZE_def idxImage_fan)

definition fanStart :: "(nat \<Rightarrow> nat) \<Rightarrow> nat \<Rightarrow> nat \<Rightarrow> nat" where
  "fanStart fb n b = (if b = 0 then 0 else fanCount fb n (b - 1))"

lemma fanStart_image:
  "imageOk n dl key cs tr \<Longrightarrow> b < 256 \<Longrightarrow>
    (if b = 0 then Inr 0 else readFanout (idxOf n dl (idxImage n key crc off cs tr)) (b - 1)) = Inr (fanStart (firstByte key) n b)"
  by (simp add: fanStart_def readFanout_image)

definition keysSorted :: "(nat \<Rightarrow> bytes) \<Rightarrow> nat \<Rightarrow> bool" where
  "keysSorted key n \<longleftrightarrow> (\<forall>p q. p < q \<longrightarrow> q < n \<longrightarrow> compareBytes (key p) (key q) \<le> 0)"

lemma compareBytes_head: "compareBytes (a # as) (b # bs) \<le> 0 \<Longrightarrow> unat a \<le> unat b"
  by (auto simp: u8_def word_le_nat_alt [symmetric] word_le_def split: if_splits)

lemma keysSorted_firstByte:
  assumes "keysSorted key n" "imageOk n dl key cs tr" "p < q" "q < n"
  shows "firstByte key p \<le> firstByte key q"
proof -
  have "length (key p) = dl" "length (key q) = dl" "0 < dl" using assms by (auto simp: imageOk_def)
  then obtain a as b bs where "key p = a # as" "key q = b # bs" by (metis length_greater_0_conv neq_Nil_conv)
  moreover have "compareBytes (key p) (key q) \<le> 0" using assms by (simp add: keysSorted_def)
  ultimately show ?thesis using compareBytes_head [of a as b bs] by (simp add: firstByte_def del: compareBytes.simps)
qed

lemma fan_range:
  assumes "keysSorted key n" "imageOk n dl key cs tr" "p < n"
  shows "fanStart (firstByte key) n b \<le> p \<and> p < fanCount (firstByte key) n b \<longleftrightarrow> firstByte key p = b"
proof -
  have c: "p < fanCount (firstByte key) n c \<longleftrightarrow> firstByte key p \<le> c" for c
    by (rule less_fanCount [OF _ assms(3)]) (rule keysSorted_firstByte [OF assms(1,2)])
  show ?thesis
  proof (cases b)
    case 0
    then show ?thesis using c [of 0] by (simp add: fanStart_def)
  next
    case (Suc m)
    then show ?thesis using c [of m] c [of b] by (auto simp: fanStart_def)
  qed
qed

lemma slot_order_image:
  assumes "keysSorted key n" "imageOk n dl key cs tr" "length t = dl"
  shows "slot_order (\<lambda>i. compareShaAtIndex (idxOf n dl (idxImage n key crc off cs tr)) i t)
    (fanStart (firstByte key) n b) (fanCount (firstByte key) n b)"
proof
  have hi: "fanCount (firstByte key) n b \<le> n" by (rule fanCount_le)
  then show "fanCount (firstByte key) n b \<le> 2147483648" using assms(2) by (simp add: imageOk_def)
  fix i j
  assume "i < j" "j < fanCount (firstByte key) n b"
  then have ij: "i < n" "j < n" "compareBytes (key i) (key j) \<le> 0" using hi assms(1) by (auto simp: keysSorted_def)
  then have c: "compareShaAtIndex (idxOf n dl (idxImage n key crc off cs tr)) i t = compareBytes (key i) t"
    "compareShaAtIndex (idxOf n dl (idxImage n key crc off cs tr)) j t = compareBytes (key j) t"
    by (simp_all add: compareSha_image [OF assms(2) _ assms(3)])
  show "compareShaAtIndex (idxOf n dl (idxImage n key crc off cs tr)) i t < 0"
    if "compareShaAtIndex (idxOf n dl (idxImage n key crc off cs tr)) j t < 0"
    using that compareBytes_less_trans [OF ij(3)] unfolding c by blast
  show "0 < compareShaAtIndex (idxOf n dl (idxImage n key crc off cs tr)) j t"
    if "0 < compareShaAtIndex (idxOf n dl (idxImage n key crc off cs tr)) i t"
    using that compareBytes_trans [OF ij(3), of t] unfolding c by linarith
qed

lemma fanStart_le: "fanStart fb n b \<le> fanCount fb n b"
  by (simp add: fanStart_def fanCount_mono)

lemma searchIndexPosition_image:
  assumes s: "keysSorted key n" and ok: "imageOk n dl key cs tr" and t: "length t = dl"
  shows "\<exists>r. searchIndexPosition (idxOf n dl (idxImage n key crc off cs tr)) t = Inr (Some r) \<and>
    (case r of Some p \<Rightarrow> p < n \<and> key p = t | None \<Rightarrow> \<forall>p<n. key p \<noteq> t)"
proof -
  let ?ix = "idxOf n dl (idxImage n key crc off cs tr)" and ?b = "unat (t ! 0)"
  let ?lo = "fanStart (firstByte key) n ?b" and ?hi = "fanCount (firstByte key) n ?b"
  have b: "?b < 256" by simp
  have e: "searchIndexPosition ?ix t = Inr (searchLoop (\<lambda>i. compareShaAtIndex ?ix i t) ?lo ?hi)"
    unfolding searchIndexPosition_def Let_def fanStart_image [OF ok b] readFanout_image [OF ok b]
    using t by (simp add: idxOf_def)
  obtain r where r: "searchLoop (\<lambda>i. compareShaAtIndex ?ix i t) ?lo ?hi = Some r"
    "case r of Some p \<Rightarrow> ?lo \<le> p \<and> p < ?hi \<and> compareShaAtIndex ?ix p t = 0
     | None \<Rightarrow> \<forall>i. ?lo \<le> i \<and> i < ?hi \<longrightarrow> compareShaAtIndex ?ix i t \<noteq> 0"
    using slot_order.search_complete [OF slot_order_image [OF s ok t, of crc off ?b] fanStart_le] by blast
  have "case r of Some p \<Rightarrow> p < n \<and> key p = t | None \<Rightarrow> \<forall>p<n. key p \<noteq> t"
  proof (cases r)
    case (Some p)
    then have "p < ?hi" "compareShaAtIndex ?ix p t = 0" using r(2) by auto
    then have p: "p < n" "compareBytes (key p) t = 0"
      using fanCount_le [of "firstByte key" n ?b] compareSha_image [OF ok _ t, of p crc off] by auto
    then show ?thesis using Some by (simp add: compareBytes_zero)
  next
    case None
    have "key p \<noteq> t" if "p < n" for p
    proof
      assume k: "key p = t"
      then have "?lo \<le> p \<and> p < ?hi" using fan_range [OF s ok that, of ?b] by (simp add: firstByte_def)
      then have "compareBytes (key p) t \<noteq> 0" using r(2) None compareSha_image [OF ok that t, of crc off] by auto
      then show False using k by (simp add: compareBytes_zero)
    qed
    then show ?thesis using None by simp
  qed
  then show ?thesis using e r(1) by auto
qed

lemma lookup_image:
  assumes s: "keysSorted key n" and ok: "imageOk n dl key cs tr" and t: "length t = dl"
    and off: "\<And>p. p < n \<Longrightarrow> off p < 9007199254740992"
  shows "\<exists>r. lookupPackIndex (idxOf n dl (idxImage n key crc off cs tr)) (bytesToHex t) = Some (Inr (map_option off r)) \<and>
    (case r of Some p \<Rightarrow> p < n \<and> key p = t | None \<Rightarrow> \<forall>p<n. key p \<noteq> t)"
proof -
  obtain r where r: "searchIndexPosition (idxOf n dl (idxImage n key crc off cs tr)) t = Inr (Some r)"
    "case r of Some p \<Rightarrow> p < n \<and> key p = t | None \<Rightarrow> \<forall>p<n. key p \<noteq> t"
    using searchIndexPosition_image [OF s ok t] by blast
  have "lookupPackIndex (idxOf n dl (idxImage n key crc off cs tr)) (bytesToHex t) = Some (Inr (map_option off r))"
    using r readOffset_image [OF ok, of _ off crc] off by (cases r) (auto simp: lookupPackIndex_def liftLoop_def)
  then show ?thesis using r(2) by blast
qed

section \<open>Prefix search\<close>

lemma hexDigit_mono: "d < 16 \<Longrightarrow> e < 16 \<Longrightarrow> hexDigit d < hexDigit e \<longleftrightarrow> d < e"
  by (auto simp: hexDigit_def)

lemma hexDigit_eq: "d < 16 \<Longrightarrow> e < 16 \<Longrightarrow> hexDigit d = hexDigit e \<longleftrightarrow> d = e"
  by (auto simp: hexDigit_def)

lemma less_by_digits:
  fixes q r s t :: nat
  assumes "r < 16" "t < 16"
  shows "q * 16 + r < s * 16 + t \<longleftrightarrow> q < s \<or> q = s \<and> r < t" "q * 16 + r = s * 16 + t \<longleftrightarrow> q = s \<and> r = t"
  using assms by (cases q s rule: linorder_cases; linarith)+

lemma bytesToHex_lex:
  "length a = length b \<Longrightarrow> ord_class.lexordp_eq (bytesToHex a) (bytesToHex b) \<longleftrightarrow> ord_class.lexordp_eq a b"
proof (induction a b rule: list_induct2)
  case (Cons x xs y ys)
  have d: "unat x div 16 < 16" "unat x mod 16 < 16" "unat y div 16 < 16" "unat y mod 16 < 16"
    by (simp_all add: unat_div_16)
  have lt: "v < w \<longleftrightarrow> unat v div 16 < unat w div 16 \<or> unat v div 16 = unat w div 16 \<and> unat v mod 16 < unat w mod 16"
    for v w :: byte
    unfolding word_less_nat_alt
    using less_by_digits(1) [of "unat v mod 16" "unat w mod 16" "unat v div 16" "unat w div 16"] by (simp add: div_mult_mod_eq)
  show ?case
    using Cons.IH d unfolding bytesToHex_Cons
    by (simp add: lexordp_eq_simps hexDigit_mono hexDigit_eq lt [of x y] lt [of y x]) linarith
qed (simp add: bytesToHex_Nil)

lemma lex_prefix_range:
  fixes pre x :: "nat list"
  assumes "length x = length pre + k" "\<And>c. c \<in> set x \<Longrightarrow> l \<le> c \<and> c \<le> u"
  shows "ord_class.lexordp_eq (pre @ replicate k l) x \<and> ord_class.lexordp_eq x (pre @ replicate k u) \<longleftrightarrow>
    take (length pre) x = pre"
  using assms
proof (induction pre arbitrary: x)
  case Nil
  have "ord_class.lexordp_eq (replicate k l) x \<and> ord_class.lexordp_eq x (replicate k u)"
    using Nil.prems
  proof (induction k arbitrary: x)
    case (Suc k)
    then obtain c cs where x: "x = c # cs" by (cases x) auto
    then have "ord_class.lexordp_eq (replicate k l) cs \<and> ord_class.lexordp_eq cs (replicate k u)"
      using Suc.prems by (intro Suc.IH) auto
    then show ?case using Suc.prems x by (auto simp: lexordp_eq_simps less_le)
  qed simp
  then show ?case by simp
next
  case (Cons p pre)
  then obtain c cs where x: "x = c # cs" by (cases x) auto
  have "ord_class.lexordp_eq (pre @ replicate k l) cs \<and> ord_class.lexordp_eq cs (pre @ replicate k u) \<longleftrightarrow>
      take (length pre) cs = pre"
    using Cons.prems x by (intro Cons.IH) auto
  then show ?case using x by (auto simp: lexordp_eq_simps)
qed

lemma filter_interval:
  assumes "\<And>i. i < n \<Longrightarrow> P i \<longleftrightarrow> l \<le> i \<and> i < u" "u \<le> n"
  shows "filter P [0..<n] = [l..<u]"
proof (cases "l \<le> u")
  case True
  have "[0..<n] = [0..<l] @ [l..<u] @ [u..<n]"
    using True assms(2) upt_add_eq_append [of 0 l "n - l"] upt_add_eq_append [of l u "n - u"] by simp
  moreover have "filter P [0..<l] = []" "filter P [l..<u] = [l..<u]" "filter P [u..<n] = []"
    using assms True by (auto simp: filter_empty_conv filter_id_conv)
  ultimately show ?thesis by simp
next
  case False
  then show ?thesis using assms by (auto simp: filter_empty_conv)
qed

lemma hexToBytes_total:
  assumes "list_all isHexDigitCodeUnit h" "length h = 2 * k"
  shows "\<exists>bs. hexToBytes h = Inr bs \<and> h = bytesToHex bs \<and> length bs = k"
proof -
  obtain bs where bs: "hexLoop 0 h = Inr bs" using hexLoop_total [of h 0] assms(1) by (auto simp: list_all_iff)
  then have "bytesToHex bs = h" using assms(2) by (simp add: bytesToHex_hexLoop)
  then show ?thesis using length_bytesToHex [of bs] assms(2) by (intro exI [of _ bs]) auto
qed

lemma bytesToHex_head:
  assumes "bytesToHex a = c # d # as" "bytesToHex b = c # d # bs"
  shows "a ! 0 = b ! 0"
proof -
  obtain x xs where a: "a = x # xs" using assms(1) by (cases a) auto
  obtain y ys where b: "b = y # ys" using assms(2) by (cases b) auto
  have "hexDigit (unat x div 16) = hexDigit (unat y div 16)" "hexDigit (unat x mod 16) = hexDigit (unat y mod 16)"
    using assms a b by simp_all
  then have "unat x div 16 = unat y div 16" "unat x mod 16 = unat y mod 16"
    using unat_div_16 [of x] unat_div_16 [of y] by (simp_all add: hexDigit_eq)
  then have "x = y" unfolding word_unat_eq_iff by (metis div_mult_mod_eq)
  then show ?thesis using a b by simp
qed

lemma bytesToHex_take:
  assumes "take (Suc (Suc k)) (bytesToHex a) = c # d # as" "bytesToHex b = c # d # bs"
  shows "a ! 0 = b ! 0"
proof (rule bytesToHex_head [OF _ assms(2)])
  show "bytesToHex a = c # d # drop 2 (bytesToHex a)"
    using assms(1) by (cases "bytesToHex a"; cases "List.tl (bytesToHex a)") auto
qed

lemma hex_unit_bounds: "isHexDigitCodeUnit c \<Longrightarrow> 48 \<le> c \<and> c \<le> 102"
  by (auto simp: isHexDigitCodeUnit_def split: if_splits)

lemma objectIdAt_image:
  "imageOk n dl key cs tr \<Longrightarrow> p < n \<Longrightarrow> objectIdAt (idxOf n dl (idxImage n key crc off cs tr)) p = bytesToHex (key p)"
  using idxImage_key [of n dl key cs tr p crc off]
  by (simp add: objectIdAt_def idxOf_def shaSlotOffset_def IDX_SHA_TABLE_OFFSET_def Let_def)

lemma findByPrefix_image:
  assumes s: "keysSorted key n" and ok: "imageOk n dl key cs tr"
    and pre: "4 \<le> length prefix" "length prefix \<le> 2 * dl" "list_all isHexDigitCodeUnit prefix"
  shows "findByPrefix (idxOf n dl (idxImage n key crc off cs tr)) prefix
    = Some (Inr (filter (\<lambda>h. take (length prefix) h = prefix) (map (\<lambda>p. bytesToHex (key p)) [0..<n])))"
proof -
  let ?ix = "idxOf n dl (idxImage n key crc off cs tr)"
  let ?k = "2 * dl - length prefix"
  have v: "list_all isHexDigitCodeUnit (prefix @ replicate ?k c)" "length (prefix @ replicate ?k c) = 2 * dl"
    if "isHexDigitCodeUnit c" for c
    using pre that by (auto simp: list_all_iff)
  have zf: "isHexDigitCodeUnit 48" "isHexDigitCodeUnit 102" by (simp_all add: isHexDigitCodeUnit_def)
  obtain lb where lb: "hexToBytes (prefix @ replicate ?k 48) = Inr lb" "prefix @ replicate ?k 48 = bytesToHex lb" "length lb = dl"
    using hexToBytes_total [OF v [OF zf(1)]] by blast
  obtain ub where ub: "hexToBytes (prefix @ replicate ?k 102) = Inr ub" "prefix @ replicate ?k 102 = bytesToHex ub" "length ub = dl"
    using hexToBytes_total [OF v [OF zf(2)]] by blast
  obtain c d rest where p2: "prefix = c # d # rest"
    using pre(1) by (cases prefix; cases "List.tl prefix"; simp)
  have hex: "bytesToHex lb = c # d # rest @ replicate ?k 48" "bytesToHex ub = c # d # rest @ replicate ?k 102"
    using lb(2) ub(2) p2 by simp_all
  have same: "ub ! 0 = lb ! 0" by (rule bytesToHex_head [OF hex(2,1)])
  let ?b = "unat (lb ! 0)"
  have b: "?b < 256" by simp
  let ?lo = "fanStart (firstByte key) n ?b" and ?hi = "fanCount (firstByte key) n ?b"
  have dlx: "idxDigestLength ?ix = dl" by (simp add: idxOf_def)
  have hi: "?hi \<le> n" by (rule fanCount_le)
  have cmp: "compareShaAtIndex ?ix i t = compareBytes (key i) t" if "i < n" "length t = dl" for i t
    by (rule compareSha_image [OF ok that])
  obtain l where l: "findLowerBound ?ix ?lo ?hi lb = Some l" "?lo \<le> l" "l \<le> ?hi"
    "\<And>i. ?lo \<le> i \<Longrightarrow> i < ?hi \<Longrightarrow> compareShaAtIndex ?ix i lb < 0 \<longleftrightarrow> i < l"
    using slot_order.lower_bound [OF slot_order_image [OF s ok lb(3), of crc off ?b] fanStart_le]
    unfolding findLowerBound_def by blast
  obtain u where u: "findUpperBound ?ix ?lo ?hi ub = Some u" "?lo \<le> u" "u \<le> ?hi"
    "\<And>i. ?lo \<le> i \<Longrightarrow> i < ?hi \<Longrightarrow> compareShaAtIndex ?ix i ub \<le> 0 \<longleftrightarrow> i < u"
    using slot_order.upper_bound [OF slot_order_image [OF s ok ub(3), of crc off ?b] fanStart_le]
    unfolding findUpperBound_def by blast
  have "findByPrefix ?ix prefix = Some (Inr (map (objectIdAt ?ix) [l..<u]))"
    unfolding findByPrefix_def Let_def padEnd_def dlx hexCharsFor_def lb(1) ub(1) bindE_simps same
      fanStart_image [OF ok b] readFanout_image [OF ok b] l(1) u(1)
    using pre by (simp add: liftLoop_def)
  moreover have "take (length prefix) (bytesToHex (key i)) = prefix \<longleftrightarrow> l \<le> i \<and> i < u" if i: "i < n" for i
  proof -
    have len: "length (key i) = dl" using ok i by (simp add: imageOk_def)
    have "take (length prefix) (bytesToHex (key i)) = prefix \<longleftrightarrow>
        ord_class.lexordp_eq (bytesToHex lb) (bytesToHex (key i)) \<and> ord_class.lexordp_eq (bytesToHex (key i)) (bytesToHex ub)"
      unfolding lb(2) [symmetric] ub(2) [symmetric]
      using lex_prefix_range [of "bytesToHex (key i)" prefix ?k 48 102] pre len hex_chars hex_unit_bounds by (simp add: length_bytesToHex)
    also have "\<dots> \<longleftrightarrow> \<not> compareBytes (key i) lb < 0 \<and> compareBytes (key i) ub \<le> 0"
      using compareBytes_swap [of "key i" lb] len lb(3) ub(3) by (simp add: bytesToHex_lex compareBytes_le [symmetric] not_less)
    finally have t: "take (length prefix) (bytesToHex (key i)) = prefix \<longleftrightarrow>
        \<not> compareShaAtIndex ?ix i lb < 0 \<and> compareShaAtIndex ?ix i ub \<le> 0" using cmp [OF i] lb(3) ub(3) by simp
    show ?thesis
    proof (cases "?lo \<le> i \<and> i < ?hi")
      case True
      then show ?thesis using t l(4) [of i] u(4) [of i] by auto
    next
      case False
      then have "firstByte key i \<noteq> ?b" using fan_range [OF s ok i] by blast
      then have "take (length prefix) (bytesToHex (key i)) \<noteq> prefix"
        using bytesToHex_take [OF _ hex(1), of "length rest" "key i" rest] p2 by (auto simp: firstByte_def)
      then show ?thesis using False l(2,3) u(2,3) by auto
    qed
  qed
  then have "filter (\<lambda>i. take (length prefix) (bytesToHex (key i)) = prefix) [0..<n] = [l..<u]"
    using u(3) hi by (intro filter_interval) auto
  moreover have "map (objectIdAt ?ix) [l..<u] = map (\<lambda>p. bytesToHex (key p)) [l..<u]"
    using objectIdAt_image [OF ok] u(3) hi by simp
  ultimately show ?thesis by (simp add: filter_map o_def)
qed

section \<open>Any index that parses\<close>

lemma searchLoop_returns:
  "high \<le> 2147483648 \<Longrightarrow> \<exists>r. searchLoop cmp low high = Some r \<and> (\<forall>p. r = Some p \<longrightarrow> low \<le> p \<and> p < high)"
proof (induction "high - low" arbitrary: low high rule: less_induct)
  case less
  show ?case
  proof (cases "low < high")
    case False
    then show ?thesis by (simp add: searchLoop.simps)
  next
    case True
    define mid where "mid = midpoint low high"
    have m: "low \<le> mid" "mid < high" using midpoint_within [OF True less.prems] by (simp_all add: mid_def)
    consider "cmp mid < 0" | "0 < cmp mid" | "cmp mid = 0" by linarith
    then show ?thesis
    proof cases
      case 1
      have "searchLoop cmp low high = searchLoop cmp (mid + 1) high"
        using True 1 by (subst searchLoop.simps) (simp add: mid_def Let_def)
      moreover have "\<exists>r. searchLoop cmp (mid + 1) high = Some r \<and> (\<forall>p. r = Some p \<longrightarrow> mid + 1 \<le> p \<and> p < high)"
        using m less.prems by (intro less.hyps) auto
      ultimately show ?thesis using m by force
    next
      case 2
      have "searchLoop cmp low high = searchLoop cmp low mid"
        using True 2 by (subst searchLoop.simps) (simp add: mid_def Let_def)
      moreover have "\<exists>r. searchLoop cmp low mid = Some r \<and> (\<forall>p. r = Some p \<longrightarrow> low \<le> p \<and> p < mid)"
        using m less.prems by (intro less.hyps) auto
      ultimately show ?thesis using m by force
    next
      case 3
      then have "searchLoop cmp low high = Some (Some mid)"
        using True by (subst searchLoop.simps) (simp add: mid_def Let_def)
      then show ?thesis using m by auto
    qed
  qed
qed

lemma fanoutLoop_mono:
  assumes "fanoutLoop bs [i..<256] prev = Inr ()" "i \<le> j" "j < 256" "getUint32 bs (8 + j * 4) = Inr v"
  shows "\<exists>last. getUint32 bs (8 + 255 * 4) = Inr last \<and> v \<le> last"
  using assms
proof (induction "256 - i" arbitrary: i j prev v)
  case (Suc m)
  then have lt: "i < 256" by simp
  obtain c where c: "getUint32 bs (8 + i * 4) = Inr c" "prev \<le> c" "fanoutLoop bs [Suc i..<256] c = Inr ()"
    using Suc.prems(1) lt by (auto simp: upt_conv_Cons IDX_HEADER_SIZE_def bindE_Inr_iff split: if_splits)
  show ?case
  proof (cases "i < j")
    case True
    then show ?thesis using Suc.hyps(1) [OF _ c(3), of j v] Suc.hyps(2) Suc.prems lt by simp
  next
    case False
    then have ji: "j = i" "v = c" using Suc.prems c(1) by auto
    show ?thesis
    proof (cases "i = 255")
      case True
      then show ?thesis using ji c by auto
    next
      case n255: False
      then have lt2: "Suc i < 256" using lt by simp
      obtain w where w: "getUint32 bs (8 + Suc i * 4) = Inr w" "c \<le> w"
        using c(3) lt2 by (auto simp: upt_conv_Cons IDX_HEADER_SIZE_def bindE_Inr_iff split: if_splits)
      have "\<exists>last. getUint32 bs (8 + 255 * 4) = Inr last \<and> w \<le> last"
        using Suc.hyps(2) lt2 w(1) by (intro Suc.hyps(1) [OF _ c(3), of "Suc i" w]) simp_all
      then show ?thesis using w ji by auto
    qed
  qed
qed simp

definition idxWellFormed :: "packIndex \<Rightarrow> bool" where
  "idxWellFormed ix \<longleftrightarrow> (let n = idxObjectCount ix; dl = idxDigestLength ix in
     crc32TableOffset ix = 1032 + n * dl \<and> smallOffsetsTableOffset ix = 1032 + n * dl + n * 4 \<and>
     largeOffsetsTableOffset ix = 1032 + n * dl + n * 8 \<and> trailerOffset ix = length (idxBytes ix) - 2 * dl \<and>
     1032 + n * dl + n * 8 + 2 * dl \<le> length (idxBytes ix) \<and>
     (\<forall>b<256. \<exists>v. readFanout ix b = Inr v \<and> v \<le> n))"

lemma parsePackIndex_wellFormed:
  assumes "parsePackIndex bs dl = Inr ix"
  shows "idxWellFormed ix \<and> idxBytes ix = bs \<and> idxDigestLength ix = dl"
proof -
  obtain cnt where p: "1032 \<le> length bs" "validateFanoutMonotonicity bs = Inr ()" "getUint32 bs (8 + 255 * 4) = Inr cnt"
    "1032 + cnt * dl + cnt * 4 + cnt * 4 + 2 * dl \<le> length bs"
    "ix = \<lparr>idxObjectCount = cnt, idxDigestLength = dl, crc32TableOffset = 1032 + cnt * dl,
       smallOffsetsTableOffset = 1032 + cnt * dl + cnt * 4, largeOffsetsTableOffset = 1032 + cnt * dl + cnt * 4 + cnt * 4,
       trailerOffset = length bs - 2 * dl, idxBytes = bs\<rparr>"
    using assms unfolding parsePackIndex_def Let_def
    by (auto simp: bindE_Inr_iff shaSlotOffset_def IDX_SHA_TABLE_OFFSET_def idxTrailerSize_def IDX_HEADER_SIZE_def
        IDX_FANOUT_SIZE_def not_less split: if_splits)
  have "\<exists>v. readFanout ix b = Inr v \<and> v \<le> cnt" if b: "b < 256" for b
  proof -
    have "8 + b * 4 + 4 \<le> length bs" using b p(1) by linarith
    then obtain v where v: "getUint32 bs (8 + b * 4) = Inr v" using getUint32_ok by blast
    then obtain last where "getUint32 bs (8 + 255 * 4) = Inr last" "v \<le> last"
      using fanoutLoop_mono [of bs 0 0 b v] p(2) b v by (auto simp: validateFanoutMonotonicity_def)
    then show ?thesis using v p(3,5) by (simp add: readFanout_def IDX_HEADER_SIZE_def)
  qed
  then show ?thesis using p(4,5) by (simp add: idxWellFormed_def Let_def)
qed

lemma readOffset_no_range:
  assumes "idxWellFormed ix" "p < idxObjectCount ix"
  shows "readOffset ix p \<noteq> Inl RangeError"
proof -
  define n dl where "n = idxObjectCount ix" and "dl = idxDigestLength ix"
  have w: "smallOffsetsTableOffset ix = 1032 + n * dl + n * 4" "largeOffsetsTableOffset ix = 1032 + n * dl + n * 8"
    "trailerOffset ix = length (idxBytes ix) - 2 * dl" "1032 + n * dl + n * 8 + 2 * dl \<le> length (idxBytes ix)"
    using assms(1) by (simp_all add: idxWellFormed_def Let_def n_def dl_def)
  have "smallOffsetsTableOffset ix + p * 4 + 4 \<le> length (idxBytes ix)" using w assms(2) by (simp add: n_def)
  then obtain raw where raw: "getUint32 (idxBytes ix) (smallOffsetsTableOffset ix + p * 4) = Inr raw"
    using getUint32_ok by blast
  let ?at = "largeOffsetsTableOffset ix + nat (js_and (int raw) 2147483647) * 8"
  have g: "\<exists>hi lo. getUint32 (idxBytes ix) ?at = Inr hi \<and> getUint32 (idxBytes ix) (?at + 4) = Inr lo"
    if "\<not> trailerOffset ix < ?at + 8"
  proof -
    have "?at + 8 \<le> length (idxBytes ix)" using that w by linarith
    then show ?thesis using getUint32_ok [of ?at "idxBytes ix"] getUint32_ok [of "?at + 4" "idxBytes ix"] by simp
  qed
  show ?thesis
  proof (cases "js_and (int raw) 2147483648 = 0 \<or> trailerOffset ix < ?at + 8")
    case True
    then show ?thesis using raw by (auto simp: readOffset_def Let_def)
  next
    case False
    then obtain hi lo where "getUint32 (idxBytes ix) ?at = Inr hi" "getUint32 (idxBytes ix) (?at + 4) = Inr lo"
      using g by blast
    then show ?thesis using raw False by (simp add: readOffset_def Let_def)
  qed
qed

lemma searchIndexPosition_returns:
  assumes "idxWellFormed ix" "idxObjectCount ix \<le> 2147483648"
  shows "\<exists>r. searchIndexPosition ix t = Inr (Some r) \<and> (\<forall>p. r = Some p \<longrightarrow> p < idxObjectCount ix)"
proof (cases "length t = idxDigestLength ix")
  case True
  let ?b = "unat (t ! 0)"
  have fan: "\<exists>v. readFanout ix b = Inr v \<and> v \<le> idxObjectCount ix" if "b < 256" for b
    using assms(1) that by (simp add: idxWellFormed_def Let_def)
  have lo: "\<exists>v. (if ?b = 0 then Inr 0 else readFanout ix (?b - 1)) = Inr v"
  proof (cases "?b = 0")
    case False
    have "?b - 1 < 256" using unat_byte_less [of "t ! 0"] by linarith
    then show ?thesis using fan [of "?b - 1"] False by auto
  qed simp
  obtain hi where hi: "readFanout ix ?b = Inr hi" "hi \<le> idxObjectCount ix" using fan [of ?b] unat_byte_less by auto
  obtain lo where lo: "(if ?b = 0 then Inr 0 else readFanout ix (?b - 1)) = Inr lo" using lo by blast
  have "searchIndexPosition ix t = Inr (searchLoop (\<lambda>i. compareShaAtIndex ix i t) lo hi)"
    unfolding searchIndexPosition_def Let_def lo hi(1) using True by simp
  then show ?thesis using searchLoop_returns [of hi "\<lambda>i. compareShaAtIndex ix i t" lo] hi(2) assms(2) by fastforce
qed (simp add: searchIndexPosition_def)

lemma hexLoop_error: "hexLoop i h \<noteq> Inl RangeError"
  by (induction i h rule: hexLoop.induct) (auto simp: bindE_Inl_iff Let_def split: if_splits)

lemma hexToBytes_error: "hexToBytes h \<noteq> Inl RangeError"
  using hexLoop_error by (auto simp: hexToBytes_def)

end
