(* ===== verification/PackReadback.thy ===== *)
theory PackReadback
  imports PackImage
begin

text \<open>
  Writing a pack's index files and reading them back: \<open>serializePackIndex\<close> against \<open>parsePackIndex\<close> and its
  lookups, \<open>serializePackRevIndex\<close> against \<open>revIndexPositionAt\<close>, and \<open>serializePackfile\<close> against
  \<open>parsePackEntryHeader\<close>.
\<close>

section \<open>The index of a pack\<close>

lemma image_of_slabs:
  assumes "slabsOk es" "entryCount es < 2147483648" "length cs = slabDigestLength es" "length tr = slabDigestLength es"
  shows "imageOk (entryCount es) (slabDigestLength es) (sortedKey es) cs tr" "keysSorted (sortedKey es) (entryCount es)"
  using assms length_sortedKey [OF assms(1)] sortedKey_sorted [OF assms(1)]
  by (auto simp: imageOk_def keysSorted_def slabsOk_def)

text \<open>The caller fills the zeroed trailer in place.\<close>

definition fillTrailer :: "bytes \<Rightarrow> bytes \<Rightarrow> bytes" where
  "fillTrailer bs tr = take (length bs - length tr) bs @ tr"

lemma fillTrailer_image:
  "length tr = length z \<Longrightarrow> fillTrailer (idxImage n key crc off cs z) tr = idxImage n key crc off cs tr"
  by (simp add: fillTrailer_def idxImage_def)

lemma written_index:
  assumes "slabsOk es" "entryCount es < 2147483648" "length cs = slabDigestLength es" "length tr = slabDigestLength es"
  obtains bs img where "serializePackIndex (sortPackIndexEntries es) cs = Inr bs" "fillTrailer bs tr = img"
    "img = idxImage (entryCount es) (sortedKey es) (sortedCrc es) (sortedOffset es) cs tr"
    "parsePackIndex img (slabDigestLength es) = Inr (idxOf (entryCount es) (slabDigestLength es) img)"
proof -
  let ?img = "idxImage (entryCount es) (sortedKey es) (sortedCrc es) (sortedOffset es) cs"
  show thesis
  proof (rule that)
    show "serializePackIndex (sortPackIndexEntries es) cs = Inr (?img (replicate (slabDigestLength es) 0))"
      by (rule serializePackIndex_image [OF assms(1-3)])
    show "fillTrailer (?img (replicate (slabDigestLength es) 0)) tr = ?img tr"
      by (rule fillTrailer_image) (simp add: assms(4))
    show "parsePackIndex (?img tr) (slabDigestLength es) = Inr (idxOf (entryCount es) (slabDigestLength es) (?img tr))"
      by (rule parsePackIndex_image [OF image_of_slabs(1) [OF assms]])
  qed simp
qed

definition slabMap :: "packIndexEntries \<Rightarrow> bytes \<Rightarrow> nat option" where
  "slabMap es = map_of (map (\<lambda>k. (slabOid es k, offsets es ! k)) [0..<entryCount es])"

lemma sortedKey_slab:
  assumes "k < entryCount es"
  shows "\<exists>p<entryCount es. sortedKey es p = slabOid es k \<and> sortedOffset es p = offsets es ! k"
proof -
  have "k \<in> set (order (sortPackIndexEntries es))" using assms order_perm(3) [of es] by simp
  then obtain p where "p < entryCount es" "order (sortPackIndexEntries es) ! p = k"
    using order_perm(2) [of es] by (auto simp: in_set_conv_nth)
  then show ?thesis by (auto simp: sortedKey_def sortedOffset_def)
qed

lemma slabMap_sorted:
  assumes "distinct (map (slabOid es) [0..<entryCount es])" "p < entryCount es"
  shows "slabMap es (sortedKey es p) = Some (sortedOffset es p)"
proof -
  let ?k = "order (sortPackIndexEntries es) ! p"
  have "(slabOid es ?k, offsets es ! ?k) \<in> set (map (\<lambda>k. (slabOid es k, offsets es ! k)) [0..<entryCount es])"
    using order_less [OF assms(2)] by auto
  then show ?thesis
    unfolding slabMap_def sortedKey_def sortedOffset_def using assms(1)
    by (intro map_of_is_SomeI) (simp_all add: comp_def)
qed

lemma slabMap_None:
  assumes "\<forall>p<entryCount es. sortedKey es p \<noteq> raw"
  shows "slabMap es raw = None"
  unfolding slabMap_def map_of_eq_None_iff using assms sortedKey_slab [of _ es] by fastforce

text \<open>C2: A written index answers every lookup as the map it was written from: for up to \<open>2^31 - 1\<close> entries with
  distinct ids and offsets below \<open>2^53\<close>, \<open>serializePackIndex\<close> succeeds, its buffer with any trailing checksum
  filled in parses, and \<open>lookupPackIndex\<close> of any id of the index's width returns the offset the entries assign to
  it, or nothing when no entry has that id. The sort, the fanout table, the search loop and the indirection of
  offsets above \<open>2^31\<close> are all on the way.\<close>

theorem packIndex_lookup:
  assumes "slabsOk es" "entryCount es < 2147483648" "length cs = slabDigestLength es" "length tr = slabDigestLength es"
    "distinct (map (slabOid es) [0..<entryCount es])" "\<forall>k<entryCount es. offsets es ! k < 9007199254740992"
    "length raw = slabDigestLength es"
  shows "\<exists>bs ix. serializePackIndex (sortPackIndexEntries es) cs = Inr bs \<and>
    parsePackIndex (fillTrailer bs tr) (slabDigestLength es) = Inr ix \<and>
    lookupPackIndex ix (bytesToHex raw) = Some (Inr (slabMap es raw))"
proof -
  obtain bs img where w: "serializePackIndex (sortPackIndexEntries es) cs = Inr bs" "fillTrailer bs tr = img"
    "img = idxImage (entryCount es) (sortedKey es) (sortedCrc es) (sortedOffset es) cs tr"
    "parsePackIndex img (slabDigestLength es) = Inr (idxOf (entryCount es) (slabDigestLength es) img)"
    using written_index [OF assms(1-4)] .
  have off: "sortedOffset es p < 9007199254740992" if "p < entryCount es" for p
    using assms(6) order_less [OF that] by (simp add: sortedOffset_def)
  obtain r where r: "lookupPackIndex (idxOf (entryCount es) (slabDigestLength es) img) (bytesToHex raw)
      = Some (Inr (map_option (sortedOffset es) r))"
    "case r of Some p \<Rightarrow> p < entryCount es \<and> sortedKey es p = raw | None \<Rightarrow> \<forall>p<entryCount es. sortedKey es p \<noteq> raw"
    unfolding w(3) using lookup_image [OF image_of_slabs(2,1) [OF assms(1-4)] assms(7), of "sortedOffset es"] off by blast
  have "map_option (sortedOffset es) r = slabMap es raw"
    using r(2) slabMap_sorted [OF assms(5)] slabMap_None by (cases r) auto
  then show ?thesis using w r(1) by simp
qed

definition exampleSlabs :: packIndexEntries where
  "exampleSlabs = \<lparr>entryCount = 2, slabDigestLength = 20, oids = replicate 20 2 @ replicate 20 1,
     crcValues = [5, 6], offsets = [12, 5000000000]\<rparr>"

lemma exampleSlabs_ok:
  "slabsOk exampleSlabs" "entryCount exampleSlabs = 2" "slabDigestLength exampleSlabs = 20"
  "slabOid exampleSlabs 0 = replicate 20 2" "slabOid exampleSlabs 1 = replicate 20 1" "offsets exampleSlabs = [12, 5000000000]"
  by (simp_all add: exampleSlabs_def slabsOk_def slabOid_def subarray_def)

theorem packIndex_lookup_witness:
  "\<exists>bs ix. serializePackIndex (sortPackIndexEntries exampleSlabs) (replicate 20 9) = Inr bs \<and>
    parsePackIndex (fillTrailer bs (replicate 20 7)) 20 = Inr ix \<and>
    lookupPackIndex ix (bytesToHex (replicate 20 1)) = Some (Inr (Some 5000000000))"
proof -
  have d: "distinct (map (slabOid exampleSlabs) [0..<entryCount exampleSlabs])"
    using exampleSlabs_ok(4,5) by (simp add: exampleSlabs_ok(2) upt_conv_Cons replicate_eq_replicate numeral_2_eq_2)
  have "slabMap exampleSlabs (replicate 20 1) = Some 5000000000"
    using exampleSlabs_ok(4,5)
    by (simp add: slabMap_def exampleSlabs_ok(2,6) upt_conv_Cons replicate_eq_replicate numeral_2_eq_2)
  moreover have "\<forall>k<entryCount exampleSlabs. offsets exampleSlabs ! k < 9007199254740992"
    by (simp add: exampleSlabs_ok(2,6) less_2_cases_iff)
  ultimately show ?thesis
    using packIndex_lookup [OF exampleSlabs_ok(1) _ _ _ d, of "replicate 20 9" "replicate 20 7" "replicate 20 1"]
    by (simp add: exampleSlabs_ok(2,3))
qed

text \<open>Prefix search on a written index is exact: for every prefix of four or more lowercase hex digits that is no
  longer than an id, \<open>findByPrefix\<close> returns the stored ids that start with it, all of them, in index order.\<close>

theorem packIndex_prefix:
  assumes "slabsOk es" "entryCount es < 2147483648" "length cs = slabDigestLength es" "length tr = slabDigestLength es"
    "4 \<le> length prefix" "length prefix \<le> 2 * slabDigestLength es" "list_all isHexDigitCodeUnit prefix"
  shows "\<exists>bs ix. serializePackIndex (sortPackIndexEntries es) cs = Inr bs \<and>
    parsePackIndex (fillTrailer bs tr) (slabDigestLength es) = Inr ix \<and>
    mset (allObjectIds ix) = mset (map (\<lambda>k. bytesToHex (slabOid es k)) [0..<entryCount es]) \<and>
    findByPrefix ix prefix = Some (Inr (filter (\<lambda>h. take (length prefix) h = prefix) (allObjectIds ix)))"
proof -
  obtain bs img where w: "serializePackIndex (sortPackIndexEntries es) cs = Inr bs" "fillTrailer bs tr = img"
    "img = idxImage (entryCount es) (sortedKey es) (sortedCrc es) (sortedOffset es) cs tr"
    "parsePackIndex img (slabDigestLength es) = Inr (idxOf (entryCount es) (slabDigestLength es) img)"
    using written_index [OF assms(1-4)] .
  let ?ix = "idxOf (entryCount es) (slabDigestLength es) img"
  have all: "allObjectIds ?ix = map (\<lambda>p. bytesToHex (sortedKey es p)) [0..<entryCount es]"
    using objectIdAt_image [OF image_of_slabs(1) [OF assms(1-4)]] w(3) by (simp add: allObjectIds_def idxOf_def)
  also have "\<dots> = map (\<lambda>k. bytesToHex (slabOid es k)) (order (sortPackIndexEntries es))"
    using order_perm(2) [of es] by (intro nth_equalityI) (simp_all add: sortedKey_def)
  finally have "mset (allObjectIds ?ix) = mset (map (\<lambda>k. bytesToHex (slabOid es k)) [0..<entryCount es])"
    using order_perm(1) [of es] by simp
  moreover have "findByPrefix ?ix prefix = Some (Inr (filter (\<lambda>h. take (length prefix) h = prefix) (allObjectIds ?ix)))"
    unfolding all unfolding w(3) by (rule findByPrefix_image [OF image_of_slabs(2,1) [OF assms(1-4)] assms(5-7)])
  ultimately show ?thesis using w by blast
qed

theorem packIndex_prefix_witness:
  "\<exists>bs ix. serializePackIndex (sortPackIndexEntries exampleSlabs) (replicate 20 9) = Inr bs \<and>
    parsePackIndex (fillTrailer bs (replicate 20 7)) (slabDigestLength exampleSlabs) = Inr ix \<and>
    mset (allObjectIds ix) = mset (map (\<lambda>k. bytesToHex (slabOid exampleSlabs k)) [0..<entryCount exampleSlabs]) \<and>
    findByPrefix ix (jslit ''0101'') = Some (Inr (filter (\<lambda>h. take (length (jslit ''0101'')) h = jslit ''0101'') (allObjectIds ix)))"
  by (rule packIndex_prefix) (simp_all add: exampleSlabs_ok jslit_def isHexDigitCodeUnit_def)

text \<open>C33: Reading an index never runs off its buffer or hangs, however the file was damaged: \<open>parsePackIndex\<close>
  never raises \<open>RangeError\<close>, and on every file below \<open>28 * 2^31\<close> bytes that it accepts, \<open>lookupPackIndex\<close>
  of any string returns, with an offset, with nothing or with a reported error, and never with a
  \<open>RangeError\<close>.\<close>

theorem packIndex_reads_in_bounds:
  "parsePackIndex bs dl \<noteq> Inl RangeError \<and>
   (parsePackIndex bs dl = Inr ix \<and> (dl = 20 \<or> dl = 32) \<and> length bs < 60129542144 \<longrightarrow>
     (\<exists>r. lookupPackIndex ix h = Some r \<and> r \<noteq> Inl RangeError))"
proof (intro conjI impI)
  show "parsePackIndex bs dl \<noteq> Inl RangeError"
  proof (cases "length bs < 1032")
    case False
    have get: "\<exists>v. getUint32 bs at = Inr v" if "at + 4 \<le> 1032" for at
      using that False by (intro getUint32_ok) linarith
    have "fanoutLoop bs is prev \<noteq> Inl RangeError" if "set is \<subseteq> {0..<256}" for "is" prev
      using that
    proof (induction "is" arbitrary: prev)
      case (Cons i "is")
      then have "8 + i * 4 + 4 \<le> 1032" by auto
      then obtain v where "getUint32 bs (8 + i * 4) = Inr v" using get by blast
      then show ?case using Cons by (simp add: IDX_HEADER_SIZE_def)
    qed simp
    then have "validateFanoutMonotonicity bs \<noteq> Inl RangeError" by (simp add: validateFanoutMonotonicity_def)
    moreover obtain a b c where "getUint32 bs 0 = Inr a" "getUint32 bs 4 = Inr b" "getUint32 bs 1028 = Inr c"
      using get [of 0] get [of 4] get [of 1028] by auto
    ultimately show ?thesis
      using False by (simp add: parsePackIndex_def IDX_HEADER_SIZE_def bindE_Inl_iff Let_def)
  qed (simp add: parsePackIndex_def IDX_HEADER_SIZE_def IDX_FANOUT_SIZE_def)
next
  assume a: "parsePackIndex bs dl = Inr ix \<and> (dl = 20 \<or> dl = 32) \<and> length bs < 60129542144"
  then have w: "idxWellFormed ix" "idxBytes ix = bs" "idxDigestLength ix = dl" using parsePackIndex_wellFormed by auto
  then have "idxObjectCount ix * dl + idxObjectCount ix * 8 \<le> length bs" by (simp add: idxWellFormed_def Let_def)
  then have n: "idxObjectCount ix \<le> 2147483648" using a by auto
  show "\<exists>r. lookupPackIndex ix h = Some r \<and> r \<noteq> Inl RangeError"
  proof (cases "hexToBytes h")
    case (Inl e)
    then show ?thesis using hexToBytes_error [of h] by (auto simp: lookupPackIndex_def liftLoop_def)
  next
    case (Inr t)
    obtain r where r: "searchIndexPosition ix t = Inr (Some r)" "\<And>p. r = Some p \<Longrightarrow> p < idxObjectCount ix"
      using searchIndexPosition_returns [OF w(1) n] by blast
    then show ?thesis
      using Inr readOffset_no_range [OF w(1)]
      by (cases r) (auto simp: lookupPackIndex_def liftLoop_def bindE_Inl_iff)
  qed
qed

theorem packIndex_reads_in_bounds_witness:
  "\<exists>bs ix. parsePackIndex bs 20 = Inr ix \<and> length bs < 60129542144 \<and>
    (\<exists>r. lookupPackIndex ix (jslit ''zz'') = Some r \<and> r \<noteq> Inl RangeError)"
proof -
  let ?cs = "replicate 20 9 :: bytes"
  have ok: "imageOk 2 20 (sortedKey exampleSlabs) ?cs ?cs"
    using image_of_slabs(1) [OF exampleSlabs_ok(1), of ?cs ?cs] by (simp add: exampleSlabs_ok(2,3))
  let ?img = "idxImage 2 (sortedKey exampleSlabs) (sortedCrc exampleSlabs) (sortedOffset exampleSlabs) ?cs ?cs"
  have p: "parsePackIndex ?img 20 = Inr (idxOf 2 20 ?img)" by (rule parsePackIndex_image [OF ok])
  have "length ?img < 60129542144"
    using length_idxImage [OF ok] largeRank_le [of "sortedOffset exampleSlabs" 2] by simp
  then show ?thesis using packIndex_reads_in_bounds [of ?img 20 "idxOf 2 20 ?img" "jslit ''zz''"] p by blast
qed

section \<open>The reverse index\<close>

definition revImage :: "nat \<Rightarrow> nat list \<Rightarrow> bytes \<Rightarrow> bytes \<Rightarrow> bytes" where
  "revImage hashId body cs tr =
     (u32_bytes REV_MAGIC @ u32_bytes 1 @ u32_bytes hashId) @
     concat (map (\<lambda>p. u32_bytes (body ! p)) [0..<length body]) @ cs @ tr"

definition offsetOrder :: "packIndexEntries \<Rightarrow> nat list" where
  "offsetOrder es = jsSort (\<lambda>a b. int (sortedOffset es a) - int (sortedOffset es b)) [0..<entryCount es]"

lemma jsSort_cong:
  assumes "\<And>x y. x \<in> set xs \<Longrightarrow> y \<in> set xs \<Longrightarrow> f x y = g x y"
  shows "jsSort f xs = jsSort g xs"
  using assms
proof (induction xs)
  case (Cons x xs)
  then have "jsSort f xs = jsSort g xs" by simp
  then show ?case
    using Cons.prems jsInsert_cong [of "jsSort g xs" f x g] set_jsSort [of g xs] by (simp add: jsSort_def)
qed (simp add: jsSort_def)

lemma packPositions_eq:
  assumes "slabsOk es"
  shows "packPositionsByOffset (sortPackIndexEntries es) = offsetOrder es"
proof -
  have sl: "slabs (sortPackIndexEntries es) = es" by (simp add: sortPackIndexEntries_def)
  have lt: "order (sortPackIndexEntries es) ! p < length (offsets es)" if "p < entryCount es" for p
    using order_less [OF that] assms by (simp add: slabsOk_def)
  show ?thesis
    unfolding packPositionsByOffset_def offsetOrder_def Let_def sl
    by (rule jsSort_cong) (simp add: lt sortedOffset_def)
qed

lemma offsetOrder_perm:
  "length (offsetOrder es) = entryCount es" "set (offsetOrder es) = {0..<entryCount es}"
  "mset (offsetOrder es) = mset [0..<entryCount es]"
  by (simp_all add: offsetOrder_def length_jsSort set_jsSort mset_jsSort)

lemma offsetOrder_sorted:
  assumes "slabsOk es"
  shows "map (sortedOffset es) (offsetOrder es) = sort (take (entryCount es) (offsets es))"
proof (rule properties_for_sort [symmetric])
  have "consistent (\<lambda>a b. int (sortedOffset es a) - int (sortedOffset es b)) (set [0..<entryCount es])"
    by (auto simp: consistent_def)
  then have "sorted_wrt (\<lambda>a b. int (sortedOffset es a) - int (sortedOffset es b) \<le> 0) (offsetOrder es)"
    unfolding offsetOrder_def by (rule sorted_jsSort)
  then show "sorted (map (sortedOffset es) (offsetOrder es))" by (simp add: sorted_wrt_map)
  have "mset (map (sortedOffset es) (offsetOrder es)) = mset (map (sortedOffset es) [0..<entryCount es])"
    by (simp add: offsetOrder_perm)
  also have "map (sortedOffset es) [0..<entryCount es] = map ((!) (offsets es)) (order (sortPackIndexEntries es))"
    using order_perm(2) [of es] by (intro nth_equalityI) (simp_all add: sortedOffset_def)
  also have "mset (map ((!) (offsets es)) (order (sortPackIndexEntries es))) = mset (map ((!) (offsets es)) [0..<entryCount es])"
    using order_perm(1) [of es] by simp
  also have "map ((!) (offsets es)) [0..<entryCount es] = take (entryCount es) (offsets es)"
    using assms by (intro nth_equalityI) (simp_all add: slabsOk_def)
  finally show "mset (map (sortedOffset es) (offsetOrder es)) = mset (take (entryCount es) (offsets es))" .
qed

lemma serializeRev_image:
  assumes ok: "slabsOk es" and cs: "length cs = slabDigestLength es"
  shows "serializePackRevIndex (sortPackIndexEntries es) cs
    = Inr (revImage (if slabDigestLength es = 32 then 2 else 1) (offsetOrder es) cs (replicate (slabDigestLength es) 0))"
proof -
  define spi n dl where "spi = sortPackIndexEntries es" and "n = entryCount es" and "dl = slabDigestLength es"
  define hid :: nat where "hid = (if dl = 32 then 2 else 1)"
  have sl: "slabs spi = es" by (simp add: spi_def sortPackIndexEntries_def)
  have gate: "assertValidRevInput spi dl = Inr ()"
    using ok order_perm(2) [of es]
    by (auto simp: assertValidRevInput_def assertValidSortedPackIndex_def spi_def sortPackIndexEntries_def slabsOk_def dl_def)
  have body: "packPositionsByOffset spi = offsetOrder es" "length (offsetOrder es) = n"
    using packPositions_eq [OF ok] by (simp_all add: spi_def n_def offsetOrder_perm)
  let ?z = "\<lambda>k. replicate k (0 :: byte)"
  have zero: "?z (12 + 4 * n + 2 * dl) = ?z 4 @ ?z 4 @ ?z 4 @ ?z (n * 4) @ ?z dl @ ?z dl"
    by (simp add: replicate_add [symmetric])
  have s1: "setUint32 (?z (12 + 4 * n + 2 * dl)) 0 REV_MAGIC
      = Inr (u32_bytes REV_MAGIC @ ?z 4 @ ?z 4 @ ?z (n * 4) @ ?z dl @ ?z dl)"
    unfolding zero setUint32_def
    using setBytes_zeros [of 0 "[]" "?z 4" "u32_bytes REV_MAGIC" "?z 4 @ ?z 4 @ ?z (n * 4) @ ?z dl @ ?z dl"] by simp
  have s2: "setUint32 (u32_bytes REV_MAGIC @ ?z 4 @ ?z 4 @ ?z (n * 4) @ ?z dl @ ?z dl) 4 1
      = Inr (u32_bytes REV_MAGIC @ u32_bytes 1 @ ?z 4 @ ?z (n * 4) @ ?z dl @ ?z dl)"
    using setBytes_zeros [of 4 "u32_bytes REV_MAGIC" "?z 4" "u32_bytes 1" "?z 4 @ ?z (n * 4) @ ?z dl @ ?z dl"]
    by (simp add: setUint32_def)
  let ?h = "u32_bytes REV_MAGIC @ u32_bytes 1 @ u32_bytes hid"
  have s3: "setUint32 (u32_bytes REV_MAGIC @ u32_bytes 1 @ ?z 4 @ ?z (n * 4) @ ?z dl @ ?z dl) 8 hid
      = Inr (?h @ ?z (n * 4) @ ?z dl @ ?z dl)"
    using setBytes_zeros [of 8 "u32_bytes REV_MAGIC @ u32_bytes 1" "?z 4" "u32_bytes hid" "?z (n * 4) @ ?z dl @ ?z dl"]
    by (simp add: setUint32_def)
  let ?t = "concat (map (\<lambda>p. u32_bytes (offsetOrder es ! p)) [0..<n])"
  have s4: "foldE (\<lambda>p b. setUint32 b (12 + p * 4) (offsetOrder es ! p)) [0..<n] (?h @ ?z (n * 4) @ ?z dl @ ?z dl)
      = Inr (?h @ ?t @ ?z dl @ ?z dl)"
    by (rule foldE_setUint32) simp_all
  have "12 + 4 * n = length (?h @ ?t)" using length_concat_width [of n "\<lambda>p. u32_bytes (offsetOrder es ! p)" 4] by simp
  then have s5: "setBytes (?h @ ?t @ ?z dl @ ?z dl) cs (12 + 4 * n) = Inr (?h @ ?t @ cs @ ?z dl)"
    using setBytes_zeros [of "12 + 4 * n" "?h @ ?t" "?z dl" cs "?z dl"] cs by (simp add: dl_def)
  show ?thesis
    unfolding serializePackRevIndex_def Let_def cs dl_def [symmetric] spi_def [symmetric] gate bindE_simps sl
      n_def [symmetric] REV_HEADER_SIZE_def hid_def [symmetric] body s1 s2 s3 s4 s5
    by (simp add: revImage_def body)
qed

lemma parseRev_image:
  assumes "length body = n" "length cs = dl" "length tr = dl" "hashId = 1 \<or> hashId = 2"
  shows "parsePackRevIndex (revImage hashId body cs tr) dl n
    = Inr \<lparr>revHashId = hashId, revDigestLength = dl, revObjectCount = n, revPackChecksum = cs, revBytes = revImage hashId body cs tr\<rparr>"
proof -
  let ?img = "revImage hashId body cs tr"
  have t: "length (concat (map (\<lambda>p. u32_bytes (body ! p)) [0..<n])) = n * 4" by (rule length_concat_width) simp
  then have l: "length ?img = 12 + 4 * n + 2 * dl" using assms by (simp add: revImage_def)
  have g: "getUint32 ?img 0 = Inr REV_MAGIC" "getUint32 ?img 4 = Inr 1" "getUint32 ?img 8 = Inr hashId"
    using getUint32_u32 [of 0 "[]" REV_MAGIC] getUint32_u32 [of 4 "u32_bytes REV_MAGIC" 1]
      getUint32_u32 [of 8 "u32_bytes REV_MAGIC @ u32_bytes 1" hashId] assms(4)
    by (auto simp: revImage_def REV_MAGIC_def)
  let ?pre = "(u32_bytes REV_MAGIC @ u32_bytes 1 @ u32_bytes hashId) @ concat (map (\<lambda>p. u32_bytes (body ! p)) [0..<n])"
  have "subarray (?pre @ cs @ tr) (12 + 4 * n) (12 + 4 * n + dl) = cs"
    by (rule subarray_append_same) (use t assms in simp_all)
  then have "subarray ?img (12 + 4 * n) (12 + 4 * n + dl) = cs" using assms(1) by (simp add: revImage_def)
  then show ?thesis
    unfolding parsePackRevIndex_def g bindE_simps Let_def using l assms(4) by (simp add: REV_HEADER_SIZE_def)
qed

lemma revPosition_image:
  assumes "p < length body" "body ! p < 4294967296" "revBytes ri = revImage hashId body cs tr" "revObjectCount ri = length body"
  shows "revIndexPositionAt ri p = Inr (body ! p)"
  using assms unfolding revIndexPositionAt_def revImage_def REV_HEADER_SIZE_def
  by (simp only:) (subst getUint32_table, simp_all)

text \<open>C32: The reverse index walks the pack in offset order: written from the same entries as the index, with the
  trailers of both filled in, position \<open>p\<close> of the pack resolved through \<open>revIndexPositionAt\<close> and the index
  is the \<open>p\<close>-th smallest offset of the entries, for every \<open>p\<close>, so the two artefacts agree on the pack.\<close>

theorem revIndex_walks_offsets:
  assumes "slabsOk es" "entryCount es < 2147483648" "length cs = slabDigestLength es" "length tr = slabDigestLength es"
    "length tr' = slabDigestLength es" "\<forall>k<entryCount es. offsets es ! k < 9007199254740992"
  shows "\<exists>bs rs ix ri. serializePackIndex (sortPackIndexEntries es) cs = Inr bs \<and>
    serializePackRevIndex (sortPackIndexEntries es) cs = Inr rs \<and>
    parsePackIndex (fillTrailer bs tr) (slabDigestLength es) = Inr ix \<and>
    parsePackRevIndex (fillTrailer rs tr') (slabDigestLength es) (entryCount es) = Inr ri \<and> revPackChecksum ri = cs \<and>
    map (offsetAtPackPosition ix ri) [0..<entryCount es] = map (\<lambda>off. Inr (Some off)) (sort (take (entryCount es) (offsets es)))"
proof -
  obtain bs img where w: "serializePackIndex (sortPackIndexEntries es) cs = Inr bs" "fillTrailer bs tr = img"
    "img = idxImage (entryCount es) (sortedKey es) (sortedCrc es) (sortedOffset es) cs tr"
    "parsePackIndex img (slabDigestLength es) = Inr (idxOf (entryCount es) (slabDigestLength es) img)"
    using written_index [OF assms(1-4)] .
  define hid :: nat where "hid = (if slabDigestLength es = 32 then 2 else 1)"
  let ?rimg = "revImage hid (offsetOrder es) cs tr'"
  have fill: "fillTrailer (revImage hid (offsetOrder es) cs (replicate (slabDigestLength es) 0)) tr' = ?rimg"
    using assms(5) by (simp add: fillTrailer_def revImage_def)
  let ?ri = "\<lparr>revHashId = hid, revDigestLength = slabDigestLength es, revObjectCount = entryCount es,
    revPackChecksum = cs, revBytes = ?rimg\<rparr>"
  have rp: "parsePackRevIndex ?rimg (slabDigestLength es) (entryCount es) = Inr ?ri"
    using assms(3,5) by (intro parseRev_image) (simp_all add: offsetOrder_perm hid_def)
  let ?ix = "idxOf (entryCount es) (slabDigestLength es) img"
  have "offsetAtPackPosition ?ix ?ri p = Inr (Some (sortedOffset es (offsetOrder es ! p)))" if p: "p < entryCount es" for p
  proof -
    have q: "offsetOrder es ! p < entryCount es" using offsetOrder_perm(1,2) [of es] p nth_mem by fastforce
    then have "sortedOffset es (offsetOrder es ! p) < 9007199254740992"
      using assms(6) order_less by (simp add: sortedOffset_def)
    then have "readOffset ?ix (offsetOrder es ! p) = Inr (sortedOffset es (offsetOrder es ! p))"
      unfolding w(3) by (rule readOffset_image [OF image_of_slabs(1) [OF assms(1-4)] q])
    moreover have "revIndexPositionAt ?ri p = Inr (offsetOrder es ! p)"
      using p q assms(2) by (intro revPosition_image) (simp_all add: offsetOrder_perm)
    ultimately show ?thesis using q by (simp add: offsetAtPackPosition_def idxOf_def)
  qed
  then have "map (offsetAtPackPosition ?ix ?ri) [0..<entryCount es]
      = map (\<lambda>off. Inr (Some off)) (map (sortedOffset es) (offsetOrder es))"
    by (intro nth_equalityI) (simp_all add: offsetOrder_perm)
  then show ?thesis
    using w serializeRev_image [OF assms(1,3)] fill rp unfolding offsetOrder_sorted [OF assms(1)] hid_def by fastforce
qed

theorem revIndex_walks_offsets_witness:
  "\<exists>bs rs ix ri. serializePackIndex (sortPackIndexEntries exampleSlabs) (replicate 20 9) = Inr bs \<and>
    serializePackRevIndex (sortPackIndexEntries exampleSlabs) (replicate 20 9) = Inr rs \<and>
    parsePackIndex (fillTrailer bs (replicate 20 7)) (slabDigestLength exampleSlabs) = Inr ix \<and>
    parsePackRevIndex (fillTrailer rs (replicate 20 8)) (slabDigestLength exampleSlabs) (entryCount exampleSlabs) = Inr ri \<and>
    revPackChecksum ri = replicate 20 9 \<and>
    map (offsetAtPackPosition ix ri) [0..<entryCount exampleSlabs]
      = map (\<lambda>off. Inr (Some off)) (sort (take (entryCount exampleSlabs) (offsets exampleSlabs)))"
  by (rule revIndex_walks_offsets) (auto simp: exampleSlabs_ok less_2_cases_iff)

section \<open>The packfile\<close>

definition validBase :: "nat \<Rightarrow> packWriterEntry \<Rightarrow> bool" where
  "validBase i e \<longleftrightarrow> (case e of PackWriterDeltaEntry _ _ b \<Rightarrow> 0 \<le> b \<and> nat b < i | PackWriterBaseEntry _ _ _ \<Rightarrow> True)"

definition laidOut :: "packWriterEntry list \<Rightarrow> nat \<Rightarrow> nat \<Rightarrow> bytes list \<Rightarrow> packEntryMeta list \<Rightarrow> bool" where
  "laidOut es i cur bss metas \<longleftrightarrow> length bss = length es \<and> length metas = i + length es \<and>
     (\<forall>j<length es. let off = cur + length (concat (take j bss)) in
        metas ! (i + j) = \<lparr>metaCrc32 = crc32 (bss ! j), metaOffset = off\<rparr> \<and>
        bss ! j = encodeEntryBytes (es ! j) (map metaOffset metas) off \<and> validBase (i + j) (es ! j))"

lemma encodeEntryBytes_prefix:
  assumes "validBase i e" "i \<le> length offs"
  shows "encodeEntryBytes e (offs @ rest) cur = encodeEntryBytes e offs cur"
  using assms by (cases e) (auto simp: validBase_def nth_append)

lemma packfileLoop_laidOut:
  "packfileLoop es i chunks metas offs cur = Inr (chunks', metas') \<Longrightarrow> length metas = i \<Longrightarrow> offs = map metaOffset metas \<Longrightarrow>
    \<exists>bss rest. chunks' = chunks @ bss \<and> metas' = metas @ rest \<and> laidOut es i cur bss metas'"
proof (induction es arbitrary: i chunks metas offs cur)
  case Nil
  then show ?case by (auto simp: laidOut_def)
next
  case (Cons e es)
  let ?b = "encodeEntryBytes e offs cur"
  let ?m = "\<lparr>metaCrc32 = crc32 ?b, metaOffset = cur\<rparr>"
  have v: "validBase i e" using Cons.prems(1)
    by (cases e) (auto simp: validBase_def assertValidBaseIndex_def bindE_Inr_iff split: if_splits)
  have loop: "packfileLoop es (i + 1) (chunks @ [?b]) (metas @ [?m]) (offs @ [cur]) (cur + length ?b) = Inr (chunks', metas')"
    using Cons.prems(1) by (simp add: bindE_Inr_iff Let_def)
  obtain bss rest where r: "chunks' = (chunks @ [?b]) @ bss" "metas' = (metas @ [?m]) @ rest"
    "laidOut es (i + 1) (cur + length ?b) bss metas'"
    using Cons.IH [OF loop] Cons.prems(2,3) by auto
  have b: "encodeEntryBytes e (map metaOffset metas') cur = ?b"
    using encodeEntryBytes_prefix [OF v, of offs "cur # map metaOffset rest" cur] r(2) Cons.prems(2,3) by simp
  have "laidOut (e # es) i cur (?b # bss) metas'"
    unfolding laidOut_def Let_def
  proof (intro conjI allI impI)
    show "length (?b # bss) = length (e # es)" "length metas' = i + length (e # es)" using r(3) by (simp_all add: laidOut_def)
    fix j
    assume j: "j < length (e # es)"
    show "metas' ! (i + j) = \<lparr>metaCrc32 = crc32 ((?b # bss) ! j), metaOffset = cur + length (concat (take j (?b # bss)))\<rparr>"
      "(?b # bss) ! j = encodeEntryBytes ((e # es) ! j) (map metaOffset metas') (cur + length (concat (take j (?b # bss))))"
      "validBase (i + j) ((e # es) ! j)"
      using r(2,3) j b v Cons.prems(2) by (cases j; force simp: laidOut_def Let_def nth_append add.assoc)+
  qed
  then show ?case using r(1,2) by (intro exI [of _ "?b # bss"]) auto
qed

lemma concat_take_nth:
  assumes "j < length bss"
  shows "concat bss = concat (take j bss) @ bss ! j @ concat (drop (Suc j) bss)"
proof -
  have "bss = take j bss @ bss ! j # drop (Suc j) bss" using assms by (simp add: Cons_nth_drop_Suc)
  then show ?thesis by (metis concat.simps(2) concat_append)
qed

definition entryReadsBack :: "bytes \<Rightarrow> nat list \<Rightarrow> hashConfig \<Rightarrow> nat \<Rightarrow> packWriterEntry \<Rightarrow> bool" where
  "entryReadsBack dat offs hash i e \<longleftrightarrow>
     (case e of
        PackWriterBaseEntry type sz d \<Rightarrow> \<exists>pos.
          parsePackEntryHeader dat (offs ! i) hash = Inr (BasePackEntryHeader (PACK_ENTRY_TYPE type) (int sz) pos) \<and>
          subarray dat pos (pos + length d) = d
      | PackWriterDeltaEntry sz d b \<Rightarrow> \<exists>pos. 0 \<le> b \<and> nat b < i \<and>
          parsePackEntryHeader dat (offs ! i) hash = Inr (OfsPackEntryHeader (int sz) pos (offs ! i - offs ! nat b)) \<and>
          subarray dat pos (pos + length d) = d)"

fun entryFits :: "packWriterEntry \<Rightarrow> bool" where
  "entryFits (PackWriterBaseEntry type sz d) \<longleftrightarrow> packEntryTypeToObjectType type \<noteq> None \<and> sz < 2147483648"
| "entryFits (PackWriterDeltaEntry sz d b) \<longleftrightarrow> sz < 2147483648"

lemma encoded_entry_reads_back:
  assumes "entryFits e" "validBase i e" "offs ! i = length pre" "length pre < 4294967296"
  shows "entryReadsBack (pre @ encodeEntryBytes e offs (length pre) @ post) offs hash i e"
proof (cases e)
  case (PackWriterBaseEntry type sz d)
  let ?h = "encodePackEntryHeader type sz"
  have "subarray ((pre @ ?h) @ d @ post) (length pre + length ?h) (length pre + length ?h + length d) = d"
    by (rule subarray_append_same) simp_all
  then show ?thesis
    using assms PackWriterBaseEntry parsePackEntryHeader_encode [of sz 0 "replicate (digestLength hash) 0" hash type pre "d @ post"]
    by (simp add: entryReadsBack_def)
next
  case (PackWriterDeltaEntry sz d b)
  let ?h = "encodePackEntryHeader OFS_DELTA sz @ encodeOfsDistance (length pre - offs ! nat b)"
  have "subarray ((pre @ ?h) @ d @ post) (length pre + length ?h) (length pre + length ?h + length d) = d"
    by (rule subarray_append_same) simp_all
  then show ?thesis
    using assms PackWriterDeltaEntry
      parsePackEntryHeader_encode [of sz "length pre - offs ! nat b" "replicate (digestLength hash) 0" hash BLOB pre "d @ post"]
    by (simp add: entryReadsBack_def validBase_def)
qed

text \<open>C17: A packfile reads back: when \<open>serializePackfile\<close> accepts entries with sizes below \<open>2^31\<close> and the pack stays
  below 4 GiB, the header parses to version 2 and the entry count, and for every entry, at the offset its metadata
  records, \<open>parsePackEntryHeader\<close> returns its type and size (for a delta, the distance to the offset recorded for
  its base, an earlier entry), the data offset points at the entry's compressed bytes, and the recorded CRC is
  that of the bytes up to the next entry.\<close>

theorem packfile_reads_back:
  assumes "serializePackfile es = Inr res" "list_all entryFits es" "length (packData res) < 4294967296" "length es < 4294967296"
    "i < length es"
  shows "parsePackHeader (packData res) = Inr \<lparr>packVersion = 2, objectCount = length es\<rparr> \<and>
    length (packMetas res) = length es \<and>
    entryReadsBack (packData res) (map metaOffset (packMetas res)) hash i (es ! i) \<and>
    (let start = metaOffset (packMetas res ! i);
         upto = (if i + 1 < length es then metaOffset (packMetas res ! (i + 1)) else length (packData res))
     in metaCrc32 (packMetas res ! i) = crc32 (subarray (packData res) start upto))"
proof -
  let ?h = "serializePackHeader 2 (length es)"
  have h12: "length ?h = 12" by (simp add: serializePackHeader_eq)
  obtain chunks where c: "packfileLoop es 0 [?h] [] [] 12 = Inr (chunks, packMetas res)" "packData res = concat chunks"
    using assms(1) h12 by (auto simp: serializePackfile_def GENERATED_PACK_VERSION_def bindE_Inr_iff Let_def)
  obtain bss rest where b: "chunks = [?h] @ bss" "packMetas res = [] @ rest" "laidOut es 0 12 bss (packMetas res)"
    using packfileLoop_laidOut [OF c(1)] by auto
  have len: "length bss = length es" "length (packMetas res) = length es" using b(3) by (simp_all add: laidOut_def)
  have at: "packMetas res ! j = \<lparr>metaCrc32 = crc32 (bss ! j), metaOffset = 12 + length (concat (take j bss))\<rparr>"
    "bss ! j = encodeEntryBytes (es ! j) (map metaOffset (packMetas res)) (12 + length (concat (take j bss)))"
    "validBase j (es ! j)" if "j < length es" for j
    using b(3) that by (auto simp: laidOut_def Let_def)
  let ?pre = "?h @ concat (take i bss)" and ?post = "concat (drop (Suc i) bss)"
  have data: "packData res = ?pre @ bss ! i @ ?post"
    using concat_take_nth [of i bss] len(1) assms(5) c(2) b(1) by simp
  have pre: "length ?pre = 12 + length (concat (take i bss))" using h12 by simp
  have off: "map metaOffset (packMetas res) ! i = length ?pre" using at(1) [OF assms(5)] len assms(5) pre by simp
  have lt: "length ?pre < 4294967296" using assms(3) unfolding data by simp
  have "entryFits (es ! i)" using assms(2,5) by (simp add: list_all_length)
  then have "entryReadsBack (packData res) (map metaOffset (packMetas res)) hash i (es ! i)"
    using encoded_entry_reads_back [OF _ at(3) [OF assms(5)] off lt, of ?post hash] at(2) [OF assms(5)] pre
    unfolding data by (simp only:)
  moreover have "parsePackHeader (packData res) = Inr \<lparr>packVersion = 2, objectCount = length es\<rparr>"
    using parsePackHeader_serialize [of 2 "length es" "concat bss"] assms(4) c(2) b(1) by simp
  moreover have "subarray (packData res) (length ?pre) (length ?pre + length (bss ! i)) = bss ! i"
    unfolding data by (rule subarray_append_same) simp_all
  moreover have "(if i + 1 < length es then metaOffset (packMetas res ! (i + 1)) else length (packData res)) = length ?pre + length (bss ! i)"
  proof (cases "i + 1 < length es")
    case True
    have "take (i + 1) bss = take i bss @ [bss ! i]" using len(1) assms(5) by (simp add: take_Suc_conv_app_nth)
    then show ?thesis using True at(1) [OF True] pre by simp
  next
    case False
    then have "drop (Suc i) bss = []" using len(1) by simp
    then show ?thesis using False unfolding data by simp
  qed
  ultimately show ?thesis using at(1) [OF assms(5)] len(2) pre by (simp add: Let_def)
qed


theorem packfile_reads_back_witness:
  "\<exists>res. serializePackfile [PackWriterBaseEntry BLOB 3 [1, 2], PackWriterDeltaEntry 7 [5] 0] = Inr res \<and>
    entryReadsBack (packData res) (map metaOffset (packMetas res)) SHA1_CONFIG 1 (PackWriterDeltaEntry 7 [5] 0)"
proof -
  let ?es = "[PackWriterBaseEntry BLOB 3 [1, 2], PackWriterDeltaEntry 7 [5] 0]"
  have e: "encodePackEntryHeader BLOB 3 = [51]" "encodePackEntryHeader OFS_DELTA 7 = [103]" "encodeOfsDistance (Suc (Suc (Suc 0))) = [3]"
    by code_simp+
  have "\<exists>res. serializePackfile ?es = Inr res \<and> length (packData res) = 18"
    by (simp add: serializePackfile_def serializePackHeader_eq assertValidBaseIndex_def e Let_def)
  then obtain res where "serializePackfile ?es = Inr res" "length (packData res) = 18" by blast
  then show ?thesis using packfile_reads_back [of ?es res 1 SHA1_CONFIG] by auto
qed

end
