(* ===== verification/Simulation.thy ===== *)
theory Simulation
  imports Main
begin

text \<open>
  Forward simulation between an implementation, whose steps may fail to return, and a specification over an abstract
  state. The pointer-linked cache and the array heap are instances.
\<close>

fun runImpl :: "('op \<Rightarrow> 's \<Rightarrow> ('out \<times> 's) option) \<Rightarrow> 'op list \<Rightarrow> 's \<Rightarrow> ('out list \<times> 's) option" where
  "runImpl impl [] s = Some ([], s)"
| "runImpl impl (op # ops) s =
     (case impl op s of None \<Rightarrow> None
      | Some (out, s') \<Rightarrow> map_option (\<lambda>(outs, t). (out # outs, t)) (runImpl impl ops s'))"

fun runSpec :: "('op \<Rightarrow> 'a \<Rightarrow> 'out \<times> 'a) \<Rightarrow> 'op list \<Rightarrow> 'a \<Rightarrow> 'out list \<times> 'a" where
  "runSpec spec [] a = ([], a)"
| "runSpec spec (op # ops) a =
     (let (out, a') = spec op a; (outs, b) = runSpec spec ops a' in (out # outs, b))"

locale forward_simulation =
  fixes impl :: "'op \<Rightarrow> 's \<Rightarrow> ('out \<times> 's) option"
    and spec :: "'op \<Rightarrow> 'a \<Rightarrow> 'out \<times> 'a"
    and rel :: "'s \<Rightarrow> 'a \<Rightarrow> bool"
  assumes step_sim: "rel s a \<Longrightarrow> \<exists>s'. impl op s = Some (fst (spec op a), s') \<and> rel s' (snd (spec op a))"
begin

lemma run_sim: "rel s a \<Longrightarrow> \<exists>s'. runImpl impl ops s = Some (fst (runSpec spec ops a), s') \<and> rel s' (snd (runSpec spec ops a))"
proof (induction ops arbitrary: s a)
  case (Cons op ops)
  obtain s' where s': "impl op s = Some (fst (spec op a), s')" "rel s' (snd (spec op a))"
    using step_sim [OF Cons.prems] by blast
  obtain t where "runImpl impl ops s' = Some (fst (runSpec spec ops (snd (spec op a))), t)"
    "rel t (snd (runSpec spec ops (snd (spec op a))))"
    using Cons.IH [OF s'(2)] by blast
  then show ?case using s'(1) by (simp add: case_prod_beta Let_def)
qed simp

end

lemma runSpec_invariant:
  assumes "\<And>op a. I a \<Longrightarrow> I (snd (spec op a))"
  shows "I a \<Longrightarrow> I (snd (runSpec spec ops a))"
  by (induction ops arbitrary: a) (simp_all add: case_prod_beta Let_def assms)

end
