(* ===== verification/LruCache.thy ===== *)
theory LruCache
  imports Errors Simulation
begin

text \<open>
  \<open>storage/lru-cache.ts\<close>: the byte-budgeted cache over a doubly linked list of nodes. The nodes live in an explicit
  store, so the aliasing between the key index and the list is kept; the list refines a sequence of entries from the
  most to the least recently used.
\<close>

section \<open>Model\<close>

record 'v node =
  nodeKey :: jsstr
  nodeValue :: 'v
  nodeSize :: int
  nodePrev :: "nat option"
  nodeNext :: "nat option"

text \<open>References are positions in the store; a new node is appended. The index is the \<open>Map\<close> in insertion order.\<close>

record 'v lruCache =
  store :: "'v node list"
  keyIndex :: "(jsstr \<times> nat) list"
  headRef :: "nat option"
  tailRef :: "nat option"
  currentSize :: int

definition createLruCache :: "'v lruCache" where
  "createLruCache = \<lparr>store = [], keyIndex = [], headRef = None, tailRef = None, currentSize = 0\<rparr>"

abbreviation nodeAt :: "'v lruCache \<Rightarrow> nat \<Rightarrow> 'v node" where
  "nodeAt st a \<equiv> store st ! a"

definition updateNode :: "nat \<Rightarrow> ('v node \<Rightarrow> 'v node) \<Rightarrow> 'v lruCache \<Rightarrow> 'v lruCache" where
  "updateNode a f st = st\<lparr>store := (store st)[a := f (nodeAt st a)]\<rparr>"

definition setPrev :: "nat \<Rightarrow> nat option \<Rightarrow> 'v lruCache \<Rightarrow> 'v lruCache" where
  "setPrev a p = updateNode a (\<lambda>n. n\<lparr>nodePrev := p\<rparr>)"

definition setNext :: "nat \<Rightarrow> nat option \<Rightarrow> 'v lruCache \<Rightarrow> 'v lruCache" where
  "setNext a p = updateNode a (\<lambda>n. n\<lparr>nodeNext := p\<rparr>)"

definition removeNode :: "nat \<Rightarrow> 'v lruCache \<Rightarrow> 'v lruCache" where
  "removeNode a st =
     (let st1 = (case nodePrev (nodeAt st a) of
                   Some p \<Rightarrow> setNext p (nodeNext (nodeAt st a)) st
                 | None \<Rightarrow> st\<lparr>headRef := nodeNext (nodeAt st a)\<rparr>);
          st2 = (case nodeNext (nodeAt st1 a) of
                   Some n \<Rightarrow> setPrev n (nodePrev (nodeAt st1 a)) st1
                 | None \<Rightarrow> st1\<lparr>tailRef := nodePrev (nodeAt st1 a)\<rparr>)
      in setNext a None (setPrev a None st2))"

definition addToHead :: "nat \<Rightarrow> 'v lruCache \<Rightarrow> 'v lruCache" where
  "addToHead a st =
     (let st1 = setPrev a None (setNext a (headRef st) st);
          st2 = (case headRef st1 of Some h \<Rightarrow> setPrev h (Some a) st1 | None \<Rightarrow> st1);
          st3 = st2\<lparr>headRef := Some a\<rparr>
      in if tailRef st3 = None then st3\<lparr>tailRef := Some a\<rparr> else st3)"

text \<open>An entry limit of \<^const>\<open>None\<close> is \<open>Number.POSITIVE_INFINITY\<close>.\<close>

definition overBudget :: "int \<Rightarrow> nat option \<Rightarrow> int \<Rightarrow> nat \<Rightarrow> bool" where
  "overBudget maxBytes maxEntries bytes n \<longleftrightarrow> maxBytes < bytes \<or> (case maxEntries of None \<Rightarrow> False | Some m \<Rightarrow> m < n)"

definition mapDelete :: "jsstr \<Rightarrow> (jsstr \<times> nat) list \<Rightarrow> (jsstr \<times> nat) list" where
  "mapDelete k m = filter (\<lambda>e. fst e \<noteq> k) m"

definition evictTail :: "nat \<Rightarrow> 'v lruCache \<Rightarrow> 'v lruCache" where
  "evictTail t st =
     (let st1 = removeNode t st;
          st2 = st1\<lparr>keyIndex := mapDelete (nodeKey (nodeAt st1 t)) (keyIndex st1)\<rparr>
      in st2\<lparr>currentSize := currentSize st2 - nodeSize (nodeAt st2 t)\<rparr>)"

text \<open>On a list whose links were broken the loop need not end: not returning is \<^const>\<open>None\<close>.\<close>

partial_function (option) evict :: "int \<Rightarrow> nat option \<Rightarrow> 'v lruCache \<Rightarrow> 'v lruCache option" where
  "evict maxBytes maxEntries st =
     (if overBudget maxBytes maxEntries (currentSize st) (length (keyIndex st)) then
        (case tailRef st of None \<Rightarrow> Some st | Some t \<Rightarrow> evict maxBytes maxEntries (evictTail t st))
      else Some st)"

definition lruGet :: "jsstr \<Rightarrow> 'v lruCache \<Rightarrow> 'v option \<times> 'v lruCache" where
  "lruGet k st =
     (case map_of (keyIndex st) k of
        None \<Rightarrow> (None, st)
      | Some a \<Rightarrow>
          let st1 = (if Some a \<noteq> headRef st then addToHead a (removeNode a st) else st)
          in (Some (nodeValue (nodeAt st1 a)), st1))"

definition lruKeys :: "'v lruCache \<Rightarrow> jsstr list" where
  "lruKeys st = map fst (keyIndex st)"

definition lruSet ::
    "int \<Rightarrow> nat option \<Rightarrow> jsstr \<Rightarrow> 'v \<Rightarrow> int \<Rightarrow> 'v lruCache \<Rightarrow> ((tsgit_error + bool) \<times> 'v lruCache) option" where
  "lruSet maxBytes maxEntries k v sz st =
     (if sz \<le> 0 then Some (Inl (PlainError (Reason ''byteSize must be positive'' [])), st)
      else if maxBytes < sz then Some (Inr False, st)
      else
        let st1 = (case map_of (keyIndex st) k of
          Some a \<Rightarrow>
            let s1 = st\<lparr>currentSize := currentSize st - nodeSize (nodeAt st a)\<rparr>;
                s2 = updateNode a (\<lambda>n. n\<lparr>nodeSize := sz\<rparr>) (updateNode a (\<lambda>n. n\<lparr>nodeValue := v\<rparr>) s1);
                s3 = s2\<lparr>currentSize := currentSize s2 + sz\<rparr>
            in if Some a \<noteq> headRef s3 then addToHead a (removeNode a s3) else s3
        | None \<Rightarrow>
            let a = length (store st);
                s1 = st\<lparr>store := store st @ [\<lparr>nodeKey = k, nodeValue = v, nodeSize = sz, nodePrev = None, nodeNext = None\<rparr>],
                        keyIndex := keyIndex st @ [(k, a)]\<rparr>;
                s2 = addToHead a s1
            in s2\<lparr>currentSize := currentSize s2 + sz\<rparr>)
        in map_option (Pair (Inr True)) (evict maxBytes maxEntries st1))"

definition lruHas :: "jsstr \<Rightarrow> 'v lruCache \<Rightarrow> bool" where
  "lruHas k st \<longleftrightarrow> map_of (keyIndex st) k \<noteq> None"

definition lruDelete :: "jsstr \<Rightarrow> 'v lruCache \<Rightarrow> bool \<times> 'v lruCache" where
  "lruDelete k st =
     (case map_of (keyIndex st) k of
        None \<Rightarrow> (False, st)
      | Some a \<Rightarrow>
          let s1 = removeNode a st;
              s2 = s1\<lparr>keyIndex := mapDelete k (keyIndex s1)\<rparr>
          in (True, s2\<lparr>currentSize := currentSize s2 - nodeSize (nodeAt s2 a)\<rparr>))"

definition lruClear :: "'v lruCache \<Rightarrow> 'v lruCache" where
  "lruClear st = st\<lparr>keyIndex := [], headRef := None, tailRef := None, currentSize := 0\<rparr>"

section \<open>The specification\<close>

text \<open>Key, value and size of each resident entry, the most recently used first.\<close>

type_synonym 'v lruSpec = "(jsstr \<times> 'v \<times> int) list"

definition totalSize :: "'v lruSpec \<Rightarrow> int" where
  "totalSize xs = sum_list (map (\<lambda>e. snd (snd e)) xs)"

fun dropOld :: "int \<Rightarrow> nat option \<Rightarrow> 'v lruSpec \<Rightarrow> 'v lruSpec" where
  "dropOld maxBytes maxEntries [] = []"
| "dropOld maxBytes maxEntries (e # xs) =
     (if overBudget maxBytes maxEntries (totalSize (e # xs)) (length (e # xs)) then dropOld maxBytes maxEntries xs else e # xs)"

text \<open>The oldest entries go until the rest fits.\<close>

definition specEvict :: "int \<Rightarrow> nat option \<Rightarrow> 'v lruSpec \<Rightarrow> 'v lruSpec" where
  "specEvict maxBytes maxEntries xs = List.rev (dropOld maxBytes maxEntries (List.rev xs))"

definition without :: "jsstr \<Rightarrow> 'v lruSpec \<Rightarrow> 'v lruSpec" where
  "without k xs = filter (\<lambda>e. fst e \<noteq> k) xs"

datatype 'v lruOp = OpGet jsstr | OpSet jsstr 'v int | OpHas jsstr | OpDelete jsstr | OpClear | OpCount
datatype 'v lruOut = OutValue "'v option" | OutStored "tsgit_error + bool" | OutFlag bool | OutUnit | OutNumbers int nat

fun lruStep :: "int \<Rightarrow> nat option \<Rightarrow> 'v lruOp \<Rightarrow> 'v lruCache \<Rightarrow> ('v lruOut \<times> 'v lruCache) option" where
  "lruStep mb me (OpGet k) st = (let (v, st') = lruGet k st in Some (OutValue v, st'))"
| "lruStep mb me (OpSet k v sz) st = map_option (\<lambda>(r, st'). (OutStored r, st')) (lruSet mb me k v sz st)"
| "lruStep mb me (OpHas k) st = Some (OutFlag (lruHas k st), st)"
| "lruStep mb me (OpDelete k) st = (let (b, st') = lruDelete k st in Some (OutFlag b, st'))"
| "lruStep mb me OpClear st = Some (OutUnit, lruClear st)"
| "lruStep mb me OpCount st = Some (OutNumbers (currentSize st) (length (keyIndex st)), st)"

fun specStep :: "int \<Rightarrow> nat option \<Rightarrow> 'v lruOp \<Rightarrow> 'v lruSpec \<Rightarrow> 'v lruOut \<times> 'v lruSpec" where
  "specStep mb me (OpGet k) xs =
     (case map_of xs k of None \<Rightarrow> (OutValue None, xs)
      | Some (v, sz) \<Rightarrow> (OutValue (Some v), (k, v, sz) # without k xs))"
| "specStep mb me (OpSet k v sz) xs =
     (if sz \<le> 0 then (OutStored (Inl (PlainError (Reason ''byteSize must be positive'' []))), xs)
      else if mb < sz then (OutStored (Inr False), xs)
      else (OutStored (Inr True), specEvict mb me ((k, v, sz) # without k xs)))"
| "specStep mb me (OpHas k) xs = (OutFlag (map_of xs k \<noteq> None), xs)"
| "specStep mb me (OpDelete k) xs = (OutFlag (map_of xs k \<noteq> None), without k xs)"
| "specStep mb me OpClear xs = (OutUnit, [])"
| "specStep mb me OpCount xs = (OutNumbers (totalSize xs) (length xs), xs)"

end
