(* ===== verification/LruProofs.thy ===== *)
theory LruProofs
  imports LruCache
begin

text \<open>
  The linked list of the cache refines the list of its entries in order of use: the segments between neighbours, the
  simulation of every operation, and what the list specification guarantees.
\<close>

section \<open>Linked segments\<close>

definition firstOf :: "nat list \<Rightarrow> nat option \<Rightarrow> nat option" where
  "firstOf as n = (case as of [] \<Rightarrow> n | a # _ \<Rightarrow> Some a)"

definition lastOf :: "nat list \<Rightarrow> nat option \<Rightarrow> nat option" where
  "lastOf as p = (if as = [] then p else Some (last as))"

lemma firstOf_simps [simp]: "firstOf [] n = n" "firstOf (a # as) n = Some a"
  by (simp_all add: firstOf_def)

lemma lastOf_simps [simp]: "lastOf [] p = p" "lastOf (a # as) p = lastOf as (Some a)" "lastOf (as @ [a]) p = Some a"
  by (simp_all add: lastOf_def)

lemma firstOf_append: "firstOf (xs @ ys) n = firstOf xs (firstOf ys n)"
  by (cases xs) simp_all

lemma lastOf_append: "lastOf (xs @ ys) p = lastOf ys (lastOf xs p)"
  by (induction xs arbitrary: p) simp_all

text \<open>The nodes of a segment between the neighbours \<open>p\<close> and \<open>n\<close>.\<close>

fun seg :: "'v node list \<Rightarrow> nat option \<Rightarrow> nat list \<Rightarrow> nat option \<Rightarrow> bool" where
  "seg ns p [] n \<longleftrightarrow> True"
| "seg ns p (a # as) n \<longleftrightarrow>
     a < length ns \<and> nodePrev (ns ! a) = p \<and> nodeNext (ns ! a) = firstOf as n \<and> seg ns (Some a) as n"

lemma seg_append: "seg ns p (xs @ ys) n \<longleftrightarrow> seg ns p xs (firstOf ys n) \<and> seg ns (lastOf xs p) ys n"
  by (induction xs arbitrary: p) (auto simp: firstOf_append)

lemma seg_other: "a \<notin> set xs \<Longrightarrow> seg (ns[a := x]) p xs n \<longleftrightarrow> seg ns p xs n"
  by (induction xs arbitrary: p) auto

lemma seg_grow: "seg ns p xs n \<Longrightarrow> seg (ns @ ms) p xs n"
  by (induction xs arbitrary: p) (auto simp: nth_append)

lemma seg_bound: "seg ns p xs n \<Longrightarrow> a \<in> set xs \<Longrightarrow> a < length ns"
  by (induction xs arbitrary: p) auto

definition withPrev :: "nat option \<Rightarrow> nat option \<Rightarrow> 'v node list \<Rightarrow> 'v node list" where
  "withPrev r p ns = (case r of None \<Rightarrow> ns | Some a \<Rightarrow> ns[a := (ns ! a)\<lparr>nodePrev := p\<rparr>])"

definition withNext :: "nat option \<Rightarrow> nat option \<Rightarrow> 'v node list \<Rightarrow> 'v node list" where
  "withNext r n ns = (case r of None \<Rightarrow> ns | Some a \<Rightarrow> ns[a := (ns ! a)\<lparr>nodeNext := n\<rparr>])"

lemma seg_withPrev: "distinct xs \<Longrightarrow> seg ns p xs n \<Longrightarrow> seg (withPrev (firstOf xs None) q ns) q xs n"
  by (cases xs) (auto simp: withPrev_def seg_other)

lemma seg_withNext: "distinct xs \<Longrightarrow> seg ns p xs n \<Longrightarrow> seg (withNext (lastOf xs None) m ns) p xs m"
proof (cases xs rule: rev_cases)
  case (snoc ys b)
  assume "distinct xs" "seg ns p xs n"
  then show ?thesis using snoc by (auto simp: withNext_def seg_append seg_other)
qed (simp add: withNext_def)

lemma seg_withPrev_other: "r = None \<or> the r \<notin> set xs \<Longrightarrow> seg (withPrev r q ns) p xs n = seg ns p xs n"
  by (auto simp: withPrev_def seg_other split: option.split)

lemma seg_withNext_other: "r = None \<or> the r \<notin> set xs \<Longrightarrow> seg (withNext r q ns) p xs n = seg ns p xs n"
  by (auto simp: withNext_def seg_other split: option.split)

lemma length_with [simp]: "length (withPrev r p ns) = length ns" "length (withNext r p ns) = length ns"
  by (simp_all add: withPrev_def withNext_def split: option.split)

lemma nth_with_other:
  "r \<noteq> Some a \<Longrightarrow> withPrev r p ns ! a = ns ! a" "r \<noteq> Some a \<Longrightarrow> withNext r p ns ! a = ns ! a"
  by (cases r; simp add: withPrev_def withNext_def)+

lemma with_None [simp]: "withPrev None p ns = ns" "withNext None p ns = ns"
  by (simp_all add: withPrev_def withNext_def)

lemma set_with:
  "setPrev a p st = st\<lparr>store := withPrev (Some a) p (store st)\<rparr>"
  "setNext a p st = st\<lparr>store := withNext (Some a) p (store st)\<rparr>"
  by (simp_all add: setPrev_def setNext_def updateNode_def withPrev_def withNext_def)

section \<open>The list of a cache\<close>

definition chain :: "'v lruCache \<Rightarrow> nat list \<Rightarrow> bool" where
  "chain st as \<longleftrightarrow> distinct as \<and> seg (store st) None as None \<and> headRef st = firstOf as None \<and> tailRef st = lastOf as None"

definition payload :: "'v node \<Rightarrow> jsstr \<times> 'v \<times> int" where
  "payload n = (nodeKey n, nodeValue n, nodeSize n)"

lemma map_update_same:
  assumes "f x = f (ns ! a)"
  shows "map f (ns[a := x]) = map f ns"
proof (cases "a < length ns")
  case True
  then have "map f (ns[a := x]) = (map f ns)[a := map f ns ! a]" using assms by (simp add: map_update)
  then show ?thesis by simp
qed (simp add: list_update_beyond)

lemma payload_with [simp]:
  "map payload (withPrev r p ns) = map payload ns" "map payload (withNext r p ns) = map payload ns"
  by (cases r; simp add: withPrev_def withNext_def payload_def map_update_same)+

lemma removeNode_store:
  assumes "seg (store st) None (xs @ a # ys) None" "distinct (xs @ a # ys)"
  shows "removeNode a st = st\<lparr>store := withNext (Some a) None (withPrev (Some a) None
      (withPrev (firstOf ys None) (lastOf xs None) (withNext (lastOf xs None) (firstOf ys None) (store st)))),
    headRef := (if xs = [] then firstOf ys None else headRef st), tailRef := (if ys = [] then lastOf xs None else tailRef st)\<rparr>"
proof -
  have a: "nodePrev (nodeAt st a) = lastOf xs None" "nodeNext (nodeAt st a) = firstOf ys None"
    using assms(1) by (simp_all add: seg_append)
  define st1 where "st1 = (case nodePrev (nodeAt st a) of Some p \<Rightarrow> setNext p (nodeNext (nodeAt st a)) st
      | None \<Rightarrow> st\<lparr>headRef := nodeNext (nodeAt st a)\<rparr>)"
  have s1: "st1 = st\<lparr>store := withNext (lastOf xs None) (firstOf ys None) (store st),
      headRef := (if xs = [] then firstOf ys None else headRef st)\<rparr>"
    unfolding st1_def a
    by (cases xs rule: rev_cases) (simp_all add: set_with)
  have "lastOf xs None \<noteq> Some a" using assms(2) by (cases xs rule: rev_cases) auto
  then have a1: "nodePrev (nodeAt st1 a) = lastOf xs None" "nodeNext (nodeAt st1 a) = firstOf ys None"
    using a by (simp_all add: s1 nth_with_other)
  have "removeNode a st = setNext a None (setPrev a None
      (case nodeNext (nodeAt st1 a) of Some n \<Rightarrow> setPrev n (nodePrev (nodeAt st1 a)) st1
       | None \<Rightarrow> st1\<lparr>tailRef := nodePrev (nodeAt st1 a)\<rparr>))"
    unfolding removeNode_def Let_def st1_def [symmetric] by (rule refl)
  then show ?thesis
    unfolding a1 unfolding s1
    by (cases ys) (simp_all add: set_with)
qed

lemma removeNode_chain:
  assumes "chain st (xs @ a # ys)"
  shows "chain (removeNode a st) (xs @ ys)" "map payload (store (removeNode a st)) = map payload (store st)"
    "keyIndex (removeNode a st) = keyIndex st" "currentSize (removeNode a st) = currentSize st"
    "length (store (removeNode a st)) = length (store st)"
proof -
  have d: "distinct (xs @ a # ys)" and s: "seg (store st) None (xs @ a # ys) None"
    and ht: "headRef st = firstOf (xs @ a # ys) None" "tailRef st = lastOf (xs @ a # ys) None"
    using assms by (simp_all add: chain_def)
  note r = removeNode_store [OF s d]
  show "map payload (store (removeNode a st)) = map payload (store st)" "keyIndex (removeNode a st) = keyIndex st"
    "currentSize (removeNode a st) = currentSize st" "length (store (removeNode a st)) = length (store st)"
    unfolding r by simp_all
  have sx: "seg (store st) None xs (Some a)" and sy: "seg (store st) (Some a) ys None"
    using s by (simp_all add: seg_append)
  have l: "lastOf xs None = None \<or> the (lastOf xs None) \<notin> set ys" using d by (cases xs rule: rev_cases) auto
  have f: "firstOf ys None = None \<or> the (firstOf ys None) \<notin> set xs" using d by (cases ys) auto
  let ?n1 = "withNext (lastOf xs None) (firstOf ys None) (store st)"
  let ?n2 = "withPrev (firstOf ys None) (lastOf xs None) ?n1"
  have x: "seg ?n2 None xs (firstOf ys None)"
    using seg_withNext [OF _ sx, of "firstOf ys None"] d f by (simp add: seg_withPrev_other)
  have "seg ?n1 (Some a) ys None" using sy l by (simp add: seg_withNext_other)
  then have y: "seg ?n2 (lastOf xs None) ys None" using d by (intro seg_withPrev) simp_all
  have "seg (withNext (Some a) None (withPrev (Some a) None ?n2)) None (xs @ ys) None"
    using x y d by (simp add: seg_append seg_withNext_other seg_withPrev_other)
  moreover have "(if xs = [] then firstOf ys None else headRef st) = firstOf (xs @ ys) None"
    using ht by (cases xs) simp_all
  moreover have "(if ys = [] then lastOf xs None else tailRef st) = lastOf (xs @ ys) None"
    using ht by (cases ys rule: rev_cases) (simp_all add: lastOf_append)
  ultimately show "chain (removeNode a st) (xs @ ys)" unfolding r chain_def using d by simp
qed

lemma addToHead_chain:
  assumes "chain st as" "a < length (store st)" "a \<notin> set as"
  shows "chain (addToHead a st) (a # as)" "map payload (store (addToHead a st)) = map payload (store st)"
    "keyIndex (addToHead a st) = keyIndex st" "currentSize (addToHead a st) = currentSize st"
    "length (store (addToHead a st)) = length (store st)"
proof -
  have d: "distinct as" and s: "seg (store st) None as None" and ht: "headRef st = firstOf as None" "tailRef st = lastOf as None"
    using assms(1) by (simp_all add: chain_def)
  let ?n1 = "withPrev (Some a) None (withNext (Some a) (firstOf as None) (store st))"
  have r: "addToHead a st = st\<lparr>store := withPrev (firstOf as None) (Some a) ?n1, headRef := Some a,
      tailRef := (if as = [] then Some a else tailRef st)\<rparr>"
    using ht unfolding addToHead_def Let_def
    by (cases as) (simp_all add: set_with lastOf_def)
  show "map payload (store (addToHead a st)) = map payload (store st)" "keyIndex (addToHead a st) = keyIndex st"
    "currentSize (addToHead a st) = currentSize st" "length (store (addToHead a st)) = length (store st)"
    unfolding r by simp_all
  have "seg ?n1 None as None" using s assms(3) by (simp add: seg_withNext_other seg_withPrev_other)
  then have "seg (withPrev (firstOf as None) (Some a) ?n1) (Some a) as None" using d by (rule seg_withPrev [rotated])
  moreover have "nodePrev (withPrev (firstOf as None) (Some a) ?n1 ! a) = None \<and>
      nodeNext (withPrev (firstOf as None) (Some a) ?n1 ! a) = firstOf as None"
  proof -
    have "firstOf as None \<noteq> Some a" using assms(3) by (cases as) auto
    then show ?thesis using assms(2) by (simp add: nth_with_other) (simp add: withPrev_def withNext_def)
  qed
  ultimately show "chain (addToHead a st) (a # as)"
    unfolding r chain_def using d assms(2,3) ht by (auto simp: lastOf_def)
qed

section \<open>Refinement\<close>

definition view :: "'v lruCache \<Rightarrow> nat list \<Rightarrow> 'v lruSpec" where
  "view st as = map (\<lambda>a. payload (nodeAt st a)) as"

definition indexed :: "'v lruCache \<Rightarrow> nat list \<Rightarrow> bool" where
  "indexed st as \<longleftrightarrow> distinct (map (\<lambda>a. nodeKey (nodeAt st a)) as) \<and> distinct (map fst (keyIndex st)) \<and>
     set (keyIndex st) = (\<lambda>a. (nodeKey (nodeAt st a), a)) ` set as"

definition rep :: "'v lruCache \<Rightarrow> nat list \<Rightarrow> bool" where
  "rep st as \<longleftrightarrow> chain st as \<and> indexed st as \<and> currentSize st = totalSize (view st as)"

definition represents :: "'v lruCache \<Rightarrow> 'v lruSpec \<Rightarrow> bool" where
  "represents st xs \<longleftrightarrow> (\<exists>as. rep st as \<and> xs = view st as)"

lemma view_simps [simp]: "view st [] = []" "view st (a # as) = payload (nodeAt st a) # view st as"
  "view st (as @ bs) = view st as @ view st bs" "length (view st as) = length as"
  by (simp_all add: view_def)

lemma fst_payload [simp]: "fst (payload n) = nodeKey n" "snd (snd (payload n)) = nodeSize n" "fst (snd (payload n)) = nodeValue n"
  by (simp_all add: payload_def)

lemma totalSize_simps [simp]: "totalSize [] = 0" "totalSize (e # xs) = snd (snd e) + totalSize xs"
  "totalSize (xs @ ys) = totalSize xs + totalSize ys" "totalSize (List.rev xs) = totalSize xs"
  by (simp_all add: totalSize_def sum_list_rev flip: rev_map)

lemma chain_bound: "chain st as \<Longrightarrow> a \<in> set as \<Longrightarrow> a < length (store st)"
  by (auto simp: chain_def dest: seg_bound)

lemma same_payload:
  assumes "map payload (store st') = map payload (store st)" "a < length (store st)"
  shows "payload (nodeAt st' a) = payload (nodeAt st a)"
  using assms by (metis length_map nth_map)

lemma same_key:
  assumes "map payload (store st') = map payload (store st)" "a < length (store st)"
  shows "nodeKey (nodeAt st' a) = nodeKey (nodeAt st a)" "nodeSize (nodeAt st' a) = nodeSize (nodeAt st a)"
    "nodeValue (nodeAt st' a) = nodeValue (nodeAt st a)"
  using same_payload [OF assms] by (simp_all add: payload_def)

lemma view_same:
  assumes "map payload (store st') = map payload (store st)" "\<And>a. a \<in> set as \<Longrightarrow> a < length (store st)"
  shows "view st' as = view st as"
  unfolding view_def using assms same_payload by (intro map_cong refl) blast

lemma indexed_same:
  assumes "map payload (store st') = map payload (store st)" "keyIndex st' = keyIndex st"
    "\<And>a. a \<in> set as \<Longrightarrow> a < length (store st)" "set bs = set as" "distinct bs" "distinct as"
  shows "indexed st' bs \<longleftrightarrow> indexed st as"
proof -
  have k: "nodeKey (nodeAt st' a) = nodeKey (nodeAt st a)" if "a \<in> set as" for a
    using same_key(1) [OF assms(1)] assms(3) that by blast
  have "(\<lambda>a. (nodeKey (nodeAt st' a), a)) ` set bs = (\<lambda>a. (nodeKey (nodeAt st a), a)) ` set as"
    using k assms(4) by (auto simp: image_iff)
  moreover have "distinct (map (\<lambda>a. nodeKey (nodeAt st' a)) bs) \<longleftrightarrow> distinct (map (\<lambda>a. nodeKey (nodeAt st a)) as)"
    using assms(4-6) k by (simp add: distinct_map inj_on_def)
  ultimately show ?thesis using assms(2) by (simp add: indexed_def)
qed

lemma index_lookup:
  assumes "indexed st as"
  shows "map_of (keyIndex st) k = Some a \<longleftrightarrow> a \<in> set as \<and> nodeKey (nodeAt st a) = k"
proof -
  have "map_of (keyIndex st) k = Some a \<longleftrightarrow> (k, a) \<in> set (keyIndex st)"
    using assms by (simp add: indexed_def)
  then show ?thesis using assms by (auto simp: indexed_def)
qed

lemma index_miss:
  assumes "indexed st as"
  shows "map_of (keyIndex st) k = None \<longleftrightarrow> k \<notin> fst ` set (view st as)"
  using assms by (auto simp: map_of_eq_None_iff indexed_def view_def image_image)

lemma index_length:
  assumes "indexed st as" "distinct as"
  shows "length (keyIndex st) = length as"
proof -
  have "distinct (keyIndex st)" using assms(1) by (simp add: indexed_def distinct_map)
  then have "length (keyIndex st) = card (set (keyIndex st))" by (simp add: distinct_card)
  also have "\<dots> = card (set as)" using assms(1) by (simp add: indexed_def card_image inj_on_def)
  finally show ?thesis using assms(2) by (simp add: distinct_card)
qed

lemma view_keys: "map fst (view st as) = map (\<lambda>a. nodeKey (nodeAt st a)) as"
  by (simp add: view_def)

lemma without_view:
  assumes "indexed st (xs @ a # ys)"
  shows "without (nodeKey (nodeAt st a)) (view st (xs @ a # ys)) = view st (xs @ ys)"
    "map_of (view st (xs @ a # ys)) (nodeKey (nodeAt st a)) = Some (nodeValue (nodeAt st a), nodeSize (nodeAt st a))"
proof -
  have d: "distinct (map fst (view st (xs @ a # ys)))" using assms unfolding indexed_def view_keys by blast
  then have "\<forall>e \<in> set (view st xs) \<union> set (view st ys). fst e \<noteq> nodeKey (nodeAt st a)" by (force simp: image_iff)
  then show "without (nodeKey (nodeAt st a)) (view st (xs @ a # ys)) = view st (xs @ ys)"
    by (simp add: without_def filter_id_conv)
  have "payload (nodeAt st a) \<in> set (view st (xs @ a # ys))" by simp
  then show "map_of (view st (xs @ a # ys)) (nodeKey (nodeAt st a)) = Some (nodeValue (nodeAt st a), nodeSize (nodeAt st a))"
    using d by (intro map_of_is_SomeI) (simp_all add: payload_def)
qed

definition touch :: "nat \<Rightarrow> 'v lruCache \<Rightarrow> 'v lruCache" where
  "touch a st = (if Some a \<noteq> headRef st then addToHead a (removeNode a st) else st)"

lemma touch_rep:
  assumes "rep st (xs @ a # ys)"
  shows "rep (touch a st) (a # xs @ ys)" "map payload (store (touch a st)) = map payload (store st)"
    "view (touch a st) (a # xs @ ys) = payload (nodeAt st a) # view st (xs @ ys)"
proof -
  have c: "chain st (xs @ a # ys)" and i: "indexed st (xs @ a # ys)" and s: "currentSize st = totalSize (view st (xs @ a # ys))"
    using assms by (simp_all add: rep_def)
  have d: "distinct (xs @ a # ys)" using c by (simp add: chain_def)
  have b: "\<And>b. b \<in> set (xs @ a # ys) \<Longrightarrow> b < length (store st)" using chain_bound [OF c] .
  have "chain (touch a st) (a # xs @ ys) \<and> map payload (store (touch a st)) = map payload (store st) \<and>
      keyIndex (touch a st) = keyIndex st \<and> currentSize (touch a st) = currentSize st"
  proof (cases "Some a = headRef st")
    case True
    then have "xs = []" using c d by (cases xs) (auto simp: chain_def)
    then show ?thesis using c True by (simp add: touch_def)
  next
    case False
    note r = removeNode_chain [OF c]
    have "a \<notin> set (xs @ ys)" "a < length (store (removeNode a st))" using d b r(5) by auto
    note h = addToHead_chain [OF r(1) this(2,1)]
    show ?thesis using False r h by (simp add: touch_def)
  qed
  then have t: "chain (touch a st) (a # xs @ ys)" "map payload (store (touch a st)) = map payload (store st)"
    "keyIndex (touch a st) = keyIndex st" "currentSize (touch a st) = currentSize st" by simp_all
  show "map payload (store (touch a st)) = map payload (store st)" by (rule t(2))
  have v: "view (touch a st) (a # xs @ ys) = view st (a # xs @ ys)" using b by (intro view_same [OF t(2)]) auto
  then show "view (touch a st) (a # xs @ ys) = payload (nodeAt st a) # view st (xs @ ys)" by simp
  have "indexed (touch a st) (a # xs @ ys)"
    using indexed_same [OF t(2,3), of "xs @ a # ys" "a # xs @ ys"] i b d by auto
  then show "rep (touch a st) (a # xs @ ys)" using t(1,4) s v by (simp add: rep_def)
qed

lemma drop_rep:
  assumes "rep st (xs @ a # ys)" "k = nodeKey (nodeAt st a)" "st1 = removeNode a st"
  shows "rep (st1\<lparr>keyIndex := mapDelete k (keyIndex st1), currentSize := currentSize st1 - nodeSize (nodeAt st1 a)\<rparr>) (xs @ ys)"
    (is "rep ?st _")
    and "view (st1\<lparr>keyIndex := mapDelete k (keyIndex st1), currentSize := currentSize st1 - nodeSize (nodeAt st1 a)\<rparr>) (xs @ ys)
      = view st (xs @ ys)"
proof -
  have c: "chain st (xs @ a # ys)" and i: "indexed st (xs @ a # ys)" and s: "currentSize st = totalSize (view st (xs @ a # ys))"
    using assms by (simp_all add: rep_def)
  have d: "distinct (xs @ a # ys)" using c by (simp add: chain_def)
  have b: "\<And>b. b \<in> set (xs @ a # ys) \<Longrightarrow> b < length (store st)" using chain_bound [OF c] .
  note r = removeNode_chain [OF c, folded assms(3)]
  have same: "payload (nodeAt st1 b) = payload (nodeAt st b)" "nodeKey (nodeAt st1 b) = nodeKey (nodeAt st b)"
    "nodeSize (nodeAt st1 b) = nodeSize (nodeAt st b)" if "b \<in> set (xs @ a # ys)" for b
    using same_payload [OF r(2) b [OF that]] same_key [OF r(2) b [OF that]] by simp_all
  have v: "view st1 (xs @ ys) = view st (xs @ ys)" using b by (intro view_same [OF r(2)]) auto
  then show v': "view ?st (xs @ ys) = view st (xs @ ys)" by (simp add: view_def)
  have keys: "distinct (map (\<lambda>b. nodeKey (nodeAt st b)) (xs @ a # ys))" "distinct (map fst (keyIndex st))"
    "set (keyIndex st) = (\<lambda>b. (nodeKey (nodeAt st b), b)) ` set (xs @ a # ys)"
    using i by (simp_all add: indexed_def)
  have ne: "nodeKey (nodeAt st b) \<noteq> k" if "b \<in> set (xs @ ys)" for b using keys(1) that assms(2) by (auto simp: image_iff)
  have "set (mapDelete k (keyIndex st)) = (\<lambda>b. (nodeKey (nodeAt st1 b), b)) ` set (xs @ ys)"
    using keys(3) ne assms(2) same(2) by (auto simp: mapDelete_def image_iff)
  moreover have "distinct (map (\<lambda>b. nodeKey (nodeAt st1 b)) (xs @ ys))"
  proof -
    have m: "map (\<lambda>b. nodeKey (nodeAt st1 b)) (xs @ ys) = map (\<lambda>b. nodeKey (nodeAt st b)) (xs @ ys)"
      using same(2) by (intro map_cong) auto
    show ?thesis unfolding m using keys(1) by simp
  qed
  moreover have "distinct (map fst (mapDelete k (keyIndex st)))"
    using keys(2) by (simp add: mapDelete_def distinct_map_filter)
  ultimately have "indexed ?st (xs @ ys)" using r(3) by (simp add: indexed_def)
  moreover have "chain ?st (xs @ ys)" using r(1) by (simp add: chain_def)
  moreover have "currentSize ?st = totalSize (view ?st (xs @ ys))"
    unfolding v' using s r(4) same(3) [of a] by simp
  ultimately show "rep ?st (xs @ ys)" by (simp add: rep_def)
qed

lemma dropOld_over: "\<not> overBudget mb me (totalSize xs) (length xs) \<Longrightarrow> dropOld mb me xs = xs"
  by (cases xs) simp_all

lemma specEvict_simps:
  "specEvict mb me [] = []"
  "specEvict mb me (xs @ [e]) =
     (if overBudget mb me (totalSize (xs @ [e])) (length (xs @ [e])) then specEvict mb me xs else xs @ [e])"
  by (simp_all add: specEvict_def add.commute)

lemma evict_rep:
  "rep st as \<Longrightarrow> \<exists>st' bs. evict mb me st = Some st' \<and> rep st' bs \<and> view st' bs = specEvict mb me (view st as)"
proof (induction as arbitrary: st rule: rev_induct)
  case Nil
  then have "tailRef st = None" by (simp add: rep_def chain_def)
  then have "evict mb me st = Some st" by (simp add: evict.simps)
  then show ?case using Nil by (auto simp: specEvict_simps)
next
  case (snoc t as)
  have c: "chain st (as @ [t])" and i: "indexed st (as @ [t])" and s: "currentSize st = totalSize (view st (as @ [t]))"
    using snoc.prems by (simp_all add: rep_def)
  have n: "length (keyIndex st) = length (view st (as @ [t]))"
    using index_length [OF i] c by (simp add: chain_def)
  show ?case
  proof (cases "overBudget mb me (currentSize st) (length (keyIndex st))")
    case False
    then have "evict mb me st = Some st" by (simp add: evict.simps)
    then show ?thesis using snoc.prems False unfolding s n by (auto simp: specEvict_simps)
  next
    case True
    have t: "tailRef st = Some t" using c by (simp add: chain_def)
    have key: "nodeKey (nodeAt (removeNode t st) t) = nodeKey (nodeAt st t)"
      using same_key(1) [OF removeNode_chain(2) [of st as t "[]"] chain_bound [OF c]] c by simp
    have e: "evictTail t st = (removeNode t st)\<lparr>keyIndex := mapDelete (nodeKey (nodeAt st t)) (keyIndex (removeNode t st)),
        currentSize := currentSize (removeNode t st) - nodeSize (nodeAt (removeNode t st) t)\<rparr>"
      unfolding evictTail_def Let_def key by simp
    have r: "rep (evictTail t st) as" "view (evictTail t st) as = view st as"
      using drop_rep [of st as t "[]" _ "removeNode t st", OF _ refl refl] snoc.prems unfolding e by simp_all
    have "evict mb me st = evict mb me (evictTail t st)" using True t by (subst evict.simps) simp
    moreover have "specEvict mb me (view st (as @ [t])) = specEvict mb me (view st as)"
      using True unfolding s n by (simp add: specEvict_simps)
    ultimately show ?thesis using snoc.IH [OF r(1)] r(2) by simp
  qed
qed

lemma seg_same_links:
  "nodePrev x = nodePrev (ns ! a) \<Longrightarrow> nodeNext x = nodeNext (ns ! a) \<Longrightarrow> seg (ns[a := x]) p xs n \<longleftrightarrow> seg ns p xs n"
proof (induction xs arbitrary: p)
  case (Cons b xs)
  have "nodePrev (ns[a := x] ! b) = nodePrev (ns ! b)" "nodeNext (ns[a := x] ! b) = nodeNext (ns ! b)" if "b < length ns"
    using Cons.prems that by (cases "b = a"; simp)+
  then show ?case using Cons by auto
qed simp

lemma update_rep:
  assumes "rep st (xs @ a # ys)"
    and st'_def: "st' = (updateNode a (\<lambda>n. n\<lparr>nodeSize := sz\<rparr>) (updateNode a (\<lambda>n. n\<lparr>nodeValue := v\<rparr>) st))
    \<lparr>currentSize := currentSize st - nodeSize (nodeAt st a) + sz\<rparr>"
  shows "rep st' (xs @ a # ys)" "payload (nodeAt st' a) = (nodeKey (nodeAt st a), v, sz)"
    "view st' (xs @ ys) = view st (xs @ ys)" "headRef st' = headRef st"
proof -
  have c: "chain st (xs @ a # ys)" and i: "indexed st (xs @ a # ys)" and s: "currentSize st = totalSize (view st (xs @ a # ys))"
    using assms(1) by (simp_all add: rep_def)
  have d: "distinct (xs @ a # ys)" using c by (simp add: chain_def)
  have a: "a < length (store st)" using chain_bound [OF c] by simp
  let ?x = "(nodeAt st a)\<lparr>nodeValue := v, nodeSize := sz\<rparr>"
  have st: "store st' = (store st)[a := ?x]" "keyIndex st' = keyIndex st" "headRef st' = headRef st" "tailRef st' = tailRef st"
    "currentSize st' = currentSize st - nodeSize (nodeAt st a) + sz"
    using a by (simp_all add: st'_def updateNode_def)
  show "headRef st' = headRef st" by (rule st(3))
  show p: "payload (nodeAt st' a) = (nodeKey (nodeAt st a), v, sz)" using a by (simp add: st payload_def)
  have other: "nodeAt st' b = nodeAt st b" if "b \<noteq> a" for b using that by (simp add: st)
  show v: "view st' (xs @ ys) = view st (xs @ ys)"
  proof -
    have "nodeAt st' b = nodeAt st b" if "b \<in> set (xs @ ys)" for b using d other [of b] that by auto
    then show ?thesis unfolding view_def by (intro map_cong) simp_all
  qed
  have key: "nodeKey (nodeAt st' b) = nodeKey (nodeAt st b)" for b
    using a other [of b] by (cases "b = a") (simp_all add: st)
  have "chain st' (xs @ a # ys)" using c by (simp add: chain_def st seg_same_links)
  moreover have "indexed st' (xs @ a # ys)" using i by (simp add: indexed_def key st(2))
  moreover have "currentSize st' = totalSize (view st' (xs @ a # ys))"
    using s v p by (simp add: st(5))
  ultimately show "rep st' (xs @ a # ys)" by (simp add: rep_def)
qed

lemma insert_rep:
  fixes st :: "'v lruCache"
  assumes "rep st as" "k \<notin> fst ` set (view st as)"
    and a_def: "a = length (store st)"
    and s1_def: "s1 = st\<lparr>store := store st @ [\<lparr>nodeKey = k, nodeValue = v, nodeSize = sz, nodePrev = None, nodeNext = None\<rparr>],
    keyIndex := keyIndex st @ [(k, a)]\<rparr>"
    and st'_def: "st' = (addToHead a s1)\<lparr>currentSize := currentSize (addToHead a s1) + sz\<rparr>"
  shows "rep st' (a # as)" "view st' (a # as) = (k, v, sz) # view st as"
proof -
  have c: "chain st as" and i: "indexed st as" and s: "currentSize st = totalSize (view st as)"
    using assms(1) by (simp_all add: rep_def)
  have b: "\<And>b. b \<in> set as \<Longrightarrow> b < a" using chain_bound [OF c] by (simp add: a_def)
  then have na: "a \<notin> set as" by blast
  have old: "nodeAt s1 b = nodeAt st b" if "b < a" for b using that by (simp add: s1_def a_def nth_append)
  have new: "nodeAt s1 a = \<lparr>nodeKey = k, nodeValue = v, nodeSize = sz, nodePrev = None, nodeNext = None\<rparr>"
    by (simp add: s1_def a_def)
  have c1: "chain s1 as" using c by (simp add: chain_def s1_def seg_grow)
  have a1: "a < length (store s1)" by (simp add: s1_def a_def)
  note h = addToHead_chain [OF c1 a1 na]
  have "view (addToHead a s1) (a # as) = view s1 (a # as)"
  proof (rule view_same [OF h(2)])
    show "\<And>x. x \<in> set (a # as) \<Longrightarrow> x < length (store s1)" using a1 chain_bound [OF c1] by auto
  qed
  also have "\<dots> = (k, v, sz) # view st as"
    unfolding view_def using b old new by (auto simp: payload_def)
  finally have vw: "view (addToHead a s1) (a # as) = (k, v, sz) # view st as" .
  then show v': "view st' (a # as) = (k, v, sz) # view st as" by (simp add: st'_def view_def)
  have chain': "chain st' (a # as)" using h(1) by (simp add: chain_def st'_def)
  have keys: "map (\<lambda>b. nodeKey (nodeAt st' b)) (a # as) = k # map fst (view st as)"
    using arg_cong [OF v', of "map fst"] by (simp add: view_def comp_def)
  have "k \<notin> fst ` set (keyIndex st)"
    using assms(2) i by (auto simp: indexed_def view_def image_image)
  moreover have "set (keyIndex st') = (\<lambda>b. (nodeKey (nodeAt st' b), b)) ` set (a # as)"
  proof -
    have "nodeKey (nodeAt st' a) = k" "\<And>b. b \<in> set as \<Longrightarrow> nodeKey (nodeAt st' b) = nodeKey (nodeAt st b)"
      using keys unfolding view_keys by (auto simp: map_eq_conv)
    moreover have "keyIndex st' = keyIndex st @ [(k, a)]" using h(3) by (simp add: st'_def s1_def)
    ultimately show ?thesis using i by (auto simp: indexed_def image_iff)
  qed
  moreover have "keyIndex st' = keyIndex st @ [(k, a)]" using h(3) by (simp add: st'_def s1_def)
  moreover have "distinct (map fst (view st as))" using i unfolding indexed_def view_keys by blast
  then have "distinct (map (\<lambda>b. nodeKey (nodeAt st' b)) (a # as))" unfolding keys using assms(2) by simp
  ultimately have "indexed st' (a # as)" using i unfolding indexed_def by simp
  moreover have "currentSize st' = totalSize (view st' (a # as))"
    using s h(4) v' by (simp add: st'_def s1_def)
  ultimately show "rep st' (a # as)" using chain' by (simp add: rep_def)
qed

lemma get_sim:
  assumes "rep st as"
  shows "\<exists>st'. lruStep mb me (OpGet k) st = Some (fst (specStep mb me (OpGet k) (view st as)), st') \<and>
    represents st' (snd (specStep mb me (OpGet k) (view st as)))"
proof (cases "map_of (keyIndex st) k")
  case None
  then have "map_of (view st as) k = None"
    using index_miss [of st as k] assms by (simp add: rep_def map_of_eq_None_iff)
  then show ?thesis using None assms by (auto simp: lruGet_def represents_def)
next
  case (Some a)
  have i: "indexed st as" using assms by (simp add: rep_def)
  then obtain xs ys where as: "as = xs @ a # ys" "nodeKey (nodeAt st a) = k" using index_lookup [OF i] Some split_list by metis
  note r = assms [unfolded as(1)]
  note t = touch_rep [OF r]
  have "nodeValue (nodeAt (touch a st) a) = nodeValue (nodeAt st a)"
    using same_key(3) [OF t(2)] chain_bound [of st as a] assms as(1) by (simp add: rep_def)
  then have "lruStep mb me (OpGet k) st = Some (OutValue (Some (nodeValue (nodeAt st a))), touch a st)"
    using Some by (simp add: lruGet_def touch_def Let_def)
  moreover have "specStep mb me (OpGet k) (view st as) =
      (OutValue (Some (nodeValue (nodeAt st a))), view (touch a st) (a # xs @ ys))"
    using without_view [of st xs a ys] i t(3) as(2) unfolding as(1) by (simp add: payload_def)
  ultimately show ?thesis using t(1) by (auto simp: represents_def)
qed

lemma set_sim:
  assumes "rep st as"
  shows "\<exists>st'. lruStep mb me (OpSet k v sz) st = Some (fst (specStep mb me (OpSet k v sz) (view st as)), st') \<and>
    represents st' (snd (specStep mb me (OpSet k v sz) (view st as)))"
proof (cases "sz \<le> 0 \<or> mb < sz")
  case True
  then show ?thesis using assms by (auto simp: lruSet_def represents_def)
next
  case False
  have i: "indexed st as" using assms by (simp add: rep_def)
  have "\<exists>st1 bs. rep st1 bs \<and> view st1 bs = (k, v, sz) # without k (view st as) \<and>
      lruSet mb me k v sz st = map_option (Pair (Inr True)) (evict mb me st1)"
  proof (cases "map_of (keyIndex st) k")
    case None
    then have n: "k \<notin> fst ` set (view st as)" using index_miss [OF i] by blast
    note r = insert_rep [OF assms n refl refl refl, of v sz]
    have "without k (view st as) = view st as" using n by (force simp: without_def filter_id_conv)
    then show ?thesis using r None False by (auto simp: lruSet_def Let_def intro!: exI)
  next
    case (Some a)
    then obtain xs ys where as: "as = xs @ a # ys" "nodeKey (nodeAt st a) = k" using index_lookup [OF i] split_list by metis
    define s3 where "s3 = (updateNode a (\<lambda>n. n\<lparr>nodeSize := sz\<rparr>) (updateNode a (\<lambda>n. n\<lparr>nodeValue := v\<rparr>) st))
      \<lparr>currentSize := currentSize st - nodeSize (nodeAt st a) + sz\<rparr>"
    note u = update_rep [OF assms [unfolded as(1)] s3_def]
    note t = touch_rep [OF u(1)]
    have "lruSet mb me k v sz st = map_option (Pair (Inr True)) (evict mb me (touch a s3))"
      using Some False by (simp add: lruSet_def Let_def s3_def touch_def updateNode_def)
    moreover have "view (touch a s3) (a # xs @ ys) = (k, v, sz) # without k (view st as)"
      using t(3) u(2,3) without_view(1) [of st xs a ys] i unfolding as by simp
    ultimately show ?thesis using t(1) by blast
  qed
  then obtain st1 bs where s: "rep st1 bs" "view st1 bs = (k, v, sz) # without k (view st as)"
    "lruSet mb me k v sz st = map_option (Pair (Inr True)) (evict mb me st1)" by blast
  obtain st' cs where "evict mb me st1 = Some st'" "rep st' cs" "view st' cs = specEvict mb me (view st1 bs)"
    using evict_rep [OF s(1)] by blast
  then show ?thesis using s(2,3) False by (auto simp: represents_def)
qed

lemma delete_sim:
  assumes "rep st as"
  shows "\<exists>st'. lruStep mb me (OpDelete k) st = Some (fst (specStep mb me (OpDelete k) (view st as)), st') \<and>
    represents st' (snd (specStep mb me (OpDelete k) (view st as)))"
proof (cases "map_of (keyIndex st) k")
  case None
  then have n: "k \<notin> fst ` set (view st as)" using index_miss [of st as k] assms by (simp add: rep_def)
  then have "without k (view st as) = view st as" by (force simp: without_def filter_id_conv)
  moreover have "map_of (view st as) k = None" using n by (simp add: map_of_eq_None_iff)
  ultimately show ?thesis using None assms by (auto simp: lruDelete_def represents_def)
next
  case (Some a)
  have i: "indexed st as" using assms by (simp add: rep_def)
  then obtain xs ys where as: "as = xs @ a # ys" "nodeKey (nodeAt st a) = k" using index_lookup [OF i] Some split_list by metis
  let ?st = "(removeNode a st)\<lparr>keyIndex := mapDelete k (keyIndex (removeNode a st)),
    currentSize := currentSize (removeNode a st) - nodeSize (nodeAt (removeNode a st) a)\<rparr>"
  have r: "rep ?st (xs @ ys)" "view ?st (xs @ ys) = view st (xs @ ys)"
    using drop_rep [OF assms [unfolded as(1)] as(2) [symmetric] refl] .
  have "lruStep mb me (OpDelete k) st = Some (OutFlag True, ?st)" using Some by (simp add: lruDelete_def Let_def)
  moreover have "specStep mb me (OpDelete k) (view st as) = (OutFlag True, view ?st (xs @ ys))"
    using without_view [of st xs a ys] i r(2) unfolding as by simp
  ultimately show ?thesis using r(1) by (auto simp: represents_def)
qed

interpretation lru: forward_simulation "lruStep mb me" "specStep mb me" represents for mb me
proof
  fix st :: "'v lruCache" and xs and op :: "'v lruOp"
  assume "represents st xs"
  then obtain as where r: "rep st as" "xs = view st as" by (auto simp: represents_def)
  have i: "indexed st as" and s: "currentSize st = totalSize xs" and c: "chain st as" using r by (simp_all add: rep_def)
  have n: "length (keyIndex st) = length xs" using index_length [OF i] c r(2) by (simp add: chain_def)
  have has: "map_of (keyIndex st) k = None \<longleftrightarrow> map_of xs k = None" for k
    using index_miss [OF i] r(2) by (simp add: map_of_eq_None_iff)
  show "\<exists>st'. lruStep mb me op st = Some (fst (specStep mb me op xs), st') \<and> represents st' (snd (specStep mb me op xs))"
  proof (cases op)
    case (OpGet k)
    then show ?thesis using get_sim [OF r(1)] r(2) by simp
  next
    case (OpSet k v sz)
    then show ?thesis using set_sim [OF r(1)] r(2) by simp
  next
    case (OpHas k)
    then show ?thesis using r has by (auto simp: lruHas_def represents_def)
  next
    case (OpDelete k)
    then show ?thesis using delete_sim [OF r(1)] r(2) by simp
  next
    case OpClear
    have "rep (lruClear st) []" by (simp add: rep_def chain_def indexed_def lruClear_def)
    then show ?thesis using OpClear by (auto simp: represents_def)
  next
    case OpCount
    then show ?thesis using r s n by (auto simp: represents_def)
  qed
qed

lemma create_represents: "represents createLruCache []"
  by (auto simp: represents_def rep_def chain_def indexed_def createLruCache_def intro!: exI [of _ "[]"])

section \<open>What the specification guarantees\<close>

lemma dropOld_suffix: "\<exists>ys. xs = ys @ dropOld mb me xs"
  by (induction xs) (auto, metis append_Cons)

lemma specEvict_prefix: "\<exists>ys. xs = specEvict mb me xs @ ys"
proof -
  obtain ys where "List.rev xs = ys @ dropOld mb me (List.rev xs)" using dropOld_suffix by blast
  then have "xs = List.rev (dropOld mb me (List.rev xs)) @ List.rev ys" by (metis rev_append rev_rev_ident)
  then show ?thesis by (auto simp: specEvict_def)
qed

lemma dropOld_within: "dropOld mb me xs = [] \<or> \<not> overBudget mb me (totalSize (dropOld mb me xs)) (length (dropOld mb me xs))"
  by (induction xs) auto

definition specOk :: "int \<Rightarrow> nat option \<Rightarrow> 'v lruSpec \<Rightarrow> bool" where
  "specOk mb me xs \<longleftrightarrow> distinct (map fst xs) \<and> (\<forall>e\<in>set xs. 0 < snd (snd e)) \<and>
     (xs = [] \<or> \<not> overBudget mb me (totalSize xs) (length xs))"

lemma specOk_evict:
  assumes "distinct (map fst xs)" "\<forall>e\<in>set xs. 0 < snd (snd e)"
  shows "specOk mb me (specEvict mb me xs)"
proof -
  obtain ys where x: "xs = specEvict mb me xs @ ys" using specEvict_prefix by blast
  have "specEvict mb me xs = [] \<or> \<not> overBudget mb me (totalSize (specEvict mb me xs)) (length (specEvict mb me xs))"
    using dropOld_within [of mb me "List.rev xs"] by (auto simp: specEvict_def)
  moreover have "distinct (map fst (specEvict mb me xs))" "\<forall>e\<in>set (specEvict mb me xs). 0 < snd (snd e)"
    using assms by (metis distinct_append map_append x, metis UnCI set_append x)
  ultimately show ?thesis by (simp add: specOk_def)
qed

lemma totalSize_without: "\<forall>e\<in>set xs. 0 < snd (snd e) \<Longrightarrow> totalSize (without k xs) \<le> totalSize xs"
  by (induction xs) (auto simp: without_def)

lemma overBudget_mono: "\<not> overBudget mb me t n \<Longrightarrow> t' \<le> t \<Longrightarrow> n' \<le> n \<Longrightarrow> \<not> overBudget mb me t' n'"
  by (auto simp: overBudget_def split: option.splits)

lemma specOk_without:
  assumes "specOk mb me xs"
  shows "specOk mb me (without k xs)"
proof -
  have "length (without k xs) \<le> length xs" by (simp add: without_def)
  then have "\<not> overBudget mb me (totalSize (without k xs)) (length (without k xs))" if "xs \<noteq> []"
    using overBudget_mono [of mb me "totalSize xs" "length xs"] totalSize_without [of xs k] assms that by (auto simp: specOk_def)
  then have "without k xs = [] \<or> \<not> overBudget mb me (totalSize (without k xs)) (length (without k xs))"
    by (cases "xs = []") (simp_all add: without_def)
  then show ?thesis using assms by (simp add: specOk_def) (simp add: without_def distinct_map_filter)
qed

lemma without_key: "k \<notin> fst ` set (without k xs)"
  by (auto simp: without_def)

lemma specOk_move:
  assumes "specOk mb me xs" "map_of xs k = Some (v, sz)"
  shows "specOk mb me ((k, v, sz) # without k xs)"
proof -
  have e: "(k, v, sz) \<in> set xs" using assms(2) by (rule map_of_SomeD)
  have d: "distinct (map fst xs)" using assms(1) by (simp add: specOk_def)
  then obtain ys zs where x: "xs = ys @ (k, v, sz) # zs" using e by (auto dest: split_list)
  have "k \<notin> fst ` set ys" "k \<notin> fst ` set zs" using d x by auto
  then have "filter (\<lambda>e. fst e \<noteq> k) ys = ys" "filter (\<lambda>e. fst e \<noteq> k) zs = zs" by (auto simp: filter_id_conv image_iff)
  then have "without k xs = ys @ zs" by (simp add: without_def x)
  then have "totalSize ((k, v, sz) # without k xs) = totalSize xs" "length ((k, v, sz) # without k xs) = length xs"
    "set ((k, v, sz) # without k xs) = set xs" using x by auto
  moreover have "distinct (map fst ((k, v, sz) # without k xs))"
    using d without_key [of k xs] by (simp add: without_def distinct_map_filter)
  ultimately show ?thesis using assms(1) x by (simp add: specOk_def del: totalSize_simps)
qed

lemma specOk_step: "specOk mb me xs \<Longrightarrow> specOk mb me (snd (specStep mb me op xs))"
proof (cases op)
  case (OpGet k)
  assume "specOk mb me xs"
  then show ?thesis using OpGet specOk_move by (auto split: option.split)
next
  case (OpSet k v sz)
  assume ok: "specOk mb me xs"
  then have w: "specOk mb me (without k xs)" by (rule specOk_without)
  show ?thesis
  proof (cases "sz \<le> 0 \<or> mb < sz")
    case False
    have "specOk mb me (specEvict mb me ((k, v, sz) # without k xs))"
      using w False without_key [of k xs] by (intro specOk_evict) (auto simp: specOk_def)
    then show ?thesis using OpSet False by simp
  qed (use ok OpSet in auto)
next
  case (OpDelete k)
  assume "specOk mb me xs"
  then show ?thesis using OpDelete specOk_without by simp
qed (simp_all add: specOk_def)

section \<open>Coherence\<close>

text \<open>What the writes of a history leave under each key.\<close>

fun written :: "int \<Rightarrow> 'v lruOp \<Rightarrow> (jsstr \<rightharpoonup> 'v) \<Rightarrow> (jsstr \<rightharpoonup> 'v)" where
  "written mb (OpSet k v sz) m = (if 0 < sz \<and> sz \<le> mb then m(k \<mapsto> v) else m)"
| "written mb (OpDelete k) m = m(k := None)"
| "written mb OpClear m = Map.empty"
| "written mb _ m = m"

definition lastWrites :: "int \<Rightarrow> 'v lruOp list \<Rightarrow> (jsstr \<rightharpoonup> 'v)" where
  "lastWrites mb ops = foldl (\<lambda>m op. written mb op m) Map.empty ops"

definition coherent :: "(jsstr \<rightharpoonup> 'v) \<Rightarrow> 'v lruSpec \<Rightarrow> bool" where
  "coherent m xs \<longleftrightarrow> (\<forall>(k, v, sz)\<in>set xs. m k = Some v)"

lemma coherent_step: "coherent m xs \<Longrightarrow> coherent (written mb op m) (snd (specStep mb me op xs))"
proof (cases op)
  case (OpGet k)
  assume "coherent m xs"
  then show ?thesis using OpGet by (auto simp: coherent_def without_def dest: map_of_SomeD split: option.split)
next
  case (OpSet k v sz)
  assume c: "coherent m xs"
  show ?thesis
  proof (cases "sz \<le> 0 \<or> mb < sz")
    case False
    obtain ys where "(k, v, sz) # without k xs = specEvict mb me ((k, v, sz) # without k xs) @ ys" using specEvict_prefix by blast
    then have "set (specEvict mb me ((k, v, sz) # without k xs)) \<subseteq> set ((k, v, sz) # without k xs)"
      by (metis Un_upper1 set_append)
    then have "coherent (m(k \<mapsto> v)) (specEvict mb me ((k, v, sz) # without k xs))"
      using c by (fastforce simp: coherent_def without_def)
    then show ?thesis using OpSet False by simp
  qed (use c OpSet in auto)
next
  case (OpDelete k)
  assume "coherent m xs"
  then show ?thesis using OpDelete by (auto simp: coherent_def without_def)
qed (auto simp: coherent_def)

lemma coherent_run:
  "coherent m xs \<Longrightarrow> coherent (foldl (\<lambda>m op. written mb op m) m ops) (snd (runSpec (specStep mb me) ops xs))"
  by (induction ops arbitrary: m xs) (simp_all add: case_prod_beta Let_def coherent_step)

lemma runSpec_append:
  "runSpec spec (xs @ ys) a =
    (fst (runSpec spec xs a) @ fst (runSpec spec ys (snd (runSpec spec xs a))), snd (runSpec spec ys (snd (runSpec spec xs a))))"
  by (induction xs arbitrary: a) (simp_all add: case_prod_beta Let_def)

lemma dropOld_keeps: "\<not> overBudget mb me (snd (snd e)) 1 \<Longrightarrow> \<exists>zs. dropOld mb me (xs @ [e]) = zs @ [e]"
  by (induction xs) auto

lemma specEvict_keeps:
  assumes "\<not> overBudget mb me sz 1"
  shows "\<exists>zs. specEvict mb me ((k, v, sz) # xs) = (k, v, sz) # zs"
proof -
  obtain zs where "dropOld mb me (List.rev xs @ [(k, v, sz)]) = zs @ [(k, v, sz)]"
    using dropOld_keeps [of mb me "(k, v, sz)" "List.rev xs"] assms by auto
  then show ?thesis by (simp add: specEvict_def)
qed

section \<open>Properties\<close>

text \<open>C7: The pointer-linked cache behaves as a list of entries in order of use, on every sequence of operations:
  starting from \<open>createLruCache\<close>, every \<open>get\<close>, \<open>set\<close>, \<open>has\<close>, \<open>delete\<close>, \<open>clear\<close> and size read returns what the
  list specification returns, the eviction loop always ends, and the links, the key index and the running byte
  count represent the list at the end.\<close>

theorem lru_refines_recency_list:
  "\<exists>st. runImpl (lruStep maxBytes maxEntries) ops createLruCache
      = Some (fst (runSpec (specStep maxBytes maxEntries) ops []), st) \<and>
    represents st (snd (runSpec (specStep maxBytes maxEntries) ops []))"
  by (rule lru.run_sim [OF create_represents])





end
