(* ===== verification/LruLiveness.thy ===== *)
theory LruLiveness
  imports LruProofs
begin

text \<open>Progress of the cache: under an entry limit, an entry nobody uses does not stay.\<close>

section \<open>What is more recent than an entry\<close>

definition newer :: "jsstr \<Rightarrow> 'v lruSpec \<Rightarrow> jsstr set" where
  "newer k xs = fst ` set (takeWhile (\<lambda>e. fst e \<noteq> k) xs)"

text \<open>An operation that neither uses \<open>k\<close> nor removes entries by request; the keys a row of operations stores.\<close>

fun sparing :: "jsstr \<Rightarrow> 'v lruOp \<Rightarrow> bool" where
  "sparing k (OpGet k') \<longleftrightarrow> k' \<noteq> k"
| "sparing k (OpSet k' v sz) \<longleftrightarrow> k' \<noteq> k"
| "sparing k (OpDelete k') \<longleftrightarrow> False"
| "sparing k OpClear \<longleftrightarrow> False"
| "sparing k (OpHas k') \<longleftrightarrow> True"
| "sparing k OpCount \<longleftrightarrow> True"

fun storedKey :: "int \<Rightarrow> 'v lruOp \<Rightarrow> jsstr set" where
  "storedKey mb (OpSet k v sz) = (if 0 < sz \<and> sz \<le> mb then {k} else {})"
| "storedKey mb op = {}"

definition storedKeys :: "int \<Rightarrow> 'v lruOp list \<Rightarrow> jsstr set" where
  "storedKeys mb ops = \<Union> (storedKey mb ` set ops)"

lemma newer_front: "k' \<noteq> k \<Longrightarrow> newer k ((k', v, sz) # without k' xs) = insert k' (newer k xs)"
proof -
  assume "k' \<noteq> k"
  then have "takeWhile (\<lambda>e. fst e \<noteq> k) (without k' xs) = without k' (takeWhile (\<lambda>e. fst e \<noteq> k) xs)"
    unfolding without_def by (induction xs) auto
  then show ?thesis using \<open>k' \<noteq> k\<close> by (auto simp: newer_def without_def image_iff)
qed

lemma newer_prefix: "k \<in> fst ` set xs \<Longrightarrow> newer k (xs @ ys) = newer k xs"
  unfolding newer_def by (induction xs) auto

lemma newer_step:
  assumes "sparing k op" "k \<in> fst ` set (snd (specStep mb me op xs))"
  shows "k \<in> fst ` set xs" "storedKey mb op \<union> newer k xs \<subseteq> newer k (snd (specStep mb me op xs))"
proof -
  have "k \<in> fst ` set xs \<and> storedKey mb op \<union> newer k xs \<subseteq> newer k (snd (specStep mb me op xs))"
  proof (cases op)
    case (OpGet k')
    have "newer k ((k', v, sz) # without k' xs) = insert k' (newer k xs)" for v sz using assms(1) OpGet by (simp add: newer_front)
    then show ?thesis using assms(1,2) OpGet
      by (cases "map_of xs k'") (auto simp: without_def split: prod.splits)
  next
    case (OpSet k' v sz)
    show ?thesis
    proof (cases "sz \<le> 0 \<or> mb < sz")
      case False
      let ?ys = "specEvict mb me ((k', v, sz) # without k' xs)"
      obtain zs where z: "(k', v, sz) # without k' xs = ?ys @ zs" using specEvict_prefix by blast
      have k: "k \<in> fst ` set ?ys" "k' \<noteq> k" using OpSet False assms by auto
      then have n: "newer k ?ys = insert k' (newer k xs)" using newer_prefix [of k ?ys zs] z newer_front [of k' k v sz xs] by simp
      have "k \<in> fst ` set ((k', v, sz) # without k' xs)"
        using arg_cong [OF z, of "\<lambda>l. fst ` set l"] k(1) by auto
      then show ?thesis using OpSet False n k(2) by (auto simp: without_def)
    qed (use OpSet assms in auto)
  qed (use assms in auto)
  then show "k \<in> fst ` set xs" "storedKey mb op \<union> newer k xs \<subseteq> newer k (snd (specStep mb me op xs))" by blast+
qed

lemma runSpec_Cons: "snd (runSpec spec (op # ops) xs) = snd (runSpec spec ops (snd (spec op xs)))"
  by (simp add: case_prod_beta Let_def)

lemma present_before:
  "\<forall>op \<in> set ops. sparing k op \<Longrightarrow> k \<in> fst ` set (snd (runSpec (specStep mb me) ops xs)) \<Longrightarrow> k \<in> fst ` set xs"
proof (induction ops arbitrary: xs)
  case (Cons op ops)
  have k: "k \<in> fst ` set (snd (runSpec (specStep mb me) ops (snd (specStep mb me op xs))))"
    using Cons.prems(2) unfolding runSpec_Cons .
  have sp: "\<forall>op \<in> set ops. sparing k op" "sparing k op" using Cons.prems(1) by simp_all
  show ?case by (rule newer_step(1) [OF sp(2) Cons.IH [OF sp(1) k]])
qed simp

lemma newer_run:
  assumes "\<forall>op \<in> set ops. sparing k op" "k \<in> fst ` set (snd (runSpec (specStep mb me) ops xs))"
  shows "storedKeys mb ops \<union> newer k xs \<subseteq> newer k (snd (runSpec (specStep mb me) ops xs))"
  using assms
proof (induction ops arbitrary: xs)
  case Nil
  then show ?case by (simp add: storedKeys_def)
next
  case (Cons op ops)
  let ?xs' = "snd (specStep mb me op xs)"
  have r: "snd (runSpec (specStep mb me) (op # ops) xs) = snd (runSpec (specStep mb me) ops ?xs')"
    by (rule runSpec_Cons)
  have sp: "\<forall>op \<in> set ops. sparing k op" "sparing k op" using Cons.prems(1) by simp_all
  have k: "k \<in> fst ` set (snd (runSpec (specStep mb me) ops ?xs'))" using Cons.prems(2) unfolding r .
  have ih: "storedKeys mb ops \<union> newer k ?xs' \<subseteq> newer k (snd (runSpec (specStep mb me) ops ?xs'))"
    by (rule Cons.IH [OF sp(1) k])
  have "storedKey mb op \<union> newer k xs \<subseteq> newer k ?xs'"
    by (rule newer_step(2) [OF sp(2) present_before [OF sp(1) k]])
  then show ?case using ih unfolding r storedKeys_def by auto
qed

lemma newer_card: "k \<in> fst ` set xs \<Longrightarrow> card (newer k xs) < length xs"
proof -
  assume "k \<in> fst ` set xs"
  then have "length (takeWhile (\<lambda>e. fst e \<noteq> k) xs) < length xs" by (induction xs) auto
  moreover have "card (newer k xs) \<le> length (takeWhile (\<lambda>e. fst e \<noteq> k) xs)"
    using card_length [of "map fst (takeWhile (\<lambda>e. fst e \<noteq> k) xs)"] by (simp add: newer_def)
  ultimately show ?thesis by linarith
qed

section \<open>Property\<close>

text \<open>C10: An unused entry is eventually evicted: under a limit of \<open>m\<close> entries, whatever happened before, once as many as \<open>m\<close>
  different other keys have been stored while \<open>k\<close> was neither read nor written (reads of other keys, lookups and size reads
  may interleave, sets may be refused), the cache no longer has \<open>k\<close>.\<close>

theorem lru_unused_evicted:
  assumes "\<forall>op \<in> set ops. sparing k op" "m \<le> card (storedKeys maxBytes ops)"
  shows "\<exists>outs st. runImpl (lruStep maxBytes (Some m)) (history @ ops @ [OpHas k]) createLruCache
    = Some (outs @ [OutFlag False], st)"
proof -
  let ?xs = "snd (runSpec (specStep maxBytes (Some m)) history [])"
  let ?ys = "snd (runSpec (specStep maxBytes (Some m)) ops ?xs)"
  have ys: "?ys = snd (runSpec (specStep maxBytes (Some m)) (history @ ops) [])" by (simp add: runSpec_append)
  have "specOk maxBytes (Some m) ?ys"
    unfolding ys by (rule runSpec_invariant [of "specOk maxBytes (Some m)"]) (simp_all add: specOk_step, simp add: specOk_def)
  then have len: "length ?ys \<le> m" by (auto simp: specOk_def overBudget_def)
  have "k \<notin> fst ` set ?ys"
  proof
    assume k: "k \<in> fst ` set ?ys"
    then have "storedKeys maxBytes ops \<subseteq> newer k ?ys" using newer_run [OF assms(1) k] by blast
    then have "card (storedKeys maxBytes ops) \<le> card (newer k ?ys)" by (intro card_mono) (simp_all add: newer_def)
    then show False using newer_card [OF k] len assms(2) by linarith
  qed
  then have "map_of ?ys k = None" by (simp add: map_of_eq_None_iff)
  then show ?thesis
    using lru.run_sim [OF create_represents, of maxBytes "Some m" "history @ ops @ [OpHas k]"]
    by (auto simp: runSpec_append case_prod_beta)
qed

theorem lru_unused_evicted_witness:
  "\<exists>outs st. runImpl (lruStep 10 (Some 2)) ([OpSet [97] True 3] @ [OpSet [98] False 3, OpGet [98], OpSet [99] True 4] @ [OpHas [97]])
    createLruCache = Some (outs @ [OutFlag False], st)"
  by (rule lru_unused_evicted) (simp_all add: storedKeys_def)

end
