(* ===== verification/BinaryHeap.thy ===== *)
theory BinaryHeap
  imports Prelude
begin

text \<open>
  \<open>commit/binary-heap.ts\<close>: the array-backed heap whose comparison is a parameter, its invariant and the contract of
  \<open>push\<close> and \<open>pop\<close> for every strict weak order.
\<close>

section \<open>Model\<close>

definition parentIndex :: "nat \<Rightarrow> nat" where
  "parentIndex i = nat (js_shr (int i - 1) 1)"

definition leftChildIndex :: "nat \<Rightarrow> nat" where
  "leftChildIndex i = 2 * i + 1"

definition rightChildIndex :: "nat \<Rightarrow> nat" where
  "rightChildIndex i = 2 * i + 2"

definition swap :: "'a list \<Rightarrow> nat \<Rightarrow> nat \<Rightarrow> 'a list" where
  "swap vs i j = vs[i := vs ! j, j := vs ! i]"

lemma toInt32_le: "0 \<le> x \<Longrightarrow> toInt32 x \<le> x"
proof -
  assume x: "0 \<le> x"
  have "toInt32 x \<le> x mod 2 ^ 32"
    unfolding toInt32_def signed_take_bit_eq_take_bit_minus by (simp add: take_bit_eq_mod)
  also have "\<dots> \<le> x" using x by (simp add: zmod_le_nonneg_dividend)
  finally show ?thesis .
qed

lemma parentIndex_less: "0 < i \<Longrightarrow> parentIndex i < i"
proof -
  assume i: "0 < i"
  have "js_shr (int i - 1) 1 = toInt32 (int i - 1) div 2" by (simp add: js_shr_def drop_bit_eq_div)
  also have "\<dots> \<le> (int i - 1) div 2" using toInt32_le [of "int i - 1"] i by (intro zdiv_mono1) simp_all
  finally show ?thesis using i by (simp add: parentIndex_def)
qed

function siftUp :: "('a \<Rightarrow> 'a \<Rightarrow> bool) \<Rightarrow> 'a list \<Rightarrow> nat \<Rightarrow> 'a list" where
  "siftUp lt vs index =
     (if 0 < index \<and> lt (vs ! index) (vs ! parentIndex index)
      then siftUp lt (swap vs index (parentIndex index)) (parentIndex index) else vs)"
  by pat_completeness auto
termination by (relation "measure (\<lambda>(lt, vs, index). index)") (auto simp: parentIndex_less)

definition smallerChild :: "('a \<Rightarrow> 'a \<Rightarrow> bool) \<Rightarrow> 'a list \<Rightarrow> nat \<Rightarrow> nat \<Rightarrow> nat" where
  "smallerChild lt vs left right = (if right < length vs \<and> lt (vs ! right) (vs ! left) then right else left)"

lemma length_swap [simp]: "length (swap vs i j) = length vs"
  by (simp add: swap_def)

lemma smallerChild_gt: "index < smallerChild lt vs (leftChildIndex index) (rightChildIndex index)"
  by (simp add: smallerChild_def leftChildIndex_def rightChildIndex_def)

function siftDown :: "('a \<Rightarrow> 'a \<Rightarrow> bool) \<Rightarrow> 'a list \<Rightarrow> nat \<Rightarrow> 'a list" where
  "siftDown lt vs index =
     (let left = leftChildIndex index in
      if length vs \<le> left then vs
      else
        let child = smallerChild lt vs left (rightChildIndex index) in
        if \<not> lt (vs ! child) (vs ! index) then vs
        else siftDown lt (swap vs index child) child)"
  by pat_completeness auto
termination
proof (relation "measure (\<lambda>(lt, vs, index). length vs - index)")
  fix lt :: "'a \<Rightarrow> 'a \<Rightarrow> bool" and vs index x xa
  assume "x = leftChildIndex index" "\<not> length vs \<le> x" "xa = smallerChild lt vs x (rightChildIndex index)"
  then show "((lt, swap vs index xa, xa), lt, vs, index) \<in> measure (\<lambda>(lt, vs, index). length vs - index)"
    using smallerChild_gt [of index lt vs] by (auto simp: leftChildIndex_def)
qed simp

declare siftUp.simps [simp del] siftDown.simps [simp del]

text \<open>The backing array is the whole state of a heap.\<close>

definition heapPush :: "('a \<Rightarrow> 'a \<Rightarrow> bool) \<Rightarrow> 'a \<Rightarrow> 'a list \<Rightarrow> 'a list" where
  "heapPush lt v vs = siftUp lt (vs @ [v]) (length vs)"

definition heapPop :: "('a \<Rightarrow> 'a \<Rightarrow> bool) \<Rightarrow> 'a list \<Rightarrow> ('a \<times> 'a list) option" where
  "heapPop lt vs =
     (if length vs = 0 then None
      else
        let root = vs ! 0; lst = last vs; rest = butlast vs in
        Some (root, if 0 < length rest then siftDown lt (rest[0 := lst]) 0 else rest))"

definition heapSize :: "'a list \<Rightarrow> nat" where
  "heapSize vs = length vs"

section \<open>The heap order\<close>

lemma parentIndex_div: "0 < i \<Longrightarrow> i \<le> 2147483648 \<Longrightarrow> parentIndex i = (i - 1) div 2"
proof -
  assume i: "0 < i" "i \<le> 2147483648"
  have "toInt32 (int i - 1) = int i - 1" using i by (intro toInt32_nonneg) simp_all
  then have "js_shr (int i - 1) 1 = int ((i - 1) div 2)"
    using i by (simp add: js_shr_def drop_bit_eq_div zdiv_int of_nat_diff)
  then show ?thesis by (simp add: parentIndex_def)
qed

lemma nth_swap: "i < length vs \<Longrightarrow> j < length vs \<Longrightarrow> k < length vs \<Longrightarrow>
    swap vs i j ! k = (if k = j then vs ! i else if k = i then vs ! j else vs ! k)"
  by (simp add: swap_def nth_list_update)

lemma half_less: "0 < (p :: nat) \<Longrightarrow> (p - 1) div 2 < p"
  by auto

lemma swap_mset: "i < length vs \<Longrightarrow> j < length vs \<Longrightarrow> mset (swap vs i j) = mset vs"
  unfolding swap_def using mset_swap [of j vs i] by simp

definition isHeap :: "('a \<Rightarrow> 'a \<Rightarrow> bool) \<Rightarrow> 'a list \<Rightarrow> bool" where
  "isHeap lt vs \<longleftrightarrow> (\<forall>i. 0 < i \<and> i < length vs \<longrightarrow> \<not> lt (vs ! i) (vs ! ((i - 1) div 2)))"

text \<open>While an element climbs, the order holds everywhere but above it, and its children are in order with its
  parent; while one sinks, the order holds everywhere but below it.\<close>

definition upInv :: "('a \<Rightarrow> 'a \<Rightarrow> bool) \<Rightarrow> 'a list \<Rightarrow> nat \<Rightarrow> bool" where
  "upInv lt vs k \<longleftrightarrow>
     (\<forall>i. 0 < i \<and> i < length vs \<and> i \<noteq> k \<longrightarrow> \<not> lt (vs ! i) (vs ! ((i - 1) div 2))) \<and>
     (\<forall>i. 0 < i \<and> i < length vs \<and> (i - 1) div 2 = k \<and> 0 < k \<longrightarrow> \<not> lt (vs ! i) (vs ! ((k - 1) div 2)))"

definition downInv :: "('a \<Rightarrow> 'a \<Rightarrow> bool) \<Rightarrow> 'a list \<Rightarrow> nat \<Rightarrow> bool" where
  "downInv lt vs k \<longleftrightarrow>
     (\<forall>i. 0 < i \<and> i < length vs \<and> (i - 1) div 2 \<noteq> k \<longrightarrow> \<not> lt (vs ! i) (vs ! ((i - 1) div 2))) \<and>
     (\<forall>i. 0 < i \<and> i < length vs \<and> (i - 1) div 2 = k \<and> 0 < k \<longrightarrow> \<not> lt (vs ! i) (vs ! ((k - 1) div 2)))"

locale heap_order =
  fixes lt :: "'a \<Rightarrow> 'a \<Rightarrow> bool"
  assumes less_asym: "lt a b \<Longrightarrow> \<not> lt b a"
    and not_less_trans: "\<not> lt a b \<Longrightarrow> \<not> lt b c \<Longrightarrow> \<not> lt a c"
begin

lemma less_below: "\<not> lt a c \<Longrightarrow> lt b c \<Longrightarrow> \<not> lt a b"
  using less_asym not_less_trans by blast

lemma upInv_swap:
  assumes "upInv lt vs k" "0 < k" "k < length vs" "lt (vs ! k) (vs ! ((k - 1) div 2))"
  shows "upInv lt (swap vs k ((k - 1) div 2)) ((k - 1) div 2)"
proof -
  let ?p = "(k - 1) div 2"
  let ?ws = "swap vs k ?p"
  have p: "?p < k" "?p < length vs" using assms(2,3) by auto
  have at: "?ws ! i = (if i = ?p then vs ! k else if i = k then vs ! ?p else vs ! i)" if "i < length vs" for i
    using nth_swap [of k vs ?p i] assms(3) p that by simp
  have ok: "\<not> lt (vs ! i) (vs ! ((i - 1) div 2))" if "0 < i" "i < length vs" "i \<noteq> k" for i
    using assms(1) that by (simp add: upInv_def)
  have kid: "\<not> lt (vs ! i) (vs ! ?p)" if "0 < i" "i < length vs" "(i - 1) div 2 = k" for i
    using assms(1,2) that by (simp add: upInv_def)
  have first: "\<not> lt (?ws ! i) (?ws ! ((i - 1) div 2))" if i: "0 < i" "i < length vs" "i \<noteq> ?p" for i
  proof -
    have q: "(i - 1) div 2 < i" "(i - 1) div 2 < length vs" using i by auto
    consider "i = k" | "i \<noteq> k" "(i - 1) div 2 = k" | "i \<noteq> k" "(i - 1) div 2 = ?p" | "i \<noteq> k" "(i - 1) div 2 \<noteq> k" "(i - 1) div 2 \<noteq> ?p"
      by blast
    then show ?thesis
    proof cases
      case 1
      then show ?thesis using at [of k] at [of ?p] p assms(3,4) less_asym by simp
    next
      case 2
      then show ?thesis using at [of i] at [of k] p i q kid [OF i(1,2)] by simp
    next
      case 3
      then have "\<not> lt (vs ! i) (vs ! ?p)" using ok [OF i(1,2)] by simp
      then have "\<not> lt (vs ! i) (vs ! k)" using less_below assms(4) by blast
      then show ?thesis using 3 at [of i] at [of ?p] p i by simp
    next
      case 4
      then show ?thesis using at [of i] at [OF q(2)] i ok [OF i(1,2)] by simp
    qed
  qed
  have second: "\<not> lt (?ws ! i) (?ws ! ((?p - 1) div 2))" if i: "0 < i" "i < length vs" "(i - 1) div 2 = ?p" "0 < ?p" for i
  proof -
    let ?g = "(?p - 1) div 2"
    have g: "?g < ?p" "?g < length vs" using half_less [OF i(4)] p by linarith+
    have pg: "\<not> lt (vs ! ?p) (vs ! ?g)" using ok [of ?p] i(4) p by simp
    have wg: "?ws ! ?g = vs ! ?g" using at [OF g(2)] g p by simp
    show ?thesis
    proof (cases "i = k")
      case True
      then show ?thesis using at [of k] assms(3) p pg wg by simp
    next
      case False
      then have "\<not> lt (vs ! i) (vs ! ?p)" using ok [OF i(1,2)] i(3) by simp
      then have "\<not> lt (vs ! i) (vs ! ?g)" using pg by (rule not_less_trans)
      moreover have "i \<noteq> ?p" using half_less [OF i(1)] i(3) by linarith
      ultimately show ?thesis using at [OF i(2)] False wg by (simp only: if_False not_False_eq_True)
    qed
  qed
  show ?thesis using first second by (simp add: upInv_def)
qed

lemma siftUp_heap:
  "upInv lt vs k \<Longrightarrow> k < length vs \<Longrightarrow> k \<le> 2147483648 \<Longrightarrow> isHeap lt (siftUp lt vs k) \<and> mset (siftUp lt vs k) = mset vs"
proof (induction k arbitrary: vs rule: less_induct)
  case (less k)
  show ?case
  proof (cases "0 < k \<and> lt (vs ! k) (vs ! ((k - 1) div 2))")
    case True
    let ?p = "(k - 1) div 2"
    have pi: "parentIndex k = ?p" using True less.prems(3) by (intro parentIndex_div) simp_all
    have "siftUp lt vs k = siftUp lt (swap vs k ?p) ?p" using True pi by (subst siftUp.simps) simp
    moreover have "upInv lt (swap vs k ?p) ?p" using upInv_swap [OF less.prems(1) _ less.prems(2)] True by blast
    moreover have "?p < k" "?p < length vs" using True less.prems(2) by auto
    ultimately show ?thesis
      using less.IH [of ?p "swap vs k ?p"] swap_mset [of k vs ?p] less.prems(2,3) by simp
  next
    case False
    have pi: "0 < k \<Longrightarrow> parentIndex k = (k - 1) div 2" using less.prems(3) by (intro parentIndex_div) simp_all
    then have "siftUp lt vs k = vs" using False by (subst siftUp.simps) auto
    moreover have "isHeap lt vs"
      using less.prems(1) False unfolding isHeap_def upInv_def by (metis (no_types, lifting))
    ultimately show ?thesis by simp
  qed
qed

lemma child_parent: "0 < (i :: nat) \<Longrightarrow> (i - 1) div 2 = k \<longleftrightarrow> i = 2 * k + 1 \<or> i = 2 * k + 2"
  by presburger

lemma downInv_swap:
  assumes inv: "downInv lt vs k" and left: "2 * k + 1 < length vs" and c: "c = smallerChild lt vs (2 * k + 1) (2 * k + 2)"
    and less: "lt (vs ! c) (vs ! k)"
  shows "downInv lt (swap vs k c) c"
proof -
  let ?ws = "swap vs k c"
  have cc: "c = 2 * k + 1 \<or> c = 2 * k + 2" "c < length vs" "(c - 1) div 2 = k" "k < c"
    using left by (auto simp: c smallerChild_def)
  have least: "\<not> lt (vs ! i) (vs ! c)" if "i = 2 * k + 1 \<or> i = 2 * k + 2" "i < length vs" for i
    using that less_asym by (auto simp: c smallerChild_def)
  have kl: "k < length vs" using cc by linarith
  have at: "?ws ! i = (if i = c then vs ! k else if i = k then vs ! c else vs ! i)" if "i < length vs" for i
    using nth_swap [of k vs c i] cc kl that by simp
  have ok: "\<not> lt (vs ! i) (vs ! ((i - 1) div 2))" if "0 < i" "i < length vs" "(i - 1) div 2 \<noteq> k" for i
    using inv that by (simp add: downInv_def)
  have kid: "\<not> lt (vs ! i) (vs ! ((k - 1) div 2))" if "0 < i" "i < length vs" "(i - 1) div 2 = k" "0 < k" for i
    using inv that by (simp add: downInv_def)
  have first: "\<not> lt (?ws ! i) (?ws ! ((i - 1) div 2))" if i: "0 < i" "i < length vs" "(i - 1) div 2 \<noteq> c" for i
  proof (cases "(i - 1) div 2 = k")
    case True
    then have wk: "?ws ! ((i - 1) div 2) = vs ! c" using at [OF kl] cc(4) by simp
    show ?thesis
    proof (cases "i = c")
      case True
      then show ?thesis using at [of c] cc(2) wk less less_asym by simp
    next
      case False
      have "i \<noteq> k" using True i(1) by auto
      then show ?thesis using at [OF i(2)] False wk least [of i] True i(1,2) child_parent by auto
    qed
  next
    case nk: False
    have q: "(i - 1) div 2 < length vs" using i by auto
    have wq: "?ws ! ((i - 1) div 2) = vs ! ((i - 1) div 2)" using at [OF q] nk i(3) by simp
    show ?thesis
    proof (cases "i = k")
      case True
      then show ?thesis using at [OF kl] cc(4) wq kid [of c] cc i(1) by simp
    next
      case False
      moreover have "i \<noteq> c" using nk cc(3) by auto
      ultimately show ?thesis using at [OF i(2)] wq ok [OF i(1,2) nk] by simp
    qed
  qed
  have second: "\<not> lt (?ws ! i) (?ws ! ((c - 1) div 2))" if i: "0 < i" "i < length vs" "(i - 1) div 2 = c" for i
  proof -
    have "i \<noteq> c" "i \<noteq> k" using i cc(4) by auto
    then have "?ws ! i = vs ! i" using at [OF i(2)] by simp
    moreover have "?ws ! ((c - 1) div 2) = vs ! c" using at [OF kl] cc by simp
    moreover have "\<not> lt (vs ! i) (vs ! c)" using ok [OF i(1,2)] i(3) cc(4) by simp
    ultimately show ?thesis by simp
  qed
  show ?thesis using first second by (simp add: downInv_def)
qed

lemma siftDown_heap:
  "downInv lt vs k \<Longrightarrow> k < length vs \<Longrightarrow> isHeap lt (siftDown lt vs k) \<and> mset (siftDown lt vs k) = mset vs"
proof (induction "length vs - k" arbitrary: vs k rule: less_induct)
  case less
  define c where "c = smallerChild lt vs (2 * k + 1) (2 * k + 2)"
  show ?case
  proof (cases "2 * k + 1 < length vs \<and> lt (vs ! c) (vs ! k)")
    case True
    have cc: "c < length vs" "k < c" using True by (auto simp: c_def smallerChild_def)
    have "siftDown lt vs k = siftDown lt (swap vs k c) c"
      using True by (subst siftDown.simps) (simp add: Let_def c_def leftChildIndex_def rightChildIndex_def)
    moreover have "downInv lt (swap vs k c) c" using downInv_swap [OF less.prems(1) _ c_def] True by blast
    ultimately show ?thesis
      using less.hyps [of "swap vs k c" c] swap_mset [of k vs c] cc less.prems(2) by simp
  next
    case False
    then have "siftDown lt vs k = vs"
      by (subst siftDown.simps) (auto simp: Let_def c_def leftChildIndex_def rightChildIndex_def)
    moreover have "\<not> lt (vs ! i) (vs ! k)" if i: "0 < i" "i < length vs" "(i - 1) div 2 = k" for i
    proof -
      have k: "i = 2 * k + 1 \<or> i = 2 * k + 2" "2 * k + 1 < length vs" using i child_parent [of i k] by auto
      then have ck: "\<not> lt (vs ! c) (vs ! k)" using False by blast
      have "\<not> lt (vs ! i) (vs ! c)" using k i(2) less_asym by (auto simp: c_def smallerChild_def)
      then show ?thesis using not_less_trans ck by blast
    qed
    then have "isHeap lt vs" using less.prems(1) unfolding isHeap_def downInv_def by (metis (no_types, lifting))
    ultimately show ?thesis by simp
  qed
qed

lemma heap_least: "isHeap lt vs \<Longrightarrow> i < length vs \<Longrightarrow> \<not> lt (vs ! i) (vs ! 0)"
proof (induction i rule: less_induct)
  case (less i)
  show ?case
  proof (cases "i = 0")
    case True
    then show ?thesis using less_asym by blast
  next
    case False
    then have "\<not> lt (vs ! i) (vs ! ((i - 1) div 2))" using less.prems by (simp add: isHeap_def)
    moreover have "\<not> lt (vs ! ((i - 1) div 2)) (vs ! 0)" using False less.prems by (intro less.IH) auto
    ultimately show ?thesis using not_less_trans by blast
  qed
qed

lemma heapPush_ok:
  assumes "isHeap lt vs" "length vs \<le> 2147483648"
  shows "isHeap lt (heapPush lt v vs)" "mset (heapPush lt v vs) = add_mset v (mset vs)"
proof -
  have "upInv lt (vs @ [v]) (length vs)"
    unfolding upInv_def
  proof (intro conjI allI impI)
    fix i assume i: "0 < i \<and> i < length (vs @ [v]) \<and> i \<noteq> length vs"
    then have "i < length vs" "(i - 1) div 2 < length vs" using half_less [of i] by auto
    then show "\<not> lt ((vs @ [v]) ! i) ((vs @ [v]) ! ((i - 1) div 2))" using assms(1) i by (simp add: isHeap_def nth_append)
  next
    fix i assume "0 < i \<and> i < length (vs @ [v]) \<and> (i - 1) div 2 = length vs \<and> 0 < length vs"
    then show "\<not> lt ((vs @ [v]) ! i) ((vs @ [v]) ! ((length vs - 1) div 2))" using half_less [of i] by auto
  qed
  then have "isHeap lt (siftUp lt (vs @ [v]) (length vs)) \<and> mset (siftUp lt (vs @ [v]) (length vs)) = mset (vs @ [v])"
    using assms(2) by (intro siftUp_heap) simp_all
  then show "isHeap lt (heapPush lt v vs)" "mset (heapPush lt v vs) = add_mset v (mset vs)"
    by (simp_all add: heapPush_def)
qed

lemma heapPop_ok:
  assumes "isHeap lt vs"
  shows "case heapPop lt vs of None \<Rightarrow> vs = []
    | Some (r, ws) \<Rightarrow> isHeap lt ws \<and> mset vs = add_mset r (mset ws) \<and> (\<forall>x\<in>set vs. \<not> lt x r)"
proof (cases vs rule: rev_cases)
  case (snoc ys l)
  have root: "\<not> lt x (vs ! 0)" if "x \<in> set vs" for x
    using that heap_least [OF assms] by (metis in_set_conv_nth)
  show ?thesis
  proof (cases ys)
    case Nil
    then show ?thesis using snoc root by (simp add: heapPop_def isHeap_def)
  next
    case (Cons y zs)
    let ?ws = "l # zs"
    have vs: "vs = y # zs @ [l]" using snoc Cons by simp
    have "downInv lt ?ws 0"
      unfolding downInv_def
    proof (intro conjI allI impI)
      fix i assume i: "0 < i \<and> i < length ?ws \<and> (i - 1) div 2 \<noteq> 0"
      have "\<not> lt (vs ! i) (vs ! ((i - 1) div 2))" using i assms vs unfolding isHeap_def by (metis One_nat_def add_Suc_right length_Cons length_append_singleton less_SucI)
      moreover have "vs ! j = ?ws ! j" if "0 < j" "j < length ?ws" for j using vs that by (cases j) (simp_all add: nth_append)
      ultimately show "\<not> lt (?ws ! i) (?ws ! ((i - 1) div 2))" using i by auto
    qed simp
    then have "isHeap lt (siftDown lt ?ws 0) \<and> mset (siftDown lt ?ws 0) = mset ?ws" by (intro siftDown_heap) simp_all
    moreover have "heapPop lt vs = Some (y, siftDown lt ?ws 0)" by (simp add: heapPop_def vs Let_def butlast_append)
    ultimately show ?thesis using vs root by simp
  qed
qed (simp add: heapPop_def)

end

end
