(* ===== verification/TopoSort.thy ===== *)
theory TopoSort
  imports BinaryHeap JsString
begin

text \<open>
  \<open>commit/topological-sort.ts\<close> and \<open>commit/priority-queue.ts\<close>: git's topological order over a list of commits, with
  the stack of \<open>--topo-order\<close> or a date-ordered heap as its queue. Both queues meet the contract the sort relies on;
  the sort is proved once, against the contract.
\<close>

section \<open>Model\<close>

datatype topoSortOrder = GraphOrder | CommitDateOrder | AuthorDateOrder

record topoCommit =
  topoId :: jsstr
  topoParents :: "jsstr list"
  authorTime :: int
  committerTime :: int

record dated =
  datedDate :: int
  datedArrival :: nat
  datedCommit :: topoCommit

definition precedesByArrival :: "dated \<Rightarrow> dated \<Rightarrow> bool" where
  "precedesByArrival a b \<longleftrightarrow>
     datedDate b < datedDate a \<or> (datedDate a = datedDate b \<and> datedArrival a < datedArrival b)"

text \<open>The \<open>Map\<close> from ids to pending commits, in insertion order: setting a present key keeps its place.\<close>

type_synonym pending = "(jsstr \<times> topoCommit \<times> int) list"

fun pendingSet :: "jsstr \<Rightarrow> topoCommit \<times> int \<Rightarrow> pending \<Rightarrow> pending" where
  "pendingSet k v [] = [(k, v)]"
| "pendingSet k v ((k', v') # m) = (if k' = k then (k, v) # m else (k', v') # pendingSet k v m)"

definition countChild :: "pending \<Rightarrow> jsstr \<Rightarrow> pending" where
  "countChild m parent =
     (case map_of m parent of None \<Rightarrow> m | Some (c, n) \<Rightarrow> pendingSet parent (c, n + 1) m)"

definition pendingChildrenOf :: "topoCommit list \<Rightarrow> pending" where
  "pendingChildrenOf commits =
     (let m = foldl (\<lambda>m c. pendingSet (topoId c) (c, 0) m) [] commits
      in foldl (\<lambda>m c. foldl countChild m (topoParents c)) m commits)"

definition releaseParent ::
    "(topoCommit \<Rightarrow> 'q \<Rightarrow> 'q) \<Rightarrow> pending \<times> 'q \<Rightarrow> jsstr \<Rightarrow> pending \<times> 'q" where
  "releaseParent put s parent =
     (case map_of (fst s) parent of
        None \<Rightarrow> s
      | Some (c, n) \<Rightarrow>
          (pendingSet parent (c, n - 1) (fst s), if n - 1 = 0 then put c (snd s) else snd s))"

definition releaseParents ::
    "(topoCommit \<Rightarrow> 'q \<Rightarrow> 'q) \<Rightarrow> topoCommit \<Rightarrow> pending \<Rightarrow> 'q \<Rightarrow> pending \<times> 'q" where
  "releaseParents put c m q = foldl (releaseParent put) (m, q) (topoParents c)"

partial_function (option) topoLoop ::
    "(topoCommit \<Rightarrow> 'q \<Rightarrow> 'q) \<Rightarrow> ('q \<Rightarrow> (topoCommit \<times> 'q) option) \<Rightarrow> topoCommit list \<Rightarrow> pending \<Rightarrow> 'q \<Rightarrow>
     topoCommit list option" where
  "topoLoop put get shown m q =
     (case get q of
        None \<Rightarrow> Some shown
      | Some (c, q') \<Rightarrow>
          let r = releaseParents put c m q' in topoLoop put get (shown @ [c]) (fst r) (snd r))"

text \<open>The stack grows and shrinks at the end of its array.\<close>

definition stackPut :: "topoCommit \<Rightarrow> topoCommit list \<Rightarrow> topoCommit list" where
  "stackPut c st = st @ [c]"

definition stackGet :: "topoCommit list \<Rightarrow> (topoCommit \<times> topoCommit list) option" where
  "stackGet st = (if st = [] then None else Some (last st, butlast st))"

definition stackOf :: "topoCommit list \<Rightarrow> topoCommit list" where
  "stackOf tips = List.rev tips"

text \<open>The heap and the arrival counter.\<close>

type_synonym dateQueue = "dated list \<times> nat"

definition datePut :: "(topoCommit \<Rightarrow> int) \<Rightarrow> topoCommit \<Rightarrow> dateQueue \<Rightarrow> dateQueue" where
  "datePut dateOf c q =
     (heapPush precedesByArrival \<lparr>datedDate = dateOf c, datedArrival = snd q, datedCommit = c\<rparr> (fst q), snd q + 1)"

definition dateGet :: "dateQueue \<Rightarrow> (topoCommit \<times> dateQueue) option" where
  "dateGet q = map_option (\<lambda>(d, h). (datedCommit d, (h, snd q))) (heapPop precedesByArrival (fst q))"

definition dateQueueOf :: "topoCommit list \<Rightarrow> (topoCommit \<Rightarrow> int) \<Rightarrow> dateQueue" where
  "dateQueueOf tips dateOf = foldl (\<lambda>q c. datePut dateOf c q) ([], 0) tips"

definition sortInTopologicalOrder :: "topoCommit list \<Rightarrow> topoSortOrder \<Rightarrow> topoCommit list option" where
  "sortInTopologicalOrder commits sortOrder =
     (let m = pendingChildrenOf commits;
          tips = map (\<lambda>e. fst (snd e)) (filter (\<lambda>e. snd (snd e) = 0) m)
      in case sortOrder of
           GraphOrder \<Rightarrow> topoLoop stackPut stackGet [] m (stackOf tips)
         | CommitDateOrder \<Rightarrow> topoLoop (datePut committerTime) dateGet [] m (dateQueueOf tips committerTime)
         | AuthorDateOrder \<Rightarrow> topoLoop (datePut authorTime) dateGet [] m (dateQueueOf tips authorTime))"

section \<open>The queues\<close>

text \<open>A queue returns what was put into it, each element once, in an order of its own.\<close>

locale topo_queue =
  fixes put :: "topoCommit \<Rightarrow> 'q \<Rightarrow> 'q"
    and get :: "'q \<Rightarrow> (topoCommit \<times> 'q) option"
    and contents :: "'q \<Rightarrow> topoCommit multiset"
    and ok :: "'q \<Rightarrow> bool"
  assumes put_ok: "ok q \<Longrightarrow> size (contents q) \<le> 2147483648 \<Longrightarrow> ok (put c q) \<and> contents (put c q) = add_mset c (contents q)"
    and get_ok: "ok q \<Longrightarrow> case get q of None \<Rightarrow> contents q = {#} | Some (c, q') \<Rightarrow> ok q' \<and> contents q = add_mset c (contents q')"

interpretation commit_stack: topo_queue stackPut stackGet mset "\<lambda>_. True"
proof
  fix q :: "topoCommit list" and c
  show "True \<and> mset (stackPut c q) = add_mset c (mset q)" by (simp add: stackPut_def)
  show "case stackGet q of None \<Rightarrow> mset q = {#} | Some (c, q') \<Rightarrow> True \<and> mset q = add_mset c (mset q')"
    by (cases q rule: rev_cases) (simp_all add: stackGet_def)
qed

interpretation arrival_order: heap_order precedesByArrival
  by unfold_locales (auto simp: precedesByArrival_def)

interpretation date_queue: topo_queue "datePut dateOf" dateGet "\<lambda>q. image_mset datedCommit (mset (fst q))"
  "\<lambda>q. isHeap precedesByArrival (fst q)" for dateOf
proof
  fix q :: dateQueue and c
  assume h: "isHeap precedesByArrival (fst q)"
  show "isHeap precedesByArrival (fst (datePut dateOf c q)) \<and>
      image_mset datedCommit (mset (fst (datePut dateOf c q))) = add_mset c (image_mset datedCommit (mset (fst q)))"
    if "size (image_mset datedCommit (mset (fst q))) \<le> 2147483648"
    using arrival_order.heapPush_ok [OF h] that by (simp add: datePut_def)
  show "case dateGet q of None \<Rightarrow> image_mset datedCommit (mset (fst q)) = {#}
      | Some (c, q') \<Rightarrow> isHeap precedesByArrival (fst q') \<and>
          image_mset datedCommit (mset (fst q)) = add_mset c (image_mset datedCommit (mset (fst q')))"
    using arrival_order.heapPop_ok [OF h] by (auto simp: dateGet_def split: option.splits)
qed

section \<open>Counting children\<close>

definition occ :: "jsstr \<Rightarrow> topoCommit multiset \<Rightarrow> nat" where
  "occ x cs = sum_mset (image_mset (\<lambda>c. count_list (topoParents c) x) cs)"

lemma occ_simps [simp]: "occ x {#} = 0" "occ x (add_mset c cs) = count_list (topoParents c) x + occ x cs"
  "occ x (as + bs) = occ x as + occ x bs"
  by (simp_all add: occ_def)

text \<open>The pending table that assigns \<open>f\<close> to every listed commit.\<close>

definition table :: "topoCommit list \<Rightarrow> (jsstr \<Rightarrow> int) \<Rightarrow> pending" where
  "table cs f = map (\<lambda>c. (topoId c, c, f (topoId c))) cs"

lemma table_lookup:
  assumes "distinct (map topoId cs)"
  shows "map_of (table cs f) k = Some (c, n) \<longleftrightarrow> c \<in> set cs \<and> topoId c = k \<and> n = f k"
proof -
  have "distinct (map fst (table cs f))" using assms by (simp add: table_def comp_def)
  then have "map_of (table cs f) k = Some (c, n) \<longleftrightarrow> (k, c, n) \<in> set (table cs f)" by simp
  then show ?thesis by (auto simp: table_def)
qed

lemma table_miss: "map_of (table cs f) k = None \<longleftrightarrow> k \<notin> topoId ` set cs"
  by (auto simp: map_of_eq_None_iff table_def image_image)

lemma pendingSet_other: "k \<notin> fst ` set m \<Longrightarrow> pendingSet k v m = m @ [(k, v)]"
  by (induction k v m rule: pendingSet.induct) auto

lemma pendingSet_table:
  assumes "distinct (map topoId cs)" "c \<in> set cs" "topoId c = k"
  shows "pendingSet k (c, n) (table cs f) = table cs (f(k := n))"
  using assms
proof (induction cs)
  case (Cons d cs)
  show ?case
  proof (cases "topoId d = k")
    case True
    then have "d = c" using Cons.prems by (auto simp: image_iff)
    moreover have "\<forall>e\<in>set cs. topoId e \<noteq> k" using Cons.prems(1) True by (auto simp: image_iff)
    ultimately show ?thesis using True by (auto simp: table_def)
  next
    case False
    then show ?thesis using Cons by (auto simp: table_def)
  qed
qed simp

lemma build_table:
  assumes "distinct (map topoId cs)"
  shows "foldl (\<lambda>m c. pendingSet (topoId c) (c, 0) m) [] cs = table cs (\<lambda>_. 0)"
  using assms
proof (induction cs rule: rev_induct)
  case (snoc c cs)
  then have "topoId c \<notin> fst ` set (table cs (\<lambda>_. 0))" by (auto simp: table_def image_image)
  then have "pendingSet (topoId c) (c, 0) (table cs (\<lambda>_. 0)) = table cs (\<lambda>_. 0) @ [(topoId c, c, 0)]"
    by (rule pendingSet_other)
  then show ?case using snoc by (simp add: table_def)
qed (simp add: table_def)

lemma countChild_table:
  assumes "distinct (map topoId cs)"
  shows "countChild (table cs f) p = table cs (f(p := f p + 1))"
proof (cases "map_of (table cs f) p")
  case None
  then have "p \<notin> topoId ` set cs" by (simp add: table_miss)
  then have "table cs (f(p := f p + 1)) = table cs f" by (auto simp: table_def)
  then show ?thesis using None by (simp add: countChild_def)
next
  case (Some e)
  then obtain c n where "e = (c, n)" "c \<in> set cs" "topoId c = p" "n = f p"
    using table_lookup [OF assms, of f p] by (cases e) auto
  then show ?thesis using Some pendingSet_table [OF assms] by (simp add: countChild_def)
qed

lemma count_parents:
  assumes "distinct (map topoId cs)"
  shows "foldl countChild (table cs f) ps = table cs (\<lambda>x. f x + int (count_list ps x))"
proof (induction ps arbitrary: f)
  case (Cons p ps)
  have "(\<lambda>x. (f(p := f p + 1)) x + int (count_list ps x)) = (\<lambda>x. f x + int (count_list (p # ps) x))"
    by (intro ext) simp
  then show ?case using Cons [of "f(p := f p + 1)"] by (simp only: foldl_Cons countChild_table [OF assms])
qed (simp add: table_def)

lemma pendingChildrenOf_table:
  assumes "distinct (map topoId cs)"
  shows "pendingChildrenOf cs = table cs (\<lambda>x. int (occ x (mset cs)))"
proof -
  have "foldl (\<lambda>m c. foldl countChild m (topoParents c)) (table cs f) ds = table cs (\<lambda>x. f x + int (occ x (mset ds)))" for f ds
  proof (induction ds arbitrary: f)
    case (Cons d ds)
    then show ?case by (simp add: count_parents [OF assms] add.assoc)
  qed simp
  then show ?thesis by (simp add: pendingChildrenOf_def build_table [OF assms] Let_def)
qed

section \<open>One round of the loop\<close>

text \<open>Listed children of \<open>x\<close> still to show, when the commits \<open>shown\<close> and the released parents \<open>gone\<close> are accounted for.\<close>

definition left :: "topoCommit list \<Rightarrow> topoCommit list \<Rightarrow> jsstr list \<Rightarrow> jsstr \<Rightarrow> int" where
  "left cs shown gone x = int (occ x (mset cs)) - int (occ x (mset shown)) - int (count_list gone x)"

definition ready :: "topoCommit list \<Rightarrow> topoCommit list \<Rightarrow> jsstr list \<Rightarrow> topoCommit multiset" where
  "ready cs shown gone = mset (filter (\<lambda>c. left cs shown gone (topoId c) = 0) cs)"

lemma ready_sub: "ready cs shown gone \<subseteq># mset cs"
  unfolding ready_def by (simp add: mset_filter multiset_filter_subset)

lemma occ_mono: "as \<subseteq># bs \<Longrightarrow> occ x as \<le> occ x bs"
  by (metis le_add1 occ_simps(3) subset_mset.add_diff_inverse)

lemma left_more:
  assumes "mset (shown @ [c]) \<subseteq># mset cs" "topoParents c = gone @ p # rest"
  shows "1 \<le> left cs shown gone p"
  using occ_mono [OF assms(1), of p] assms(2) by (simp add: left_def)

lemma left_step: "left cs shown (gone @ [p]) = (left cs shown gone)(p := left cs shown gone p - 1)"
  by (intro ext) (simp add: left_def)

lemma ready_step:
  assumes d: "distinct (map topoId cs)" and "1 \<le> left cs shown gone p"
  shows "c \<in> set cs \<Longrightarrow> topoId c = p \<Longrightarrow>
      ready cs shown (gone @ [p]) = (if left cs shown gone p = 1 then add_mset c (ready cs shown gone) else ready cs shown gone)"
    and "p \<notin> topoId ` set cs \<Longrightarrow> ready cs shown (gone @ [p]) = ready cs shown gone"
proof -
  have other: "filter (\<lambda>c. left cs shown (gone @ [p]) (topoId c) = 0) ds = filter (\<lambda>c. left cs shown gone (topoId c) = 0) ds"
    if "p \<notin> topoId ` set ds" for ds
    using that by (intro filter_cong refl) (auto simp: left_step)
  show "p \<notin> topoId ` set cs \<Longrightarrow> ready cs shown (gone @ [p]) = ready cs shown gone"
    unfolding ready_def by (rule arg_cong [OF other])
  assume c: "c \<in> set cs" "topoId c = p"
  then obtain as bs where cs: "cs = as @ c # bs" by (auto dest: split_list)
  have "p \<notin> topoId ` set as" "p \<notin> topoId ` set bs" using d c(2) unfolding cs by auto
  note o = this [THEN other]
  show "ready cs shown (gone @ [p]) = (if left cs shown gone p = 1 then add_mset c (ready cs shown gone) else ready cs shown gone)"
    using o assms(2) c(2) unfolding ready_def by (subst (1 2 4) cs) (simp add: left_step)
qed

text \<open>Every shown commit comes after all of its listed children.\<close>

definition shownInOrder :: "topoCommit list \<Rightarrow> topoCommit list \<Rightarrow> bool" where
  "shownInOrder cs shown \<longleftrightarrow>
     (\<forall>i<length shown. \<forall>c\<in>set cs. topoId (shown ! i) \<in> set (topoParents c) \<longrightarrow> c \<in> set (take i shown))"

context topo_queue
begin

lemma releaseParents_ok:
  assumes d: "distinct (map topoId cs)" and n: "length cs \<le> 2147483648" and sub: "mset (shown @ [c]) \<subseteq># mset cs"
  shows "topoParents c = gone @ rest \<Longrightarrow> ok q \<Longrightarrow> contents q + mset (shown @ [c]) = ready cs shown gone \<Longrightarrow>
    \<exists>q'. foldl (releaseParent put) (table cs (left cs shown gone), q) rest = (table cs (left cs shown (gone @ rest)), q') \<and>
      ok q' \<and> contents q' + mset (shown @ [c]) = ready cs shown (gone @ rest)"
proof (induction rest arbitrary: gone q)
  case (Cons p rest)
  have pos: "1 \<le> left cs shown gone p" by (rule left_more [OF sub Cons.prems(1)])
  have "\<exists>q'. releaseParent put (table cs (left cs shown gone), q) p = (table cs (left cs shown (gone @ [p])), q') \<and>
      ok q' \<and> contents q' + mset (shown @ [c]) = ready cs shown (gone @ [p])"
  proof (cases "map_of (table cs (left cs shown gone)) p")
    case None
    then have m: "p \<notin> topoId ` set cs" by (simp add: table_miss)
    then have "table cs (left cs shown (gone @ [p])) = table cs (left cs shown gone)"
      by (auto simp: table_def left_step)
    then show ?thesis using None Cons.prems(2,3) ready_step(2) [OF d pos m] by (simp add: releaseParent_def)
  next
    case (Some e)
    then obtain b where e: "e = (b, left cs shown gone p)" "b \<in> set cs" "topoId b = p"
      using table_lookup [OF d, of "left cs shown gone" p] by (cases e) auto
    let ?q = "if left cs shown gone p - 1 = 0 then put b q else q"
    have r: "releaseParent put (table cs (left cs shown gone), q) p = (table cs (left cs shown (gone @ [p])), ?q)"
      using Some e pendingSet_table [OF d e(2,3)] by (simp add: releaseParent_def left_step)
    have "contents q \<subseteq># mset cs" using Cons.prems(3) ready_sub [of cs shown gone] by (metis mset_subset_eq_add_left subset_mset.order_trans)
    then have "size (contents q) \<le> length cs" by (metis size_mset size_mset_mono)
    then have put: "ok (put b q) \<and> contents (put b q) = add_mset b (contents q)"
      using put_ok [OF Cons.prems(2)] n by simp
    then show ?thesis using r Cons.prems(2,3) ready_step(1) [OF d pos e(2,3)] by auto
  qed
  then obtain q1 where q1: "releaseParent put (table cs (left cs shown gone), q) p = (table cs (left cs shown (gone @ [p])), q1)"
    "ok q1" "contents q1 + mset (shown @ [c]) = ready cs shown (gone @ [p])" by blast
  then show ?case using Cons.IH [of "gone @ [p]" q1] Cons.prems(1) by simp
qed simp

lemma topoLoop_ok:
  assumes d: "distinct (map topoId cs)" and n: "length cs \<le> 2147483648"
  shows "ok q \<Longrightarrow> contents q + mset shown = ready cs shown [] \<Longrightarrow> shownInOrder cs shown \<Longrightarrow>
    \<exists>res. topoLoop put get shown (table cs (left cs shown [])) q = Some res \<and> mset res = ready cs res [] \<and> shownInOrder cs res"
proof (induction "length cs - length shown" arbitrary: shown q rule: less_induct)
  case less
  have g: "case get q of None \<Rightarrow> contents q = {#} | Some (c, q') \<Rightarrow> ok q' \<and> contents q = add_mset c (contents q')"
    by (rule get_ok [OF less.prems(1)])
  show ?case
  proof (cases "get q")
    case None
    then show ?thesis using g less.prems(2,3) by (subst topoLoop.simps) simp
  next
    case (Some e)
    then obtain c q0 where e: "get q = Some (c, q0)" "ok q0" "contents q = add_mset c (contents q0)"
      using g by (cases e) auto
    have all: "contents q0 + mset (shown @ [c]) = ready cs shown []" using less.prems(2) e(3) by simp
    have sub: "mset (shown @ [c]) \<subseteq># mset cs"
      using ready_sub [of cs shown "[]"] unfolding all [symmetric] by (metis mset_subset_eq_add_right subset_mset.order_trans)
    obtain q' where q': "releaseParents put c (table cs (left cs shown [])) q0 = (table cs (left cs shown (topoParents c)), q')"
      "ok q'" "contents q' + mset (shown @ [c]) = ready cs shown (topoParents c)"
      using releaseParents_ok [OF d n sub, of "[]" "topoParents c" q0] e(2) all unfolding releaseParents_def by auto
    have l: "left cs shown (topoParents c) = left cs (shown @ [c]) []" by (intro ext) (simp add: left_def)
    have r: "ready cs shown (topoParents c) = ready cs (shown @ [c]) []" by (simp add: ready_def l)
    have len: "length shown < length cs" using size_mset_mono [OF sub] by simp
    have "c \<in># ready cs shown []" using all by (metis add_mset_add_single mset_append union_iff multi_member_last mset.simps)
    then have zero: "left cs shown [] (topoId c) = 0" by (auto simp: ready_def)
    have "b \<in> set shown" if b: "b \<in> set cs" "topoId c \<in> set (topoParents b)" for b
    proof (rule ccontr)
      assume nb: "b \<notin> set shown"
      have "mset shown \<subseteq># mset cs" using sub by (metis mset_append mset_subset_eq_add_left subset_mset.order_trans)
      then obtain rest where rest: "mset cs = mset shown + rest" by (metis subset_mset.add_diff_inverse)
      then have "b \<in># rest" using b(1) nb by (metis set_mset_mset union_iff)
      then obtain rest' where "rest = add_mset b rest'" by (metis mset_add)
      moreover have "0 < count_list (topoParents b) (topoId c)" using b(2) by (metis count_list_0_iff gr0I)
      ultimately show False using zero rest by (simp add: left_def)
    qed
    then have order: "shownInOrder cs (shown @ [c])"
      using less.prems(3) by (auto simp: shownInOrder_def nth_append less_Suc_eq)
    have "topoLoop put get shown (table cs (left cs shown [])) q = topoLoop put get (shown @ [c]) (table cs (left cs (shown @ [c]) [])) q'"
      using e(1) q'(1) l by (subst topoLoop.simps) simp
    moreover have "\<exists>res. topoLoop put get (shown @ [c]) (table cs (left cs (shown @ [c]) [])) q' = Some res \<and>
        mset res = ready cs res [] \<and> shownInOrder cs res"
      using len q'(2,3) r order by (intro less.hyps) simp_all
    ultimately show ?thesis by simp
  qed
qed

end

text \<open>The child relation among the listed commits.\<close>

definition childOf :: "topoCommit list \<Rightarrow> (topoCommit \<times> topoCommit) set" where
  "childOf cs = {(c, p). c \<in> set cs \<and> p \<in> set cs \<and> topoId p \<in> set (topoParents c)}"

lemma all_shown:
  assumes "mset res = ready cs res []" "acyclic (childOf cs)" "distinct cs"
  shows "set res = set cs"
proof (rule ccontr)
  assume ne: "set res \<noteq> set cs"
  have sub: "mset res \<subseteq># mset cs" unfolding assms(1) by (rule ready_sub)
  then have "set res \<subseteq> set cs" by (metis set_mset_mono set_mset_mset)
  then obtain u where u: "u \<in> set cs - set res" using ne by blast
  have "finite (childOf cs)" by (rule finite_subset [of _ "set cs \<times> set cs"]) (auto simp: childOf_def)
  then have "wf (childOf cs)" using assms(2) by (rule finite_acyclic_wf)
  then obtain z where z: "z \<in> set cs - set res" "\<And>c. (c, z) \<in> childOf cs \<Longrightarrow> c \<notin> set cs - set res"
    using u by (rule wfE_min) blast
  obtain rest where rest: "mset cs = mset res + rest" using sub by (metis subset_mset.add_diff_inverse)
  have "left cs res [] (topoId z) \<noteq> 0"
  proof
    assume "left cs res [] (topoId z) = 0"
    then have "z \<in># ready cs res []" using z(1) by (simp add: ready_def)
    then show False using z(1) unfolding assms(1) [symmetric] by simp
  qed
  then have "occ (topoId z) rest \<noteq> 0" using rest by (simp add: left_def)
  then obtain c where c: "c \<in># rest" "topoId z \<in> set (topoParents c)"
    by (auto simp: occ_def sum_mset_0_iff count_list_0_iff)
  moreover have "c \<in> set cs" using c(1) rest by (metis set_mset_mset union_iff)
  ultimately have "c \<in> set res" using z by (auto simp: childOf_def)
  then have "0 < count (mset res) c" "0 < count rest c" using c(1) by simp_all
  moreover have "count (mset cs) c \<le> 1" using assms(3) by (simp add: distinct_count_atmost_1)
  ultimately show False unfolding rest count_union by linarith
qed

section \<open>Properties\<close>

lemma dateQueueOf_ok:
  "length tips \<le> 2147483648 \<Longrightarrow> isHeap precedesByArrival (fst (dateQueueOf tips dateOf)) \<and>
    image_mset datedCommit (mset (fst (dateQueueOf tips dateOf))) = mset tips"
proof (induction tips rule: rev_induct)
  case Nil
  show ?case by (simp add: dateQueueOf_def isHeap_def)
next
  case (snoc c tips)
  let ?q = "dateQueueOf tips dateOf"
  have ih: "isHeap precedesByArrival (fst ?q)" "image_mset datedCommit (mset (fst ?q)) = mset tips" using snoc by simp_all
  have "size (image_mset datedCommit (mset (fst ?q))) \<le> 2147483648" unfolding ih(2) using snoc.prems by simp
  then show ?case using date_queue.put_ok [OF ih(1), of dateOf c] ih(2) by (simp add: dateQueueOf_def)
qed

text \<open>C11: The topological sort shows children before parents and loses nothing: for any order and any list of at most
  \<open>2^31\<close> commits with distinct ids, \<open>sortInTopologicalOrder\<close> returns, each commit it returns is a listed one that
  appears once and only after every listed commit that names it as a parent, and when the listed history has no
  cycle every commit is returned.\<close>

theorem topological_order:
  assumes "distinct (map topoId commits)" "length commits \<le> 2147483648"
  shows "\<exists>res. sortInTopologicalOrder commits sortOrder = Some res \<and> distinct res \<and> set res \<subseteq> set commits \<and>
    shownInOrder commits res \<and> (acyclic (childOf commits) \<longrightarrow> set res = set commits)"
proof -
  let ?m = "pendingChildrenOf commits"
  let ?tips = "map (\<lambda>e. fst (snd e)) (filter (\<lambda>e. snd (snd e) = 0) ?m)"
  have m: "?m = table commits (left commits [] [])"
    by (simp add: pendingChildrenOf_table [OF assms(1)] left_def [abs_def])
  then have tips: "?tips = filter (\<lambda>c. left commits [] [] (topoId c) = 0) commits"
    by (simp add: table_def filter_map comp_def)
  then have ready: "mset ?tips = ready commits [] []" by (simp add: ready_def)
  have len: "length ?tips \<le> 2147483648" unfolding tips using assms(2) length_filter_le [of _ commits] le_trans by blast
  have start: "shownInOrder commits []" by (simp add: shownInOrder_def)
  have date: "\<exists>res. topoLoop (datePut dateOf) dateGet [] ?m (dateQueueOf ?tips dateOf) = Some res \<and>
      mset res = ready commits res [] \<and> shownInOrder commits res" for dateOf
    unfolding m using dateQueueOf_ok [OF len] ready start
    by (intro date_queue.topoLoop_ok [OF assms]) (simp_all add: m)
  have stack: "\<exists>res. topoLoop stackPut stackGet [] ?m (stackOf ?tips) = Some res \<and>
      mset res = ready commits res [] \<and> shownInOrder commits res"
    unfolding m using ready start
    by (intro commit_stack.topoLoop_ok [OF assms]) (simp_all add: m stackOf_def)
  obtain res where r: "sortInTopologicalOrder commits sortOrder = Some res" "mset res = ready commits res []" "shownInOrder commits res"
    using date [of committerTime] date [of authorTime] stack
    by (cases sortOrder) (auto simp: sortInTopologicalOrder_def Let_def)
  have d: "distinct commits" using assms(1) by (simp add: distinct_map)
  have sub: "mset res \<subseteq># mset commits" unfolding r(2) by (rule ready_sub)
  then have "set res \<subseteq> set commits" by (metis set_mset_mono set_mset_mset)
  moreover have "distinct res"
  proof -
    obtain l where "mset commits = mset (res @ l)"
      using sub by (metis ex_mset mset_append subset_mset.add_diff_inverse)
    then have "distinct (res @ l)" using d mset_eq_imp_distinct_iff by blast
    then show ?thesis by simp
  qed
  ultimately show ?thesis using r all_shown [OF r(2) _ d] by blast
qed

theorem topological_order_witness:
  "\<exists>res. sortInTopologicalOrder [\<lparr>topoId = [1], topoParents = [], authorTime = 5, committerTime = 5\<rparr>,
      \<lparr>topoId = [2], topoParents = [[1]], authorTime = 4, committerTime = 4\<rparr>] CommitDateOrder = Some res \<and> distinct res"
  using topological_order [of "[\<lparr>topoId = [1], topoParents = [], authorTime = 5, committerTime = 5\<rparr>,
      \<lparr>topoId = [2], topoParents = [[1]], authorTime = 4, committerTime = 4\<rparr>]" CommitDateOrder] by auto

end
