(* ===== verification/PktLine.thy ===== *)
theory PktLine
  imports FileMode
begin

text \<open>
  \<open>protocol/pkt-line.ts\<close> and \<open>protocol/side-band.ts\<close>: the framing of git's wire protocol. A source is the list of the
  chunks it delivers; a generator is the list of what it yields together with the error it ends in, if any.
\<close>

section \<open>Model: pkt-lines\<close>

datatype pktLine = PktData bytes | PktFlush | PktDelim | PktResponseEnd

definition MAX_PKT_LINE_PAYLOAD :: nat where
  "MAX_PKT_LINE_PAYLOAD = 65516"

definition REMOTE_ERROR_PREFIX :: jsstr where
  "REMOTE_ERROR_PREFIX = jslit ''ERR ''"

definition boundedRemoteMessage :: "jsstr \<Rightarrow> jsstr" where
  "boundedRemoteMessage message = take 4096 (sanitizeForDisplay message)"

definition remoteError :: "jsstr \<Rightarrow> tsgit_error" where
  "remoteError message = RemoteError (boundedRemoteMessage message)"

definition sidebandFatal :: "jsstr \<Rightarrow> tsgit_error" where
  "sidebandFatal message = SidebandFatal (boundedRemoteMessage message)"

definition assertNotRemoteError :: "jsstr \<Rightarrow> tsgit_error + unit" where
  "assertNotRemoteError txt =
     (if \<not> startsWith txt REMOTE_ERROR_PREFIX then Inr ()
      else
        let message = drop (length REMOTE_ERROR_PREFIX) txt in
        Inl (remoteError (if message \<noteq> [] \<and> last message = 10 then butlast message else message)))"

definition PKT_LENGTH_BYTES :: nat where
  "PKT_LENGTH_BYTES = 4"

definition MAX_PKT_LINE_FRAME :: nat where
  "MAX_PKT_LINE_FRAME = MAX_PKT_LINE_PAYLOAD + PKT_LENGTH_BYTES"

definition FLUSH_PKT :: bytes where
  "FLUSH_PKT = encode (jslit ''0000'')"

definition DELIM_PKT :: bytes where
  "DELIM_PKT = encode (jslit ''0001'')"

definition RESPONSE_END_PKT :: bytes where
  "RESPONSE_END_PKT = encode (jslit ''0002'')"

definition lengthPrefix :: "nat \<Rightarrow> bytes" where
  "lengthPrefix len = (let hex = toStringRadix 16 (len + 65536) in encode (drop (length hex - 4) hex))"

definition encodePktLine :: "bytes \<Rightarrow> tsgit_error + bytes" where
  "encodePktLine payload =
     (if MAX_PKT_LINE_PAYLOAD < length payload
      then Inl (RangeErrorText (Reason ''pkt-line: payload too large (# > #)'' [int (length payload), int MAX_PKT_LINE_PAYLOAD]))
      else
        let tot = length payload + PKT_LENGTH_BYTES; out = replicate tot 0
        in bindE (setBytes out (lengthPrefix tot) 0) (\<lambda>o1. setBytes o1 payload PKT_LENGTH_BYTES))"

definition checkPayload :: "bytes \<Rightarrow> nat \<Rightarrow> tsgit_error + nat" where
  "checkPayload p tot =
     (if MAX_PKT_LINE_PAYLOAD < length p
      then Inl (RangeErrorText (Reason ''pkt-line: payload too large (# > #)'' [int (length p), int MAX_PKT_LINE_PAYLOAD]))
      else Inr (tot + (length p + PKT_LENGTH_BYTES)))"

definition writePkt :: "bytes \<Rightarrow> bytes \<times> nat \<Rightarrow> tsgit_error + (bytes \<times> nat)" where
  "writePkt p s =
     bindE (setBytes (fst s) (lengthPrefix (length p + PKT_LENGTH_BYTES)) (snd s)) (\<lambda>o1.
       let off = snd s + PKT_LENGTH_BYTES in
       bindE (setBytes o1 p off) (\<lambda>o2. Inr (o2, off + length p)))"

definition concatPktLines :: "bytes list \<Rightarrow> bytes \<Rightarrow> tsgit_error + bytes" where
  "concatPktLines payloads trailer =
     bindE (foldE checkPayload payloads (length trailer)) (\<lambda>tot.
     bindE (foldE writePkt payloads (replicate tot 0, 0)) (\<lambda>(out, off). setBytes out trailer off))"

definition encodePktStream :: "bytes list \<Rightarrow> tsgit_error + bytes" where
  "encodePktStream payloads = concatPktLines payloads FLUSH_PKT"

definition encodePktLines :: "bytes list \<Rightarrow> tsgit_error + bytes" where
  "encodePktLines payloads = concatPktLines payloads []"

text \<open>A digit of \<open>/^[0-9a-f]{4}$/i\<close> and its value.\<close>

definition hexValue :: "nat \<Rightarrow> nat option" where
  "hexValue u =
     (if 48 \<le> u \<and> u \<le> 57 then Some (u - 48)
      else if 97 \<le> u \<and> u \<le> 102 then Some (u - 87)
      else if 65 \<le> u \<and> u \<le> 70 then Some (u - 55) else None)"

definition isHexLength :: "jsstr \<Rightarrow> bool" where
  "isHexLength header \<longleftrightarrow> length header = 4 \<and> list_all (\<lambda>u. hexValue u \<noteq> None) header"

definition parseIntHex :: "jsstr \<Rightarrow> nat" where
  "parseIntHex s = foldl (\<lambda>acc u. acc * 16 + the (hexValue u)) 0 s"

definition parseLength :: "bytes \<Rightarrow> nat \<Rightarrow> tsgit_error + nat" where
  "parseLength view offset =
     (let header = decode (subarray view offset (offset + PKT_LENGTH_BYTES)) in
      if \<not> isHexLength header then Inl (InvalidPktLength header)
      else let len = parseIntHex header in
        if MAX_PKT_LINE_FRAME < len then Inl (PktTooLarge len) else Inr len)"

datatype decision = Control pktLine nat | DataFrame nat | Wait

definition classify :: "nat \<Rightarrow> nat \<Rightarrow> bool \<Rightarrow> tsgit_error + decision" where
  "classify len available v2 =
     (if len = 0 then Inr (Control PktFlush PKT_LENGTH_BYTES)
      else if len = 1 then
        (if \<not> v2 then Inl (PktLengthReserved 1) else Inr (Control PktDelim PKT_LENGTH_BYTES))
      else if len = 2 then
        (if \<not> v2 then Inl (PktLengthReserved 2) else Inr (Control PktResponseEnd PKT_LENGTH_BYTES))
      else if len < PKT_LENGTH_BYTES then Inl (PktLengthReserved len)
      else if available < len then Inr Wait
      else Inr (DataFrame len))"

lemma classify_consume:
  "classify len available v2 = Inr (DataFrame n) \<Longrightarrow> 4 \<le> n \<and> n = len \<and> n \<le> available"
  "classify len available v2 = Inr (Control k n) \<Longrightarrow> n = 4"
  by (auto simp: classify_def PKT_LENGTH_BYTES_def split: if_splits)

function drainFrames :: "bytes \<Rightarrow> nat \<Rightarrow> bool \<Rightarrow> nat \<Rightarrow> pktLine list \<times> (tsgit_error + nat)" where
  "drainFrames view limit v2 offset =
     (if offset + PKT_LENGTH_BYTES \<le> limit then
        (case bindE (parseLength view offset) (\<lambda>len. classify len (limit - offset) v2) of
           Inl e \<Rightarrow> ([], Inl e)
         | Inr Wait \<Rightarrow> ([], Inr offset)
         | Inr (DataFrame n) \<Rightarrow>
             (let r = drainFrames view limit v2 (offset + n)
              in (PktData (subarray view (offset + PKT_LENGTH_BYTES) (offset + n)) # fst r, snd r))
         | Inr (Control k n) \<Rightarrow>
             (let r = drainFrames view limit v2 (offset + n) in (k # fst r, snd r)))
      else ([], Inr offset))"
  by pat_completeness auto
termination
proof (relation "measure (\<lambda>(view, limit, v2, offset). limit - offset)")
  fix view limit v2 offset x2 n
  assume a: "offset + PKT_LENGTH_BYTES \<le> limit" "bindE (parseLength view offset) (\<lambda>len. classify len (limit - offset) v2) = Inr x2" "x2 = DataFrame n"
  then have "4 \<le> n" using classify_consume(1) by (auto simp: bindE_Inr_iff)
  then show "((view, limit, v2, offset + n), view, limit, v2, offset) \<in> measure (\<lambda>(view, limit, v2, offset). limit - offset)"
    using a by (simp add: PKT_LENGTH_BYTES_def)
next
  fix view limit v2 offset x2 k n
  assume a: "offset + PKT_LENGTH_BYTES \<le> limit" "bindE (parseLength view offset) (\<lambda>len. classify len (limit - offset) v2) = Inr x2" "x2 = Control k n"
  then have "n = 4" using classify_consume(2) by (auto simp: bindE_Inr_iff)
  then show "((view, limit, v2, offset + n), view, limit, v2, offset) \<in> measure (\<lambda>(view, limit, v2, offset). limit - offset)"
    using a by (simp add: PKT_LENGTH_BYTES_def)
qed simp

declare drainFrames.simps [simp del]

text \<open>\<open>PktBuffer\<close>: the fixed buffer and how much of it is pending.\<close>

record pktBuffer =
  buf :: bytes
  used :: nat

definition newPktBuffer :: pktBuffer where
  "newPktBuffer = \<lparr>buf = replicate MAX_PKT_LINE_FRAME 0, used = 0\<rparr>"

text \<open>\<open>copyWithin(0, from, stop)\<close>.\<close>

definition copyToFront :: "bytes \<Rightarrow> nat \<Rightarrow> nat \<Rightarrow> bytes" where
  "copyToFront bs start stop = blit bs (subarray bs start stop) 0"

text \<open>The loop need not end when a full buffer yields no frame: not returning is \<^const>\<open>None\<close>.\<close>

partial_function (option) acceptLoop ::
    "bytes \<Rightarrow> bool \<Rightarrow> pktBuffer \<Rightarrow> nat \<Rightarrow> pktLine list \<Rightarrow> (pktLine list \<times> (tsgit_error + pktBuffer)) option" where
  "acceptLoop chunk v2 b chunkOffset out =
     (if chunkOffset < length chunk then
        if 0 < used b then
          let room = length (buf b) - used b;
              amount = min room (length chunk - chunkOffset)
          in case setBytes (buf b) (subarray chunk chunkOffset (chunkOffset + amount)) (used b) of
               Inl e \<Rightarrow> Some (out, Inl e)
             | Inr filled \<Rightarrow>
                 let used1 = used b + amount; r = drainFrames filled used1 v2 0
                 in (case snd r of
                       Inl e \<Rightarrow> Some (out @ fst r, Inl e)
                     | Inr consumed \<Rightarrow>
                         acceptLoop chunk v2 \<lparr>buf = copyToFront filled consumed used1, used = used1 - consumed\<rparr>
                           (chunkOffset + amount) (out @ fst r))
        else
          let r = drainFrames chunk (length chunk) v2 chunkOffset
          in (case snd r of
                Inl e \<Rightarrow> Some (out @ fst r, Inl e)
              | Inr consumed \<Rightarrow>
                  if consumed < length chunk then
                    (case setBytes (buf b) (subarray chunk consumed (length chunk)) 0 of
                       Inl e \<Rightarrow> Some (out @ fst r, Inl e)
                     | Inr filled \<Rightarrow>
                         acceptLoop chunk v2 \<lparr>buf = filled, used = length chunk - consumed\<rparr> (length chunk) (out @ fst r))
                  else acceptLoop chunk v2 b consumed (out @ fst r))
      else Some (out, Inr b))"

fun decodeLoop :: "bytes list \<Rightarrow> bool \<Rightarrow> pktBuffer \<Rightarrow> pktLine list \<Rightarrow> (pktLine list \<times> tsgit_error option) option" where
  "decodeLoop [] v2 b out = Some (out, if 0 < used b then Some (PktTruncated (used b)) else None)"
| "decodeLoop (chunk # chunks) v2 b out =
     (case acceptLoop chunk v2 b 0 [] of
        None \<Rightarrow> None
      | Some (ls, Inl e) \<Rightarrow> Some (out @ ls, Some e)
      | Some (ls, Inr b') \<Rightarrow> decodeLoop chunks v2 b' (out @ ls))"

definition decodePktStream :: "bytes list \<Rightarrow> bool \<Rightarrow> (pktLine list \<times> tsgit_error option) option" where
  "decodePktStream source v2 = decodeLoop source v2 newPktBuffer []"

section \<open>Model: side-band\<close>

text \<open>What the demultiplexer does, in order: yield pack bytes, call back with progress, call back with an error.\<close>

datatype sideBandEvent = Yield bytes | OnProgress jsstr | OnError jsstr

fun demux :: "bool \<Rightarrow> bool \<Rightarrow> pktLine list \<Rightarrow> sideBandEvent list \<times> tsgit_error option" where
  "demux hasProgress hasError [] = ([], None)"
| "demux hasProgress hasError (PktData payload # pkts) =
     (case payload of
        [] \<Rightarrow> ([], Some (InvalidSidebandChannel (- 1)))
      | channel # body \<Rightarrow>
          if channel = 1 then
            (let r = demux hasProgress hasError pkts in (Yield body # fst r, snd r))
          else if channel = 2 then
            (let r = demux hasProgress hasError pkts
             in ((if hasProgress then [OnProgress (decode body)] else []) @ fst r, snd r))
          else if channel = 3 then
            (if hasError then [OnError (decode body)] else [], Some (sidebandFatal (decode body)))
          else ([], Some (InvalidSidebandChannel (u8 channel))))"
| "demux hasProgress hasError (_ # pkts) = ([], None)"

end
