(* ===== verification/PktFraming.thy ===== *)
theory PktFraming
  imports PktLine
begin

text \<open>
  The framing of a whole byte string as specification, and the buffered reader of \<open>protocol/pkt-line.ts\<close> against it: the
  loop over a view, the buffer that carries the incomplete tail, and the stream decoder.
\<close>

section \<open>The framing of a whole byte string\<close>

text \<open>The reading of a byte string in one piece: the frames, and the error or the bytes left over.\<close>

definition frameAt :: "bool \<Rightarrow> bytes \<Rightarrow> tsgit_error + decision" where
  "frameAt v2 bs = bindE (parseLength bs 0) (\<lambda>len. classify len (length bs) v2)"

function frames :: "bool \<Rightarrow> bytes \<Rightarrow> pktLine list \<times> (tsgit_error + bytes)" where
  "frames v2 bs =
     (if length bs < 4 then ([], Inr bs)
      else case frameAt v2 bs of
        Inl e \<Rightarrow> ([], Inl e)
      | Inr Wait \<Rightarrow> ([], Inr bs)
      | Inr (DataFrame n) \<Rightarrow> (let r = frames v2 (drop n bs) in (PktData (subarray bs 4 n) # fst r, snd r))
      | Inr (Control k n) \<Rightarrow> (let r = frames v2 (drop n bs) in (k # fst r, snd r)))"
  by pat_completeness auto
termination
proof (relation "measure (\<lambda>(v2, bs). length bs)")
  fix v2 and bs :: bytes and x2 n
  assume a: "\<not> length bs < 4" "frameAt v2 bs = Inr x2" "x2 = DataFrame n"
  then have "4 \<le> n" using classify_consume(1) by (auto simp: frameAt_def bindE_Inr_iff)
  then show "((v2, drop n bs), v2, bs) \<in> measure (\<lambda>(v2, bs). length bs)" using a by simp
next
  fix v2 and bs :: bytes and x2 k n
  assume a: "\<not> length bs < 4" "frameAt v2 bs = Inr x2" "x2 = Control k n"
  then have "n = 4" using classify_consume(2) by (auto simp: frameAt_def bindE_Inr_iff)
  then show "((v2, drop n bs), v2, bs) \<in> measure (\<lambda>(v2, bs). length bs)" using a by simp
qed simp

declare frames.simps [simp del]

lemma parseLength_prefix:
  assumes "offset + 4 \<le> length bs"
  shows "parseLength (bs @ xs) offset = parseLength bs offset" "parseLength bs offset = parseLength (drop offset bs) 0"
  using assms by (simp_all add: parseLength_def PKT_LENGTH_BYTES_def subarray_def)

lemma parseLength_bound: "parseLength bs offset = Inr n \<Longrightarrow> n \<le> 65520"
  by (auto simp: parseLength_def MAX_PKT_LINE_FRAME_def MAX_PKT_LINE_PAYLOAD_def PKT_LENGTH_BYTES_def Let_def split: if_splits)

lemma frameAt_cases:
  assumes "frameAt v2 bs = Inr d"
  shows "(\<exists>n. d = DataFrame n \<and> 4 \<le> n \<and> n \<le> length bs) \<or> (\<exists>k. d = Control k 4) \<or> (d = Wait \<and> length bs < 65520)"
proof -
  obtain len where l: "parseLength bs 0 = Inr len" "classify len (length bs) v2 = Inr d"
    using assms by (auto simp: frameAt_def bindE_Inr_iff)
  then show ?thesis
    using parseLength_bound [OF l(1)] by (auto simp: classify_def PKT_LENGTH_BYTES_def split: if_splits)
qed

lemma frameAt_append:
  assumes "4 \<le> length bs" "frameAt v2 bs \<noteq> Inr Wait"
  shows "frameAt v2 (bs @ xs) = frameAt v2 bs"
  using assms parseLength_prefix(1) [of 0 bs xs]
  by (cases "parseLength bs 0") (auto simp: frameAt_def classify_def split: if_splits)

text \<open>Frames found in a prefix are frames of the whole.\<close>

lemma frames_append:
  "frames v2 (bs @ xs) = (case snd (frames v2 bs) of Inl e \<Rightarrow> frames v2 bs
    | Inr rest \<Rightarrow> (fst (frames v2 bs) @ fst (frames v2 (rest @ xs)), snd (frames v2 (rest @ xs))))"
proof (induction v2 bs rule: frames.induct)
  case (1 v2 bs)
  show ?case
  proof (cases "length bs < 4 \<or> frameAt v2 bs = Inr Wait")
    case True
    then have "frames v2 bs = ([], Inr bs)" by (auto simp: frames.simps [of v2 bs])
    then show ?thesis by simp
  next
    case False
    then have l: "\<not> length bs < 4" "\<not> length (bs @ xs) < 4" and f: "frameAt v2 (bs @ xs) = frameAt v2 bs"
      using frameAt_append [of bs v2 xs] by auto
    show ?thesis
    proof (cases "frameAt v2 bs")
      case (Inl e)
      then show ?thesis using l f by (simp add: frames.simps [of v2 bs] frames.simps [of v2 "bs @ xs"])
    next
      case (Inr d)
      consider n where "d = DataFrame n" "4 \<le> n" "n \<le> length bs" | k where "d = Control k 4"
        using frameAt_cases [OF Inr] False Inr by blast
      then show ?thesis
      proof cases
        case 1
        have ih: "frames v2 (drop n bs @ xs) = (case snd (frames v2 (drop n bs)) of Inl e \<Rightarrow> frames v2 (drop n bs)
            | Inr rest \<Rightarrow> (fst (frames v2 (drop n bs)) @ fst (frames v2 (rest @ xs)), snd (frames v2 (rest @ xs))))"
          using "1.IH"(2) [OF l(1) Inr 1(1)] .
        have "subarray (bs @ xs) 4 n = subarray bs 4 n" using 1 by (simp add: subarray_def)
        then show ?thesis
          using l f Inr 1 ih by (simp add: frames.simps [of v2 bs] frames.simps [of v2 "bs @ xs"] Let_def split: sum.split)
      next
        case 2
        have ih: "frames v2 (drop 4 bs @ xs) = (case snd (frames v2 (drop 4 bs)) of Inl e \<Rightarrow> frames v2 (drop 4 bs)
            | Inr rest \<Rightarrow> (fst (frames v2 (drop 4 bs)) @ fst (frames v2 (rest @ xs)), snd (frames v2 (rest @ xs))))"
          using "1.IH"(1) [OF l(1) Inr 2] .
        then show ?thesis
          using l f Inr 2 ih by (simp add: frames.simps [of v2 bs] frames.simps [of v2 "bs @ xs"] Let_def split: sum.split)
      qed
    qed
  qed
qed

lemma frames_rest: "snd (frames v2 bs) = Inr rest \<Longrightarrow> length rest < 65520 \<and> length rest \<le> length bs \<and> rest = drop (length bs - length rest) bs"
proof (induction v2 bs rule: frames.induct)
  case (1 v2 bs)
  show ?case
  proof (cases "length bs < 4")
    case True
    then show ?thesis using "1.prems" by (simp add: frames.simps [of v2 bs])
  next
    case False
    show ?thesis
    proof (cases "frameAt v2 bs")
      case (Inl e)
      then show ?thesis using "1.prems" False by (simp add: frames.simps [of v2 bs])
    next
      case (Inr d)
      consider n where "d = DataFrame n" "4 \<le> n" "n \<le> length bs" | k where "d = Control k 4" | "d = Wait" "length bs < 65520"
        using frameAt_cases [OF Inr] by blast
      then show ?thesis
      proof cases
        case 1
        then have "snd (frames v2 (drop n bs)) = Inr rest" using "1.prems" False Inr by (simp add: frames.simps [of v2 bs] Let_def)
        then have ih: "length rest < 65520" "length rest \<le> length bs - n" "rest = drop (length bs - n - length rest + n) bs"
          using "1.IH"(2) [OF False Inr 1(1)] by simp_all
        have "length bs - n - length rest + n = length bs - length rest" using ih(2) 1 by simp
        then show ?thesis using ih 1 by simp
      next
        case 2
        then have "snd (frames v2 (drop 4 bs)) = Inr rest" using "1.prems" False Inr by (simp add: frames.simps [of v2 bs] Let_def)
        then have ih: "length rest < 65520" "length rest \<le> length bs - 4" "rest = drop (length bs - 4 - length rest + 4) bs"
          using "1.IH"(1) [OF False Inr 2] by simp_all
        have "length bs - 4 - length rest + 4 = length bs - length rest" using ih(2) False by simp
        then show ?thesis using ih by simp
      next
        case 3
        then show ?thesis using "1.prems" False Inr by (simp add: frames.simps [of v2 bs])
      qed
    qed
  qed
qed

text \<open>The loop over a view reads the bytes between its offset and its limit.\<close>

lemma drainFrames_frames:
  "offset \<le> limit \<Longrightarrow> limit \<le> length view \<Longrightarrow>
    drainFrames view limit v2 offset = (fst (frames v2 (subarray view offset limit)),
      case snd (frames v2 (subarray view offset limit)) of Inl e \<Rightarrow> Inl e | Inr rest \<Rightarrow> Inr (limit - length rest))"
proof (induction "limit - offset" arbitrary: offset rule: less_induct)
  case less
  let ?s = "subarray view offset limit"
  have len: "length ?s = limit - offset" using less.prems by (simp add: min_def)
  show ?case
  proof (cases "limit - offset < 4")
    case True
    then have "\<not> offset + PKT_LENGTH_BYTES \<le> limit" by (simp add: PKT_LENGTH_BYTES_def)
    then have "drainFrames view limit v2 offset = ([], Inr offset)" by (subst drainFrames.simps) simp
    moreover have "frames v2 ?s = ([], Inr ?s)" using True len by (simp add: frames.simps [of v2 ?s])
    ultimately show ?thesis using len less.prems(1) by simp
  next
    case False
    have h: "subarray ?s 0 4 = subarray view offset (offset + 4)" using False less.prems by (simp add: subarray_def min_def)
    have "parseLength view offset = parseLength ?s 0" by (simp add: parseLength_def PKT_LENGTH_BYTES_def h)
    then have f: "bindE (parseLength view offset) (\<lambda>l. classify l (limit - offset) v2) = frameAt v2 ?s"
      by (simp only: frameAt_def len)
    have go: "offset + PKT_LENGTH_BYTES \<le> limit" "\<not> length ?s < 4" using False len by (simp_all add: PKT_LENGTH_BYTES_def)
    show ?thesis
    proof (cases "frameAt v2 ?s")
      case (Inl e)
      then show ?thesis using f go by (simp add: drainFrames.simps [of view] frames.simps [of v2 ?s])
    next
      case (Inr d)
      consider n where "d = DataFrame n" "4 \<le> n" "n \<le> length ?s" | k where "d = Control k 4" | "d = Wait"
        using frameAt_cases [OF Inr] by blast
      then show ?thesis
      proof cases
        case 1
        have d: "drop n ?s = subarray view (offset + n) limit" by (simp add: subarray_def drop_take add.commute)
        have "n \<le> limit - offset" using 1(3) unfolding len .
        then have "min (n - 4) (limit - (offset + 4)) = n - 4" by linarith
        then have p: "subarray ?s 4 n = subarray view (offset + 4) (offset + n)"
          by (simp add: subarray_def drop_take add.commute)
        have "drainFrames view limit v2 (offset + n) = (fst (frames v2 (drop n ?s)),
            case snd (frames v2 (drop n ?s)) of Inl e \<Rightarrow> Inl e | Inr rest \<Rightarrow> Inr (limit - length rest))"
          unfolding d using 1(2,3) len less.prems False by (intro less.hyps) auto
        then show ?thesis
          using f go Inr 1(1) p by (simp add: drainFrames.simps [of view limit v2 offset] frames.simps [of v2 ?s] PKT_LENGTH_BYTES_def Let_def)
      next
        case 2
        have d: "drop 4 ?s = subarray view (offset + 4) limit" by (simp add: subarray_def drop_take add.commute)
        have "drainFrames view limit v2 (offset + 4) = (fst (frames v2 (drop 4 ?s)),
            case snd (frames v2 (drop 4 ?s)) of Inl e \<Rightarrow> Inl e | Inr rest \<Rightarrow> Inr (limit - length rest))"
          unfolding d using less.prems False by (intro less.hyps) auto
        then show ?thesis
          using f go Inr 2 by (simp add: drainFrames.simps [of view limit v2 offset] frames.simps [of v2 ?s] PKT_LENGTH_BYTES_def Let_def)
      next
        case 3
        then show ?thesis using f go Inr len less.prems(1) by (simp add: drainFrames.simps [of view] frames.simps [of v2 ?s])
      qed
    qed
  qed
qed

section \<open>The buffered reader\<close>

definition pendingBytes :: "pktBuffer \<Rightarrow> bytes" where
  "pendingBytes b = take (used b) (buf b)"

definition settled :: "bool \<Rightarrow> pktBuffer \<Rightarrow> bool" where
  "settled v2 b \<longleftrightarrow> length (buf b) = 65520 \<and> used b < 65520 \<and> frames v2 (pendingBytes b) = ([], Inr (pendingBytes b))"

lemma frames_rest_settled: "snd (frames v2 bs) = Inr rest \<Longrightarrow> frames v2 rest = ([], Inr rest)"
proof (induction v2 bs rule: frames.induct)
  case (1 v2 bs)
  show ?case
  proof (cases "length bs < 4 \<or> frameAt v2 bs = Inr Wait")
    case True
    then have "frames v2 bs = ([], Inr bs)" by (auto simp: frames.simps [of v2 bs])
    then show ?thesis using "1.prems" by simp
  next
    case False
    then have l: "\<not> length bs < 4" by simp
    show ?thesis
    proof (cases "frameAt v2 bs")
      case (Inl e)
      then show ?thesis using "1.prems" l by (simp add: frames.simps [of v2 bs])
    next
      case (Inr d)
      consider n where "d = DataFrame n" | k where "d = Control k 4"
        using frameAt_cases [OF Inr] False Inr by blast
      then show ?thesis
        using "1.IH"(2) [OF l Inr] "1.IH"(1) [OF l Inr] "1.prems" l Inr
        by cases (simp_all add: frames.simps [of v2 bs] Let_def)
    qed
  qed
qed

lemma frames_nil [simp]: "frames v2 [] = ([], Inr [])"
  by (simp add: frames.simps [of v2 "[]"])

text \<open>Topping up the pending bytes: the bytes read, then what is kept of them.\<close>

lemma compact_pending:
  assumes "length rest \<le> n" "n \<le> length bs" "rest = drop (n - length rest) (take n bs)"
  shows "take (length rest) (copyToFront bs (n - length rest) n) = rest"
proof -
  have "subarray bs (n - length rest) n = rest" using assms by (simp add: subarray_def drop_take)
  then show ?thesis by (simp add: copyToFront_def blit_def)
qed

lemma length_compact: "n \<le> length bs \<Longrightarrow> length (copyToFront bs c n) = length bs"
  by (simp add: copyToFront_def blit_def min_def)

lemma drain_prefix:
  assumes "n \<le> length bs"
  shows "drainFrames bs n v2 0 = (fst (frames v2 (take n bs)),
     case snd (frames v2 (take n bs)) of Inl e \<Rightarrow> Inl e | Inr rest \<Rightarrow> Inr (n - length rest))"
  using drainFrames_frames [of 0 n bs v2] assms by (simp add: subarray_def)

lemma drain_suffix:
  assumes "k \<le> length bs"
  shows "drainFrames bs (length bs) v2 k = (fst (frames v2 (drop k bs)),
     case snd (frames v2 (drop k bs)) of Inl e \<Rightarrow> Inl e | Inr rest \<Rightarrow> Inr (length bs - length rest))"
  using drainFrames_frames [of k "length bs" bs v2] assms by (simp add: subarray_def)

lemma acceptLoop_frames:
  assumes "settled v2 b" "at \<le> length chunk"
  shows "\<exists>b'. acceptLoop chunk v2 b at out =
      Some (out @ fst (frames v2 (pendingBytes b @ drop at chunk)),
        case snd (frames v2 (pendingBytes b @ drop at chunk)) of Inl e \<Rightarrow> Inl e | Inr rest \<Rightarrow> Inr b') \<and>
    (\<forall>rest. snd (frames v2 (pendingBytes b @ drop at chunk)) = Inr rest \<longrightarrow> settled v2 b' \<and> pendingBytes b' = rest)"
  using assms
proof (induction "length chunk - at" arbitrary: b at out rule: less_induct)
  case less
  have b: "length (buf b) = 65520" "used b < 65520" "frames v2 (pendingBytes b) = ([], Inr (pendingBytes b))"
    using less.prems(1) by (simp_all add: settled_def)
  show ?case
  proof (cases "at < length chunk")
    case False
    then have "acceptLoop chunk v2 b at out = Some (out, Inr b)" by (simp add: acceptLoop.simps)
    then show ?thesis using b False less.prems by auto
  next
    case at: True
    show ?thesis
    proof (cases "0 < used b")
      case False
      then have p: "pendingBytes b = []" by (simp add: pendingBytes_def)
      note d = drain_suffix [OF less.prems(2), of v2]
      show ?thesis
      proof (cases "snd (frames v2 (drop at chunk))")
        case (Inl e)
        then show ?thesis using at False p d by (simp add: acceptLoop.simps [of chunk v2 b at])
      next
        case (Inr rest)
        note r = frames_rest [OF Inr]
        have fin: "acceptLoop chunk v2 c (length chunk) o1 = Some (o1, Inr c)" for c o1 by (simp add: acceptLoop.simps)
        show ?thesis
        proof (cases "rest = []")
          case True
          have "acceptLoop chunk v2 b at out = Some (out @ fst (frames v2 (drop at chunk)), Inr b)"
            using at False d Inr True by (simp add: acceptLoop.simps [of chunk v2 b at] fin)
          then show ?thesis using p Inr True less.prems(1) by auto
        next
          case ne: False
          let ?b = "\<lparr>buf = blit (buf b) rest 0, used = length rest\<rparr>"
          have s: "subarray chunk (length chunk - length rest) (length chunk) = rest"
          proof -
            have lr: "length rest \<le> length chunk - at" using r by simp
            have "length chunk - (at + length rest) + at = length chunk - length rest" using lr less.prems(2) by linarith
            then have "rest = drop (length chunk - length rest) chunk" using r by simp
            then show ?thesis using lr unfolding subarray_def by simp
          qed
          have "setBytes (buf b) rest 0 = Inr (blit (buf b) rest 0)" using r b(1) by (simp add: setBytes_def)
          moreover have "length rest \<le> length chunk" "0 < length rest" using r ne by auto
          then have "length chunk - length rest < length chunk" "length chunk - (length chunk - length rest) = length rest" by linarith+
          ultimately have "acceptLoop chunk v2 b at out = Some (out @ fst (frames v2 (drop at chunk)), Inr ?b)"
            using at False d Inr s by (simp add: acceptLoop.simps [of chunk v2 b at] fin Let_def)
          moreover have "pendingBytes ?b = rest" "settled v2 ?b"
            using r b(1) frames_rest_settled [OF Inr] by (simp_all add: pendingBytes_def settled_def blit_def)
          ultimately show ?thesis using p Inr by auto
        qed
      qed
    next
      case True
      define amount where "amount = min (65520 - used b) (length chunk - at)"
      define filled where "filled = blit (buf b) (subarray chunk at (at + amount)) (used b)"
      have am: "0 < amount" "at + amount \<le> length chunk" "used b + amount \<le> 65520"
        using at b(2) by (auto simp: amount_def)
      have ls: "length (subarray chunk at (at + amount)) = amount" using am(2) by (rule length_subarray_fit)
      have set: "setBytes (buf b) (subarray chunk at (at + amount)) (used b) = Inr filled"
        using b(1) am ls by (simp add: setBytes_def filled_def)
      have lf: "length filled = 65520" using b(1) am ls by (simp add: filled_def)
      have tf: "take (used b + amount) filled = pendingBytes b @ take amount (drop at chunk)"
        using take_blit [of "used b" "buf b" "subarray chunk at (at + amount)"] b ls
        by (simp add: filled_def pendingBytes_def subarray_def)
      have d: "drainFrames filled (used b + amount) v2 0 = (fst (frames v2 (take (used b + amount) filled)),
         case snd (frames v2 (take (used b + amount) filled)) of Inl e \<Rightarrow> Inl e | Inr rest \<Rightarrow> Inr (used b + amount - length rest))"
        using lf am(3) by (intro drain_prefix) simp
      have whole: "pendingBytes b @ drop at chunk = take (used b + amount) filled @ drop (at + amount) chunk"
        unfolding tf using append_take_drop_id [of amount "drop at chunk"] by (simp add: add.commute)
      show ?thesis
      proof (cases "snd (frames v2 (take (used b + amount) filled))")
        case (Inl e)
        then have "frames v2 (pendingBytes b @ drop at chunk) = frames v2 (take (used b + amount) filled)"
          unfolding whole by (simp add: frames_append [of v2 "take (used b + amount) filled"])
        moreover have "acceptLoop chunk v2 b at out = Some (out @ fst (frames v2 (take (used b + amount) filled)), Inl e)"
          using at True set d Inl b(1)
          by (simp add: acceptLoop.simps [of chunk v2 b at] amount_def [symmetric] Let_def)
        ultimately show ?thesis using Inl by auto
      next
        case (Inr rest)
        note r = frames_rest [OF Inr]
        let ?n = "used b + amount"
        let ?b = "\<lparr>buf = copyToFront filled (?n - length rest) ?n, used = length rest\<rparr>"
        have lt: "length (take ?n filled) = ?n" using lf am(3) by simp
        have pb: "pendingBytes ?b = rest"
          using compact_pending [of rest ?n filled] r lt lf am(3) by (simp add: pendingBytes_def)
        have st: "settled v2 ?b"
          using r lf am(3) frames_rest_settled [OF Inr] pb by (simp add: settled_def length_compact)
        have step: "acceptLoop chunk v2 b at out =
            acceptLoop chunk v2 ?b (at + amount) (out @ fst (frames v2 (take ?n filled)))"
          using at True set d Inr b(1) r lt
          by (simp add: acceptLoop.simps [of chunk v2 b at] amount_def [symmetric] Let_def)
        have F: "frames v2 (pendingBytes b @ drop at chunk) =
            (fst (frames v2 (take ?n filled)) @ fst (frames v2 (rest @ drop (at + amount) chunk)), snd (frames v2 (rest @ drop (at + amount) chunk)))"
          unfolding whole using Inr by (simp add: frames_append [of v2 "take ?n filled"])
        show ?thesis
          using less.hyps [OF _ st am(2), of "out @ fst (frames v2 (take ?n filled))"] am step F pb by auto
      qed
    qed
  qed
qed

end
