(* ===== verification/PktStream.thy ===== *)
theory PktStream
  imports PktFraming
begin

text \<open>
  The stream properties of the pkt-line codec and the side-band demultiplexer: chunk boundaries are not observable, what was
  written is read back, a cut stream is refused, and the pack bytes come through.
\<close>

section \<open>Chunk boundaries do not matter\<close>

lemma settled_new: "settled v2 newPktBuffer" "pendingBytes newPktBuffer = []"
  by (simp_all add: settled_def newPktBuffer_def pendingBytes_def MAX_PKT_LINE_FRAME_def MAX_PKT_LINE_PAYLOAD_def PKT_LENGTH_BYTES_def)

text \<open>What a reader reports at the end of its input.\<close>

fun ending :: "tsgit_error + bytes \<Rightarrow> tsgit_error option" where
  "ending (Inl e) = Some e"
| "ending (Inr rest) = (if rest = [] then None else Some (PktTruncated (length rest)))"

lemma decodeLoop_frames:
  "settled v2 b \<Longrightarrow> decodeLoop chunks v2 b out =
    Some (out @ fst (frames v2 (pendingBytes b @ concat chunks)), ending (snd (frames v2 (pendingBytes b @ concat chunks))))"
proof (induction chunks v2 b out rule: decodeLoop.induct)
  case (1 v2 b out)
  then have "length (pendingBytes b) = used b" "frames v2 (pendingBytes b) = ([], Inr (pendingBytes b))"
    by (simp_all add: settled_def pendingBytes_def)
  then show ?case by auto
next
  case (2 chunk chunks v2 b out)
  let ?F = "frames v2 (pendingBytes b @ chunk)"
  have F: "frames v2 (pendingBytes b @ concat (chunk # chunks)) = (case snd ?F of Inl e \<Rightarrow> ?F
      | Inr rest \<Rightarrow> (fst ?F @ fst (frames v2 (rest @ concat chunks)), snd (frames v2 (rest @ concat chunks))))"
    using frames_append [of v2 "pendingBytes b @ chunk" "concat chunks"] by simp
  obtain b' where a: "acceptLoop chunk v2 b 0 [] = Some (fst ?F, case snd ?F of Inl e \<Rightarrow> Inl e | Inr rest \<Rightarrow> Inr b')"
    and b': "\<forall>rest. snd ?F = Inr rest \<longrightarrow> settled v2 b' \<and> pendingBytes b' = rest"
    using acceptLoop_frames [OF "2.prems", of 0 chunk "[]"] by auto
  show ?case
  proof (cases "snd ?F")
    case (Inl e)
    then show ?thesis using a F by simp
  next
    case (Inr rest)
    then have "decodeLoop chunks v2 b' (out @ fst ?F) = Some ((out @ fst ?F) @ fst (frames v2 (rest @ concat chunks)),
        ending (snd (frames v2 (rest @ concat chunks))))"
      using "2.IH" a b' by simp
    then show ?thesis using a F Inr by simp
  qed
qed

text \<open>C6: The streaming pkt-line decoder always returns, and what it yields and the error it ends in are those of framing
  the concatenated chunks in one piece: no chunk boundary, however placed, is observable.\<close>
theorem pkt_stream_chunk_invariant:
  "decodePktStream chunks v2 = Some (fst (frames v2 (concat chunks)), ending (snd (frames v2 (concat chunks))))"
  using decodeLoop_frames [OF settled_new(1)] by (simp add: decodePktStream_def settled_new(2))

section \<open>Writing and reading pkt-lines\<close>

definition fourHex :: "nat \<Rightarrow> jsstr" where
  "fourHex n = [hexDigit (n div 4096 mod 16), hexDigit (n div 256 mod 16), hexDigit (n div 16 mod 16), hexDigit (n mod 16)]"

lemma hexValue_hexDigit: "d < 16 \<Longrightarrow> hexValue (hexDigit d) = Some d"
  by (auto simp: hexValue_def hexDigit_def)

lemma hexDigit_ascii: "d < 16 \<Longrightarrow> hexDigit d < 128"
  by (auto simp: hexDigit_def)

lemma decode_ascii_units:
  assumes "\<And>c. c \<in> set s \<Longrightarrow> c < 128"
  shows "decode (map of_nat s) = s"
proof -
  have u: "unat (of_nat c :: byte) = c" if "c \<in> set s" for c using assms [OF that] by (simp add: unat_of_nat)
  have "decode (map of_nat s) = map unat (map (of_nat :: nat \<Rightarrow> byte) s)" using u assms by (intro decode_ascii) auto
  also have "\<dots> = map (\<lambda>c. unat (of_nat c :: byte)) s" by simp
  also have "\<dots> = s" using u by (intro map_idI)
  finally show ?thesis .
qed

lemma fourHex_digits:
  fixes n :: nat
  assumes "n < 65536"
  shows "((n div 4096 mod 16 * 16 + n div 256 mod 16) * 16 + n div 16 mod 16) * 16 + n mod 16 = n"
proof -
  have "n div 4096 mod 16 = n div 4096" using assms by (simp add: less_mult_imp_div_less)
  moreover have "n div 4096 * 16 + n div 256 mod 16 = n div 256"
    using div_mult_mod_eq [of "n div 256" 16] by (simp add: div_mult2_eq [symmetric])
  moreover have "n div 256 * 16 + n div 16 mod 16 = n div 16"
    using div_mult_mod_eq [of "n div 16" 16] by (simp add: div_mult2_eq [symmetric])
  moreover have "n div 16 * 16 + n mod 16 = n" by (rule div_mult_mod_eq)
  ultimately show ?thesis by metis
qed

lemma lengthPrefix_eq:
  assumes "n < 65536"
  shows "lengthPrefix n = map of_nat (fourHex n)"
proof -
  have step: "toStringRadix 16 (m * 16 + d) = toStringRadix 16 m @ [hexDigit d]" if "0 < m" "d < 16" for m d
    using that by (subst toStringRadix.simps) simp
  have one: "toStringRadix 16 1 = [49]" by (simp add: toStringRadix.simps hexDigit_def)
  define a b c d where "a = n div 4096 mod 16" and "b = n div 256 mod 16" and "c = n div 16 mod 16" and "d = n mod 16"
  have lt: "a < 16" "b < 16" "c < 16" "d < 16" by (simp_all add: a_def b_def c_def d_def)
  define x y z where "x = 1 * 16 + a" and "y = x * 16 + b" and "z = y * 16 + c"
  have n: "n + 65536 = z * 16 + d"
  proof -
    have "((a * 16 + b) * 16 + c) * 16 + d = n" unfolding a_def b_def c_def d_def by (rule fourHex_digits [OF assms])
    then show ?thesis by (simp add: x_def y_def z_def distrib_right)
  qed
  have pos: "0 < x" "0 < y" "0 < z" by (simp_all add: x_def y_def z_def)
  have "toStringRadix 16 x = [49] @ [hexDigit a]" unfolding x_def by (subst step) (simp_all only: lt one zero_less_one)
  then have "toStringRadix 16 y = ([49] @ [hexDigit a]) @ [hexDigit b]" unfolding y_def by (subst step) (simp_all only: lt pos)
  then have "toStringRadix 16 z = (([49] @ [hexDigit a]) @ [hexDigit b]) @ [hexDigit c]" unfolding z_def by (subst step) (simp_all only: lt pos)
  then have "toStringRadix 16 (n + 65536) = ((([49] @ [hexDigit a]) @ [hexDigit b]) @ [hexDigit c]) @ [hexDigit d]"
    unfolding n by (subst step) (simp_all only: lt pos)
  then have "toStringRadix 16 (n + 65536) = 49 # fourHex n" by (simp add: fourHex_def a_def b_def c_def d_def)
  moreover have "utf8_encode (fourHex n) = map of_nat (fourHex n)"
    by (rule utf8_encode_ascii) (auto simp: fourHex_def hexDigit_ascii)
  moreover have "length (fourHex n) = 4" by (simp add: fourHex_def)
  ultimately show ?thesis by (simp add: lengthPrefix_def encode_def)
qed

lemma parseLength_lengthPrefix:
  assumes "n \<le> 65520"
  shows "parseLength (lengthPrefix n @ xs) 0 = Inr n"
proof -
  have "decode (map of_nat (fourHex n)) = fourHex n" by (rule decode_ascii_units) (auto simp: fourHex_def hexDigit_ascii)
  then have "decode (subarray (lengthPrefix n @ xs) 0 4) = fourHex n"
    using assms by (simp add: subarray_def lengthPrefix_eq) (simp add: fourHex_def)
  moreover have "isHexLength (fourHex n)" by (simp add: isHexLength_def fourHex_def hexValue_hexDigit)
  moreover have "parseIntHex (fourHex n) = n"
    using fourHex_digits [of n] assms by (simp add: parseIntHex_def fourHex_def hexValue_hexDigit)
  ultimately show ?thesis using assms
    by (simp add: parseLength_def PKT_LENGTH_BYTES_def MAX_PKT_LINE_FRAME_def MAX_PKT_LINE_PAYLOAD_def)
qed

lemma length_lengthPrefix: "n < 65536 \<Longrightarrow> length (lengthPrefix n) = 4"
  by (simp add: lengthPrefix_eq fourHex_def)

definition pktBytes :: "bytes \<Rightarrow> bytes" where
  "pktBytes p = lengthPrefix (length p + 4) @ p"

lemma frames_data:
  assumes "length p \<le> 65516"
  shows "frames v2 (pktBytes p @ xs) = (PktData p # fst (frames v2 xs), snd (frames v2 xs))"
proof -
  have l: "length (lengthPrefix (length p + 4)) = 4" using assms by (intro length_lengthPrefix) simp
  have "frameAt v2 (pktBytes p @ xs) = Inr (DataFrame (length p + 4))"
    using parseLength_lengthPrefix [of "length p + 4" "p @ xs"] assms l
    by (simp add: frameAt_def pktBytes_def classify_def PKT_LENGTH_BYTES_def)
  moreover have "subarray (pktBytes p @ xs) 4 (length p + 4) = p" using l by (simp add: subarray_def pktBytes_def)
  moreover have "drop (length p + 4) (pktBytes p @ xs) = xs" using l by (simp add: pktBytes_def)
  moreover have "\<not> length (pktBytes p @ xs) < 4" using l by (simp add: pktBytes_def)
  ultimately show ?thesis by (simp add: frames.simps [of v2 "pktBytes p @ xs"] Let_def)
qed

lemma FLUSH_PKT_eq: "FLUSH_PKT = lengthPrefix 0"
  using utf8_encode_ascii [of "jslit ''0000''"] by (simp add: FLUSH_PKT_def encode_def lengthPrefix_eq fourHex_def hexDigit_def jslit_def)

lemma frames_flush: "frames v2 (FLUSH_PKT @ xs) = (PktFlush # fst (frames v2 xs), snd (frames v2 xs))"
proof -
  have l: "length FLUSH_PKT = 4" by (simp add: FLUSH_PKT_eq length_lengthPrefix)
  have "frameAt v2 (FLUSH_PKT @ xs) = Inr (Control PktFlush 4)"
    using parseLength_lengthPrefix [of 0 xs] by (simp add: FLUSH_PKT_eq frameAt_def classify_def PKT_LENGTH_BYTES_def)
  then show ?thesis using l by (simp add: frames.simps [of v2 "FLUSH_PKT @ xs"] Let_def)
qed

lemma frames_pktBytes:
  "\<forall>p \<in> set ps. length p \<le> 65516 \<Longrightarrow>
    frames v2 (concat (map pktBytes ps) @ xs) = (map PktData ps @ fst (frames v2 xs), snd (frames v2 xs))"
  by (induction ps) (simp_all add: frames_data)

lemma foldE_checkPayload:
  "(\<And>p. p \<in> set ps \<Longrightarrow> length p \<le> 65516) \<Longrightarrow>
    foldE checkPayload ps n = Inr (n + length (concat (map pktBytes ps)))"
proof (induction ps arbitrary: n)
  case (Cons p ps)
  have "length p \<le> 65516" using Cons.prems by simp
  then have "checkPayload p n = Inr (n + length (pktBytes p))"
    by (simp add: checkPayload_def MAX_PKT_LINE_PAYLOAD_def PKT_LENGTH_BYTES_def pktBytes_def length_lengthPrefix)
  then show ?case using Cons.IH [of "n + length (pktBytes p)"] Cons.prems by simp
qed simp

lemma foldE_checkPayload_Inr:
  "foldE checkPayload ps n = Inr m \<Longrightarrow> p \<in> set ps \<Longrightarrow> length p \<le> 65516"
proof (induction ps arbitrary: n)
  case (Cons q ps)
  then obtain k where "checkPayload q n = Inr k" "foldE checkPayload ps k = Inr m" by (auto simp: bindE_Inr_iff)
  then show ?case using Cons by (auto simp: checkPayload_def MAX_PKT_LINE_PAYLOAD_def split: if_splits)
qed simp

lemma writePkt_eq:
  assumes "length p \<le> 65516"
  shows "writePkt p (pre @ replicate (length (pktBytes p) + k) 0, length pre)
    = Inr ((pre @ pktBytes p) @ replicate k 0, length (pre @ pktBytes p))"
proof -
  let ?h = "lengthPrefix (length p + 4)"
  have l: "length ?h = 4" using assms by (intro length_lengthPrefix) simp
  have z: "replicate (length (pktBytes p) + k) (0 :: byte) = replicate 4 0 @ replicate (length p) 0 @ replicate k 0"
    using l by (simp add: pktBytes_def replicate_add [symmetric] add.assoc)
  have s1: "setBytes (pre @ replicate 4 0 @ replicate (length p) 0 @ replicate k 0) ?h (length pre)
      = Inr (pre @ ?h @ replicate (length p) 0 @ replicate k 0)"
    using l by (intro setBytes_zeros) simp_all
  have s2: "setBytes ((pre @ ?h) @ replicate (length p) 0 @ replicate k 0) p (length pre + 4)
      = Inr ((pre @ ?h) @ p @ replicate k 0)"
    using l by (intro setBytes_zeros) simp_all
  show ?thesis unfolding z using s1 s2 l by (simp add: writePkt_def PKT_LENGTH_BYTES_def pktBytes_def Let_def)
qed

lemma foldE_writePkt:
  assumes "\<And>p. p \<in> set ps \<Longrightarrow> length p \<le> 65516"
  shows "foldE writePkt ps (pre @ replicate (length (concat (map pktBytes ps)) + k) 0, length pre)
    = Inr (pre @ concat (map pktBytes ps) @ replicate k 0, length pre + length (concat (map pktBytes ps)))"
  using assms
proof (induction ps arbitrary: pre)
  case (Cons p ps)
  have "length p \<le> 65516" using Cons.prems by simp
  note w = writePkt_eq [OF this, of pre "length (concat (map pktBytes ps)) + k"]
  have "foldE writePkt ps ((pre @ pktBytes p) @ replicate (length (concat (map pktBytes ps)) + k) 0, length (pre @ pktBytes p))
      = Inr ((pre @ pktBytes p) @ concat (map pktBytes ps) @ replicate k 0, length (pre @ pktBytes p) + length (concat (map pktBytes ps)))"
    by (rule Cons.IH) (simp add: Cons.prems)
  then show ?case using w by (simp add: add.assoc)
qed simp

lemma concatPktLines_eq:
  assumes "\<And>p. p \<in> set ps \<Longrightarrow> length p \<le> 65516"
  shows "concatPktLines ps trailer = Inr (concat (map pktBytes ps) @ trailer)"
proof -
  have "foldE checkPayload ps (length trailer) = Inr (length trailer + length (concat (map pktBytes ps)))"
    using assms by (rule foldE_checkPayload)
  moreover have "foldE writePkt ps (replicate (length trailer + length (concat (map pktBytes ps))) 0, 0)
      = Inr (concat (map pktBytes ps) @ replicate (length trailer) 0, length (concat (map pktBytes ps)))"
    using foldE_writePkt [of ps "[]" "length trailer"] assms by (simp add: add.commute)
  moreover have "setBytes (concat (map pktBytes ps) @ replicate (length trailer) 0 @ []) trailer (length (concat (map pktBytes ps)))
      = Inr (concat (map pktBytes ps) @ trailer @ [])"
    by (intro setBytes_zeros) simp_all
  ultimately show ?thesis by (simp add: concatPktLines_def)
qed

lemma concatPktLines_Inr:
  "concatPktLines ps trailer = Inr bs \<longleftrightarrow> (\<forall>p \<in> set ps. length p \<le> 65516) \<and> bs = concat (map pktBytes ps) @ trailer"
proof
  assume r: "concatPktLines ps trailer = Inr bs"
  then have b: "\<forall>p \<in> set ps. length p \<le> 65516"
    using foldE_checkPayload_Inr [of ps "length trailer"] by (auto simp: concatPktLines_def bindE_Inr_iff)
  then have "concatPktLines ps trailer = Inr (concat (map pktBytes ps) @ trailer)" by (intro concatPktLines_eq) blast
  then show "(\<forall>p \<in> set ps. length p \<le> 65516) \<and> bs = concat (map pktBytes ps) @ trailer" using r b by simp
qed (simp add: concatPktLines_eq)

lemmas encodePktStream_Inr = concatPktLines_Inr [of _ FLUSH_PKT, folded encodePktStream_def]
lemmas encodePktLines_Inr = concatPktLines_Inr [of _ "[]", folded encodePktLines_def, simplified]

text \<open>C16: Pkt-lines survive the wire: a stream written by \<open>encodePktStream\<close>, delivered in chunks of any sizes, is read back
  as exactly the payloads in order followed by the flush packet, without error.\<close>
theorem pkt_stream_roundtrip:
  assumes "encodePktStream payloads = Inr stream" and "concat chunks = stream"
  shows "decodePktStream chunks v2 = Some (map PktData payloads @ [PktFlush], None)"
proof -
  have b: "\<forall>p \<in> set payloads. length p \<le> 65516" "stream = concat (map pktBytes payloads) @ FLUSH_PKT"
    using assms(1) by (simp_all add: encodePktStream_Inr)
  moreover have "frames v2 FLUSH_PKT = ([PktFlush], Inr [])" using frames_flush [of v2 "[]"] by simp
  ultimately have "frames v2 (concat chunks) = (map PktData payloads @ [PktFlush], Inr [])"
    using frames_pktBytes [of payloads v2 FLUSH_PKT] b assms(2) by simp
  then show ?thesis using decodeLoop_frames [OF settled_new(1)] by (simp add: decodePktStream_def settled_new(2))
qed

theorem pkt_stream_roundtrip_witness:
  "decodePktStream [lengthPrefix 6 @ [104], [105] @ lengthPrefix 4, FLUSH_PKT] True = Some ([PktData [104, 105], PktData [], PktFlush], None)"
proof -
  have "encodePktStream [[104, 105], []] = Inr (pktBytes [104, 105] @ pktBytes [] @ FLUSH_PKT)"
    by (simp add: encodePktStream_Inr)
  from pkt_stream_roundtrip [OF this, of "[lengthPrefix 6 @ [104], [105] @ lengthPrefix 4, FLUSH_PKT]" True]
  show ?thesis by (simp add: pktBytes_def)
qed

lemma frames_cut:
  assumes "length p \<le> 65516" "k < length p + 4"
  shows "frames v2 (take k (pktBytes p)) = ([], Inr (take k (pktBytes p)))"
proof (cases "k < 4")
  case True
  then have "length (take k (pktBytes p)) < 4" by simp
  then show ?thesis by (simp only: frames.simps [of v2 "take k (pktBytes p)"] if_True)
next
  case False
  let ?h = "lengthPrefix (length p + 4)"
  have l: "length ?h = 4" using assms by (intro length_lengthPrefix) simp
  have t: "take k (pktBytes p) = ?h @ take (k - 4) p" using False l by (simp add: pktBytes_def)
  have k: "length (take k (pktBytes p)) = k" using assms False l by (simp add: pktBytes_def)
  have "parseLength (take k (pktBytes p)) 0 = Inr (length p + 4)"
    unfolding t using assms(1) by (intro parseLength_lengthPrefix) simp
  then have "frameAt v2 (take k (pktBytes p)) = Inr Wait"
    using assms(2) k unfolding frameAt_def k by (simp add: classify_def PKT_LENGTH_BYTES_def)
  then show ?thesis by (simp add: frames.simps [of v2 "take k (pktBytes p)"])
qed

lemma encodePktLine_eq: "length p \<le> 65516 \<Longrightarrow> encodePktLine p = Inr (pktBytes p)"
proof -
  assume a: "length p \<le> 65516"
  have l: "length (lengthPrefix (length p + 4)) = 4" using a by (intro length_lengthPrefix) simp
  have z: "replicate (length p + 4) (0 :: byte) = [] @ replicate 4 0 @ replicate (length p) 0"
    by (simp add: replicate_add [symmetric] add.commute)
  have s1: "setBytes ([] @ replicate 4 0 @ replicate (length p) 0) (lengthPrefix (length p + 4)) 0
      = Inr ([] @ lengthPrefix (length p + 4) @ replicate (length p) 0)"
    using l by (intro setBytes_zeros) simp_all
  have s2: "setBytes (lengthPrefix (length p + 4) @ replicate (length p) 0 @ []) p 4
      = Inr (lengthPrefix (length p + 4) @ p @ [])"
    using l by (intro setBytes_zeros) simp_all
  show ?thesis unfolding encodePktLine_def PKT_LENGTH_BYTES_def Let_def z
    using a s1 s2 by (simp add: MAX_PKT_LINE_PAYLOAD_def pktBytes_def)
qed

text \<open>C26: A stream cut inside a frame is refused: after complete frames and a proper non-empty part of another one the
  decoder yields the complete payloads and ends in the truncation error carrying the number of bytes left over.\<close>
theorem pkt_truncation_detected:
  assumes "encodePktLines payloads = Inr whole" and "encodePktLine payload = Inr frame"
    and "0 < k" and "k < length frame" and "concat chunks = whole @ take k frame"
  shows "decodePktStream chunks v2 = Some (map PktData payloads, Some (PktTruncated k))"
proof -
  have p: "length payload \<le> 65516"
    using assms(2) by (auto simp: encodePktLine_def MAX_PKT_LINE_PAYLOAD_def split: if_splits)
  then have f: "frame = pktBytes payload" using encodePktLine_eq assms(2) by simp
  have lf: "length frame = length payload + 4" using p by (simp add: f pktBytes_def length_lengthPrefix)
  have w: "\<forall>p \<in> set payloads. length p \<le> 65516" "whole = concat (map pktBytes payloads)"
    using assms(1) by (simp_all add: encodePktLines_Inr)
  have "frames v2 (take k frame) = ([], Inr (take k frame))"
    unfolding f using p assms(4) lf by (intro frames_cut) simp_all
  then have "frames v2 (concat chunks) = (map PktData payloads, Inr (take k frame))"
    using w assms(5) frames_pktBytes [of payloads v2 "take k frame"] by simp
  moreover have "length (take k frame) = k" "take k frame \<noteq> []" using assms(3,4) by auto
  ultimately have "ending (snd (frames v2 (concat chunks))) = Some (PktTruncated k)" "fst (frames v2 (concat chunks)) = map PktData payloads"
    by simp_all
  then show ?thesis using decodeLoop_frames [OF settled_new(1)] by (simp add: decodePktStream_def settled_new(2))
qed

theorem pkt_truncation_detected_witness:
  "decodePktStream [lengthPrefix 6 @ [104], [105] @ lengthPrefix 5] True = Some ([PktData [104, 105]], Some (PktTruncated 4))"
proof -
  have 1: "encodePktLines [[104, 105]] = Inr (pktBytes [104, 105])" by (simp add: encodePktLines_Inr)
  have 2: "encodePktLine [42] = Inr (pktBytes [42])" by (simp add: encodePktLine_eq)
  have l: "length (lengthPrefix 5) = 4" by (rule length_lengthPrefix) simp
  have 3: "4 < length (pktBytes [42])" using l by (simp add: pktBytes_def)
  have 4: "concat [lengthPrefix 6 @ [104], [105] @ lengthPrefix 5] = pktBytes [104, 105] @ take 4 (pktBytes [42])"
    using l by (simp add: pktBytes_def)
  show ?thesis using pkt_truncation_detected [OF 1 2 _ 3 4] by simp
qed

section \<open>The side-band demultiplexer\<close>

text \<open>A message of the two quiet bands and what the demultiplexer does with it.\<close>

fun bandEvent :: "bool \<Rightarrow> byte \<times> bytes \<Rightarrow> sideBandEvent list" where
  "bandEvent hasProgress (c, body) =
     (if c = 1 then [Yield body] else if hasProgress then [OnProgress (decode body)] else [])"

fun packBytes :: "sideBandEvent \<Rightarrow> bytes" where
  "packBytes (Yield body) = body"
| "packBytes (OnProgress _) = []"
| "packBytes (OnError _) = []"

definition bandPkt :: "byte \<times> bytes \<Rightarrow> bytes" where
  "bandPkt m = fst m # snd m"

lemma demux_quiet:
  "\<forall>m \<in> set msgs. fst m = 1 \<or> fst m = 2 \<Longrightarrow>
    demux hp he (map PktData (map bandPkt msgs) @ pkts)
      = (concat (map (bandEvent hp) msgs) @ fst (demux hp he pkts), snd (demux hp he pkts))"
  by (induction msgs) (auto simp: Let_def bandPkt_def)

lemma packBytes_events:
  "concat (map packBytes (concat (map (bandEvent hp) msgs))) = concat (map snd (filter (\<lambda>m. fst m = 1) msgs))"
  by (induction msgs) auto

text \<open>C25: Wire to pack: messages on the pack and progress bands, framed by \<open>encodePktStream\<close> and delivered in any chunks,
  are demultiplexed without error into the concatenation of the pack-band bodies in order; the fatal band yields what
  preceded it, calls back once and ends in the fatal error.\<close>
theorem sideband_over_wire:
  assumes "encodePktStream (map bandPkt msgs) = Inr stream" and "concat chunks = stream"
    and "\<forall>m \<in> set msgs. fst m = 1 \<or> fst m = 2"
  shows "\<exists>pkts events. decodePktStream chunks v2 = Some (pkts, None)
    \<and> demux hasProgress hasError pkts = (events, None)
    \<and> concat (map packBytes events) = concat (map snd (filter (\<lambda>m. fst m = 1) msgs))
    \<and> demux hasProgress hasError (butlast pkts @ PktData (3 # body) # later)
      = (events @ (if hasError then [OnError (decode body)] else []), Some (sidebandFatal (decode body)))"
proof (intro exI conjI)
  let ?pkts = "map PktData (map bandPkt msgs) @ [PktFlush]" and ?events = "concat (map (bandEvent hasProgress) msgs)"
  have "\<forall>p \<in> set (map bandPkt msgs). length p \<le> 65516" "stream = concat (map pktBytes (map bandPkt msgs)) @ FLUSH_PKT"
    using assms(1) unfolding encodePktStream_Inr by blast+
  then have "frames v2 (concat chunks) = (?pkts, Inr [])"
    using frames_pktBytes [of "map bandPkt msgs" v2 FLUSH_PKT] frames_flush [of v2 "[]"] assms(2) by simp
  then show "decodePktStream chunks v2 = Some (?pkts, None)"
    using decodeLoop_frames [OF settled_new(1)] by (simp add: decodePktStream_def settled_new(2))
  show "demux hasProgress hasError ?pkts = (?events, None)"
    using demux_quiet [OF assms(3)] by simp
  show "concat (map packBytes ?events) = concat (map snd (filter (\<lambda>m. fst m = 1) msgs))" by (rule packBytes_events)
  show "demux hasProgress hasError (butlast ?pkts @ PktData (3 # body) # later)
      = (?events @ (if hasError then [OnError (decode body)] else []), Some (sidebandFatal (decode body)))"
    using demux_quiet [OF assms(3), of hasProgress hasError "PktData (3 # body) # later"] by simp
qed

theorem sideband_over_wire_witness:
  "\<exists>stream pkts events. encodePktStream (map bandPkt [(1, [80]), (2, [46]), (1, [65, 67])]) = Inr stream
    \<and> decodePktStream [stream] True = Some (pkts, None) \<and> demux True True pkts = (events, None)
    \<and> concat (map packBytes events) = [80, 65, 67]"
proof -
  obtain stream where s: "encodePktStream (map bandPkt [(1, [80]), (2, [46]), (1, [65, 67])]) = Inr stream"
    by (simp add: encodePktStream_Inr bandPkt_def)
  show ?thesis using sideband_over_wire [OF s, of "[stream]" True True True "[]" "[]"] s by auto
qed

end
