(* ===== verification/RefNames.thy ===== *)
theory RefNames
  imports BinarySearch ObjectIds
begin

text \<open>
  \<open>refs/ref-validation.ts\<close>, \<open>refs/ref-name-conflict.ts\<close> and \<open>refs/taken-name-index.ts\<close>: which names a ref may have, and
  which names may not exist beside each other.
\<close>

section \<open>Model: validation\<close>

definition FORBIDDEN_SIMPLE :: "jsstr" where
  "FORBIDDEN_SIMPLE = [126, 94, 58, 63, 42, 91, 92, 32]"

fun throwIfBadChars :: "jsstr \<Rightarrow> tsgit_error + unit" where
  "throwIfBadChars [] = Inr ()"
| "throwIfBadChars (code # codes) =
     (if code \<le> 31 \<or> code = 127 then Inl (InvalidRef ''ref name contains forbidden character'')
      else if code \<in> set FORBIDDEN_SIMPLE then Inl (InvalidRef ''ref name contains forbidden character'')
      else if 8234 \<le> code \<and> code \<le> 8238 \<or> 8294 \<le> code \<and> code \<le> 8297
      then Inl (InvalidRef ''ref name contains forbidden Unicode override'')
      else throwIfBadChars codes)"

fun checkComponents :: "jsstr list \<Rightarrow> tsgit_error + unit" where
  "checkComponents [] = Inr ()"
| "checkComponents (component # components) =
     (if startsWith component [46] then Inl (InvalidRef ''ref name component must not start with .'')
      else if strEndsWith component (jslit ''.lock'') then Inl (InvalidRef ''ref name component must not end with .lock'')
      else checkComponents components)"

definition validateRefName :: "jsstr \<Rightarrow> tsgit_error + jsstr" where
  "validateRefName name =
     (if name = [] then Inl (InvalidRef ''ref name must not be empty'')
      else if startsWith name [47] \<or> strEndsWith name [47] then Inl (InvalidRef ''ref name must not start or end with /'')
      else if startsWith name [45] then Inl (InvalidRef ''ref name must not start with -'')
      else if name = [64] then Inl (InvalidRef ''ref name must not be single @'')
      else if strIncludes name [46, 46] then Inl (InvalidRef ''ref name must not contain ..'')
      else if strIncludes name [47, 47] then Inl (InvalidRef ''ref name must not contain consecutive slashes'')
      else if strIncludes name [64, 123] then Inl (InvalidRef (''ref name must not contain @'' @ ''{''))
      else if strEndsWith name [46] then Inl (InvalidRef ''ref name must not end with .'')
      else bindE (throwIfBadChars name) (\<lambda>_. bindE (checkComponents (splitUnit 47 name)) (\<lambda>_. Inr name)))"

definition isSafeRefName :: "jsstr \<Rightarrow> tsgit_error + bool" where
  "isSafeRefName name =
     (case validateRefName name of Inr _ \<Rightarrow> Inr True | Inl (InvalidRef _) \<Rightarrow> Inr False | Inl e \<Rightarrow> Inl e)"

section \<open>Model: conflicts\<close>

datatype conflictPosition = Above | Below

record refNameConflict =
  position :: conflictPosition
  blocking :: jsstr

record refNameFacts =
  existingPrefixes :: "jsstr set"
  smallestExistingUnder :: "jsstr option"

record transactionNames =
  txNames :: "jsstr set"
  txSorted :: "jsstr list"

function prefixesFrom :: "jsstr \<Rightarrow> nat \<Rightarrow> jsstr list" where
  "prefixesFrom name start =
     (case indexOfUnit name 47 start of
        None \<Rightarrow> []
      | Some slash \<Rightarrow> take slash name # prefixesFrom name (slash + 1))"
  by pat_completeness auto
termination
  by (relation "measure (\<lambda>(name, start). length name - start)") (auto simp: indexOfUnit_Some)

declare prefixesFrom.simps [simp del]

definition refNamePrefixes :: "jsstr \<Rightarrow> jsstr list" where
  "refNamePrefixes name = prefixesFrom name 0"

definition strLess :: "jsstr \<Rightarrow> jsstr \<Rightarrow> bool" where
  "strLess = ord_class.lexordp"

text \<open>The loop of \<open>smallestNameUnder\<close> is the lower-bound search of the index readers.\<close>

definition smallestNameUnder :: "jsstr list \<Rightarrow> jsstr \<Rightarrow> jsstr option option" where
  "smallestNameUnder names name =
     (let floor = name @ [47] in
      case lowerLoop (\<lambda>middle. if strLess (names ! middle) floor then - 1 else 1) 0 (length names) of
        None \<Rightarrow> None
      | Some low \<Rightarrow>
          Some (if low < length names \<and> startsWith (names ! low) floor then Some (names ! low) else None))"

definition hasPrefixRelatedNames :: "jsstr list \<Rightarrow> bool" where
  "hasPrefixRelatedNames names \<longleftrightarrow> list_ex (\<lambda>name. list_ex (\<lambda>prefix. prefix \<in> set names) (refNamePrefixes name)) names"

definition transactionNamesOf :: "jsstr list \<Rightarrow> transactionNames" where
  "transactionNamesOf names =
     (let distinct_names = remdups names in
      \<lparr>txNames = set names, txSorted = jsSort (\<lambda>a b. if strLess a b then - 1 else 1) distinct_names\<rparr>)"

definition firstRefNameConflict ::
    "jsstr \<Rightarrow> refNameFacts \<Rightarrow> transactionNames \<Rightarrow> refNameConflict option option" where
  "firstRefNameConflict name facts tx =
     (case find (\<lambda>prefix. prefix \<in> existingPrefixes facts \<or> prefix \<in> txNames tx) (refNamePrefixes name) of
        Some pre \<Rightarrow> Some (Some \<lparr>position = Above, blocking = pre\<rparr>)
      | None \<Rightarrow>
          (case smallestExistingUnder facts of
             Some b \<Rightarrow> Some (Some \<lparr>position = Below, blocking = b\<rparr>)
           | None \<Rightarrow>
               map_option (map_option (\<lambda>b. \<lparr>position = Below, blocking = b\<rparr>)) (smallestNameUnder (txSorted tx) name)))"

text \<open>\<open>takenNameIndex\<close>: its state is the set of recorded prefixes.\<close>

definition takeName :: "jsstr \<Rightarrow> jsstr set \<Rightarrow> jsstr set" where
  "takeName name prefixes = prefixes \<union> set (refNamePrefixes name)"

definition holdsUnder :: "jsstr \<Rightarrow> jsstr set \<Rightarrow> bool" where
  "holdsUnder name prefixes \<longleftrightarrow> name \<in> prefixes"

end
