(* ===== verification/RefFiles.thy ===== *)
theory RefFiles
  imports RefNames
begin

text \<open>
  \<open>refs/packed-refs.ts\<close> and \<open>refs/loose-ref.ts\<close>: the two files a ref is stored in. Both are text; \<open>trim\<close> and \<open>\s\<close> are
  those of the language.
\<close>

section \<open>Model: packed refs\<close>

record packedRefEntry =
  refName :: jsstr
  refId :: objectId
  refPeeled :: "objectId option"

datatype peelingTrait = PeelNone | PeelTags | PeelFully

record packedRefs =
  refEntries :: "packedRefEntry list"
  peeling :: peelingTrait
  refsSorted :: bool

definition HEADER_PREFIX :: jsstr where
  "HEADER_PREFIX = jslit ''# pack-refs with:''"

definition parsePackedHeader :: "jsstr list \<Rightarrow> peelingTrait \<times> bool \<times> nat" where
  "parsePackedHeader lines =
     (case lines of
        firstLine # _ \<Rightarrow>
          if startsWith firstLine HEADER_PREFIX then
            let traitStr = jsTrim (drop (length HEADER_PREFIX) firstLine);
                traits = (if traitStr = [] then [] else splitSpaces traitStr);
                hasPeeled = jslit ''peeled'' \<in> set traits;
                hasFullyPeeled = jslit ''fully-peeled'' \<in> set traits;
                isSorted = jslit ''sorted'' \<in> set traits
            in (if hasFullyPeeled then PeelFully else if hasPeeled then PeelTags else PeelNone, isSorted, 1)
          else (PeelNone, False, 0)
      | [] \<Rightarrow> (PeelNone, False, 0))"

fun parseEntriesLoop :: "jsstr list \<Rightarrow> packedRefEntry list \<Rightarrow> tsgit_error + packedRefEntry list" where
  "parseEntriesLoop [] es = Inr es"
| "parseEntriesLoop (line # lines) es =
     (if line = [] \<or> startsWith line [35] then parseEntriesLoop lines es
      else if startsWith line [94] then
        if es = [] then Inl (InvalidPackedRefs ''peel line without preceding ref entry'' [])
        else bindE (ObjectId_from (drop 1 line)) (\<lambda>peeled.
          parseEntriesLoop lines (es[length es - 1 := (last es)\<lparr>refPeeled := Some peeled\<rparr>]))
      else case indexOfUnit line 32 0 of
        None \<Rightarrow> Inl (InvalidPackedRefs ''invalid ref line format: '' (take 80 line))
      | Some spaceIdx \<Rightarrow>
          let sha = take spaceIdx line; name = drop (spaceIdx + 1) line in
          bindE (isSafeRefName name) (\<lambda>safe.
            if \<not> safe then Inl (InvalidPackedRefs ''packed refname is dangerous: '' (take 80 name))
            else bindE (ObjectId_from sha) (\<lambda>oid.
              bindE (RefName_from name) (\<lambda>n.
                parseEntriesLoop lines (es @ [\<lparr>refName = n, refId = oid, refPeeled = None\<rparr>])))))"

definition parsePackedRefs :: "jsstr \<Rightarrow> tsgit_error + packedRefs" where
  "parsePackedRefs content =
     (if content = [] then Inr \<lparr>refEntries = [], peeling = PeelNone, refsSorted = False\<rparr>
      else
        let lines = splitUnit 10 content; (trait, isSorted, startIndex) = parsePackedHeader lines
        in bindE (parseEntriesLoop (drop startIndex lines) []) (\<lambda>es.
          Inr \<lparr>refEntries = es, peeling = trait, refsSorted = isSorted\<rparr>))"

fun renderEntries :: "packedRefEntry list \<Rightarrow> jsstr list" where
  "renderEntries [] = []"
| "renderEntries (e # es) =
     [refId e @ 32 # refName e] @ (case refPeeled e of None \<Rightarrow> [] | Some p \<Rightarrow> [94 # p]) @ renderEntries es"

definition buildHeaderLine :: "packedRefs \<Rightarrow> jsstr" where
  "buildHeaderLine refs =
     (let traits = (if peeling refs = PeelTags \<or> peeling refs = PeelFully then [jslit ''peeled''] else []) @
            (if peeling refs = PeelFully then [jslit ''fully-peeled''] else []) @
            (if refsSorted refs then [jslit ''sorted''] else [])
      in if traits \<noteq> [] then jslit ''# pack-refs with: '' @ joinUnit 32 traits @ [32] else jslit ''# pack-refs with:'')"

definition compareRefEntries :: "packedRefEntry \<Rightarrow> packedRefEntry \<Rightarrow> int" where
  "compareRefEntries a b =
     (if strLess (refName a) (refName b) then - 1 else if strLess (refName b) (refName a) then 1 else 0)"

definition serializePackedRefs :: "packedRefs \<Rightarrow> jsstr" where
  "serializePackedRefs refs =
     (if refEntries refs = [] then []
      else joinUnit 10 (buildHeaderLine refs # renderEntries (jsSort compareRefEntries (refEntries refs))) @ [10])"

text \<open>The rewrite that drops names: the two walks of \<open>keptAfterDrops\<close>.\<close>

fun skipBelow :: "jsstr list \<Rightarrow> jsstr \<Rightarrow> jsstr list" where
  "skipBelow [] name = []"
| "skipBelow (d # ds) name = (if strLess d name then skipBelow ds name else d # ds)"

fun keptLoop :: "packedRefEntry list \<Rightarrow> jsstr list \<Rightarrow> packedRefEntry list" where
  "keptLoop [] dropping = []"
| "keptLoop (entry # es) dropping =
     (case skipBelow dropping (refName entry) of
        d # ds \<Rightarrow> if d = refName entry then keptLoop es ds else entry # keptLoop es (d # ds)
      | [] \<Rightarrow> entry # keptLoop es [])"

text \<open>A \<open>Set\<close> is the list of its elements in insertion order, without repetitions.\<close>

definition keptAfterDrops :: "packedRefEntry list \<Rightarrow> jsstr list \<Rightarrow> packedRefEntry list" where
  "keptAfterDrops es names = keptLoop es (jsSort (\<lambda>a b. if strLess a b then - 1 else if strLess b a then 1 else 0) names)"

record packedRefsRewrite =
  rewriteEntries :: "packedRefEntry list"
  rewriteContent :: jsstr

definition packedRefsWithout :: "packedRefEntry list \<Rightarrow> jsstr list \<Rightarrow> packedRefsRewrite" where
  "packedRefsWithout es names =
     (let kept = keptAfterDrops es names;
          header = buildHeaderLine \<lparr>refEntries = [], peeling = PeelFully, refsSorted = True\<rparr>
      in \<lparr>rewriteEntries = kept, rewriteContent = joinUnit 10 (header # renderEntries kept) @ [10]\<rparr>)"

section \<open>Model: loose refs\<close>

datatype looseBody =
    Unparseable
  | DirectBody objectId bool "jsstr option"
  | SymbolicBody jsstr bool bool

datatype looseRef = DirectRef objectId | SymbolicRef jsstr

definition isWhitespaceUnit :: "nat \<Rightarrow> bool" where
  "isWhitespaceUnit u \<longleftrightarrow> u \<in> {32, 9, 13, 10}"

definition trimEndWhitespace :: "jsstr \<Rightarrow> jsstr" where
  "trimEndWhitespace s = List.rev (dropWhile isWhitespaceUnit (List.rev s))"

definition trimStartWhitespace :: "jsstr \<Rightarrow> jsstr" where
  "trimStartWhitespace s = dropWhile isWhitespaceUnit s"

definition SYMREF_KEYWORD :: jsstr where
  "SYMREF_KEYWORD = jslit ''ref:''"

definition readSymbolicBody :: "jsstr \<Rightarrow> looseBody" where
  "readSymbolicBody content =
     (let body = trimEndWhitespace content; referent = trimStartWhitespace (drop (length SYMREF_KEYWORD) body) in
      if referent = [] then SymbolicBody referent True False
      else SymbolicBody referent (\<not> strEndsWith content [10]) (1 < length content - length body))"

definition isHexAnyCase :: "nat \<Rightarrow> bool" where
  "isHexAnyCase u \<longleftrightarrow> 48 \<le> u \<and> u \<le> 57 \<or> 97 \<le> u \<and> u \<le> 102 \<or> 65 \<le> u \<and> u \<le> 70"

text \<open>\<open>toLowerCase\<close> on hex digits.\<close>

definition lowerHex :: "jsstr \<Rightarrow> jsstr" where
  "lowerHex s = map (\<lambda>u. if 65 \<le> u \<and> u \<le> 90 then u + 32 else u) s"

definition readDirectBody :: "jsstr \<Rightarrow> nat \<Rightarrow> tsgit_error + looseBody" where
  "readDirectBody content width =
     (let hex = take width content in
      if length hex \<noteq> width \<or> \<not> (hex \<noteq> [] \<and> list_all isHexAnyCase hex) then Inr Unparseable
      else if width < length content \<and> \<not> isWhitespaceUnit (content ! width) then Inr Unparseable
      else bindE (ObjectId_from (lowerHex hex)) (\<lambda>oid.
        let trailer = drop width content; missingNewline = (trailer = []) in
        if missingNewline \<or> trailer = [10] then Inr (DirectBody oid missingNewline None)
        else Inr (DirectBody oid False (Some trailer))))"

definition readLooseBody :: "jsstr \<Rightarrow> nat \<Rightarrow> tsgit_error + looseBody" where
  "readLooseBody content width =
     (if startsWith content SYMREF_KEYWORD then Inr (readSymbolicBody content) else readDirectBody content width)"

definition symbolicTarget :: "jsstr \<Rightarrow> tsgit_error + jsstr" where
  "symbolicTarget referent =
     (if referent = [] then Inl (InvalidRef ''empty symbolic ref target'') else validateRefName referent)"

definition parseLooseRef :: "jsstr \<Rightarrow> nat \<Rightarrow> tsgit_error + looseRef" where
  "parseLooseRef content width =
     bindE (readLooseBody content width) (\<lambda>body.
       case body of
         DirectBody oid _ _ \<Rightarrow> Inr (DirectRef oid)
       | SymbolicBody referent _ _ \<Rightarrow> bindE (symbolicTarget referent) (\<lambda>t. Inr (SymbolicRef t))
       | Unparseable \<Rightarrow>
           if content = [] then Inl (InvalidRef ''empty ref content'') else Inl (invalidObjectId content))"

definition serializeDirectRef :: "objectId \<Rightarrow> jsstr" where
  "serializeDirectRef oid = oid @ [10]"

definition serializeSymbolicRef :: "jsstr \<Rightarrow> jsstr" where
  "serializeSymbolicRef target = jslit ''ref: '' @ target @ [10]"

end
