(* ===== verification/RefNameProofs.thy ===== *)
theory RefNameProofs
  imports RefNames
begin

text \<open>
  The prefixes and the sorted names of a transaction, the conflict check against the relation "sits under", and what an
  accepted ref name looks like.
\<close>

section \<open>Prefixes\<close>

text \<open>\<open>sitsUnder a b\<close>: the path \<open>b\<close> lies strictly below \<open>a\<close>.\<close>

definition sitsUnder :: "jsstr \<Rightarrow> jsstr \<Rightarrow> bool" where
  "sitsUnder a b \<longleftrightarrow> startsWith b (a @ [47])"

lemma sitsUnder_iff: "sitsUnder a b \<longleftrightarrow> (\<exists>s. b = a @ 47 # s)"
  by (simp add: sitsUnder_def startsWith_iff)

lemma set_prefixesFrom:
  "set (prefixesFrom name start) = {take i name |i. start \<le> i \<and> i < length name \<and> name ! i = 47}"
proof (induction name start rule: prefixesFrom.induct)
  case (1 name start)
  show ?case
  proof (cases "indexOfUnit name 47 start")
    case None
    then have "prefixesFrom name start = []" by (simp add: prefixesFrom.simps)
    then show ?thesis using None unfolding indexOfUnit_None by auto
  next
    case (Some slash)
    have s: "start \<le> slash" "slash < length name" "name ! slash = 47" "\<And>j. start \<le> j \<Longrightarrow> j < slash \<Longrightarrow> name ! j \<noteq> 47"
      using Some by (auto simp: indexOfUnit_Some)
    have "start \<le> i \<and> i < length name \<and> name ! i = 47 \<longleftrightarrow> i = slash \<or> slash + 1 \<le> i \<and> i < length name \<and> name ! i = 47" for i
      using s by (cases i slash rule: linorder_cases) auto
    then show ?thesis using 1 [OF Some] Some by (auto simp: prefixesFrom.simps [of name start])
  qed
qed

lemma set_refNamePrefixes: "p \<in> set (refNamePrefixes name) \<longleftrightarrow> sitsUnder p name"
proof
  assume "p \<in> set (refNamePrefixes name)"
  then obtain i where "p = take i name" "i < length name" "name ! i = 47" by (auto simp: refNamePrefixes_def set_prefixesFrom)
  then have "name = p @ 47 # drop (Suc i) name" using id_take_nth_drop [of i name] by simp
  then show "sitsUnder p name" unfolding sitsUnder_iff by blast
next
  assume "sitsUnder p name"
  then obtain s where "name = p @ 47 # s" by (auto simp: sitsUnder_iff)
  then show "p \<in> set (refNamePrefixes name)"
    by (auto simp: refNamePrefixes_def set_prefixesFrom intro!: exI [of _ "length p"])
qed

section \<open>The smallest name under a name\<close>

lemma between_prefix:
  fixes f x :: "'a :: linorder list"
  shows "\<not> ord_class.lexordp x f \<Longrightarrow> \<not> ord_class.lexordp (f @ s) x \<Longrightarrow> startsWith x f"
proof (induction f arbitrary: x)
  case (Cons c f)
  then show ?case by (cases x) auto
qed simp

lemma not_below_prefix:
  fixes f :: "'a :: linorder list"
  shows "\<not> ord_class.lexordp (f @ s) f"
  by (induction f) auto

lemma strLess_asym: "strLess a b \<Longrightarrow> \<not> strLess b a"
  unfolding strLess_def using lexordp_antisym by blast

lemma strLess_trans: "strLess a b \<Longrightarrow> strLess b c \<Longrightarrow> strLess a c"
  unfolding strLess_def using lexordp_trans by blast

lemma strLess_linear: "strLess a b \<or> a = b \<or> strLess b a"
  unfolding strLess_def using lexordp_linear by blast

definition namesSorted :: "jsstr list \<Rightarrow> bool" where
  "namesSorted ns \<longleftrightarrow> sorted_wrt strLess ns \<and> length ns \<le> 2147483648"

text \<open>The comparison of the slots of a sorted name list with a floor is the order the searches expect.\<close>

lemma name_slots:
  assumes "namesSorted ns"
  shows "slot_order (\<lambda>i. if strLess (ns ! i) f then - 1 else 1) 0 (length ns)"
proof
  fix i j assume "i < j" "j < length ns"
  then have "strLess (ns ! i) (ns ! j)" using assms by (simp add: namesSorted_def sorted_wrt_iff_nth_less)
  note lt = strLess_trans [OF this, of f]
  assume "(if strLess (ns ! j) f then - 1 else (1 :: int)) < 0"
  then have "strLess (ns ! i) f" using lt by (cases "strLess (ns ! j) f") simp_all
  then show "(if strLess (ns ! i) f then - 1 else (1 :: int)) < 0" by simp
next
  fix i j assume "i < j" "j < length ns"
  then have "strLess (ns ! i) (ns ! j)" using assms by (simp add: namesSorted_def sorted_wrt_iff_nth_less)
  note lt = strLess_trans [OF this, of f]
  assume "0 < (if strLess (ns ! i) f then - 1 else (1 :: int))"
  then have "\<not> strLess (ns ! j) f" using lt by (cases "strLess (ns ! i) f") auto
  then show "0 < (if strLess (ns ! j) f then - 1 else (1 :: int))" by simp
qed (use assms in \<open>simp add: namesSorted_def\<close>)

lemma smallestNameUnder_spec:
  assumes "namesSorted ns"
  obtains r where "smallestNameUnder ns name = Some r"
    and "r = None \<longleftrightarrow> (\<forall>n \<in> set ns. \<not> sitsUnder name n)"
    and "\<And>b. r = Some b \<Longrightarrow> b \<in> set ns \<and> sitsUnder name b \<and> (\<forall>n \<in> set ns. sitsUnder name n \<longrightarrow> n = b \<or> strLess b n)"
proof -
  let ?f = "name @ [47]"
  obtain l where l: "lowerLoop (\<lambda>i. if strLess (ns ! i) ?f then - 1 else 1) 0 (length ns) = Some l" "l \<le> length ns"
    and w: "\<forall>i. 0 \<le> i \<and> i < length ns \<longrightarrow> ((if strLess (ns ! i) ?f then - 1 else (1 :: int)) < 0 \<longleftrightarrow> i < l)"
    using slot_order.lower_bound [OF name_slots [OF assms]] by blast
  have w': "strLess (ns ! i) ?f \<longleftrightarrow> i < l" if "i < length ns" for i using w that by (auto split: if_splits)
  have after: "l \<le> i \<and> (i = l \<or> strLess (ns ! l) (ns ! i)) \<and> startsWith (ns ! l) ?f" if i: "i < length ns" "sitsUnder name (ns ! i)" for i
  proof -
    obtain s where s: "ns ! i = ?f @ s" using i(2) by (auto simp: sitsUnder_def startsWith_iff)
    then have "\<not> strLess (ns ! i) ?f" using not_below_prefix [of ?f s] by (simp add: strLess_def)
    then have li: "l \<le> i" using w' [OF i(1)] by simp
    have lt: "l = i \<or> strLess (ns ! l) (ns ! i)"
      using li i(1) assms by (cases "l = i") (auto simp: namesSorted_def sorted_wrt_iff_nth_less)
    then have "\<not> strLess (?f @ s) (ns ! l)" using strLess_asym [of "ns ! l"] s by (metis)
    moreover have "\<not> strLess (ns ! l) ?f" using w' [of l] li i(1) by simp
    ultimately have "startsWith (ns ! l) ?f" unfolding strLess_def by (intro between_prefix)
    then show ?thesis using li lt by auto
  qed
  let ?r = "if l < length ns \<and> startsWith (ns ! l) ?f then Some (ns ! l) else None"
  show ?thesis
  proof
    show "smallestNameUnder ns name = Some ?r" using l by (simp add: smallestNameUnder_def)
    show "?r = None \<longleftrightarrow> (\<forall>n \<in> set ns. \<not> sitsUnder name n)"
    proof
      assume n: "?r = None"
      show "\<forall>n \<in> set ns. \<not> sitsUnder name n"
      proof (intro ballI notI)
        fix n assume "n \<in> set ns" "sitsUnder name n"
        then obtain i where "i < length ns" "sitsUnder name (ns ! i)" by (auto simp: in_set_conv_nth)
        then show False using after [of i] n by (auto split: if_splits)
      qed
    next
      assume "\<forall>n \<in> set ns. \<not> sitsUnder name n"
      then show "?r = None" by (auto simp: sitsUnder_def)
    qed
    fix b assume b: "?r = Some b"
    have "n = b \<or> strLess b n" if n: "n \<in> set ns" "sitsUnder name n" for n
    proof -
      obtain i where "i < length ns" "n = ns ! i" using n(1) unfolding in_set_conv_nth by blast
      then show ?thesis using after [of i] n(2) b by (cases "i = l") (auto split: if_splits)
    qed
    then show "b \<in> set ns \<and> sitsUnder name b \<and> (\<forall>n \<in> set ns. sitsUnder name n \<longrightarrow> n = b \<or> strLess b n)"
      using b by (auto simp: sitsUnder_def split: if_splits)
  qed
qed

section \<open>The sorted names of a transaction\<close>

lemma set_jsInsert: "set (jsInsert f x ys) = insert x (set ys)"
  by (induction ys) auto

text \<open>On distinct elements a comparison never meets an element with itself.\<close>

lemma jsSort_distinct_cong:
  assumes "\<And>x y. x \<in> set xs \<Longrightarrow> y \<in> set xs \<Longrightarrow> x \<noteq> y \<Longrightarrow> f x y = g x y" "distinct xs"
  shows "jsSort f xs = jsSort g xs"
  using assms
proof (induction xs)
  case (Cons x xs)
  have "jsSort f xs = jsSort g xs" using Cons by simp
  moreover have "jsInsert f x (jsSort g xs) = jsInsert g x (jsSort g xs)"
    using Cons.prems by (intro jsInsert_cong) auto
  ultimately show ?case by (simp add: jsSort_def)
qed (simp add: jsSort_def)

definition nameOrder :: "jsstr \<Rightarrow> jsstr \<Rightarrow> int" where
  "nameOrder a b = (if strLess a b then - 1 else if strLess b a then 1 else 0)"

lemma nameOrder_le: "nameOrder a b \<le> 0 \<longleftrightarrow> \<not> strLess b a"
  using strLess_asym [of a b] by (auto simp: nameOrder_def)

lemma nameOrder_consistent: "consistent nameOrder A"
  unfolding consistent_def nameOrder_le using strLess_asym strLess_trans strLess_linear by metis

lemma sorted_names:
  assumes "distinct ns"
  shows "sorted_wrt strLess (jsSort nameOrder ns)"
proof -
  have "sorted_wrt (\<lambda>a b. nameOrder a b \<le> 0) (jsSort nameOrder ns)" by (intro sorted_jsSort nameOrder_consistent)
  moreover have "distinct (jsSort nameOrder ns)" using assms by simp
  ultimately show ?thesis
    unfolding nameOrder_le sorted_wrt_iff_nth_less using strLess_linear
    by (metis nth_eq_iff_index_eq less_irrefl order.strict_trans)
qed

lemma transactionNamesOf_sorted:
  assumes "length names \<le> 2147483648"
  shows "namesSorted (txSorted (transactionNamesOf names))" "set (txSorted (transactionNamesOf names)) = set names"
    "txNames (transactionNamesOf names) = set names"
proof -
  have e: "txSorted (transactionNamesOf names) = jsSort nameOrder (remdups names)"
    unfolding transactionNamesOf_def Let_def
  proof (simp, rule jsSort_distinct_cong)
    fix x y :: jsstr assume "x \<noteq> y"
    then show "(if strLess x y then - 1 else 1) = nameOrder x y"
      using strLess_linear [of x y] by (auto simp: nameOrder_def)
  qed simp
  have "length (remdups names) \<le> 2147483648" using assms length_remdups_leq [of names] by linarith
  then show "namesSorted (txSorted (transactionNamesOf names))"
    unfolding e namesSorted_def using sorted_names [of "remdups names"] by simp
  show "set (txSorted (transactionNamesOf names)) = set names" "txNames (transactionNamesOf names) = set names"
    unfolding e by (simp_all add: transactionNamesOf_def Let_def)
qed

lemma hasPrefixRelatedNames_iff:
  "hasPrefixRelatedNames names \<longleftrightarrow> (\<exists>a \<in> set names. \<exists>b \<in> set names. sitsUnder a b)"
  by (simp add: hasPrefixRelatedNames_def list_ex_iff) (use set_refNamePrefixes in blast)

lemma holdsUnder_takeName:
  "holdsUnder name (fold takeName taken {}) \<longleftrightarrow> (\<exists>t \<in> set taken. sitsUnder name t)"
proof -
  have "x \<in> fold takeName taken S \<longleftrightarrow> x \<in> S \<or> (\<exists>t \<in> set taken. sitsUnder x t)" for x S
    by (induction taken arbitrary: S) (auto simp: takeName_def set_refNamePrefixes)
  then show ?thesis by (simp add: holdsUnder_def)
qed

section \<open>Conflicts\<close>

text \<open>What storage must have told the check about the existing refs around a name.\<close>

definition factsAbout :: "jsstr set \<Rightarrow> jsstr \<Rightarrow> refNameFacts \<Rightarrow> bool" where
  "factsAbout existing name facts \<longleftrightarrow>
     existingPrefixes facts = {p \<in> existing. sitsUnder p name} \<and>
     (case smallestExistingUnder facts of
        None \<Rightarrow> \<forall>n \<in> existing. \<not> sitsUnder name n
      | Some b \<Rightarrow> b \<in> existing \<and> sitsUnder name b)"

text \<open>C19: A ref transaction never admits two names one of which is a directory of the other: the conflict check of a
  created name always answers, it answers "no conflict" exactly when no existing ref and no other name of the transaction
  sits above or below the name, and a conflict it names is real.\<close>

theorem ref_conflict_exact:
  assumes "factsAbout existing name facts" and "length names \<le> 2147483648"
  shows "\<exists>r. firstRefNameConflict name facts (transactionNamesOf names) = Some r \<and>
    (r = None \<longleftrightarrow> (\<forall>n \<in> existing \<union> set names. \<not> sitsUnder n name \<and> \<not> sitsUnder name n)) \<and>
    (\<forall>c. r = Some c \<longrightarrow> blocking c \<in> existing \<union> set names \<and>
      (case position c of Above \<Rightarrow> sitsUnder (blocking c) name | Below \<Rightarrow> sitsUnder name (blocking c)))"
proof -
  let ?tx = "transactionNamesOf names"
  note tx = transactionNamesOf_sorted [OF assms(2)]
  have ex: "p \<in> existingPrefixes facts \<longleftrightarrow> p \<in> existing \<and> sitsUnder p name" for p
    using assms(1) by (auto simp: factsAbout_def)
  show ?thesis
  proof (cases "find (\<lambda>prefix. prefix \<in> existingPrefixes facts \<or> prefix \<in> txNames ?tx) (refNamePrefixes name)")
    case (Some p)
    then have p: "p \<in> set (refNamePrefixes name)" "p \<in> existingPrefixes facts \<or> p \<in> txNames ?tx"
      by (auto simp: find_Some_iff)
    then have "sitsUnder p name" "p \<in> existing \<union> set names" using ex tx(3) set_refNamePrefixes by auto
    then show ?thesis using Some by (auto simp: firstRefNameConflict_def)
  next
    case None
    then have above: "\<forall>n \<in> existing \<union> set names. \<not> sitsUnder n name"
      using ex tx(3) by (auto simp: find_None_iff set_refNamePrefixes)
    show ?thesis
    proof (cases "smallestExistingUnder facts")
      case (Some b)
      then have "b \<in> existing" "sitsUnder name b" using assms(1) by (auto simp: factsAbout_def)
      then show ?thesis using None Some by (auto simp: firstRefNameConflict_def)
    next
      case none: None
      then have below: "\<forall>n \<in> existing. \<not> sitsUnder name n" using assms(1) by (auto simp: factsAbout_def)
      obtain r where r: "smallestNameUnder (txSorted ?tx) name = Some r"
        "r = None \<longleftrightarrow> (\<forall>n \<in> set names. \<not> sitsUnder name n)"
        "\<And>b. r = Some b \<Longrightarrow> b \<in> set names \<and> sitsUnder name b"
        using smallestNameUnder_spec [OF tx(1), of name] unfolding tx(2) by metis
      have "firstRefNameConflict name facts ?tx = Some (map_option (\<lambda>b. \<lparr>position = Below, blocking = b\<rparr>) r)"
        using None none r(1) by (simp add: firstRefNameConflict_def)
      then show ?thesis using above below r(2,3) by (cases r) auto
    qed
  qed
qed

theorem ref_conflict_exact_witness:
  "\<exists>r. firstRefNameConflict (jslit ''a/b'') \<lparr>existingPrefixes = {}, smallestExistingUnder = None\<rparr>
      (transactionNamesOf [jslit ''a/b/c'', jslit ''a/bc'']) = Some (Some r) \<and> position r = Below"
proof -
  have f: "factsAbout {jslit ''x''} (jslit ''a/b'') \<lparr>existingPrefixes = {}, smallestExistingUnder = None\<rparr>"
    by (simp add: factsAbout_def sitsUnder_def jslit_def)
  have u: "sitsUnder (jslit ''a/b'') (jslit ''a/b/c'')" "\<not> sitsUnder (jslit ''a/b/c'') (jslit ''a/b'')"
    "\<not> sitsUnder (jslit ''a/bc'') (jslit ''a/b'')" "\<not> sitsUnder (jslit ''x'') (jslit ''a/b'')"
    by (simp_all add: sitsUnder_def jslit_def)
  obtain r where r: "firstRefNameConflict (jslit ''a/b'') \<lparr>existingPrefixes = {}, smallestExistingUnder = None\<rparr>
      (transactionNamesOf [jslit ''a/b/c'', jslit ''a/bc'']) = Some r"
    "r \<noteq> None" "\<forall>c. r = Some c \<longrightarrow> blocking c \<in> {jslit ''x''} \<union> set [jslit ''a/b/c'', jslit ''a/bc''] \<and>
      (case position c of Above \<Rightarrow> sitsUnder (blocking c) (jslit ''a/b'') | Below \<Rightarrow> sitsUnder (jslit ''a/b'') (blocking c))"
    using ref_conflict_exact [OF f, of "[jslit ''a/b/c'', jslit ''a/bc'']"] u(1) by auto
  then obtain c where c: "r = Some c" by auto
  then have "position c = Below" using r(3) u by (cases "position c") auto
  then show ?thesis using r(1) c by blast
qed

section \<open>Accepted names\<close>

lemma indexOfStrFrom_None: "indexOfStrFrom s pat i = None \<longleftrightarrow> (\<nexists>a b. s = a @ pat @ b)"
proof (induction s arbitrary: i)
  case (Cons x s)
  have "(\<exists>a b. x # s = a @ pat @ b) \<longleftrightarrow> startsWith (x # s) pat \<or> (\<exists>a b. s = a @ pat @ b)"
    unfolding startsWith_iff
  proof safe
    fix a b assume e: "x # s = a @ pat @ b" and n: "\<nexists>a b. s = a @ pat @ b"
    have "a = []"
    proof (rule ccontr)
      assume "a \<noteq> []"
      then have "s = tl a @ pat @ b" using e by (cases a) auto
      then show False using n by blast
    qed
    then show "\<exists>ys. x # s = pat @ ys" using e by auto
  next
    fix ys assume "x # s = pat @ ys"
    then have "x # s = [] @ pat @ ys" by simp
    then show "\<exists>a b. x # s = a @ pat @ b" by blast
  next
    fix a b assume "s = a @ pat @ b"
    then have "x # a @ pat @ b = (x # a) @ pat @ b" by simp
    then show "\<exists>aa ba. x # a @ pat @ b = aa @ pat @ ba" by blast
  qed
  then show ?case using Cons by auto
qed auto

lemma strIncludes_iff: "strIncludes s pat \<longleftrightarrow> (\<exists>a b. s = a @ pat @ b)"
  by (simp add: strIncludes_def indexOfStr_def indexOfStrFrom_None)

lemma strEndsWith_iff: "strEndsWith s pat \<longleftrightarrow> (\<exists>a. s = a @ pat)"
proof
  assume "strEndsWith s pat"
  then have "s = take (length s - length pat) s @ pat" unfolding strEndsWith_def by (metis append_take_drop_id)
  then show "\<exists>a. s = a @ pat" by blast
qed (auto simp: strEndsWith_def)

lemma joinUnit_append: "ws \<noteq> [] \<Longrightarrow> vs \<noteq> [] \<Longrightarrow> joinUnit c (ws @ vs) = joinUnit c ws @ c # joinUnit c vs"
proof (induction c ws rule: joinUnit.induct)
  case (2 c w)
  then show ?case by (cases vs) auto
qed auto

lemma empty_component:
  assumes "[] \<in> set (splitUnit c name)"
  shows "name = [] \<or> startsWith name [c] \<or> strEndsWith name [c] \<or> strIncludes name [c, c]"
proof -
  obtain ws vs where s: "splitUnit c name = ws @ [] # vs" using assms by (meson split_list)
  have n: "name = joinUnit c (ws @ [] # vs)" using s joinUnit_splitUnit [of c name] by simp
  consider "ws = []" "vs = []" | "ws = []" "vs \<noteq> []" | "ws \<noteq> []" "vs = []" | "ws \<noteq> []" "vs \<noteq> []" by blast
  then show ?thesis
  proof cases
    case 1
    then show ?thesis using n by simp
  next
    case 2
    then have "name = c # joinUnit c vs" using n by (cases vs) auto
    then show ?thesis by simp
  next
    case 3
    then have "name = joinUnit c ws @ [c]" using n joinUnit_append [of ws "[[]]" c] by simp
    then show ?thesis unfolding strEndsWith_iff by blast
  next
    case 4
    then have "joinUnit c ([] # vs) = c # joinUnit c vs" by (cases vs) auto
    then have "name = joinUnit c ws @ [c, c] @ joinUnit c vs" using n joinUnit_append [of ws "[] # vs" c] 4 by simp
    then show ?thesis unfolding strIncludes_iff by blast
  qed
qed

definition badUnit :: "nat \<Rightarrow> bool" where
  "badUnit c \<longleftrightarrow> c \<le> 31 \<or> c = 127 \<or> c \<in> set FORBIDDEN_SIMPLE \<or> 8234 \<le> c \<and> c \<le> 8238 \<or> 8294 \<le> c \<and> c \<le> 8297"

lemma throwIfBadChars_iff: "throwIfBadChars s = Inr () \<longleftrightarrow> (\<forall>c \<in> set s. \<not> badUnit c)"
  by (induction s) (auto simp: badUnit_def split: if_splits)

lemma throwIfBadChars_error: "throwIfBadChars s = Inl e \<Longrightarrow> \<exists>m. e = InvalidRef m"
  by (induction s) (auto split: if_splits)

lemma checkComponents_iff:
  "checkComponents cs = Inr () \<longleftrightarrow> (\<forall>c \<in> set cs. \<not> startsWith c [46] \<and> \<not> strEndsWith c (jslit ''.lock''))"
  by (induction cs) auto

lemma checkComponents_error: "checkComponents cs = Inl e \<Longrightarrow> \<exists>m. e = InvalidRef m"
  by (induction cs) (auto split: if_splits)

lemma validateRefName_error: "validateRefName name = Inl e \<Longrightarrow> \<exists>m. e = InvalidRef m"
  unfolding validateRefName_def
  by (auto simp: bindE_Inl_iff split: if_splits dest: throwIfBadChars_error checkComponents_error)

lemma isSafeRefName_eq: "isSafeRefName name = Inr (validateRefName name = Inr name)"
proof (cases "validateRefName name")
  case (Inl e)
  then obtain m where "e = InvalidRef m" using validateRefName_error by blast
  then show ?thesis using Inl by (simp add: isSafeRefName_def)
next
  case (Inr n)
  then have "n = name" by (auto simp: validateRefName_def bindE_Inr_iff split: if_splits)
  then show ?thesis using Inr by (simp add: isSafeRefName_def)
qed

lemma validateRefName_Inr:
  assumes "validateRefName name = Inr n"
  shows "n = name" "name \<noteq> []" "\<forall>c \<in> set name. \<not> badUnit c" "\<not> startsWith name [45]"
    "\<forall>c \<in> set (splitUnit 47 name). c \<noteq> [] \<and> \<not> startsWith c [46] \<and> \<not> strEndsWith c (jslit ''.lock'')"
proof -
  have a: "n = name" "name \<noteq> []" "\<not> startsWith name [47]" "\<not> strEndsWith name [47]" "\<not> strIncludes name [47, 47]" "\<not> startsWith name [45]"
    "throwIfBadChars name = Inr ()" "checkComponents (splitUnit 47 name) = Inr ()"
    using assms by (auto simp: validateRefName_def bindE_Inr_iff split: if_splits)
  then show "n = name" "name \<noteq> []" "\<forall>c \<in> set name. \<not> badUnit c" "\<not> startsWith name [45]" by (simp_all add: throwIfBadChars_iff)
  show "\<forall>c \<in> set (splitUnit 47 name). c \<noteq> [] \<and> \<not> startsWith c [46] \<and> \<not> strEndsWith c (jslit ''.lock'')"
    using a empty_component [of 47 name] by (auto simp: checkComponents_iff)
qed



end
