(* ===== verification/RefFileProofs.thy ===== *)
theory RefFileProofs
  imports RefFiles RefNameProofs
begin

text \<open>
  What is written into a loose ref or into \<open>packed-refs\<close> is read back, and the rewrite that drops names drops just these.
\<close>

section \<open>Loose refs\<close>

lemma hexUnit_lower: "isHexDigitCodeUnit u \<Longrightarrow> isHexAnyCase u \<and> \<not> (65 \<le> u \<and> u \<le> 90)"
  by (auto simp: isHexDigitCodeUnit_def isHexAnyCase_def split: if_splits)

lemma valid_hex_units: "isValidObjectIdHex h \<Longrightarrow> c \<in> set h \<Longrightarrow> isHexDigitCodeUnit c"
  by (simp add: validHex_iff)

lemma lowerHex_id: "isValidObjectIdHex h \<Longrightarrow> lowerHex h = h"
  unfolding lowerHex_def using hexUnit_lower valid_hex_units by (intro map_idI) (metis)

lemma parseLooseRef_direct:
  assumes "isValidObjectIdHex h"
  shows "parseLooseRef (serializeDirectRef h) (length h) = Inr (DirectRef h)"
proof -
  have ne: "h \<noteq> []" using assms by (auto simp: validHex_iff)
  then have "isHexDigitCodeUnit (hd h)" using assms valid_hex_units by simp
  then have "hd h \<noteq> 114" by (auto simp: isHexDigitCodeUnit_def)
  then have s: "\<not> startsWith (h @ [10]) SYMREF_KEYWORD"
    using ne by (cases h) (simp_all add: SYMREF_KEYWORD_def jslit_def)
  have "list_all isHexAnyCase h" using assms valid_hex_units hexUnit_lower by (auto simp: list_all_iff)
  then have "readDirectBody (h @ [10]) (length h) = Inr (DirectBody h False None)"
    using assms ne by (simp add: readDirectBody_def lowerHex_id ObjectId_from_def isWhitespaceUnit_def Let_def)
  then show ?thesis using s by (simp add: parseLooseRef_def readLooseBody_def serializeDirectRef_def)
qed

lemma badUnit_ws: "isWhitespaceUnit u \<Longrightarrow> badUnit u"
  by (auto simp: isWhitespaceUnit_def badUnit_def FORBIDDEN_SIMPLE_def)

lemma dropWhile_none: "\<forall>c \<in> set s. \<not> P c \<Longrightarrow> dropWhile P s = s"
  by (cases s) auto

lemma parseLooseRef_symbolic:
  assumes "validateRefName t = Inr n"
  shows "parseLooseRef (serializeSymbolicRef t) width = Inr (SymbolicRef t)"
proof -
  note v = validateRefName_Inr [OF assms]
  have w: "\<forall>c \<in> set t. \<not> isWhitespaceUnit c" using v(3) badUnit_ws by blast
  have "dropWhile isWhitespaceUnit (List.rev (jslit ''ref: '' @ t @ [10])) = List.rev t @ List.rev (jslit ''ref: '')"
    using w v(2) by (cases t rule: rev_cases) (auto simp: isWhitespaceUnit_def [of 10])
  then have "trimEndWhitespace (serializeSymbolicRef t) = jslit ''ref: '' @ t"
    by (simp add: trimEndWhitespace_def serializeSymbolicRef_def)
  moreover have "trimStartWhitespace (32 # t) = t"
    using w by (simp add: trimStartWhitespace_def isWhitespaceUnit_def [of 32] dropWhile_none)
  ultimately show ?thesis using assms v(1,2)
    by (simp add: parseLooseRef_def readLooseBody_def readSymbolicBody_def SYMREF_KEYWORD_def jslit_def
      serializeSymbolicRef_def symbolicTarget_def Let_def)
qed

section \<open>Packed refs\<close>

definition refGood :: "packedRefEntry \<Rightarrow> bool" where
  "refGood e \<longleftrightarrow> validateRefName (refName e) = Inr (refName e) \<and> isValidObjectIdHex (refId e) \<and>
     (case refPeeled e of None \<Rightarrow> True | Some p \<Rightarrow> isValidObjectIdHex p)"

lemma valid_hex_start:
  assumes "isValidObjectIdHex h"
  shows "h \<noteq> []" "32 \<notin> set h" "10 \<notin> set h" "\<not> startsWith (h @ s) [35]" "\<not> startsWith (h @ s) [94]"
proof -
  show n: "h \<noteq> []" using assms by (auto simp: validHex_iff)
  show "32 \<notin> set h" "10 \<notin> set h" by (auto simp: isHexDigitCodeUnit_def dest: valid_hex_units [OF assms])
  have "isHexDigitCodeUnit (hd h)" using assms valid_hex_units n by simp
  then have "hd h \<noteq> 35" "hd h \<noteq> 94" by (auto simp: isHexDigitCodeUnit_def)
  then show "\<not> startsWith (h @ s) [35]" "\<not> startsWith (h @ s) [94]" using n by (cases h; simp)+
qed

lemma parse_ref_line:
  assumes "validateRefName name = Inr name" "isValidObjectIdHex h"
  shows "parseEntriesLoop ((h @ 32 # name) # lines) es = parseEntriesLoop lines (es @ [\<lparr>refName = name, refId = h, refPeeled = None\<rparr>])"
proof -
  have "indexOfUnit (h @ 32 # name) 32 0 = Some (length h)"
    using indexOfUnit_append [of 32 h 0 "[]" name] valid_hex_start(2) [OF assms(2)] by simp
  moreover have "isSafeRefName name = Inr True" "RefName_from name = Inr name" "ObjectId_from h = Inr h"
    using assms validateRefName_Inr(2) [OF assms(1)] by (simp_all add: isSafeRefName_eq RefName_from_def ObjectId_from_def)
  ultimately show ?thesis using valid_hex_start(4,5) [OF assms(2), of "32 # name"] by simp
qed

lemma parse_peel_line:
  assumes "isValidObjectIdHex p"
  shows "parseEntriesLoop ((94 # p) # lines) (es @ [e]) = parseEntriesLoop lines (es @ [e\<lparr>refPeeled := Some p\<rparr>])"
  using assms by (simp add: ObjectId_from_def)

lemma parse_rendered:
  "\<forall>e \<in> set es. refGood e \<Longrightarrow> parseEntriesLoop (renderEntries es @ rest) acc = parseEntriesLoop rest (acc @ es)"
proof (induction es arbitrary: acc)
  case (Cons e es)
  have g: "validateRefName (refName e) = Inr (refName e)" "isValidObjectIdHex (refId e)"
    "\<And>p. refPeeled e = Some p \<Longrightarrow> isValidObjectIdHex p" using Cons.prems by (auto simp: refGood_def)
  have ih: "parseEntriesLoop (renderEntries es @ rest) a = parseEntriesLoop rest (a @ es)" for a using Cons by simp
  show ?case
  proof (cases "refPeeled e")
    case None
    then have e: "\<lparr>refName = refName e, refId = refId e, refPeeled = None\<rparr> = e" by simp
    show ?thesis using None ih [of "acc @ [e]"] parse_ref_line [OF g(1,2)]
      by (simp add: e del: parseEntriesLoop.simps(2))
  next
    case (Some p)
    then have e: "\<lparr>refName = refName e, refId = refId e, refPeeled = Some p\<rparr> = e" by simp
    show ?thesis using Some ih [of "acc @ [e]"] parse_ref_line [OF g(1,2)] parse_peel_line [OF g(3) [OF Some]]
      by (simp add: e del: parseEntriesLoop.simps(2))
  qed
qed simp

lemma rendered_no_newline:
  assumes "\<forall>e \<in> set es. refGood e"
  shows "\<forall>l \<in> set (renderEntries es). 10 \<notin> set l"
  using assms
proof (induction es)
  case (Cons e es)
  have "badUnit 10" by (simp add: badUnit_def)
  moreover have "validateRefName (refName e) = Inr (refName e)" using Cons.prems by (simp add: refGood_def)
  ultimately have "10 \<notin> set (refName e)" using validateRefName_Inr(3) by blast
  then show ?case using Cons valid_hex_start(3) by (auto simp: refGood_def split: option.splits)
qed simp

lemma split_lines:
  assumes "ls \<noteq> []" "\<forall>l \<in> set ls. 10 \<notin> set l"
  shows "splitUnit 10 (joinUnit 10 ls @ [10]) = ls @ [[]]"
proof -
  have "joinUnit 10 ls @ [10] = joinUnit 10 (ls @ [[]])" using assms(1) joinUnit_append [of ls "[[]]" 10] by simp
  then show ?thesis using splitUnit_joinUnit [of "ls @ [[]]" 10] assms by (simp add: list_all_iff)
qed

lemma header_line:
  "parsePackedHeader (buildHeaderLine refs # ls) = (peeling refs, refsSorted refs, 1)" "10 \<notin> set (buildHeaderLine refs)"
  by (cases "peeling refs"; cases "refsSorted refs";
      simp add: buildHeaderLine_def parsePackedHeader_def HEADER_PREFIX_def jslit_def jsTrim_def isSpaceUnit_def)+

lemma parse_written:
  assumes "\<forall>e \<in> set es. refGood e"
  shows "parsePackedRefs (joinUnit 10 (buildHeaderLine refs # renderEntries es) @ [10])
    = Inr \<lparr>refEntries = es, peeling = peeling refs, refsSorted = refsSorted refs\<rparr>"
proof -
  let ?c = "joinUnit 10 (buildHeaderLine refs # renderEntries es) @ [10]"
  have "splitUnit 10 ?c = (buildHeaderLine refs # renderEntries es) @ [[]]"
    using rendered_no_newline [OF assms] header_line(2) by (intro split_lines) auto
  then show ?thesis
    using parse_rendered [OF assms, of "[[]]" "[]"] header_line(1) [of refs "renderEntries es @ [[]]"]
    by (simp add: parsePackedRefs_def)
qed

lemma skipBelow_eq: "skipBelow ds n = dropWhile (\<lambda>d. strLess d n) ds"
  by (induction ds) auto

lemma keptLoop_filter:
  assumes "sorted_wrt strLess (map refName es)" "sorted_wrt strLess ds"
  shows "keptLoop es ds = filter (\<lambda>e. refName e \<notin> set ds) es"
  using assms
proof (induction es arbitrary: ds)
  case (Cons e es)
  let ?n = "refName e" and ?ds = "skipBelow ds (refName e)"
  have ds: "ds = takeWhile (\<lambda>d. strLess d ?n) ds @ ?ds" by (simp add: skipBelow_eq)
  have srt: "sorted_wrt strLess ?ds" using Cons.prems(2) ds by (metis sorted_wrt_append)
  note IH = Cons.IH and hyps = Cons.prems
  have later: "strLess ?n (refName x)" if "x \<in> set es" for x using Cons.prems(1) that by simp
  have in_ds: "d \<in> set ds \<longleftrightarrow> d \<in> set ?ds" if "\<not> strLess d ?n" for d
  proof -
    have "set ds = set (takeWhile (\<lambda>d. strLess d ?n) ds) \<union> set ?ds" by (subst ds) (simp only: set_append)
    then show ?thesis using that set_takeWhileD by fastforce
  qed
  have same: "filter (\<lambda>x. refName x \<notin> set ds) es = filter (\<lambda>x. refName x \<notin> set ?ds) es"
    using in_ds later strLess_asym by (intro filter_cong) auto
  show ?case
  proof (cases ?ds)
    case Nil
    then have "?n \<notin> set ds" using in_ds [of ?n] strLess_asym by auto
    moreover have "keptLoop es [] = es" using Cons.IH [of "[]"] Cons.prems(1) by simp
    ultimately show ?thesis using Nil same by simp
  next
    case (Cons d ds')
    have nd: "\<not> strLess d ?n" using Cons by (metis skipBelow_eq dropWhile_eq_Cons_conv)
    have ih: "keptLoop es (d # ds') = filter (\<lambda>x. refName x \<notin> set (d # ds')) es"
      "keptLoop es ds' = filter (\<lambda>x. refName x \<notin> set ds') es"
      using IH [of "d # ds'"] IH [of ds'] hyps(1) srt Cons by auto
    show ?thesis
    proof (cases "d = ?n")
      case True
      then have "refName x \<noteq> d" if "x \<in> set es" for x using later [OF that] strLess_asym by metis
      then have "filter (\<lambda>x. refName x \<notin> set (d # ds')) es = filter (\<lambda>x. refName x \<notin> set ds') es"
        by (intro filter_cong) auto
      moreover have "?n \<in> set ds" using in_ds [of ?n] True nd Cons by simp
      ultimately show ?thesis using True Cons ih same by simp
    next
      case False
      then have "strLess ?n d" using strLess_linear nd by blast
      then have "?n \<notin> set ?ds" using srt Cons strLess_asym by auto
      then have "?n \<notin> set ds" using in_ds [of ?n] strLess_asym by blast
      then show ?thesis using False Cons ih same by simp
    qed
  qed
qed simp


lemma refGood_example: "refGood \<lparr>refName = jslit ''refs/tags/v1'', refId = replicate 40 97, refPeeled = Some (replicate 40 98)\<rparr>"
  by (simp add: refGood_def validateRefName_def jslit_def strIncludes_def strEndsWith_def indexOfStr_def FORBIDDEN_SIMPLE_def
    validHex_iff isHexDigitCodeUnit_def)


text \<open>C28: Deleting packed refs deletes exactly those: on a snapshot in strict name order the rewrite keeps every entry whose
  name is not dropped, in order, and the text it writes parses back to just these entries, fully peeled and sorted.\<close>

theorem packed_refs_without_exact:
  assumes "sorted_wrt strLess (map refName es)" and "\<forall>e \<in> set es. refGood e" and "distinct names"
  shows "rewriteEntries (packedRefsWithout es names) = filter (\<lambda>e. refName e \<notin> set names) es
    \<and> parsePackedRefs (rewriteContent (packedRefsWithout es names))
      = Inr \<lparr>refEntries = filter (\<lambda>e. refName e \<notin> set names) es, peeling = PeelFully, refsSorted = True\<rparr>"
proof -
  have "keptAfterDrops es names = keptLoop es (jsSort nameOrder names)"
    unfolding keptAfterDrops_def nameOrder_def [abs_def] ..
  then have k: "keptAfterDrops es names = filter (\<lambda>e. refName e \<notin> set names) es"
    using keptLoop_filter [OF assms(1) sorted_names [OF assms(3)]] by simp
  have "\<forall>e \<in> set (filter (\<lambda>e. refName e \<notin> set names) es). refGood e" using assms(2) by simp
  from parse_written [OF this, of "\<lparr>refEntries = [], peeling = PeelFully, refsSorted = True\<rparr>"]
  show ?thesis by (simp add: packedRefsWithout_def k Let_def)
qed

theorem packed_refs_without_exact_witness:
  "rewriteEntries (packedRefsWithout [\<lparr>refName = jslit ''refs/tags/v1'', refId = replicate 40 97, refPeeled = Some (replicate 40 98)\<rparr>]
     [jslit ''refs/tags/v0'', jslit ''refs/tags/v1'']) = []"
proof -
  have "sorted_wrt strLess (map refName [\<lparr>refName = jslit ''refs/tags/v1'', refId = replicate 40 97, refPeeled = Some (replicate 40 98)\<rparr>])"
    by simp
  moreover have "distinct [jslit ''refs/tags/v0'', jslit ''refs/tags/v1'']" by (simp add: jslit_def)
  ultimately show ?thesis
    using packed_refs_without_exact [of "[\<lparr>refName = jslit ''refs/tags/v1'', refId = replicate 40 97, refPeeled = Some (replicate 40 98)\<rparr>]"
        "[jslit ''refs/tags/v0'', jslit ''refs/tags/v1'']"] refGood_example by simp
qed

end
