(* ===== verification/Utf8Text.thy ===== *)
theory Utf8Text
  imports TextCodec
begin

text \<open>
  Well-formed text through the encoder: what is encoded decodes to itself, and an ASCII separator splits the bytes where
  it splits the text.
\<close>

section \<open>Well-formed text\<close>

definition wfText :: "jsstr \<Rightarrow> bool" where
  "wfText s \<longleftrightarrow> noLone s \<and> (\<forall>u \<in> set s. u < 65536)"

lemma unat_small: "n < 256 \<Longrightarrow> unat (of_nat n :: byte) = n"
  by (simp add: unat_of_nat)

lemma scalar_decodes_bmp:
  assumes "c < 65536" "\<not> isHigh c" "\<not> isLow c"
  shows "decodes_to (utf8_scalar c) [c]"
proof -
  consider "c < 128" | "128 \<le> c" "c < 2048" | "2048 \<le> c" by linarith
  then show ?thesis
  proof cases
    case 1
    then show ?thesis using decodes_to_1 [of "of_nat c"] by (simp add: utf8_scalar_def utf16_scalar_def unat_of_nat)
  next
    case 2
    let ?a = "of_nat (192 + c div 64) :: byte" and ?b = "of_nat (128 + c mod 64) :: byte"
    have d: "c div 64 < 32" "2 \<le> c div 64" using 2 by linarith+
    have u: "unat ?a = 192 + c div 64" "unat ?b = 128 + c mod 64" using d by (intro unat_small; linarith)+
    have "decodes_to [?a, ?b] (utf16_scalar ((unat ?a - 192) * 64 + (unat ?b - 128)))"
      using d by (intro decodes_to_2; simp only: isCont_def u) linarith+
    moreover have "(unat ?a - 192) * 64 + (unat ?b - 128) = c" unfolding u by simp
    ultimately show ?thesis using 2 by (simp add: utf8_scalar_def utf16_scalar_def)
  next
    case 3
    let ?a = "of_nat (224 + c div 4096) :: byte" and ?b = "of_nat (128 + c div 64 mod 64) :: byte" and ?c = "of_nat (128 + c mod 64) :: byte"
    have d: "c div 4096 < 16" using assms(1) by (simp add: less_mult_imp_div_less)
    have u: "unat ?a = 224 + c div 4096" "unat ?b = 128 + c div 64 mod 64" "unat ?c = 128 + c mod 64"
      using d by (intro unat_small; linarith)+
    have e: "c div 64 = c div 4096 * 64 + c div 64 mod 64"
      using div_mult_mod_eq [of "c div 64" 64] by (simp add: div_mult2_eq [symmetric])
    have low: "c div 4096 = 0 \<longrightarrow> 32 \<le> c div 64 mod 64" using 3 e by linarith
    have high: "c div 4096 = 13 \<longrightarrow> c div 64 mod 64 < 32"
    proof
      assume "c div 4096 = 13"
      then have "c div 64 = 832 + c div 64 mod 64" using e by simp
      moreover have "c < 55296 \<or> 57343 < c" using assms(2,3) by (auto simp: isHigh_def isLow_def)
      moreover have "c < 57344" using \<open>c div 4096 = 13\<close> by linarith
      ultimately show "c div 64 mod 64 < 32" by linarith
    qed
    have "decodes_to [?a, ?b, ?c] (utf16_scalar (((unat ?a - 224) * 64 + (unat ?b - 128)) * 64 + (unat ?c - 128)))"
      using d low high by (intro decodes_to_3; simp only: isCont_def u) (linarith | auto)+
    moreover have "((unat ?a - 224) * 64 + (unat ?b - 128)) * 64 + (unat ?c - 128) = c"
      unfolding u using e div_mult_mod_eq [of c 64] by simp
    ultimately show ?thesis using 3 assms(1) by (simp add: utf8_scalar_def utf16_scalar_def)
  qed
qed

lemma scalar_decodes_pair:
  assumes "isHigh h" "isLow l"
  shows "decodes_to (utf8_scalar (surrogatePair h l)) [h, l]"
proof -
  define k where "k = (h - 55296) * 1024 + (l - 56320)"
  have hl: "55296 \<le> h" "h \<le> 56319" "56320 \<le> l" "l \<le> 57343" using assms by (auto simp: isHigh_def isLow_def)
  have k: "k < 1048576" "k div 1024 = h - 55296" "k mod 1024 = l - 56320"
  proof -
    have lo: "l - 56320 < 1024" and hi: "h - 55296 < 1024" using hl by linarith+
    show "k < 1048576" using lo hi unfolding k_def by linarith
    show "k div 1024 = h - 55296" "k mod 1024 = l - 56320" using lo unfolding k_def by simp_all
  qed
  define c where "c = 65536 + k"
  have c: "surrogatePair h l = c" "65536 \<le> c" "c < 1114112" using k by (simp_all add: c_def surrogatePair_def k_def)
  have u16: "utf16_scalar c = [h, l]" using c k hl by (simp add: utf16_scalar_def c_def)
  let ?a = "of_nat (240 + c div 262144) :: byte" and ?b = "of_nat (128 + c div 4096 mod 64) :: byte"
    and ?c = "of_nat (128 + c div 64 mod 64) :: byte" and ?d = "of_nat (128 + c mod 64) :: byte"
  have d: "c div 262144 \<le> 4" using c by linarith
  have u: "unat ?a = 240 + c div 262144" "unat ?b = 128 + c div 4096 mod 64" "unat ?c = 128 + c div 64 mod 64" "unat ?d = 128 + c mod 64"
    using d by (intro unat_small; linarith)+
  have e1: "c div 64 = c div 4096 * 64 + c div 64 mod 64"
    using div_mult_mod_eq [of "c div 64" 64] by (simp add: div_mult2_eq [symmetric])
  have e2: "c div 4096 = c div 262144 * 64 + c div 4096 mod 64"
    using div_mult_mod_eq [of "c div 4096" 64] by (simp add: div_mult2_eq [symmetric])
  have lo: "c div 262144 = 0 \<longrightarrow> 16 \<le> c div 4096 mod 64" using c(2) e2 by linarith
  have hi: "c div 262144 = 4 \<longrightarrow> c div 4096 mod 64 < 16" using c(3) e2 by linarith
  have "decodes_to [?a, ?b, ?c, ?d] (utf16_scalar ((((unat ?a - 240) * 64 + (unat ?b - 128)) * 64 + (unat ?c - 128)) * 64 + (unat ?d - 128)))"
    using d lo hi by (intro decodes_to_4; simp only: isCont_def u) (linarith | auto)+
  moreover have "(((unat ?a - 240) * 64 + (unat ?b - 128)) * 64 + (unat ?c - 128)) * 64 + (unat ?d - 128) = c"
    unfolding u using e1 e2 div_mult_mod_eq [of c 64] by simp
  ultimately have "decodes_to [?a, ?b, ?c, ?d] [h, l]" using u16 by simp
  moreover have "utf8_scalar c = [?a, ?b, ?c, ?d]" using c(2) by (simp add: utf8_scalar_def)
  ultimately show ?thesis unfolding c(1) by simp
qed

lemma unit16_decodes: "unit16 us \<Longrightarrow> \<forall>u \<in> set us. u < 65536 \<Longrightarrow> decodes_to (utf8_encode us) us"
  using scalar_decodes_bmp scalar_decodes_pair by (auto simp: unit16_def)

text \<open>A well-formed text is a sequence of characters.\<close>

lemma wfText_induct [consumes 1, case_names Nil unit]:
  assumes "wfText s" "P []" "\<And>us s. unit16 us \<Longrightarrow> \<forall>u \<in> set us. u < 65536 \<Longrightarrow> wfText s \<Longrightarrow> P s \<Longrightarrow> P (us @ s)"
  shows "P s"
  using assms(1)
proof (induction s rule: noLone.induct)
  case 1
  then show ?case using assms(2) by simp
next
  case (2 u)
  then have "unit16 [u]" "\<forall>v \<in> set [u]. v < 65536" by (auto simp: wfText_def unit16_def)
  then show ?case using assms(3) [of "[u]" "[]"] assms(2) by (simp add: wfText_def)
next
  case (3 u v us)
  show ?case
  proof (cases "isHigh u")
    case True
    then have "wfText us" "unit16 [u, v]" "\<forall>x \<in> set [u, v]. x < 65536" using 3 by (auto simp: wfText_def unit16_def)
    then show ?thesis using 3 True assms(3) [of "[u, v]" us] by simp
  next
    case False
    then have "wfText (v # us)" "unit16 [u]" "\<forall>x \<in> set [u]. x < 65536" using 3 by (auto simp: wfText_def unit16_def)
    then show ?thesis using 3 False assms(3) [of "[u]" "v # us"] by simp
  qed
qed

lemma decode_encode: "wfText s \<Longrightarrow> utf8_decode (utf8_encode s) = s"
proof (induction rule: wfText_induct)
  case (unit us s)
  then show ?case using utf8_encode_unit16 [of us s] unit16_decodes [of us] by (simp add: decodes_to_def)
qed simp

lemma noLone_append: "noLone a \<Longrightarrow> noLone b \<Longrightarrow> noLone (a @ b)"
proof (induction a rule: noLone.induct)
  case (2 u)
  then show ?case by (cases b) auto
next
  case (3 u v us)
  then show ?case by (auto split: if_splits)
qed auto

lemma wfText_append [intro]: "wfText a \<Longrightarrow> wfText b \<Longrightarrow> wfText (a @ b)"
  by (auto simp: wfText_def noLone_append)

lemma wfText_Nil [simp]: "wfText []"
  by (simp add: wfText_def)

lemma wfText_ascii: "\<forall>u \<in> set s. u < 128 \<Longrightarrow> wfText s"
proof -
  have "\<forall>u \<in> set s. u < 128 \<Longrightarrow> noLone s"
    by (induction s rule: noLone.induct) (auto simp: isHigh_def isLow_def)
  then show "\<forall>u \<in> set s. u < 128 \<Longrightarrow> wfText s" by (auto simp: wfText_def)
qed

lemma wfText_split: "u < 128 \<Longrightarrow> wfText (a @ u # b) \<Longrightarrow> wfText a \<and> wfText b"
proof -
  assume u: "u < 128"
  have "noLone (a @ u # b) \<Longrightarrow> noLone a \<and> noLone b"
  proof (induction a rule: noLone.induct)
    case 1
    then show ?case using u by (cases b) (auto simp: isHigh_def isLow_def)
  next
    case (2 x)
    then show ?case using u by (cases b) (auto simp: isHigh_def isLow_def split: if_splits)
  next
    case (3 x y us)
    then show ?case by (auto split: if_splits)
  qed
  then show "wfText (a @ u # b) \<Longrightarrow> wfText a \<and> wfText b" by (auto simp: wfText_def)
qed

lemma wfText_Cons_ascii: "u < 128 \<Longrightarrow> wfText s \<Longrightarrow> wfText (u # s)"
  using wfText_append [of "[u]" s] wfText_ascii [of "[u]"] by simp

section \<open>Separators\<close>

lemma utf8_encode_cut:
  assumes "c < 128"
  shows "utf8_encode (a @ c # b) = utf8_encode a @ of_nat c # utf8_encode b"
proof (induction a rule: utf8_encode.induct)
  case 1
  then show ?case using assms by (cases b) (auto simp: isHigh_def isLow_def utf8_scalar_def)
next
  case (2 u)
  then show ?case using assms by (cases b) (auto simp: isHigh_def isLow_def utf8_scalar_def)
next
  case (3 u v us)
  then show ?case by auto
qed

lemma utf8_scalar_high: "128 \<le> c \<Longrightarrow> c < 1114112 \<Longrightarrow> w \<in> set (utf8_scalar c) \<Longrightarrow> 128 \<le> unat w"
proof -
  assume c: "128 \<le> c" "c < 1114112" and w: "w \<in> set (utf8_scalar c)"
  have big: "128 \<le> unat (of_nat n :: byte)" if "128 \<le> n" "n < 256" for n using that by (simp add: unat_small)
  have d: "c div 262144 \<le> 4" using c by linarith
  consider "c < 2048" | "2048 \<le> c" "c < 65536" | "65536 \<le> c" by linarith
  then show ?thesis
  proof cases
    case 1
    then have "192 + c div 64 < 256" by linarith
    then show ?thesis using 1 c(1) w big [of "192 + c div 64"] big [of "128 + c mod 64"]
      unfolding utf8_scalar_def by (auto simp del: of_nat_add)
  next
    case 2
    then have "224 + c div 4096 < 256" by linarith
    then show ?thesis using 2 w big [of "224 + c div 4096"] big [of "128 + c div 64 mod 64"] big [of "128 + c mod 64"]
      unfolding utf8_scalar_def by (auto simp del: of_nat_add)
  next
    case 3
    then show ?thesis
      using d w big [of "240 + c div 262144"] big [of "128 + c div 4096 mod 64"] big [of "128 + c div 64 mod 64"] big [of "128 + c mod 64"]
      unfolding utf8_scalar_def by (auto simp del: of_nat_add)
  qed
qed

lemma encode_no_ascii:
  assumes "wfText s" "c < 128" "c \<notin> set s"
  shows "of_nat c \<notin> set (utf8_encode s)"
  using assms
proof (induction rule: wfText_induct)
  case (unit us s)
  have "of_nat c \<notin> set (utf8_encode us)"
  proof
    assume m: "of_nat c \<in> set (utf8_encode us)"
    have c: "unat (of_nat c :: byte) = c" using unit.prems(1) by (simp add: unat_small)
    consider u where "us = [u]" "\<not> isHigh u" "\<not> isLow u" | h l where "us = [h, l]" "isHigh h" "isLow l"
      using unit.hyps(1) by (auto simp: unit16_def)
    then show False
    proof cases
      case 1
      then have w: "of_nat c \<in> set (utf8_scalar u)" "u < 65536" "u \<noteq> c" using m unit by auto
      show False
      proof (cases "u < 128")
        case True
        then have "(of_nat c :: byte) = of_nat u" using w(1) by (simp add: utf8_scalar_def)
        then have "unat (of_nat c :: byte) = unat (of_nat u :: byte)" by simp
        then show False using True c w(3) by (simp add: unat_small)
      next
        case False
        then show False using utf8_scalar_high [of u "of_nat c"] w c unit.prems(1) by simp
      qed
    next
      case 2
      then have "of_nat c \<in> set (utf8_scalar (surrogatePair h l))" using m by simp
      moreover have "128 \<le> surrogatePair h l" "surrogatePair h l < 1114112"
        using 2 by (auto simp: surrogatePair_def isHigh_def isLow_def)
      ultimately show False using utf8_scalar_high [of "surrogatePair h l" "of_nat c"] c unit.prems(1) by simp
    qed
  qed
  then show ?case using unit utf8_encode_unit16 [of us s] by simp
qed simp

end
