(* ===== verification/Identity.thy ===== *)
theory Identity
  imports Utf8Text ObjectIds
begin

text \<open>
  \<open>objects/author-identity.ts\<close>: the identity lines of commits and tags. The timestamp is what \<open>Number\<close> makes of its
  text, kept when it is a safe integer.
\<close>

section \<open>Model: numbers in text\<close>

definition isDecimalDigit :: "nat \<Rightarrow> bool" where
  "isDecimalDigit u \<longleftrightarrow> 48 \<le> u \<and> u \<le> 57"

definition digitOf :: "nat \<Rightarrow> nat" where
  "digitOf u =
     (if 48 \<le> u \<and> u \<le> 57 then u - 48 else if 97 \<le> u \<and> u \<le> 122 then u - 87
      else if 65 \<le> u \<and> u \<le> 90 then u - 55 else 99)"

definition digitsValue :: "nat \<Rightarrow> jsstr \<Rightarrow> nat" where
  "digitsValue radix s = foldl (\<lambda>acc u. acc * radix + digitOf u) 0 s"

definition roundHalfEven :: "nat \<Rightarrow> nat \<Rightarrow> nat" where
  "roundHalfEven a b =
     (let q = a div b; r = a mod b in if 2 * r < b \<or> 2 * r = b \<and> even q then q else q + 1)"

text \<open>The double nearest to \<open>a / b\<close>, when it is a safe integer: above 1 the spacing is \<open>2^(p - 52)\<close> for the binary
  exponent \<open>p\<close>, below 1 only 0 and 1 are integers.\<close>

definition nearestSafeInteger :: "nat \<Rightarrow> nat \<Rightarrow> nat option" where
  "nearestSafeInteger a b =
     (let w = a div b in
      if w = 0 then
        if roundHalfEven (a * 2 ^ 53) b = 2 ^ 53 then Some 1
        else if roundHalfEven (a * 2 ^ 1074) b = 0 then Some 0 else None
      else if 2 ^ 53 \<le> w then None
      else
        let scale = 2 ^ (52 - floorLog2 w); m = roundHalfEven (a * scale) b in
        if scale dvd m \<and> m div scale < 2 ^ 53 then Some (m div scale) else None)"

definition jsExponent :: "jsstr \<Rightarrow> int option" where
  "jsExponent s =
     (if s = [] then Some 0
      else if hd s \<noteq> 101 \<and> hd s \<noteq> 69 then None
      else
        let r = drop 1 s; neg = (r \<noteq> [] \<and> hd r = 45); ds = (if r \<noteq> [] \<and> (hd r = 43 \<or> hd r = 45) then drop 1 r else r) in
        if ds = [] \<or> \<not> list_all isDecimalDigit ds then None
        else Some (if neg then - int (digitsValue 10 ds) else int (digitsValue 10 ds)))"

definition jsDecimal :: "jsstr \<Rightarrow> (nat \<times> int) option" where
  "jsDecimal s =
     (let ip = takeWhile isDecimalDigit s; r1 = dropWhile isDecimalDigit s;
          dot = (r1 \<noteq> [] \<and> hd r1 = 46);
          fp = (if dot then takeWhile isDecimalDigit (drop 1 r1) else []);
          r2 = (if dot then dropWhile isDecimalDigit (drop 1 r1) else r1)
      in if ip = [] \<and> fp = [] then None
         else map_option (\<lambda>e. (digitsValue 10 (ip @ fp), e - int (length fp))) (jsExponent r2))"

definition decimalSafe :: "jsstr \<Rightarrow> nat option" where
  "decimalSafe s =
     (case jsDecimal s of
        None \<Rightarrow> None
      | Some (m, e) \<Rightarrow> if 0 \<le> e then nearestSafeInteger (m * 10 ^ nat e) 1 else nearestSafeInteger m (10 ^ nat (- e)))"

definition radixOf :: "jsstr \<Rightarrow> nat" where
  "radixOf s =
     (if length s < 2 \<or> hd s \<noteq> 48 then 0
      else if s ! 1 = 120 \<or> s ! 1 = 88 then 16
      else if s ! 1 = 111 \<or> s ! 1 = 79 then 8
      else if s ! 1 = 98 \<or> s ! 1 = 66 then 2 else 0)"

text \<open>\<open>Number(s)\<close> of a text without white space, when \<open>Number.isSafeInteger\<close> holds of it.\<close>

definition safeNumber :: "jsstr \<Rightarrow> int option" where
  "safeNumber s =
     (if radixOf s \<noteq> 0 then
        let ds = drop 2 s in
        if ds = [] \<or> \<not> list_all (\<lambda>u. digitOf u < radixOf s) ds then None
        else map_option int (nearestSafeInteger (digitsValue (radixOf s) ds) 1)
      else if s \<noteq> [] \<and> hd s = 45 then map_option (\<lambda>n. - int n) (decimalSafe (drop 1 s))
      else if s \<noteq> [] \<and> hd s = 43 then map_option int (decimalSafe (drop 1 s))
      else map_option int (decimalSafe s))"

text \<open>\<open>String\<close> of an integer.\<close>

definition intText :: "int \<Rightarrow> jsstr" where
  "intText n = (if n < 0 then 45 # toStringRadix 10 (nat (- n)) else toStringRadix 10 (nat n))"

section \<open>Model: identities\<close>

record authorIdentity =
  idName :: jsstr
  idEmail :: jsstr
  timestamp :: int
  timezoneOffset :: jsstr

definition lastIndexOfUnit :: "jsstr \<Rightarrow> nat \<Rightarrow> nat \<Rightarrow> nat option" where
  "lastIndexOfUnit s c start = find (\<lambda>i. s ! i = c) (List.rev [0..<min (start + 1) (length s)])"

definition isTimezone :: "jsstr \<Rightarrow> bool" where
  "isTimezone tz \<longleftrightarrow> length tz = 5 \<and> (hd tz = 43 \<or> hd tz = 45) \<and> list_all isDecimalDigit (drop 1 tz)"

definition parseIdentity :: "jsstr \<Rightarrow> tsgit_error + authorIdentity" where
  "parseIdentity line =
     (case lastIndexOfUnit line 62 (length line) of
        None \<Rightarrow> Inl (InvalidIdentity line ''missing closing angle bracket'')
      | Some lastClose \<Rightarrow>
          (case lastIndexOfUnit line 60 lastClose of
             None \<Rightarrow> Inl (InvalidIdentity line ''missing opening angle bracket'')
           | Some lastOpen \<Rightarrow>
               let rawName = take lastOpen line;
                   name = (if strEndsWith rawName [32] then butlast rawName else rawName);
                   email = take (lastClose - (lastOpen + 1)) (drop (lastOpen + 1) line);
                   afterClose = jsTrim (drop (lastClose + 1) line);
                   ws = splitSpaces afterClose
               in if length ws < 2 then Inl (InvalidIdentity line ''missing timestamp or timezone'')
                  else case safeNumber (ws ! 0) of
                    None \<Rightarrow> Inl (InvalidIdentity line ''invalid timestamp'')
                  | Some t \<Rightarrow>
                      if \<not> isTimezone (ws ! 1) then Inl (InvalidIdentity line ''invalid timezone offset'')
                      else Inr \<lparr>idName = name, idEmail = email, timestamp = t, timezoneOffset = ws ! 1\<rparr>))"

definition CONTROL_CHARS :: "jsstr \<Rightarrow> bool" where
  "CONTROL_CHARS s \<longleftrightarrow> 10 \<in> set s \<or> 13 \<in> set s \<or> 0 \<in> set s"

definition serializeIdentity :: "authorIdentity \<Rightarrow> tsgit_error + jsstr" where
  "serializeIdentity identity =
     (let line = idName identity @ jslit '' <'' @ idEmail identity @ jslit ''>'' in
      if CONTROL_CHARS (idName identity) then Inl (InvalidIdentity line ''name contains forbidden control character'')
      else if CONTROL_CHARS (idEmail identity) then Inl (InvalidIdentity line ''email contains forbidden control character'')
      else if CONTROL_CHARS (timezoneOffset identity)
      then Inl (InvalidIdentity line ''timezoneOffset contains forbidden control character'')
      else if 60 \<in> set (idName identity) \<or> 62 \<in> set (idName identity) then Inl (InvalidIdentity line ''invalid identity fields'')
      else if 60 \<in> set (idEmail identity) \<or> 62 \<in> set (idEmail identity) then Inl (InvalidIdentity line ''invalid identity fields'')
      else if \<not> isTimezone (timezoneOffset identity) then Inl (InvalidIdentity line ''invalid identity fields'')
      else Inr (idName identity @ jslit '' <'' @ idEmail identity @ jslit ''> '' @ intText (timestamp identity) @ 32 # timezoneOffset identity))"

section \<open>Numbers read back\<close>

lemma digitOf_hexDigit: "d < 10 \<Longrightarrow> digitOf (hexDigit d) = d" "d < 10 \<Longrightarrow> isDecimalDigit (hexDigit d)"
  by (simp_all add: digitOf_def hexDigit_def isDecimalDigit_def)

lemma toStringRadix_digits: "u \<in> set (toStringRadix 10 n) \<Longrightarrow> isDecimalDigit u"
proof (induction "10 :: nat" n rule: toStringRadix.induct)
  case (1 n)
  then show ?case by (auto simp: toStringRadix.simps [of 10 n] digitOf_hexDigit(2) split: if_splits)
qed

lemma digitsValue_toStringRadix: "digitsValue 10 (toStringRadix 10 n) = n"
proof (induction "10 :: nat" n rule: toStringRadix.induct)
  case (1 n)
  show ?case
  proof (cases "n < 10")
    case True
    then show ?thesis by (simp add: toStringRadix.simps [of 10 n] digitsValue_def digitOf_hexDigit)
  next
    case False
    then have "digitsValue 10 (toStringRadix 10 (n div 10)) = n div 10" using 1 by simp
    moreover have "toStringRadix 10 n = toStringRadix 10 (n div 10) @ [hexDigit (n mod 10)]"
      using False by (subst toStringRadix.simps) simp
    ultimately show ?thesis by (simp add: digitsValue_def digitOf_hexDigit)
  qed
qed

lemma toStringRadix_nonempty: "toStringRadix r n \<noteq> []"
  by (subst toStringRadix.simps) simp

lemma nearestSafeInteger_exact: "n < 2 ^ 53 \<Longrightarrow> nearestSafeInteger n 1 = Some n"
  by (simp add: nearestSafeInteger_def roundHalfEven_def Let_def)

lemma takeWhile_all: "\<forall>u \<in> set s. P u \<Longrightarrow> takeWhile P s = s \<and> dropWhile P s = []"
  by (induction s) auto

lemma decimalSafe_toStringRadix:
  assumes "n < 2 ^ 53"
  shows "decimalSafe (toStringRadix 10 n) = Some n"
proof -
  have "takeWhile isDecimalDigit (toStringRadix 10 n) = toStringRadix 10 n" "dropWhile isDecimalDigit (toStringRadix 10 n) = []"
    using takeWhile_all [of "toStringRadix 10 n" isDecimalDigit] toStringRadix_digits by blast+
  then have "jsDecimal (toStringRadix 10 n) = Some (n, 0)"
    by (simp add: jsDecimal_def Let_def toStringRadix_nonempty jsExponent_def digitsValue_toStringRadix
      del: takeWhile_eq_all_conv dropWhile_eq_Nil_conv)
  then show ?thesis using nearestSafeInteger_exact [OF assms] by (simp add: decimalSafe_def)
qed

lemma radixOf_digits: "\<forall>u \<in> set (drop 1 s). isDecimalDigit u \<Longrightarrow> radixOf s = 0"
proof (cases "length s < 2")
  case False
  then obtain a b r where "s = a # b # r" by (cases s; cases "drop 1 s") auto
  moreover assume "\<forall>u \<in> set (drop 1 s). isDecimalDigit u"
  ultimately show ?thesis by (auto simp: radixOf_def isDecimalDigit_def)
qed (simp add: radixOf_def)

lemma safeNumber_intText:
  assumes "\<bar>n\<bar> < 2 ^ 53"
  shows "safeNumber (intText n) = Some n"
proof -
  have ds: "\<forall>u \<in> set (toStringRadix 10 m). isDecimalDigit u" for m using toStringRadix_digits by blast
  have r: "radixOf (intText n) = 0"
    using ds by (intro radixOf_digits) (auto simp: intText_def dest: in_set_dropD)
  have hd: "hd (toStringRadix 10 m) \<noteq> 45" "hd (toStringRadix 10 m) \<noteq> 43" for m
    using ds [of m] toStringRadix_nonempty [of 10 m] by (cases "toStringRadix 10 m"; auto simp: isDecimalDigit_def)+
  show ?thesis
  proof (cases "n < 0")
    case True
    then have "nat (- n) < 2 ^ 53" using assms by (simp add: nat_less_iff)
    then have "decimalSafe (toStringRadix 10 (nat (- n))) = Some (nat (- n))" by (rule decimalSafe_toStringRadix)
    then show ?thesis using r True by (simp add: safeNumber_def intText_def)
  next
    case False
    then have "nat n < 2 ^ 53" using assms by (simp add: nat_less_iff)
    then have "decimalSafe (toStringRadix 10 (nat n)) = Some (nat n)" by (rule decimalSafe_toStringRadix)
    then show ?thesis using r False hd by (simp add: safeNumber_def intText_def)
  qed
qed

section \<open>Identities read back\<close>

lemma upt_split: "(k :: nat) < m \<Longrightarrow> [0..<m] = [0..<k] @ k # [k + 1..<m]"
  using upt_add_eq_append [of 0 k "m - k"] upt_conv_Cons [of k m] by simp

lemma lastIndexOfUnit_prefix: "start < length p \<Longrightarrow> lastIndexOfUnit (p @ q) c start = lastIndexOfUnit p c start"
  unfolding lastIndexOfUnit_def by (intro find_cong) (auto simp: nth_append)

lemma lastIndexOfUnit_hit:
  assumes "c \<notin> set b" "length a \<le> start" "start < length a + 1 + length b"
  shows "lastIndexOfUnit (a @ c # b) c start = Some (length a)"
proof -
  let ?s = "a @ c # b" and ?m = "min (start + 1) (length (a @ c # b))"
  have m: "length a < ?m" "?m \<le> length ?s" using assms(2) by simp_all
  have "[0..<?m] = [0..<length a] @ length a # [length a + 1..<?m]" using m(1) by (rule upt_split)
  then have r: "List.rev [0..<?m] = List.rev [length a + 1..<?m] @ length a # List.rev [0..<length a]" by simp
  have n: "?s ! i \<noteq> c" if "i \<in> set (List.rev [length a + 1..<?m])" for i
  proof -
    have i: "length a + 1 \<le> i" "i < length ?s" using that m(2) by auto
    then have "?s ! i = b ! (i - (length a + 1))" by (simp add: nth_append nth_Cons')
    then have "?s ! i \<in> set b" using i by simp
    then show ?thesis using assms(1) by metis
  qed
  have "find (\<lambda>i. ?s ! i = c) (xs @ length a # ys) = Some (length a)" if "\<forall>i \<in> set xs. ?s ! i \<noteq> c" for xs ys
    using that by (induction xs) auto
  then show ?thesis unfolding lastIndexOfUnit_def r using n by blast
qed

lemma splitSpaces_word:
  "\<forall>u \<in> set w. \<not> isSpaceUnit u \<Longrightarrow> splitSpaces w = [w]"
  by (induction w) auto

lemma splitSpaces_words:
  "\<forall>u \<in> set a. \<not> isSpaceUnit u \<Longrightarrow> b \<noteq> [] \<Longrightarrow> \<forall>u \<in> set b. \<not> isSpaceUnit u \<Longrightarrow> splitSpaces (a @ 32 # b) = [a, b]"
proof (induction a)
  case Nil
  then have "dropWhile isSpaceUnit b = b" by (cases b) auto
  then show ?case using Nil splitSpaces_word [of b] by (simp add: isSpaceUnit_def [of 32])
qed auto

lemma jsTrim_words:
  assumes "a \<noteq> []" "b \<noteq> []" "\<not> isSpaceUnit (hd a)" "\<not> isSpaceUnit (last b)"
  shows "jsTrim (32 # a @ 32 # b) = a @ 32 # b"
proof -
  have "dropWhile isSpaceUnit (32 # a @ 32 # b) = a @ 32 # b" using assms by (cases a) (auto simp: isSpaceUnit_def [of 32])
  moreover have "dropWhile isSpaceUnit (List.rev (a @ 32 # b)) = List.rev (a @ 32 # b)" using assms by (cases b rule: rev_cases) auto
  ultimately show ?thesis by (simp add: jsTrim_def)
qed

lemma intText_units: "u \<in> set (intText n) \<Longrightarrow> isDecimalDigit u \<or> u = 45"
  using toStringRadix_digits by (auto simp: intText_def split: if_splits)

lemma isTimezone_units: "isTimezone tz \<Longrightarrow> u \<in> set tz \<Longrightarrow> isDecimalDigit u \<or> u = 43 \<or> u = 45"
  by (cases tz) (auto simp: isTimezone_def list_all_iff)

lemma plain_units:
  "isDecimalDigit u \<or> u = 43 \<or> u = 45 \<Longrightarrow> \<not> isSpaceUnit u \<and> u \<noteq> 62 \<and> u \<noteq> 60 \<and> u \<noteq> 10 \<and> u < 128"
  by (auto simp: isDecimalDigit_def isSpaceUnit_def)

text \<open>What a rendered identity consists of.\<close>

lemma serializeIdentity_Inr:
  assumes "serializeIdentity i = Inr line"
  shows "line = idName i @ jslit '' <'' @ idEmail i @ jslit ''> '' @ intText (timestamp i) @ 32 # timezoneOffset i"
    "60 \<notin> set (idName i)" "62 \<notin> set (idName i)" "60 \<notin> set (idEmail i)" "62 \<notin> set (idEmail i)"
    "10 \<notin> set (idName i)" "10 \<notin> set (idEmail i)" "isTimezone (timezoneOffset i)"
  using assms by (auto simp: serializeIdentity_def CONTROL_CHARS_def Let_def split: if_splits)

lemma identity_readback:
  assumes "serializeIdentity i = Inr line" "\<bar>timestamp i\<bar> < 2 ^ 53"
  shows "parseIdentity line = Inr i"
proof -
  note s = serializeIdentity_Inr [OF assms(1)]
  let ?n = "idName i" and ?e = "idEmail i" and ?t = "intText (timestamp i)" and ?z = "timezoneOffset i"
  have t: "\<forall>u \<in> set ?t. \<not> isSpaceUnit u \<and> u \<noteq> 62" using intText_units plain_units by blast
  have z: "\<forall>u \<in> set ?z. \<not> isSpaceUnit u \<and> u \<noteq> 62" using isTimezone_units [OF s(8)] plain_units by blast
  have ne: "?t \<noteq> []" "?z \<noteq> []" using s(8) toStringRadix_nonempty by (auto simp: intText_def isTimezone_def)
  have line: "line = ((?n @ [32]) @ 60 # ?e) @ 62 # (32 # ?t @ 32 # ?z)" using s(1) by (simp add: jslit_def)
  have close: "lastIndexOfUnit line 62 (length line) = Some (length ?n + 2 + length ?e)"
  proof -
    have "62 \<notin> set (32 # ?t @ 32 # ?z)" using t z by auto
    then have "lastIndexOfUnit (((?n @ [32]) @ 60 # ?e) @ 62 # (32 # ?t @ 32 # ?z)) 62 (length line - 1) = Some (length ((?n @ [32]) @ 60 # ?e))"
      by (intro lastIndexOfUnit_hit) (simp_all add: line)
    moreover have "lastIndexOfUnit line 62 (length line) = lastIndexOfUnit line 62 (length line - 1)"
      by (simp add: lastIndexOfUnit_def min_def line)
    ultimately show ?thesis unfolding line by simp
  qed
  have opn: "lastIndexOfUnit line 60 (length ?n + 2 + length ?e) = Some (length ?n + 1)"
  proof -
    have t60: "60 \<notin> set (?e @ [62])" using s(4) by simp
    have "line = ((?n @ [32]) @ 60 # ?e @ [62]) @ (32 # ?t @ 32 # ?z)" by (simp add: line)
    then have "lastIndexOfUnit line 60 (length ?n + 2 + length ?e)
        = lastIndexOfUnit ((?n @ [32]) @ 60 # ?e @ [62]) 60 (length ?n + 2 + length ?e)"
      by (simp only:) (intro lastIndexOfUnit_prefix, simp)
    also have "\<dots> = Some (length (?n @ [32]))" using t60 by (intro lastIndexOfUnit_hit) simp_all
    finally show ?thesis by simp
  qed
  have raw: "take (length ?n + 1) line = ?n @ [32]" "strEndsWith (?n @ [32]) [32]" by (simp_all add: line strEndsWith_def)
  have email: "take (length ?n + 2 + length ?e - (length ?n + 1 + 1)) (drop (length ?n + 1 + 1) line) = ?e" by (simp add: line)
  have after: "splitSpaces (jsTrim (drop (length ?n + 2 + length ?e + 1) line)) = [?t, ?z]"
  proof -
    have d: "drop (length ?n + 2 + length ?e + 1) line = 32 # ?t @ 32 # ?z" by (simp add: line numeral_3_eq_3)
    have "jsTrim (32 # ?t @ 32 # ?z) = ?t @ 32 # ?z" using ne t z by (intro jsTrim_words) auto
    then show ?thesis unfolding d using ne(2) t z by (simp add: splitSpaces_words)
  qed
  show ?thesis
    unfolding parseIdentity_def close option.case opn Let_def raw(1) email after
    using raw(2) s(8) safeNumber_intText [OF assms(2)] by simp
qed

lemma identity_line_text:
  assumes "serializeIdentity i = Inr line" "wfText (idName i)" "wfText (idEmail i)"
  shows "10 \<notin> set line" "wfText line"
proof -
  note s = serializeIdentity_Inr [OF assms(1)]
  have t: "\<forall>u \<in> set (intText (timestamp i)). u \<noteq> 10 \<and> u < 128" "\<forall>u \<in> set (timezoneOffset i). u \<noteq> 10 \<and> u < 128"
    using intText_units isTimezone_units [OF s(8)] plain_units by blast+
  show "10 \<notin> set line" using s t by (auto simp: jslit_def)
  have "wfText (jslit ''> '' @ intText (timestamp i) @ 32 # timezoneOffset i)" "wfText (jslit '' <'')"
    using t by (intro wfText_ascii; auto simp: jslit_def)+
  then show "wfText line"
    unfolding s(1) using wfText_append [OF assms(2) wfText_append [OF _ wfText_append [OF assms(3)]]] by blast
qed

end
