(* ===== verification/CommitObject.thy ===== *)
theory CommitObject
  imports Identity
begin

text \<open>
  \<open>objects/commit.ts\<close>: the commit payload. The header lines are byte ranges into the buffer and are decoded only where a
  field needs its text.
\<close>

section \<open>Model\<close>

type_synonym extraHeader = "jsstr \<times> jsstr"

record commitData =
  commitTree :: objectId
  commitParents :: "objectId list"
  author :: authorIdentity
  committer :: authorIdentity
  commitMessage :: jsstr
  gpgSignature :: "jsstr option"
  extraHeaders :: "extraHeader list"

record commit =
  commitId :: objectId
  commitContent :: commitData

definition NEWLINE :: byte where
  "NEWLINE = 10"

definition TREE_PREFIX :: jsstr where
  "TREE_PREFIX = jslit ''tree ''"

definition PARENT_PREFIX :: jsstr where
  "PARENT_PREFIX = jslit ''parent ''"

definition AUTHOR_PREFIX :: jsstr where
  "AUTHOR_PREFIX = jslit ''author ''"

definition COMMITTER_PREFIX :: jsstr where
  "COMMITTER_PREFIX = jslit ''committer ''"

type_synonym lineRange = "nat \<times> nat"

function blankLineFrom :: "bytes \<Rightarrow> nat \<Rightarrow> nat option" where
  "blankLineFrom content start =
     (case indexOf content NEWLINE start of
        None \<Rightarrow> None
      | Some newline \<Rightarrow>
          if byteAt content (newline + 1) = Some (unat NEWLINE) then Some newline
          else blankLineFrom content (newline + 1))"
  by pat_completeness auto
termination
  by (relation "measure (\<lambda>(content, start). length content - start)") (auto simp: indexOf_def indexOfUnit_Some)

declare blankLineFrom.simps [simp del]

definition findBlankLine :: "bytes \<Rightarrow> nat option" where
  "findBlankLine content = blankLineFrom content 0"

definition commitBodyBytes :: "bytes \<Rightarrow> bytes option" where
  "commitBodyBytes content =
     (case findBlankLine content of
        None \<Rightarrow> None
      | Some blankLineStart \<Rightarrow> Some (drop (blankLineStart + 2) content))"

function lineRangesFrom :: "bytes \<Rightarrow> nat \<Rightarrow> lineRange list" where
  "lineRangesFrom bs start =
     (case indexOf bs NEWLINE start of
        None \<Rightarrow> [(start, length bs)]
      | Some newline \<Rightarrow> (start, newline) # lineRangesFrom bs (newline + 1))"
  by pat_completeness auto
termination
  by (relation "measure (\<lambda>(bs, start). length bs - start)") (auto simp: indexOf_def indexOfUnit_Some)

declare lineRangesFrom.simps [simp del]

definition splitByteLines :: "bytes \<Rightarrow> lineRange list" where
  "splitByteLines bs = lineRangesFrom bs 0"

definition lineStartsWithAscii :: "bytes \<Rightarrow> lineRange \<Rightarrow> jsstr \<Rightarrow> bool" where
  "lineStartsWithAscii bs r prefix \<longleftrightarrow>
     length prefix \<le> snd r - fst r \<and>
     list_all (\<lambda>i. byteAt bs (fst r + i) = Some (prefix ! i)) [0..<length prefix]"

definition decodeLineValue :: "bytes \<Rightarrow> lineRange \<Rightarrow> nat \<Rightarrow> jsstr" where
  "decodeLineValue bs r skip = decodePreservingBom (subarray bs (fst r + skip) (snd r))"

definition withoutFinalNewline :: "bytes \<Rightarrow> bytes" where
  "withoutFinalNewline content =
     (if content \<noteq> [] \<and> last content = NEWLINE then butlast content else content)"

definition headerBlock :: "bytes \<Rightarrow> nat option \<Rightarrow> bytes" where
  "headerBlock content blankLineStart =
     (case blankLineStart of None \<Rightarrow> withoutFinalNewline content | Some k \<Rightarrow> take k content)"

definition messageAfter :: "bytes \<Rightarrow> nat option \<Rightarrow> jsstr" where
  "messageAfter content blankLineStart =
     (case blankLineStart of None \<Rightarrow> [] | Some k \<Rightarrow> decodePreservingBom (drop (k + 2) content))"

function parentsLoop :: "bytes \<Rightarrow> lineRange list \<Rightarrow> nat \<Rightarrow> objectId list \<Rightarrow> tsgit_error + (objectId list \<times> nat)" where
  "parentsLoop bs lines i parents =
     (if i < length lines \<and> lineStartsWithAscii bs (lines ! i) PARENT_PREFIX then
        bindE (ObjectId_from (decodeLineValue bs (lines ! i) (length PARENT_PREFIX))) (\<lambda>p.
          parentsLoop bs lines (i + 1) (parents @ [p]))
      else Inr (parents, i))"
  by pat_completeness auto
termination
  by (relation "measure (\<lambda>(bs, lines, i, parents). length lines - i)") auto

declare parentsLoop.simps [simp del]

definition parseRequiredFields ::
    "bytes \<Rightarrow> lineRange list \<Rightarrow> tsgit_error + (objectId \<times> objectId list \<times> authorIdentity \<times> authorIdentity \<times> nat)" where
  "parseRequiredFields bs lines =
     (if \<not> lineStartsWithAscii bs (lines ! 0) TREE_PREFIX then Inl (InvalidCommit ''first line must be tree'')
      else bindE (ObjectId_from (decodeLineValue bs (lines ! 0) (length TREE_PREFIX))) (\<lambda>t.
        bindE (parentsLoop bs lines 1 []) (\<lambda>(parents, i).
          if length lines \<le> i \<or> \<not> lineStartsWithAscii bs (lines ! i) AUTHOR_PREFIX
          then Inl (InvalidCommit ''missing author'')
          else bindE (parseIdentity (decodeLineValue bs (lines ! i) (length AUTHOR_PREFIX))) (\<lambda>a.
            let j = i + 1 in
            if length lines \<le> j \<or> \<not> lineStartsWithAscii bs (lines ! j) COMMITTER_PREFIX
            then Inl (InvalidCommit ''missing committer'')
            else bindE (parseIdentity (decodeLineValue bs (lines ! j) (length COMMITTER_PREFIX))) (\<lambda>c.
              Inr (t, parents, a, c, j + 1))))))"

definition parseOptionalHeaders ::
    "bytes \<Rightarrow> lineRange list \<Rightarrow> nat \<Rightarrow> tsgit_error + (jsstr option \<times> extraHeader list)" where
  "parseOptionalHeaders bs lines startIndex =
     (let remainingLines = map (\<lambda>r. decodePreservingBom (subarray bs (fst r) (snd r))) (drop startIndex lines)
      in parseOptionalHeaderBlock remainingLines 0 InvalidCommit InvalidCommit)"

definition parseCommitContent :: "objectId \<Rightarrow> bytes \<Rightarrow> tsgit_error + commit" where
  "parseCommitContent oid content =
     (let blankLineStart = findBlankLine content;
          headerBytes = headerBlock content blankLineStart;
          message = messageAfter content blankLineStart;
          lines = splitByteLines headerBytes
      in bindE (parseRequiredFields headerBytes lines) (\<lambda>(t, parents, a, c, nextIndex).
         bindE (parseOptionalHeaders headerBytes lines nextIndex) (\<lambda>(gpg, extra).
           Inr \<lparr>commitId = oid, commitContent =
             \<lparr>commitTree = t, commitParents = parents, author = a, committer = c, commitMessage = message,
              gpgSignature = gpg, extraHeaders = extra\<rparr>\<rparr>)))"

definition commitHeaderLines :: "commitData \<Rightarrow> tsgit_error + jsstr list" where
  "commitHeaderLines d =
     bindE (serializeIdentity (author d)) (\<lambda>a.
     bindE (serializeIdentity (committer d)) (\<lambda>c.
     bindE (mapE (\<lambda>(k, v). formatContinuationHeader k v) (extraHeaders d)) (\<lambda>extra.
     bindE (case gpgSignature d of None \<Rightarrow> Inr []
            | Some sig \<Rightarrow> bindE (formatContinuationHeader (jslit ''gpgsig'') sig) (\<lambda>l. Inr [l])) (\<lambda>sig.
       Inr ([TREE_PREFIX @ commitTree d] @ map (\<lambda>p. PARENT_PREFIX @ p) (commitParents d) @
         [AUTHOR_PREFIX @ a, COMMITTER_PREFIX @ c] @ extra @ sig)))))"

definition serializeCommitContent :: "commit \<Rightarrow> tsgit_error + bytes" where
  "serializeCommitContent c =
     bindE (commitHeaderLines (commitContent c)) (\<lambda>ls.
       Inr (encode (joinUnit 10 ls @ [10, 10] @ commitMessage (commitContent c))))"

end
