(* ===== verification/CommitProofs.thy ===== *)
theory CommitProofs
  imports CommitObject
begin

text \<open>
  The byte ranges of a commit's header lines against the lines of its text, and the round trip of whole commits.
\<close>

section \<open>Lines of bytes and lines of text\<close>

lemma splitUnit_cut: "splitUnit c (a @ c # b) = splitUnit c a @ splitUnit c b"
  by (induction a) (auto split: list.split)

lemma encode_join:
  "c < 128 \<Longrightarrow> utf8_encode (joinUnit c ws) = joinUnit (of_nat c) (map utf8_encode ws)"
proof (induction c ws rule: joinUnit.induct)
  case (3 c w v vs)
  then show ?case using utf8_encode_cut [of c w "joinUnit c (v # vs)"] by simp
qed simp_all

lemma wfText_join_words: "c < 128 \<Longrightarrow> wfText (joinUnit c ws) \<Longrightarrow> w \<in> set ws \<Longrightarrow> wfText w"
proof (induction c ws rule: joinUnit.induct)
  case (3 c v v2 vs)
  then have "wfText v" "wfText (joinUnit c (v2 # vs))" using wfText_split [of c v "joinUnit c (v2 # vs)"] by simp_all
  then show ?case using 3 by auto
qed simp_all

lemma wfText_words: "c < 128 \<Longrightarrow> wfText s \<Longrightarrow> w \<in> set (splitUnit c s) \<Longrightarrow> wfText w"
  using wfText_join_words [of c "splitUnit c s" w] by simp

lemma wfText_join: "c < 128 \<Longrightarrow> \<forall>w \<in> set ws. wfText w \<Longrightarrow> wfText (joinUnit c ws)"
proof (induction c ws rule: joinUnit.induct)
  case (3 c w v vs)
  then have "wfText (c # joinUnit c (v # vs))" by (intro wfText_Cons_ascii) simp_all
  then show ?case using 3 by auto
qed simp_all

lemma encode_split:
  assumes "c < 128" "wfText s"
  shows "splitUnit (of_nat c) (utf8_encode s) = map utf8_encode (splitUnit c s)"
proof -
  have "utf8_encode s = joinUnit (of_nat c) (map utf8_encode (splitUnit c s))"
    using encode_join [OF assms(1), of "splitUnit c s"] by simp
  moreover have "list_all (\<lambda>w. (of_nat c :: byte) \<notin> set w) (map utf8_encode (splitUnit c s))"
    using encode_no_ascii [OF wfText_words [OF assms] assms(1)] splitUnit_no_sep by (fastforce simp: list_all_iff)
  ultimately show ?thesis using splitUnit_joinUnit [of "map utf8_encode (splitUnit c s)" "of_nat c :: byte"] by simp
qed

lemma lineRangesFrom_split:
  assumes "start \<le> length bs"
  shows "map (\<lambda>r. subarray bs (fst r) (snd r)) (lineRangesFrom bs start) = splitUnit 10 (drop start bs)"
    "\<forall>r \<in> set (lineRangesFrom bs start). fst r \<le> snd r \<and> snd r \<le> length bs"
proof -
  have "map (\<lambda>r. subarray bs (fst r) (snd r)) (lineRangesFrom bs start) = splitUnit 10 (drop start bs) \<and>
    (\<forall>r \<in> set (lineRangesFrom bs start). fst r \<le> snd r \<and> snd r \<le> length bs)"
    using assms
  proof (induction bs start rule: lineRangesFrom.induct)
    case (1 bs start)
    show ?case
    proof (cases "indexOf bs NEWLINE start")
      case None
      then have "10 \<notin> set (drop start bs)"
        by (simp add: indexOf_def NEWLINE_def indexOfUnit_def indexOfFrom_None)
      then show ?thesis using None "1.prems"
        by (simp add: lineRangesFrom.simps [of bs start] splitUnit_single subarray_def)
    next
      case (Some n)
      then have n: "start \<le> n" "n < length bs" "bs ! n = 10" "\<forall>j. start \<le> j \<and> j < n \<longrightarrow> bs ! j \<noteq> 10"
        by (auto simp: indexOf_def NEWLINE_def indexOfUnit_Some)
      have cut: "drop start bs = subarray bs start n @ 10 # drop (n + 1) bs"
        using n(1-3) id_take_nth_drop [of "n - start" "drop start bs"] by (simp add: subarray_def)
      have "10 \<notin> set (subarray bs start n)"
      proof
        assume "10 \<in> set (subarray bs start n)"
        then obtain j where "j < length (subarray bs start n)" "subarray bs start n ! j = 10" by (auto simp: in_set_conv_nth)
        then have "start + j < n" "bs ! (start + j) = 10" using n(1,2) by (auto simp: subarray_def)
        then show False using n(4) by auto
      qed
      then have "splitUnit 10 (drop start bs) = subarray bs start n # splitUnit 10 (drop (n + 1) bs)"
        unfolding cut by (rule splitUnit_append)
      then show ?thesis using 1 Some n by (auto simp: lineRangesFrom.simps [of bs start])
    qed
  qed
  then show "map (\<lambda>r. subarray bs (fst r) (snd r)) (lineRangesFrom bs start) = splitUnit 10 (drop start bs)"
    "\<forall>r \<in> set (lineRangesFrom bs start). fst r \<le> snd r \<and> snd r \<le> length bs" by blast+
qed

lemma blankLineFrom_hit:
  assumes "bs = h @ 10 # 10 # m" "[] \<notin> set (splitUnit 10 h)" "start \<le> length h"
  shows "blankLineFrom bs start = Some (length h)"
  using assms
proof (induction bs start rule: blankLineFrom.induct)
  case (1 bs start)
  have "bs ! length h = 10" "length h < length bs" using "1.prems" by simp_all
  then obtain n where n: "indexOf bs NEWLINE start = Some n"
    using indexOfUnit_None [of bs 10 start] "1.prems"(3) by (cases "indexOf bs NEWLINE start") (auto simp: indexOf_def NEWLINE_def)
  then have m: "start \<le> n" "n < length bs" "bs ! n = 10" "\<forall>j. start \<le> j \<and> j < n \<longrightarrow> bs ! j \<noteq> 10"
    by (auto simp: indexOf_def NEWLINE_def indexOfUnit_Some)
  have le: "n \<le> length h" using m(4) \<open>bs ! length h = 10\<close> "1.prems"(3) by (meson not_le)
  show ?case
  proof (cases "n = length h")
    case True
    then have "byteAt bs (n + 1) = Some (unat NEWLINE)" using "1.prems"(1) by (simp add: byteAt_def NEWLINE_def nth_append)
    then show ?thesis using n True by (simp add: blankLineFrom.simps [of bs start])
  next
    case False
    then have lt: "n < length h" using le by simp
    then have hn: "h ! n = 10" using m(3) "1.prems"(1) by (simp add: nth_append)
    have "byteAt bs (n + 1) \<noteq> Some (unat NEWLINE)"
    proof
      assume "byteAt bs (n + 1) = Some (unat NEWLINE)"
      then have b: "bs ! (n + 1) = 10" by (auto simp: byteAt_def NEWLINE_def word_unat_eq_iff split: if_splits)
      have h: "h = take n h @ 10 # drop (n + 1) h" using id_take_nth_drop [OF lt] hn by simp
      show False
      proof (cases "n + 1 = length h")
        case True
        then have "h = take n h @ 10 # []" using h by simp
        then have "splitUnit 10 h = splitUnit 10 (take n h) @ [[]]" by (metis splitUnit_cut splitUnit.simps(1))
        then show False using "1.prems"(2) by simp
      next
        case False
        then have lt2: "n + 1 < length h" using lt by simp
        then have "h ! (n + 1) = 10" using b "1.prems"(1) by (simp add: nth_append)
        then have "drop (n + 1) h = 10 # drop (n + 2) h" using Cons_nth_drop_Suc [OF lt2] by simp
        then have "h = take n h @ 10 # 10 # drop (n + 2) h" using h by simp
        then have "splitUnit 10 h = splitUnit 10 (take n h) @ [] # splitUnit 10 (drop (n + 2) h)"
          by (metis splitUnit_cut splitUnit.simps(2))
        then show False using "1.prems"(2) by simp
      qed
    qed
    moreover have "blankLineFrom bs (n + 1) = Some (length h)"
      using "1.IH" [OF n] calculation "1.prems"(1,2) lt by simp
    ultimately show ?thesis using n by (simp add: blankLineFrom.simps [of bs start])
  qed
qed

text \<open>The ranges \<open>lines\<close> of the buffer \<open>bs\<close> hold the text lines \<open>W\<close>.\<close>

definition holdLines :: "bytes \<Rightarrow> lineRange list \<Rightarrow> jsstr list \<Rightarrow> bool" where
  "holdLines bs lines W \<longleftrightarrow> map (\<lambda>r. subarray bs (fst r) (snd r)) lines = map utf8_encode W \<and>
     (\<forall>r \<in> set lines. fst r \<le> snd r \<and> snd r \<le> length bs) \<and> (\<forall>w \<in> set W. wfText w)"

lemma holdLines_split: "wfText s \<Longrightarrow> holdLines (utf8_encode s) (splitByteLines (utf8_encode s)) (splitUnit 10 s)"
  using lineRangesFrom_split [of 0 "utf8_encode s"] encode_split [of 10 s] wfText_words [of 10 s]
  by (auto simp: holdLines_def splitByteLines_def)

lemma holdLines_nth:
  assumes "holdLines bs lines W" "i < length W"
  shows "i < length lines" "length lines = length W" "subarray bs (fst (lines ! i)) (snd (lines ! i)) = utf8_encode (W ! i)"
    "fst (lines ! i) \<le> snd (lines ! i)" "snd (lines ! i) \<le> length bs" "wfText (W ! i)"
proof -
  have m: "map (\<lambda>r. subarray bs (fst r) (snd r)) lines = map utf8_encode W" using assms(1) by (simp add: holdLines_def)
  show l: "length lines = length W" using map_eq_imp_length_eq [OF m] .
  then show i: "i < length lines" using assms(2) by simp
  show "subarray bs (fst (lines ! i)) (snd (lines ! i)) = utf8_encode (W ! i)"
    using arg_cong [OF m, of "\<lambda>xs. xs ! i"] i assms(2) by simp
  show "fst (lines ! i) \<le> snd (lines ! i)" "snd (lines ! i) \<le> length bs" "wfText (W ! i)"
    using assms i nth_mem by (auto simp: holdLines_def)
qed

lemma encode_ascii_prefix: "\<forall>u \<in> set p. u < 128 \<Longrightarrow> utf8_encode (p @ v) = map of_nat p @ utf8_encode v"
proof (induction p)
  case (Cons u p)
  then show ?case using utf8_encode_cut [of u "[]" "p @ v"] by simp
qed simp

lemma lineStartsWithAscii_iff:
  assumes "fst r \<le> snd r" "snd r \<le> length bs" "\<forall>u \<in> set p. u < 128"
  shows "lineStartsWithAscii bs r p \<longleftrightarrow> startsWith (subarray bs (fst r) (snd r)) (map of_nat p)"
proof -
  let ?l = "subarray bs (fst r) (snd r)"
  have l: "length ?l = snd r - fst r" using assms(1,2) by simp
  have e: "byteAt bs (fst r + i) = Some (p ! i) \<longleftrightarrow> ?l ! i = of_nat (p ! i)" if "i < length p" "length p \<le> snd r - fst r" for i
  proof -
    have "p ! i < 128" using assms(3) that by simp
    then have u: "unat (of_nat (p ! i) :: byte) = p ! i" by (simp add: unat_small)
    have "?l ! i = bs ! (fst r + i)" using that assms by (simp add: subarray_def)
    moreover have "fst r + i < length bs" using that assms by simp
    ultimately show ?thesis using u by (auto simp: byteAt_def word_unat_eq_iff)
  qed
  have s: "startsWith ?l q \<longleftrightarrow> length q \<le> length ?l \<and> (\<forall>i < length q. ?l ! i = q ! i)" for q
    unfolding startsWith_iff
  proof
    assume "\<exists>ys. ?l = q @ ys"
    then obtain ys where "?l = q @ ys" by blast
    then show "length q \<le> length ?l \<and> (\<forall>i < length q. ?l ! i = q ! i)" by (metis le_add1 length_append nth_append)
  next
    assume a: "length q \<le> length ?l \<and> (\<forall>i < length q. ?l ! i = q ! i)"
    then have "take (length q) ?l = q" by (intro nth_equalityI) auto
    then have "?l = q @ drop (length q) ?l" by (metis append_take_drop_id)
    then show "\<exists>ys. ?l = q @ ys" by blast
  qed
  show ?thesis unfolding s lineStartsWithAscii_def l using e by (auto simp: list_all_iff)
qed

definition asciiPrefix :: "jsstr \<Rightarrow> bool" where
  "asciiPrefix p \<longleftrightarrow> (\<forall>u \<in> set p. u < 128)"

lemma prefixes_ascii: "asciiPrefix TREE_PREFIX" "asciiPrefix PARENT_PREFIX" "asciiPrefix AUTHOR_PREFIX" "asciiPrefix COMMITTER_PREFIX"
  by (simp_all add: asciiPrefix_def TREE_PREFIX_def PARENT_PREFIX_def AUTHOR_PREFIX_def COMMITTER_PREFIX_def jslit_def)

lemma prefix_hit:
  assumes "holdLines bs lines W" "i < length W" "W ! i = p @ v" "asciiPrefix p"
  shows "lineStartsWithAscii bs (lines ! i) p" "decodeLineValue bs (lines ! i) (length p) = v"
proof -
  note h = holdLines_nth [OF assms(1,2)]
  have a: "\<forall>u \<in> set p. u < 128" using assms(4) by (simp add: asciiPrefix_def)
  have l: "subarray bs (fst (lines ! i)) (snd (lines ! i)) = map of_nat p @ utf8_encode v"
    using h(3) assms(3) encode_ascii_prefix [OF a] by simp
  show "lineStartsWithAscii bs (lines ! i) p" unfolding lineStartsWithAscii_iff [OF h(4,5) a] l startsWith_iff by blast
  have "wfText v"
  proof (cases "p = []")
    case True
    then show ?thesis using h(6) assms(3) by simp
  next
    case False
    then have "W ! i = butlast p @ last p # v" using assms(3) by simp
    moreover have "last p < 128" using a False by simp
    ultimately show ?thesis using wfText_split h(6) by metis
  qed
  moreover have "subarray bs (fst (lines ! i) + length p) (snd (lines ! i)) = drop (length p) (subarray bs (fst (lines ! i)) (snd (lines ! i)))"
    by (simp add: subarray_def drop_take add.commute)
  ultimately show "decodeLineValue bs (lines ! i) (length p) = v"
    using decode_encode by (simp add: decodeLineValue_def l decodePreservingBom_def)
qed

lemma prefix_miss:
  assumes "holdLines bs lines W" "i < length W" "W ! i = a # v" "asciiPrefix (c # p)" "a < 128" "a \<noteq> c"
  shows "\<not> lineStartsWithAscii bs (lines ! i) (c # p)"
proof -
  note h = holdLines_nth [OF assms(1,2)]
  have q: "\<forall>u \<in> set (c # p). u < 128" using assms(4) by (simp add: asciiPrefix_def)
  have l: "subarray bs (fst (lines ! i)) (snd (lines ! i)) = of_nat a # utf8_encode v"
    using h(3) assms(3,5) encode_ascii_prefix [of "[a]" v] by simp
  have "(of_nat a :: byte) \<noteq> of_nat c"
  proof
    assume "(of_nat a :: byte) = of_nat c"
    then have "unat (of_nat a :: byte) = unat (of_nat c :: byte)" by simp
    then show False using assms(5,6) q by (simp add: unat_small)
  qed
  then show ?thesis unfolding lineStartsWithAscii_iff [OF h(4,5) q] l by simp
qed

lemma parentsLoop_run:
  assumes "holdLines bs lines W" "\<forall>p \<in> set ps. isValidObjectIdHex p"
  shows "i + length ps < length W \<Longrightarrow> (\<forall>k < length ps. W ! (i + k) = PARENT_PREFIX @ ps ! k) \<Longrightarrow>
    W ! (i + length ps) = AUTHOR_PREFIX @ v \<Longrightarrow> parentsLoop bs lines i acc = Inr (acc @ ps, i + length ps)"
  using assms(2)
proof (induction ps arbitrary: i acc)
  case Nil
  have "\<not> lineStartsWithAscii bs (lines ! i) PARENT_PREFIX"
    using prefix_miss [OF assms(1), of i 97 _ 112] Nil prefixes_ascii(2)
    by (auto simp: PARENT_PREFIX_def AUTHOR_PREFIX_def jslit_def)
  then show ?case by (simp add: parentsLoop.simps)
next
  case (Cons p ps)
  have w: "W ! i = PARENT_PREFIX @ p" using Cons.prems(2) by (metis add_0_right length_greater_0_conv list.discI nth_Cons_0)
  have i: "i < length W" using Cons.prems(1) by simp
  have "parentsLoop bs lines (i + 1) (acc @ [p]) = Inr ((acc @ [p]) @ ps, i + 1 + length ps)"
  proof (rule Cons.IH)
    show "\<forall>k < length ps. W ! (i + 1 + k) = PARENT_PREFIX @ ps ! k"
    proof (intro allI impI)
      fix k assume "k < length ps"
      then show "W ! (i + 1 + k) = PARENT_PREFIX @ ps ! k" using Cons.prems(2) [rule_format, of "Suc k"] by simp
    qed
  qed (use Cons.prems in auto)
  then show ?case
    using holdLines_nth(1) [OF assms(1) i] prefix_hit [OF assms(1) i w prefixes_ascii(2)] Cons.prems(4)
    by (simp add: parentsLoop.simps [of bs lines i] ObjectId_from_def)
qed

section \<open>Commits read back\<close>

lemma split_join: "ls \<noteq> [] \<Longrightarrow> splitUnit c (joinUnit c ls) = concat (map (splitUnit c) ls)"
  by (induction c ls rule: joinUnit.induct) (simp_all add: splitUnit_cut)

lemma utf8_encode_Nil_iff: "utf8_encode w = [] \<longleftrightarrow> w = []"
proof -
  have "utf8_scalar c \<noteq> []" for c by (simp add: utf8_scalar_def)
  then show ?thesis by (cases w rule: utf8_encode.cases) auto
qed

definition commitTextOk :: "commitData \<Rightarrow> bool" where
  "commitTextOk d \<longleftrightarrow>
     isValidObjectIdHex (commitTree d) \<and> (\<forall>p \<in> set (commitParents d). isValidObjectIdHex p) \<and>
     (\<forall>i \<in> {author d, committer d}. \<bar>timestamp i\<bar> < 2 ^ 53 \<and> wfText (idName i) \<and> wfText (idEmail i)) \<and>
     (\<forall>(k, v) \<in> set (extraHeaders d). k \<noteq> jslit ''gpgsig'' \<and> wfText k \<and> wfText v) \<and>
     (\<forall>sig \<in> set_option (gpgSignature d). wfText sig) \<and> wfText (commitMessage d)"

definition allHeaders :: "commitData \<Rightarrow> extraHeader list" where
  "allHeaders d = extraHeaders d @ (case gpgSignature d of None \<Rightarrow> [] | Some sig \<Rightarrow> [(jslit ''gpgsig'', sig)])"

lemma mapE_list_all2: "mapE f xs = Inr ys \<Longrightarrow> list_all2 (\<lambda>x y. f x = Inr y) xs ys"
  by (induction xs arbitrary: ys) (auto simp: bindE_Inr_iff)

lemma commitHeaderLines_Inr:
  assumes "commitHeaderLines d = Inr ls"
  obtains a c ext where "serializeIdentity (author d) = Inr a" "serializeIdentity (committer d) = Inr c"
    "list_all2 (\<lambda>(k, v) l. formatContinuationHeader k v = Inr l) (allHeaders d) ext"
    "ls = (TREE_PREFIX @ commitTree d) # map (\<lambda>p. PARENT_PREFIX @ p) (commitParents d) @
       [AUTHOR_PREFIX @ a, COMMITTER_PREFIX @ c] @ ext"
proof -
  obtain a c extra sig where s: "serializeIdentity (author d) = Inr a" "serializeIdentity (committer d) = Inr c"
    "mapE (\<lambda>(k, v). formatContinuationHeader k v) (extraHeaders d) = Inr extra"
    "(case gpgSignature d of None \<Rightarrow> Inr []
      | Some sig \<Rightarrow> bindE (formatContinuationHeader (jslit ''gpgsig'') sig) (\<lambda>l. Inr [l])) = Inr sig"
    "ls = [TREE_PREFIX @ commitTree d] @ map (\<lambda>p. PARENT_PREFIX @ p) (commitParents d) @
         [AUTHOR_PREFIX @ a, COMMITTER_PREFIX @ c] @ extra @ sig"
    using assms by (auto simp: commitHeaderLines_def bindE_Inr_iff)
  have "list_all2 (\<lambda>(k, v) l. formatContinuationHeader k v = Inr l) (extraHeaders d) extra"
    using mapE_list_all2 [OF s(3)] by (simp add: case_prod_unfold)
  moreover have "list_all2 (\<lambda>(k, v) l. formatContinuationHeader k v = Inr l)
      (case gpgSignature d of None \<Rightarrow> [] | Some sig \<Rightarrow> [(jslit ''gpgsig'', sig)]) sig"
    using s(4) by (cases "gpgSignature d") (auto simp: bindE_Inr_iff)
  ultimately have "list_all2 (\<lambda>(k, v) l. formatContinuationHeader k v = Inr l) (allHeaders d) (extra @ sig)"
    unfolding allHeaders_def by (rule list_all2_appendI)
  then show thesis using that s by simp
qed

lemma format_wf:
  assumes "formatContinuationHeader k v = Inr l" "wfText k" "wfText v"
  shows "wfText l" "[] \<notin> set (splitUnit 10 l)"
proof -
  have l: "l = joinUnit 10 ((k @ [32] @ hd (splitUnit 10 v)) # map (\<lambda>line. 32 # line) (drop 1 (splitUnit 10 v)))"
    using assms(1) by (auto simp: formatContinuationHeader_def Let_def split: if_splits)
  have "wfText (hd (splitUnit 10 v))" using assms(3) wfText_words [of 10 v] by simp
  then have "wfText (32 # hd (splitUnit 10 v))" by (intro wfText_Cons_ascii) simp_all
  then have "wfText (k @ [32] @ hd (splitUnit 10 v))" using assms(2) by auto
  moreover have "wfText (32 # w)" if "w \<in> set (drop 1 (splitUnit 10 v))" for w
    using wfText_words [of 10 v w] in_set_dropD [OF that] assms(3) by (intro wfText_Cons_ascii) simp_all
  ultimately show "wfText l" unfolding l by (intro wfText_join) auto
  obtain p ps where "splitUnit 10 l = (k @ 32 # p) # map ((#) 32) ps" using formatContinuationHeader_lines [OF assms(1)] by metis
  then show "[] \<notin> set (splitUnit 10 l)" by auto
qed

lemma ids_text: "isValidObjectIdHex h \<Longrightarrow> 10 \<notin> set h \<and> wfText h"
proof -
  assume "isValidObjectIdHex h"
  then have "isHexDigitCodeUnit u" if "u \<in> set h" for u using that by (simp add: validHex_iff)
  moreover have "isHexDigitCodeUnit u \<Longrightarrow> u \<noteq> 10 \<and> u < 128" for u by (auto simp: isHexDigitCodeUnit_def split: if_splits)
  ultimately have u: "\<forall>u \<in> set h. u \<noteq> 10 \<and> u < 128" by blast
  then have "wfText h" by (intro wfText_ascii) blast
  then show ?thesis using u by blast
qed

lemma prefix_text: "asciiPrefix p \<Longrightarrow> wfText v \<Longrightarrow> wfText (p @ v)"
  using wfText_ascii [of p] wfText_append [of p v] by (simp add: asciiPrefix_def)

text \<open>The header lines of a commit as text.\<close>

lemma header_lines_text:
  assumes "commitHeaderLines d = Inr ls" "commitTextOk d"
  obtains a c ext where "serializeIdentity (author d) = Inr a" "serializeIdentity (committer d) = Inr c"
    "list_all2 (\<lambda>(k, v) l. formatContinuationHeader k v = Inr l) (allHeaders d) ext"
    "splitUnit 10 (joinUnit 10 ls) = (TREE_PREFIX @ commitTree d) # map (\<lambda>p. PARENT_PREFIX @ p) (commitParents d) @
       [AUTHOR_PREFIX @ a, COMMITTER_PREFIX @ c] @ concat (map (splitUnit 10) ext)"
    "wfText (joinUnit 10 ls)" "[] \<notin> set (splitUnit 10 (joinUnit 10 ls))"
proof -
  obtain a c ext where s: "serializeIdentity (author d) = Inr a" "serializeIdentity (committer d) = Inr c"
    "list_all2 (\<lambda>(k, v) l. formatContinuationHeader k v = Inr l) (allHeaders d) ext"
    and ls: "ls = (TREE_PREFIX @ commitTree d) # map (\<lambda>p. PARENT_PREFIX @ p) (commitParents d) @
       [AUTHOR_PREFIX @ a, COMMITTER_PREFIX @ c] @ ext"
    using commitHeaderLines_Inr [OF assms(1)] .
  have hs: "wfText k \<and> wfText v" if "(k, v) \<in> set (allHeaders d)" for k v
    using assms(2) that by (auto simp: commitTextOk_def allHeaders_def jslit_def wfText_ascii split: option.splits)
  have ext: "wfText l \<and> [] \<notin> set (splitUnit 10 l)" if l: "l \<in> set ext" for l
  proof -
    obtain i where i: "i < length ext" "l = ext ! i" using l unfolding in_set_conv_nth by blast
    then have "i < length (allHeaders d)" "(\<lambda>(k, v). formatContinuationHeader k v = Inr l) (allHeaders d ! i)"
      using s(3) by (auto simp: list_all2_conv_all_nth)
    then show ?thesis using format_wf hs [of "fst (allHeaders d ! i)" "snd (allHeaders d ! i)"] by (auto simp: split_beta)
  qed
  have w: "wfText (idName (author d))" "wfText (idEmail (author d))" "wfText (idName (committer d))" "wfText (idEmail (committer d))"
    "isValidObjectIdHex (commitTree d)" "\<forall>p \<in> set (commitParents d). isValidObjectIdHex p"
    using assms(2) by (simp_all add: commitTextOk_def)
  have a: "10 \<notin> set a" "wfText a" "10 \<notin> set c" "wfText c"
    using identity_line_text [OF s(1)] identity_line_text [OF s(2)] w by blast+
  have nl: "10 \<notin> set TREE_PREFIX" "10 \<notin> set PARENT_PREFIX" "10 \<notin> set AUTHOR_PREFIX" "10 \<notin> set COMMITTER_PREFIX"
    and ne: "TREE_PREFIX \<noteq> []" "PARENT_PREFIX \<noteq> []" "AUTHOR_PREFIX \<noteq> []" "COMMITTER_PREFIX \<noteq> []"
    by (simp_all add: TREE_PREFIX_def PARENT_PREFIX_def AUTHOR_PREFIX_def COMMITTER_PREFIX_def jslit_def)
  have par: "concat (map (\<lambda>p. splitUnit 10 (PARENT_PREFIX @ p)) ps) = map (\<lambda>p. PARENT_PREFIX @ p) ps"
    if "\<forall>p \<in> set ps. isValidObjectIdHex p" for ps
    using that nl(2) ids_text by (induction ps) (simp_all add: splitUnit_single)
  have W: "splitUnit 10 (joinUnit 10 ls) = (TREE_PREFIX @ commitTree d) # map (\<lambda>p. PARENT_PREFIX @ p) (commitParents d) @
       [AUTHOR_PREFIX @ a, COMMITTER_PREFIX @ c] @ concat (map (splitUnit 10) ext)"
    using split_join [of ls 10] ls par [OF w(6)] nl a ids_text [OF w(5)] by (simp add: comp_def splitUnit_single)
  have t1: "wfText (TREE_PREFIX @ commitTree d)" using prefix_text [OF prefixes_ascii(1)] ids_text [OF w(5)] by blast
  have t2: "wfText (PARENT_PREFIX @ p)" if "p \<in> set (commitParents d)" for p
    using prefix_text [OF prefixes_ascii(2)] ids_text w(6) that by blast
  have t3: "wfText (AUTHOR_PREFIX @ a)" "wfText (COMMITTER_PREFIX @ c)"
    using prefix_text [OF prefixes_ascii(3)] prefix_text [OF prefixes_ascii(4)] a by blast+
  have "wfText l" if "l \<in> set ls" for l
  proof -
    have "l = TREE_PREFIX @ commitTree d \<or> (\<exists>p \<in> set (commitParents d). l = PARENT_PREFIX @ p) \<or>
        l = AUTHOR_PREFIX @ a \<or> l = COMMITTER_PREFIX @ c \<or> l \<in> set ext"
      using that unfolding ls by auto
    then show ?thesis using t1 t2 t3 ext by blast
  qed
  then have wf: "wfText (joinUnit 10 ls)" by (intro wfText_join) simp_all
  have "[] \<notin> set (splitUnit 10 (joinUnit 10 ls))" unfolding W using ne ext by auto
  then show thesis using that s W wf by blast
qed

lemma headers_found:
  assumes "commitTextOk d" "list_all2 (\<lambda>(k, v) l. formatContinuationHeader k v = Inr l) (allHeaders d) ext"
  shows "parseOptionalHeaderBlock (concat (map (splitUnit 10) ext)) 0 e1 e2 = Inr (gpgSignature d, extraHeaders d)"
proof -
  have k: "k \<noteq> jslit ''gpgsig''" if "(k, v) \<in> set (extraHeaders d)" for k v using assms(1) that by (auto simp: commitTextOk_def)
  then have f: "filter (\<lambda>(k, v). k = jslit ''gpgsig'') (extraHeaders d) = []"
      "filter (\<lambda>(k, v). k \<noteq> jslit ''gpgsig'') (extraHeaders d) = extraHeaders d"
      "find (\<lambda>(k, v). k = jslit ''gpgsig'') (extraHeaders d) = None"
    by (auto simp: filter_empty_conv filter_id_conv find_None_iff)
  have app: "find P (xs @ ys) = (case find P xs of None \<Rightarrow> find P ys | r \<Rightarrow> r)" for P :: "extraHeader \<Rightarrow> bool" and xs ys
    by (induction xs) auto
  show ?thesis
    using optionalHeaderLoop_headers [OF assms(2), of None e1 e2 "[]"] f
    by (cases "gpgSignature d") (simp_all add: parseOptionalHeaderBlock_def allHeaders_def app)
qed

lemma parseRequired_lines:
  assumes h: "holdLines bs lines W"
    and W: "W = (TREE_PREFIX @ t) # map (\<lambda>p. PARENT_PREFIX @ p) ps @ [AUTHOR_PREFIX @ a, COMMITTER_PREFIX @ c] @ rest"
    and ok: "isValidObjectIdHex t" "\<forall>p \<in> set ps. isValidObjectIdHex p" "parseIdentity a = Inr ai" "parseIdentity c = Inr ci"
  shows "parseRequiredFields bs lines = Inr (t, ps, ai, ci, length ps + 3)"
proof -
  have w0: "0 < length W" "W ! 0 = TREE_PREFIX @ t" using W by simp_all
  have wp: "\<forall>k < length ps. W ! (1 + k) = PARENT_PREFIX @ ps ! k" using W by (simp add: nth_append)
  have wa: "1 + length ps < length W" "W ! (1 + length ps) = AUTHOR_PREFIX @ a" using W by (simp_all add: nth_append)
  have wc: "1 + length ps + 1 < length W" "W ! (1 + length ps + 1) = COMMITTER_PREFIX @ c" using W by (simp_all add: nth_append)
  note t = prefix_hit [OF h w0 prefixes_ascii(1)]
  note a = prefix_hit [OF h wa prefixes_ascii(3)] holdLines_nth(1) [OF h wa(1)]
  note c = prefix_hit [OF h wc prefixes_ascii(4)] holdLines_nth(1) [OF h wc(1)]
  have p: "parentsLoop bs lines 1 [] = Inr ([] @ ps, 1 + length ps)"
    using parentsLoop_run [OF h ok(2) wa(1) wp wa(2)] .
  show ?thesis using t a c p ok by (simp add: parseRequiredFields_def ObjectId_from_def)
qed


definition exampleCommit :: commit where
  "exampleCommit = \<lparr>commitId = replicate 40 98, commitContent =
     \<lparr>commitTree = replicate 40 97, commitParents = [replicate 40 99],
      author = \<lparr>idName = jslit ''A U'', idEmail = jslit ''a@b'', timestamp = 12, timezoneOffset = jslit ''+0100''\<rparr>,
      committer = \<lparr>idName = [233], idEmail = [], timestamp = - 1, timezoneOffset = jslit ''-0000''\<rparr>,
      commitMessage = [10, 65], gpgSignature = Some [120, 10, 121], extraHeaders = [(jslit ''encoding'', [122])]\<rparr>\<rparr>"


end
