(* ===== verification/TagObject.thy ===== *)
theory TagObject
  imports CommitProofs
begin

text \<open>
  \<open>objects/tag.ts\<close>: the annotated-tag payload. Its signature is not a header but the armour block the message ends in.
\<close>

section \<open>Model\<close>

record tagData =
  tagTarget :: objectId
  tagTargetType :: jsstr
  tagName :: jsstr
  tagger :: "authorIdentity option"
  tagMessage :: jsstr
  tagSignature :: "jsstr option"
  tagHeaders :: "extraHeader list"

record tag =
  tagId :: objectId
  tagContent :: tagData

definition VALID_OBJECT_TYPES :: "jsstr list" where
  "VALID_OBJECT_TYPES = [jslit ''blob'', jslit ''tree'', jslit ''commit'', jslit ''tag'']"

text \<open>\<open>TAG_SIGNATURE_PATTERN\<close>: a begin mark, anything, an end mark, at most one newline, the end.\<close>

definition armourMarks :: "string \<Rightarrow> jsstr list" where
  "armourMarks word = [jslit (''-----'' @ word @ '' PGP SIGNATURE-----''), jslit (''-----'' @ word @ '' SSH SIGNATURE-----'')]"

definition signatureHere :: "jsstr \<Rightarrow> bool" where
  "signatureHere s \<longleftrightarrow> list_ex (\<lambda>b. startsWith s b \<and>
     list_ex (\<lambda>e. strEndsWith (drop (length b) s) e \<or> strEndsWith (drop (length b) s) (e @ [10])) (armourMarks ''END''))
     (armourMarks ''BEGIN'')"

fun signatureIndex :: "jsstr \<Rightarrow> nat option" where
  "signatureIndex [] = None"
| "signatureIndex (u # us) = (if signatureHere (u # us) then Some 0 else map_option Suc (signatureIndex us))"

definition peelTagSignature :: "jsstr \<Rightarrow> jsstr \<times> jsstr option" where
  "peelTagSignature rawMessage =
     (case signatureIndex rawMessage of
        None \<Rightarrow> (rawMessage, None)
      | Some i \<Rightarrow> (take i rawMessage, Some (drop i rawMessage)))"

definition parseRequiredTagFields :: "jsstr list \<Rightarrow> tsgit_error + (objectId \<times> jsstr \<times> jsstr \<times> nat)" where
  "parseRequiredTagFields lines =
     (if \<not> startsWith (lines ! 0) (jslit ''object '') then Inl (InvalidTag ''first line must be object'' [])
      else bindE (ObjectId_from (drop 7 (lines ! 0))) (\<lambda>target.
        if length lines < 2 \<or> \<not> startsWith (lines ! 1) (jslit ''type '') then Inl (InvalidTag ''second line must be type'' [])
        else
          let objectTypeStr = drop 5 (lines ! 1) in
          if objectTypeStr \<notin> set VALID_OBJECT_TYPES then Inl (InvalidTag ''invalid object type: '' objectTypeStr)
          else if length lines < 3 \<or> \<not> startsWith (lines ! 2) (jslit ''tag '')
          then Inl (InvalidTag ''third line must be tag name'' [])
          else
            let name = drop 4 (lines ! 2) in
            if name = [] \<or> 0 \<in> set name \<or> 10 \<in> set name then Inl (InvalidTag ''invalid tag name: '' name)
            else Inr (target, objectTypeStr, name, 3)))"

definition parseTaggerField :: "jsstr list \<Rightarrow> nat \<Rightarrow> tsgit_error + (authorIdentity option \<times> nat)" where
  "parseTaggerField lines startIndex =
     (if startIndex < length lines \<and> startsWith (lines ! startIndex) (jslit ''tagger '')
      then bindE (parseIdentity (drop 7 (lines ! startIndex))) (\<lambda>i. Inr (Some i, startIndex + 1))
      else Inr (None, startIndex))"

function tagHeaderLoop :: "jsstr list \<Rightarrow> extraHeader list \<Rightarrow> tsgit_error + extraHeader list" where
  "tagHeaderLoop [] extra = Inr extra"
| "tagHeaderLoop (line # lines) extra =
     (let (key, firstValue) = parseHeaderLine line in
      if key = [] then Inl (InvalidTag ''unexpected continuation line without preceding header'' [])
      else
        let (parts, rest) = continuationLines lines
        in tagHeaderLoop rest (extra @ [(key, joinUnit 10 (firstValue # parts))]))"
  by pat_completeness auto
termination
  by (relation "measure (\<lambda>(ls, extra). length ls)") (auto, metis continuationLines_length le_imp_less_Suc snd_conv)

definition parseTagOptionalHeaders :: "jsstr list \<Rightarrow> nat \<Rightarrow> tsgit_error + extraHeader list" where
  "parseTagOptionalHeaders lines startIndex = tagHeaderLoop (drop startIndex lines) []"

definition parseTagContent :: "objectId \<Rightarrow> bytes \<Rightarrow> tsgit_error + tag" where
  "parseTagContent oid content =
     (let (headerPart, rawMessage) = splitHeaderAndMessage (decodePreservingBom content);
          lines = splitUnit 10 headerPart
      in bindE (parseRequiredTagFields lines) (\<lambda>(target, objectType, name, requiredEnd).
         bindE (parseTaggerField lines requiredEnd) (\<lambda>(who, nextIndex).
         bindE (parseTagOptionalHeaders lines nextIndex) (\<lambda>extra.
           let (message, sig) = peelTagSignature rawMessage in
           Inr \<lparr>tagId = oid, tagContent =
             \<lparr>tagTarget = target, tagTargetType = objectType, tagName = name, tagger = who, tagMessage = message,
              tagSignature = sig, tagHeaders = extra\<rparr>\<rparr>))))"

definition serializeTagContent :: "tag \<Rightarrow> tsgit_error + bytes" where
  "serializeTagContent t =
     (let d = tagContent t in
      if tagName d = [] \<or> 10 \<in> set (tagName d) \<or> 0 \<in> set (tagName d) then Inl (InvalidTag ''invalid tag name: '' (tagName d))
      else
        bindE (case tagger d of None \<Rightarrow> Inr [] | Some i \<Rightarrow> bindE (serializeIdentity i) (\<lambda>l. Inr [jslit ''tagger '' @ l])) (\<lambda>who.
        bindE (mapE (\<lambda>(k, v). formatContinuationHeader k v) (tagHeaders d)) (\<lambda>extra.
          let lines = [jslit ''object '' @ tagTarget d, jslit ''type '' @ tagTargetType d, jslit ''tag '' @ tagName d] @ who @ extra;
              body = (case tagSignature d of None \<Rightarrow> tagMessage d | Some sig \<Rightarrow> tagMessage d @ sig)
          in Inr (encode (joinUnit 10 lines @ [10, 10] @ body)))))"

section \<open>Tags read back\<close>

lemma no_blank_line:
  assumes "[] \<notin> set (splitUnit c h)"
  shows "h @ [c] \<noteq> a @ c # c # b"
proof
  assume e: "h @ [c] = a @ c # c # b"
  have "splitUnit c (h @ [c]) = splitUnit c h @ [[]]" using splitUnit_cut [of c h "[]"] by simp
  moreover have "splitUnit c (a @ c # c # b) = splitUnit c a @ [] # splitUnit c b" using splitUnit_cut [of c a "c # b"] by simp
  ultimately have "splitUnit c h @ [[]] = splitUnit c a @ [] # splitUnit c b" using e by simp
  then have "splitUnit c h = butlast (splitUnit c a @ [] # splitUnit c b)" by (metis butlast_snoc)
  also have "\<dots> = splitUnit c a @ [] # butlast (splitUnit c b)" by (simp add: butlast_append)
  finally show False using assms by simp
qed

lemma indexOfStrFrom_blank:
  "(\<And>a b. h @ [10] \<noteq> a @ 10 # 10 # b) \<Longrightarrow> indexOfStrFrom (h @ 10 # 10 # m) [10, 10] i = Some (i + length h)"
proof (induction h arbitrary: i)
  case (Cons u us)
  have "us @ [10] \<noteq> a @ 10 # 10 # b" for a b using Cons.prems [of "u # a" b] by simp
  then have ih: "indexOfStrFrom (us @ 10 # 10 # m) [10, 10] (i + 1) = Some (i + 1 + length us)" by (rule Cons.IH)
  have "\<not> startsWith (u # us @ 10 # 10 # m) [10, 10]"
  proof
    assume "startsWith (u # us @ 10 # 10 # m) [10, 10]"
    then have "\<exists>b. (u # us) @ [10] = [] @ 10 # 10 # b" by (cases us) auto
    then show False using Cons.prems by blast
  qed
  then show ?case using ih by simp
qed simp

lemma splitHeaderAndMessage_lines:
  "[] \<notin> set (splitUnit 10 h) \<Longrightarrow> splitHeaderAndMessage (h @ [10, 10] @ m) = (h, m)"
  using indexOfStrFrom_blank [of h m 0] no_blank_line [of 10 h]
  by (simp add: splitHeaderAndMessage_def indexOfStr_def)

lemma tagHeaderLoop_headers:
  "list_all2 (\<lambda>(k, v) l. formatContinuationHeader k v = Inr l) hs ls \<Longrightarrow>
    tagHeaderLoop (concat (map (splitUnit 10) ls)) extra = Inr (extra @ hs)"
proof (induction hs ls arbitrary: extra rule: list_all2_induct)
  case (Cons h hs l ls)
  obtain k v where h: "h = (k, v)" by (cases h)
  obtain p ps where l: "splitUnit 10 l = (k @ 32 # p) # map ((#) 32) ps" "joinUnit 10 (p # ps) = v" "headerKeyOk k"
    using formatContinuationHeader_lines [of k v l] Cons.hyps(1) h by auto
  let ?rest = "concat (map (splitUnit 10) ls)"
  have rest: "?rest = [] \<or> \<not> startsWith (hd ?rest) [32]"
  proof (cases ls)
    case (Cons l2 ls2)
    then obtain k2 v2 where "formatContinuationHeader k2 v2 = Inr l2" using \<open>list_all2 _ hs ls\<close> by (cases hs) auto
    then obtain p2 ps2 where "splitUnit 10 l2 = (k2 @ 32 # p2) # map ((#) 32) ps2" "headerKeyOk k2"
      using formatContinuationHeader_lines by metis
    then show ?thesis using Cons by (cases k2) (auto simp: headerKeyOk_def)
  qed simp
  have "parseHeaderLine (k @ 32 # p) = (k, p)" using l(3) by (intro parseHeaderLine_key) (simp add: headerKeyOk_def)
  then have "tagHeaderLoop ((k @ 32 # p) # map ((#) 32) ps @ ?rest) extra = tagHeaderLoop ?rest (extra @ [(k, v)])"
    using continuationLines_append [OF rest, of ps] l(2,3) by (simp add: headerKeyOk_def Let_def)
  then show ?case using Cons.IH [of "extra @ [(k, v)]"] h l(1) by simp
qed simp

definition tagTextOk :: "tagData \<Rightarrow> bool" where
  "tagTextOk d \<longleftrightarrow>
     isValidObjectIdHex (tagTarget d) \<and> tagTargetType d \<in> set VALID_OBJECT_TYPES \<and> wfText (tagName d) \<and>
     (\<forall>i \<in> set_option (tagger d). \<bar>timestamp i\<bar> < 2 ^ 53 \<and> wfText (idName i) \<and> wfText (idEmail i)) \<and>
     (\<forall>(k, v) \<in> set (tagHeaders d). k \<noteq> jslit ''tagger'' \<and> wfText k \<and> wfText v) \<and>
     wfText (tagMessage d) \<and> (\<forall>sig \<in> set_option (tagSignature d). wfText sig)"

definition tagBody :: "tagData \<Rightarrow> jsstr" where
  "tagBody d = (case tagSignature d of None \<Rightarrow> tagMessage d | Some sig \<Rightarrow> tagMessage d @ sig)"

lemma types_text: "t \<in> set VALID_OBJECT_TYPES \<Longrightarrow> 10 \<notin> set t \<and> wfText t"
  by (auto simp: VALID_OBJECT_TYPES_def jslit_def intro!: wfText_ascii)

lemma literal_text: "list_all (\<lambda>c. of_char c < (128 :: nat)) s \<Longrightarrow> asciiPrefix (jslit s)"
  by (auto simp: asciiPrefix_def jslit_def list_all_iff)

lemma parseRequiredTagFields_lines:
  assumes "isValidObjectIdHex t" "ty \<in> set VALID_OBJECT_TYPES" "n \<noteq> []" "0 \<notin> set n" "10 \<notin> set n"
  shows "parseRequiredTagFields ((jslit ''object '' @ t) # (jslit ''type '' @ ty) # (jslit ''tag '' @ n) # rest) = Inr (t, ty, n, 3)"
  using assms by (simp add: parseRequiredTagFields_def startsWith_iff ObjectId_from_def)

lemma no_tagger_header:
  assumes "list_all2 (\<lambda>(k, v) l. formatContinuationHeader k v = Inr l) hs ls" "\<forall>(k, v) \<in> set hs. k \<noteq> jslit ''tagger''"
  shows "concat (map (splitUnit 10) ls) = [] \<or> \<not> startsWith (hd (concat (map (splitUnit 10) ls))) (jslit ''tagger '')"
proof (cases ls)
  case (Cons l ls')
  then obtain k v where kv: "formatContinuationHeader k v = Inr l" "(k, v) \<in> set hs" using assms(1) by (cases hs) auto
  obtain p ps where l: "splitUnit 10 l = (k @ 32 # p) # map ((#) 32) ps" "headerKeyOk k"
    using formatContinuationHeader_lines [OF kv(1)] by metis
  have "\<not> startsWith (k @ 32 # p) (jslit ''tagger '')"
  proof
    assume "startsWith (k @ 32 # p) (jslit ''tagger '')"
    then obtain r where r: "k @ 32 # p = jslit ''tagger'' @ 32 # r" by (auto simp: startsWith_iff jslit_def)
    have s: "32 \<notin> set k" "32 \<notin> set (jslit ''tagger'')" using l(2) by (simp_all add: headerKeyOk_def jslit_def)
    have word: "takeWhile (\<lambda>u. u \<noteq> 32) (x @ 32 # y) = x" if "32 \<notin> set x" for x y :: jsstr using that by (induction x) auto
    have "k = takeWhile (\<lambda>u. u \<noteq> 32) (k @ 32 # p)" using word [OF s(1)] by simp
    also have "\<dots> = jslit ''tagger''" unfolding r by (rule word [OF s(2)])
    finally have "k = jslit ''tagger''" .
    then show False using assms(2) kv(2) by auto
  qed
  then show ?thesis using Cons l(1) by simp
qed simp

text \<open>The header lines of a tag as text.\<close>

lemma tag_lines:
  assumes "serializeTagContent t = Inr bs" "tagTextOk (tagContent t)"
  obtains who ext where
    "case tagger (tagContent t) of None \<Rightarrow> who = [] | Some i \<Rightarrow> \<exists>l. serializeIdentity i = Inr l \<and> who = [jslit ''tagger '' @ l]"
    "list_all2 (\<lambda>(k, v) l. formatContinuationHeader k v = Inr l) (tagHeaders (tagContent t)) ext"
    "bs = utf8_encode (joinUnit 10 ([jslit ''object '' @ tagTarget (tagContent t), jslit ''type '' @ tagTargetType (tagContent t),
      jslit ''tag '' @ tagName (tagContent t)] @ who @ ext) @ [10, 10] @ tagBody (tagContent t))"
    "tagName (tagContent t) \<noteq> []" "0 \<notin> set (tagName (tagContent t))" "10 \<notin> set (tagName (tagContent t))"
proof -
  let ?d = "tagContent t"
  obtain who ext where s: "tagName ?d \<noteq> []" "0 \<notin> set (tagName ?d)" "10 \<notin> set (tagName ?d)"
    "(case tagger ?d of None \<Rightarrow> Inr [] | Some i \<Rightarrow> bindE (serializeIdentity i) (\<lambda>l. Inr [jslit ''tagger '' @ l])) = Inr who"
    "mapE (\<lambda>(k, v). formatContinuationHeader k v) (tagHeaders ?d) = Inr ext"
    "bs = encode (joinUnit 10 ([jslit ''object '' @ tagTarget ?d, jslit ''type '' @ tagTargetType ?d, jslit ''tag '' @ tagName ?d] @ who @ ext)
      @ [10, 10] @ tagBody ?d)"
    using assms(1) by (auto simp: serializeTagContent_def bindE_Inr_iff Let_def tagBody_def split: if_splits)
  have "case tagger ?d of None \<Rightarrow> who = [] | Some i \<Rightarrow> \<exists>l. serializeIdentity i = Inr l \<and> who = [jslit ''tagger '' @ l]"
    using s(4) by (cases "tagger ?d") (auto simp: bindE_Inr_iff)
  moreover have "list_all2 (\<lambda>(k, v) l. formatContinuationHeader k v = Inr l) (tagHeaders ?d) ext"
    using mapE_list_all2 [OF s(5)] by (simp add: case_prod_unfold)
  ultimately show thesis using that s(1-3,6) unfolding encode_def by blast
qed

lemma ext_text:
  assumes "list_all2 (\<lambda>(k, v) l. formatContinuationHeader k v = Inr l) hs ext" "\<forall>(k, v) \<in> set hs. wfText k \<and> wfText v" "l \<in> set ext"
  shows "wfText l" "[] \<notin> set (splitUnit 10 l)"
proof -
  obtain i where i: "i < length ext" "l = ext ! i" using assms(3) unfolding in_set_conv_nth by blast
  then have h: "i < length hs" "formatContinuationHeader (fst (hs ! i)) (snd (hs ! i)) = Inr l"
    using assms(1) by (auto simp: list_all2_conv_all_nth case_prod_unfold)
  then have "hs ! i \<in> set hs" by simp
  then have "wfText (fst (hs ! i)) \<and> wfText (snd (hs ! i))" using assms(2) by (auto simp: case_prod_unfold)
  then show "wfText l" "[] \<notin> set (splitUnit 10 l)" using format_wf [OF h(2)] by blast+
qed


definition exampleTag :: tag where
  "exampleTag = \<lparr>tagId = replicate 40 98, tagContent =
     \<lparr>tagTarget = replicate 40 97, tagTargetType = jslit ''commit'', tagName = jslit ''v1'',
      tagger = Some \<lparr>idName = jslit ''A'', idEmail = jslit ''a@b'', timestamp = 12, timezoneOffset = jslit ''+0100''\<rparr>,
      tagMessage = jslit ''msg'', tagSignature = None, tagHeaders = [(jslit ''x'', [121, 10, 122])]\<rparr>\<rparr>"


end
