(* ===== verification/IndexPaths.thy ===== *)
theory IndexPaths
  imports Utf8Text FileMode
begin

text \<open>
  \<open>git-index/index-path-key.ts\<close> and the comparators of \<open>git-index/index-writer.ts\<close>: a path of the index with the raw
  bytes kept beside it when the decoded view loses them, and the order of the entries.
\<close>

section \<open>Paths and keys\<close>

text \<open>Whatever has these two fields is an \<open>IndexPath\<close>: the entries of the index extend the record.\<close>

record indexPath =
  filePath :: jsstr
  pathBytes :: "bytes option"

definition isLossy :: "'a indexPath_scheme \<Rightarrow> bool" where
  "isLossy entry = (pathBytes entry \<noteq> None)"

definition escapedPathOf :: "'a indexPath_scheme \<Rightarrow> jsstr" where
  "escapedPathOf entry =
     (case pathBytes entry of None \<Rightarrow> filePath entry | Some bs \<Rightarrow> decodeEscapingInvalid bs)"

definition indexPathKey :: "'a indexPath_scheme \<Rightarrow> jsstr" where
  "indexPathKey entry = escapedPathOf entry"

definition keyOfPath :: "jsstr \<Rightarrow> jsstr" where
  "keyOfPath p = p"

definition pathBytesOf :: "'a indexPath_scheme \<Rightarrow> bytes" where
  "pathBytesOf entry = (case pathBytes entry of None \<Rightarrow> encode (filePath entry) | Some bs \<Rightarrow> bs)"

definition indexPathOfBytes :: "bytes \<Rightarrow> indexPath" where
  "indexPathOfBytes bs =
     (let p = decodePreservingBom bs in
      \<lparr>filePath = p, pathBytes = (if decodesLosslessly p bs then None else Some bs)\<rparr>)"

definition indexPathOfEscaped :: "jsstr \<Rightarrow> indexPath" where
  "indexPathOfEscaped p =
     (if hasEscapedBytes p then indexPathOfBytes (encodeEscaped p) else \<lparr>filePath = p, pathBytes = None\<rparr>)"

definition viewOfEscaped :: "jsstr \<Rightarrow> jsstr" where
  "viewOfEscaped p = (if hasEscapedBytes p then decodePreservingBom (encodeEscaped p) else p)"

text \<open>The loop of \<open>splitAtSlash\<close> over the positions left.\<close>

fun slashLoop :: "bytes \<Rightarrow> nat list \<Rightarrow> nat \<Rightarrow> bytes list \<Rightarrow> bytes list" where
  "slashLoop bs [] start parts = parts @ [drop start bs]"
| "slashLoop bs (i # is) start parts =
     (if bs ! i \<noteq> 47 then slashLoop bs is start parts
      else slashLoop bs is (i + 1) (parts @ [subarray bs start i]))"

definition splitAtSlash :: "bytes \<Rightarrow> bytes list" where
  "splitAtSlash bs = slashLoop bs [0..<length bs] 0 []"

definition hasBytePrefix :: "bytes \<Rightarrow> bytes \<Rightarrow> bool" where
  "hasBytePrefix bs prefix =
     (if length bs \<le> length prefix \<or> bs ! length prefix \<noteq> 47 then False
      else list_all (\<lambda>i. bs ! i = prefix ! i) [0..<length prefix])"

section \<open>Order\<close>

definition utf8Rank :: "nat \<Rightarrow> int" where
  "utf8Rank unit =
     (if unit < 55296 then int unit
      else if 57344 \<le> unit then int unit - 2048 else int unit + 8192)"

fun comparePathStrings :: "jsstr \<Rightarrow> jsstr \<Rightarrow> int" where
  "comparePathStrings (l # ls) (r # rs) =
     (if l \<noteq> r then utf8Rank l - utf8Rank r else comparePathStrings ls rs)"
| "comparePathStrings ls rs = int (length ls) - int (length rs)"

definition compareEntryPath :: "'a indexPath_scheme \<Rightarrow> 'a indexPath_scheme \<Rightarrow> int" where
  "compareEntryPath a b =
     (if pathBytes a = None \<and> pathBytes b = None then comparePathStrings (filePath a) (filePath b)
      else compareBytes (pathBytesOf a) (pathBytesOf b))"

definition compareUtf16Strings :: "jsstr \<Rightarrow> jsstr \<Rightarrow> int" where
  "compareUtf16Strings l r =
     (if ord_class.lexordp l r then - 1 else if ord_class.lexordp r l then 1 else 0)"

definition compareUtf16Path :: "'a indexPath_scheme \<Rightarrow> 'a indexPath_scheme \<Rightarrow> int" where
  "compareUtf16Path a b = compareUtf16Strings (filePath a) (filePath b)"

definition SURROGATE_OR_ABOVE :: "jsstr \<Rightarrow> bool" where
  "SURROGATE_OR_ABOVE s = list_ex (\<lambda>u. 55296 \<le> u \<and> u \<le> 65535) s"

definition pathComparatorFor ::
    "'a indexPath_scheme list \<Rightarrow> 'a indexPath_scheme \<Rightarrow> 'a indexPath_scheme \<Rightarrow> int" where
  "pathComparatorFor entries =
     (if list_ex (\<lambda>entry. SURROGATE_OR_ABOVE (filePath entry)) entries then compareEntryPath
      else compareUtf16Path)"

definition inOrder :: "'a list \<Rightarrow> ('a \<Rightarrow> 'a \<Rightarrow> int) \<Rightarrow> 'a list" where
  "inOrder items compare =
     (if list_ex (\<lambda>i. 0 < compare (items ! (i - 1)) (items ! i)) [1..<length items]
      then jsSort compare items else items)"

section \<open>Splitting at slashes\<close>

lemma slashLoop_eq:
  "start \<le> i \<Longrightarrow> i \<le> length bs \<Longrightarrow> 47 \<notin> set (subarray bs start i) \<Longrightarrow>
    slashLoop bs [i..<length bs] start parts = parts @ splitUnit 47 (drop start bs)"
proof (induction "length bs - i" arbitrary: i start parts)
  case 0
  then have "drop start bs = subarray bs start i" by (simp add: subarray_def)
  then show ?case using 0 by (simp add: splitUnit_single)
next
  case (Suc n)
  then have lt: "i < length bs" by simp
  have e: "subarray bs start (Suc i) = subarray bs start i @ [bs ! i]"
    using subarray_split [of start i "Suc i" bs] subarray_Suc [of i "Suc i" bs] Suc.prems(1) lt by simp
  have d: "drop start bs = subarray bs start i @ bs ! i # drop (Suc i) bs"
    unfolding subarray_def using Suc.prems(1) lt
    by (metis Cons_nth_drop_Suc append_take_drop_id drop_drop le_add_diff_inverse2)
  show ?case
  proof (cases "bs ! i = 47")
    case True
    have "slashLoop bs [Suc i..<length bs] (Suc i) (parts @ [subarray bs start i])
        = (parts @ [subarray bs start i]) @ splitUnit 47 (drop (Suc i) bs)"
      using Suc.hyps(2) lt by (intro Suc.hyps(1)) simp_all
    then show ?thesis using True lt d Suc.prems(3) by (simp add: upt_rec [of i] splitUnit_append)
  next
    case False
    then have "slashLoop bs [Suc i..<length bs] start parts = parts @ splitUnit 47 (drop start bs)"
      using Suc.hyps(2) Suc.prems lt e by (intro Suc.hyps(1)) auto
    then show ?thesis using False lt by (simp add: upt_rec [of i])
  qed
qed

lemma splitAtSlash_eq: "splitAtSlash bs = splitUnit 47 bs"
  using slashLoop_eq [of 0 0 bs "[]"] by (simp add: splitAtSlash_def)

section \<open>The order of UTF-8\<close>

lemma compareBytes_same: "compareBytes (p @ x) (p @ y) = compareBytes x y"
  by (induction p) auto

lemma comparePathStrings_same: "comparePathStrings (p @ x) (p @ y) = comparePathStrings x y"
  by (induction p) auto

lemma compareBytes_of_nat:
  "m < 256 \<Longrightarrow> n < 256 \<Longrightarrow>
    compareBytes (of_nat m # x) (of_nat n # y) = (if m = n then compareBytes x y else int m - int n)"
proof -
  assume "m < 256" "n < 256"
  then have u: "unat (of_nat m :: byte) = m" "unat (of_nat n :: byte) = n" by (simp_all add: unat_small)
  then have "(of_nat m :: byte) = of_nat n \<longleftrightarrow> m = n" by metis
  moreover have "u8 (of_nat m) = int m" "u8 (of_nat n) = int n"
    using u by (metis u8_def uint_nat)+
  ultimately show ?thesis by simp
qed

definition leadByte :: "nat \<Rightarrow> nat" where
  "leadByte c = (if c < 128 then c else if c < 2048 then 192 + c div 64
     else if c < 65536 then 224 + c div 4096 else 240 + c div 262144)"

definition contDigits :: "nat \<Rightarrow> nat list" where
  "contDigits c = (if c < 128 then [] else if c < 2048 then [c mod 64]
     else if c < 65536 then [c div 64 mod 64, c mod 64]
     else [c div 4096 mod 64, c div 64 mod 64, c mod 64])"

lemma utf8_scalar_digits: "utf8_scalar c = of_nat (leadByte c) # map (\<lambda>d. of_nat (128 + d)) (contDigits c)"
  by (simp add: utf8_scalar_def leadByte_def contDigits_def)

lemma leadByte_less: "c < 1114112 \<Longrightarrow> leadByte c < 256"
  by (auto simp: leadByte_def)

lemma lead_class:
  "c < 128 \<Longrightarrow> leadByte c = c" "128 \<le> c \<Longrightarrow> c < 2048 \<Longrightarrow> leadByte c = 192 + c div 64"
  "2048 \<le> c \<Longrightarrow> c < 65536 \<Longrightarrow> leadByte c = 224 + c div 4096" "65536 \<le> c \<Longrightarrow> leadByte c = 240 + c div 262144"
  by (simp_all add: leadByte_def)

lemma lead_mono:
  assumes "c < d"
  shows "leadByte c < leadByte d \<or> leadByte c = leadByte d \<and>
    (128 \<le> c \<and> c < 2048 \<and> d < 2048 \<or> 2048 \<le> c \<and> c < 65536 \<and> d < 65536 \<or> 65536 \<le> c)"
proof -
  have m: "c div 64 \<le> d div 64" "c div 4096 \<le> d div 4096" "c div 262144 \<le> d div 262144"
    using assms by (simp_all add: div_le_mono)
  have b: "c < 2048 \<Longrightarrow> c div 64 < 32" "c < 65536 \<Longrightarrow> c div 4096 < 16" by linarith+
  consider "d < 128" | "128 \<le> d" "d < 2048" | "2048 \<le> d" "d < 65536" | "65536 \<le> d" by linarith
  then show ?thesis
  proof cases
    case 1
    then show ?thesis using assms by (simp add: lead_class)
  next
    case 2
    then show ?thesis using assms m(1) by (cases "c < 128") (auto simp: lead_class)
  next
    case 3
    consider "c < 128" | "128 \<le> c" "c < 2048" | "2048 \<le> c" by linarith
    then show ?thesis using 3 assms m(2) b(1) by cases (auto simp: lead_class)
  next
    case 4
    consider "c < 128" | "128 \<le> c" "c < 2048" | "2048 \<le> c" "c < 65536" | "65536 \<le> c" by linarith
    then show ?thesis using 4 m(3) b by cases (auto simp: lead_class)
  qed
qed

lemma digit_step: "c < d \<Longrightarrow> c div 64 < d div 64 \<or> c div 64 = d div 64 \<and> c mod 64 < d mod 64" for c d :: nat
  using div_le_mono [of c d 64] div_mult_mod_eq [of c 64] div_mult_mod_eq [of d 64] by linarith

lemma div64: "c div 64 div 64 = c div 4096" "c div 4096 div 64 = c div 262144" for c :: nat
  by (simp_all add: div_mult2_eq [symmetric])

lemma cont_order:
  assumes "length ds = length es" "\<And>d. d \<in> set ds \<Longrightarrow> d < 64" "\<And>d. d \<in> set es \<Longrightarrow> d < 64" "ord_class.lexordp ds es"
  shows "compareBytes (map (\<lambda>d. of_nat (128 + d)) ds @ x) (map (\<lambda>d. of_nat (128 + d)) es @ y) < 0"
  using assms
proof (induction ds es rule: list_induct2)
  case (Cons d ds e es)
  have h: "compareBytes (of_nat (128 + d) # u) (of_nat (128 + e) # v)
      = (if d = e then compareBytes u v else int d - int e)" for u v
    using compareBytes_of_nat [of "128 + d" "128 + e" u v] Cons.prems(1) [of d] Cons.prems(2) [of e] by simp
  show ?case
  proof (cases "d = e")
    case True
    then show ?thesis using Cons.IH Cons.prems h by (simp del: of_nat_add)
  next
    case False
    then show ?thesis using Cons.prems(3) h by (auto simp del: of_nat_add)
  qed
qed simp

lemma contDigits_less: "d \<in> set (contDigits c) \<Longrightarrow> d < 64"
  by (auto simp: contDigits_def split: if_splits)

lemma scalar_order:
  assumes "c < d" "d < 1114112"
  shows "compareBytes (utf8_scalar c @ x) (utf8_scalar d @ y) < 0"
proof -
  have less: "leadByte c < 256" "leadByte d < 256" using leadByte_less assms by simp_all
  have head: "?thesis" if "leadByte c < leadByte d"
    using that less by (simp only: utf8_scalar_digits append_Cons compareBytes_of_nat) simp
  have tail: "?thesis" if "leadByte c = leadByte d" "length (contDigits c) = length (contDigits d)"
    "ord_class.lexordp (contDigits c) (contDigits d)"
    using that less cont_order [OF that(2) contDigits_less contDigits_less that(3)]
    by (simp only: utf8_scalar_digits append_Cons compareBytes_of_nat) simp
  consider "leadByte c < leadByte d" | "leadByte c = leadByte d" "c < 2048" "128 \<le> c" "d < 2048"
    | "leadByte c = leadByte d" "c < 65536" "2048 \<le> c" "d < 65536"
    | "leadByte c = leadByte d" "65536 \<le> c"
    using lead_mono [OF assms(1)] by blast
  then show ?thesis
  proof cases
    case 1
    then show ?thesis by (rule head)
  next
    case 2
    then have e: "c div 64 = d div 64" "128 \<le> d" using assms(1) by (auto simp: leadByte_def)
    then have "c mod 64 < d mod 64" using digit_step [OF assms(1)] by simp
    then show ?thesis using 2 e by (intro tail) (simp_all add: contDigits_def)
  next
    case 3
    then have e: "c div 4096 = d div 4096" "2048 \<le> d" using assms(1) by (auto simp: leadByte_def)
    have "c div 64 mod 64 < d div 64 mod 64 \<or> c div 64 mod 64 = d div 64 mod 64 \<and> c mod 64 < d mod 64"
      using digit_step [OF assms(1)] digit_step [of "c div 64" "d div 64"] e(1) by (auto simp: div64)
    then show ?thesis using 3 e by (intro tail) (auto simp: contDigits_def)
  next
    case 4
    then have e: "c div 262144 = d div 262144" "65536 \<le> d" using assms(1) by (auto simp: leadByte_def)
    have "c div 4096 mod 64 < d div 4096 mod 64 \<or> c div 4096 mod 64 = d div 4096 mod 64 \<and>
        (c div 64 mod 64 < d div 64 mod 64 \<or> c div 64 mod 64 = d div 64 mod 64 \<and> c mod 64 < d mod 64)"
      using digit_step [OF assms(1)] digit_step [of "c div 64" "d div 64"]
        digit_step [of "c div 4096" "d div 4096"] e(1) div64 [of c] div64 [of d] by (metis less_irrefl)
    then show ?thesis using 4 e by (intro tail) (auto simp: contDigits_def)
  qed
qed

text \<open>The code point of one character of UTF-16.\<close>

definition scalarOf :: "jsstr \<Rightarrow> nat" where
  "scalarOf us = (case us of [u] \<Rightarrow> u | [h, l] \<Rightarrow> surrogatePair h l | _ \<Rightarrow> 0)"

lemma encode_unit: "unit16 us \<Longrightarrow> utf8_encode us = utf8_scalar (scalarOf us)"
  by (auto simp: unit16_def scalarOf_def)

lemma scalarOf_less: "unit16 us \<Longrightarrow> \<forall>u \<in> set us. u < 65536 \<Longrightarrow> scalarOf us < 1114112"
  by (auto simp: unit16_def scalarOf_def surrogatePair_def isHigh_def isLow_def)

lemma rank_order:
  assumes "unit16 us" "unit16 vs" "\<forall>u \<in> set us. u < 65536" "\<forall>u \<in> set vs. u < 65536" "us \<noteq> vs"
  shows "comparePathStrings (us @ x) (vs @ y) < 0 \<and> scalarOf us < scalarOf vs \<or>
    0 < comparePathStrings (us @ x) (vs @ y) \<and> scalarOf vs < scalarOf us"
  using assms(1)
  unfolding unit16_def
proof (elim disjE exE conjE)
  fix u assume u: "us = [u]" "\<not> isHigh u" "\<not> isLow u"
  show ?thesis using assms(2) unfolding unit16_def
  proof (elim disjE exE conjE)
    fix v assume v: "vs = [v]" "\<not> isHigh v" "\<not> isLow v"
    then show ?thesis using u assms(3-5)
      by (auto simp: scalarOf_def utf8Rank_def isHigh_def isLow_def)
  next
    fix h l assume v: "vs = [h, l]" "isHigh h" "isLow l"
    then have "u \<noteq> h" using u by auto
    then show ?thesis using u v assms(3-5)
      by (auto simp: scalarOf_def utf8Rank_def isHigh_def isLow_def surrogatePair_def)
  qed
next
  fix h l assume u: "us = [h, l]" "isHigh h" "isLow l"
  show ?thesis using assms(2) unfolding unit16_def
  proof (elim disjE exE conjE)
    fix v assume v: "vs = [v]" "\<not> isHigh v" "\<not> isLow v"
    then have "v \<noteq> h" using u by auto
    then show ?thesis using u v assms(3-5)
      by (auto simp: scalarOf_def utf8Rank_def isHigh_def isLow_def surrogatePair_def)
  next
    fix h' l' assume v: "vs = [h', l']" "isHigh h'" "isLow l'"
    show ?thesis
    proof (cases "h = h'")
      case True
      then show ?thesis using u v assms(5)
        by (auto simp: scalarOf_def utf8Rank_def isHigh_def isLow_def surrogatePair_def)
    next
      case False
      then show ?thesis using u v
        by (auto simp: scalarOf_def utf8Rank_def isHigh_def isLow_def surrogatePair_def)
    qed
  qed
qed

lemma wfText_cases:
  assumes "wfText s"
  obtains "s = []" | us t where "s = us @ t" "unit16 us" "\<forall>u \<in> set us. u < 65536" "wfText t"
  using assms by (induction rule: wfText_induct) auto

lemma utf8_scalar_nonempty: "utf8_scalar c \<noteq> []"
  by (simp add: utf8_scalar_def)

lemma compare_utf8:
  assumes "wfText a" "wfText b"
  shows "sgn (comparePathStrings a b) = sgn (compareBytes (utf8_encode a) (utf8_encode b))"
  using assms
proof (induction arbitrary: b rule: wfText_induct)
  case Nil
  from Nil show ?case
  proof (cases rule: wfText_cases)
    case (2 us t)
    then have "utf8_encode b \<noteq> []" "b \<noteq> []"
      using utf8_encode_unit16 [of us t] encode_unit utf8_scalar_nonempty by (auto simp: unit16_def)
    then show ?thesis by (cases b; cases "utf8_encode b") auto
  qed simp
next
  case (unit us s)
  have ne: "us @ s \<noteq> []" "utf8_encode (us @ s) \<noteq> []"
    using unit.hyps utf8_encode_unit16 [of us s] encode_unit utf8_scalar_nonempty by (auto simp: unit16_def)
  from unit.prems show ?case
  proof (cases rule: wfText_cases)
    case 1
    then show ?thesis using ne by (cases "us @ s"; cases "utf8_encode (us @ s)") auto
  next
    case (2 vs t)
    have e: "utf8_encode (us @ s) = utf8_scalar (scalarOf us) @ utf8_encode s"
      "utf8_encode b = utf8_scalar (scalarOf vs) @ utf8_encode t"
      using utf8_encode_unit16 encode_unit unit.hyps 2 by simp_all
    show ?thesis
    proof (cases "us = vs")
      case True
      then show ?thesis using unit.IH [OF 2(4)] e 2(1) by (simp add: compareBytes_same comparePathStrings_same)
    next
      case False
      consider "comparePathStrings (us @ s) b < 0" "scalarOf us < scalarOf vs"
        | "0 < comparePathStrings (us @ s) b" "scalarOf vs < scalarOf us"
        using rank_order [OF unit.hyps(1) 2(2) unit.hyps(2) 2(3) False, of s t] 2(1) by auto
      then show ?thesis
      proof cases
        case 1
        then show ?thesis using scalar_order [of "scalarOf us" "scalarOf vs" "utf8_encode s" "utf8_encode t"]
            scalarOf_less [OF 2(2,3)] e by simp
      next
        case b: 2
        then have "compareBytes (utf8_encode b) (utf8_encode (us @ s)) < 0"
          using scalar_order [of "scalarOf vs" "scalarOf us" "utf8_encode t" "utf8_encode s"]
            scalarOf_less [OF unit.hyps(1,2)] e by simp
        then show ?thesis using b compareBytes_swap [of "utf8_encode b" "utf8_encode (us @ s)"] by simp
      qed
    qed
  qed
qed

section \<open>The comparator of a sort\<close>

text \<open>What an entry's two path fields are when they come from bytes.\<close>

definition pathView :: "'a indexPath_scheme \<Rightarrow> bool" where
  "pathView e \<longleftrightarrow>
     (case pathBytes e of
        None \<Rightarrow> wfText (filePath e)
      | Some bs \<Rightarrow> filePath e = decodePreservingBom bs \<and> \<not> decodesLosslessly (filePath e) bs)"

lemma jsInsert_sign:
  "(\<And>y. y \<in> set ys \<Longrightarrow> f x y \<le> 0 \<longleftrightarrow> g x y \<le> 0) \<Longrightarrow> jsInsert f x ys = jsInsert g x ys"
  by (induction ys) auto

lemma jsSort_sign:
  assumes "\<And>x y. x \<in> set xs \<Longrightarrow> y \<in> set xs \<Longrightarrow> f x y \<le> 0 \<longleftrightarrow> g x y \<le> 0"
  shows "jsSort f xs = jsSort g xs"
  using assms
proof (induction xs)
  case (Cons x xs)
  have "jsSort f xs = jsSort g xs" using Cons by simp
  moreover have "jsInsert f x (jsSort g xs) = jsInsert g x (jsSort g xs)"
    using Cons.prems by (intro jsInsert_sign) simp
  ultimately show ?case by (simp add: jsSort_def)
qed (simp add: jsSort_def)

lemma comparePathStrings_low:
  assumes "\<forall>u \<in> set a. u < 55296" "\<forall>u \<in> set b. u < 55296"
  shows "comparePathStrings a b < 0 \<longleftrightarrow> ord_class.lexordp a b" "0 < comparePathStrings a b \<longleftrightarrow> ord_class.lexordp b a"
  using assms by (induction a b rule: comparePathStrings.induct) (auto simp: utf8Rank_def)

lemma compareBytes_refl: "compareBytes a a = 0"
  by (subst compareBytes_zero) (rule refl)

lemma compareEntryPath_bytes:
  assumes "pathView a" "pathView b"
  shows "compareEntryPath a b \<le> 0 \<longleftrightarrow> compareBytes (pathBytesOf a) (pathBytesOf b) \<le> 0"
proof (cases "pathBytes a = None \<and> pathBytes b = None")
  case True
  then have "sgn (comparePathStrings (filePath a) (filePath b))
      = sgn (compareBytes (utf8_encode (filePath a)) (utf8_encode (filePath b)))"
    using assms by (intro compare_utf8) (simp_all add: pathView_def)
  then show ?thesis using True
    by (auto simp: compareBytes_refl compareEntryPath_def pathBytesOf_def encode_def sgn_if split: if_splits)
next
  case False
  then show ?thesis by (auto simp: compareEntryPath_def)
qed

lemma low_path:
  assumes "pathView e" "\<not> SURROGATE_OR_ABOVE (filePath e)"
  shows "pathBytes e = None" "\<forall>u \<in> set (filePath e). u < 55296"
proof -
  show n: "pathBytes e = None"
  proof (rule ccontr)
    assume "pathBytes e \<noteq> None"
    then have "65533 \<in> set (filePath e)" using assms(1) by (auto simp: pathView_def decodesLosslessly_def)
    then show False using assms(2) by (auto simp: SURROGATE_OR_ABOVE_def list_ex_iff)
  qed
  have "\<forall>u \<in> set (filePath e). u < 65536" using assms(1) n by (simp add: pathView_def wfText_def)
  then show "\<forall>u \<in> set (filePath e). u < 55296"
    using assms(2) by (fastforce simp: SURROGATE_OR_ABOVE_def list_ex_iff not_le)
qed

lemma pathComparator_bytes:
  assumes "\<And>e. e \<in> set es \<Longrightarrow> pathView e" "a \<in> set es" "b \<in> set es"
  shows "pathComparatorFor es a b \<le> 0 \<longleftrightarrow> compareBytes (pathBytesOf a) (pathBytesOf b) \<le> 0"
proof (cases "list_ex (\<lambda>entry. SURROGATE_OR_ABOVE (filePath entry)) es")
  case True
  then show ?thesis
    using compareEntryPath_bytes [OF assms(1) [OF assms(2)] assms(1) [OF assms(3)]] by (simp add: pathComparatorFor_def)
next
  case False
  then have l: "\<not> SURROGATE_OR_ABOVE (filePath a)" "\<not> SURROGATE_OR_ABOVE (filePath b)"
    using assms by (auto simp: list_ex_iff)
  note la = low_path [OF assms(1) [OF assms(2)] l(1)] and lb = low_path [OF assms(1) [OF assms(3)] l(2)]
  have "pathComparatorFor es a b \<le> 0 \<longleftrightarrow> \<not> ord_class.lexordp (filePath b) (filePath a)"
    using False lexordp_antisym [of "filePath a" "filePath b"]
    by (auto simp: pathComparatorFor_def compareUtf16Path_def compareUtf16Strings_def)
  also have "\<dots> \<longleftrightarrow> compareEntryPath a b \<le> 0"
    using comparePathStrings_low(2) [OF la(2) lb(2)] la(1) lb(1) by (auto simp: compareEntryPath_def not_less)
  finally show ?thesis using compareEntryPath_bytes [OF assms(1) [OF assms(2)] assms(1) [OF assms(3)]] by simp
qed

lemma sorted_adjacent:
  assumes "consistent cmp (set xs)" "\<And>i. 0 < i \<Longrightarrow> i < length xs \<Longrightarrow> cmp (xs ! (i - 1)) (xs ! i) \<le> 0"
  shows "sorted_wrt (\<lambda>a b. cmp a b \<le> 0) xs"
  using assms
proof (induction xs)
  case (Cons x xs)
  have c: "consistent cmp (set xs)" using Cons.prems(1) by (rule consistent_subset) auto
  have s: "sorted_wrt (\<lambda>a b. cmp a b \<le> 0) xs"
  proof (rule Cons.IH [OF c])
    fix i assume "0 < i" "i < length xs"
    then show "cmp (xs ! (i - 1)) (xs ! i) \<le> 0" using Cons.prems(2) [of "Suc i"] by simp
  qed
  have "cmp x y \<le> 0" if "y \<in> set xs" for y
  proof (cases xs)
    case Nil
    then show ?thesis using that by simp
  next
    case e: (Cons z zs)
    have "cmp x z \<le> 0" using Cons.prems(2) [of 1] e by simp
    moreover have "y = z \<or> cmp z y \<le> 0" using s that e by auto
    ultimately show ?thesis using consistent_trans [OF Cons.prems(1), of x z y] that e by auto
  qed
  then show ?case using s by simp
qed simp

lemma inOrder_jsSort:
  assumes "consistent cmp (set xs)"
  shows "inOrder xs cmp = jsSort cmp xs"
proof (cases "list_ex (\<lambda>i. 0 < cmp (xs ! (i - 1)) (xs ! i)) [1..<length xs]")
  case False
  then have "sorted_wrt (\<lambda>a b. cmp a b \<le> 0) xs"
    by (intro sorted_adjacent [OF assms]) (auto simp: list_ex_iff not_less)
  then show ?thesis using False by (simp add: inOrder_def jsSort_sorted)
qed (simp add: inOrder_def)

section \<open>Properties\<close>

text \<open>The comparison of code units with the rank fix-up orders paths as git does, by their UTF-8 bytes, without
  encoding them: for well-formed text its sign is that of the byte comparison of the encodings, astral characters
  against the top of the basic plane included.\<close>

theorem comparePathStrings_utf8:
  assumes "wfText a" "wfText b"
  shows "sgn (comparePathStrings a b) = sgn (compareBytes (encode a) (encode b))"
  unfolding encode_def by (rule compare_utf8 [OF assms])

theorem comparePathStrings_utf8_witness:
  "sgn (comparePathStrings [97, 55357, 56832] [97, 65533]) = sgn (compareBytes (encode [97, 55357, 56832]) (encode [97, 65533]))"
  by (rule comparePathStrings_utf8) (simp_all add: wfText_def isHigh_def isLow_def)

text \<open>C23: Sorting the entries of an index, with the cheap string comparison where every path stays below U+D800 and the
  byte-aware one otherwise, gives git's order: the result is the stable sort by the raw path bytes.\<close>

theorem index_order_is_byte_order:
  assumes "\<And>e. e \<in> set es \<Longrightarrow> pathView e"
  shows "jsSort (pathComparatorFor es) es = jsSort (\<lambda>a b. compareBytes (pathBytesOf a) (pathBytesOf b)) es"
  by (rule jsSort_sign) (simp add: pathComparator_bytes [OF assms])

theorem index_order_is_byte_order_witness:
  "jsSort (pathComparatorFor [\<lparr>filePath = [55357, 56832], pathBytes = None\<rparr>, \<lparr>filePath = [65533], pathBytes = Some [255]\<rparr>])
      [\<lparr>filePath = [55357, 56832], pathBytes = None\<rparr>, \<lparr>filePath = [65533], pathBytes = Some [255]\<rparr>]
    = jsSort (\<lambda>a b. compareBytes (pathBytesOf a) (pathBytesOf b))
      [\<lparr>filePath = [55357, 56832], pathBytes = None\<rparr>, \<lparr>filePath = [65533], pathBytes = Some [255]\<rparr>]"
proof (rule index_order_is_byte_order)
  fix e :: indexPath
  assume "e \<in> set [\<lparr>filePath = [55357, 56832], pathBytes = None\<rparr>, \<lparr>filePath = [65533], pathBytes = Some [255]\<rparr>]"
  then show "pathView e"
    by (auto simp: pathView_def wfText_def isHigh_def isLow_def decodePreservingBom_def utf8_decode_def utf8_go.simps
        decodesLosslessly_def encode_def utf8_scalar_def)
qed

end
