(* ===== verification/VerifyPath.thy ===== *)
theory VerifyPath
  imports IndexPaths TreeEntryBytes
begin

text \<open>
  \<open>path/verify-path.ts\<close> and \<open>git-index/path-validator.ts\<close>: which paths may become index entries - no absolute path, no
  empty, \<open>.\<close> or \<open>..\<close> component, no name a file system would take for \<open>.git\<close>, no symbolic link under \<open>.gitmodules\<close>.
\<close>

section \<open>Components\<close>

datatype verifyPathRejection =
    AbsolutePath | EmptySegment | DotSegment | DotdotSegment | DotgitAlias | DotgitNtfsAlias
  | DotgitNtfsStream | DotgitHfsAlias | GitmodulesNotRegular | Backslash

definition DOTGIT :: jsstr where
  "DOTGIT = jslit ''.git''"

definition NTFS_SHORT_NAME :: jsstr where
  "NTFS_SHORT_NAME = jslit ''git~1''"

definition GITMODULES :: jsstr where
  "GITMODULES = jslit ''.gitmodules''"

text \<open>\<open>toLowerCase\<close>. The source only compares its result with ASCII literals, so a unit outside ASCII keeps its value
  here: the only ones whose lower case is not wholly outside ASCII are the Kelvin sign, which gives \<open>k\<close>, and the dotted
  capital I, which gives an \<open>i\<close> and a combining dot.\<close>

definition lowerUnit :: "nat \<Rightarrow> jsstr" where
  "lowerUnit u = (if 65 \<le> u \<and> u \<le> 90 then [u + 32] else if u = 8490 then [107] else if u = 304 then [105, 775] else [u])"

definition toLowerCase :: "jsstr \<Rightarrow> jsstr" where
  "toLowerCase s = concat (map lowerUnit s)"

text \<open>The pattern \<open>TRAILING_DOT_SPACE\<close> replaced by nothing.\<close>

definition stripTrailingDotSpace :: "jsstr \<Rightarrow> jsstr" where
  "stripTrailingDotSpace part = List.rev (dropWhile (\<lambda>u. u = 46 \<or> u = 32) (List.rev part))"

definition IGNORABLE_CODEPOINTS :: "nat set" where
  "IGNORABLE_CODEPOINTS = set [8204..<8208] \<union> set [8234..<8239] \<union> set [8298..<8304] \<union> {65279}"

definition normalizeAliasCandidate :: "jsstr \<Rightarrow> jsstr" where
  "normalizeAliasCandidate part = toLowerCase (stripTrailingDotSpace part)"

definition stripIgnorableCodepoints :: "jsstr \<Rightarrow> jsstr" where
  "stripIgnorableCodepoints part = filter (\<lambda>u. u \<notin> IGNORABLE_CODEPOINTS) part"

definition hasIgnorableCodepoint :: "jsstr \<Rightarrow> bool" where
  "hasIgnorableCodepoint part = list_ex (\<lambda>u. u \<in> IGNORABLE_CODEPOINTS) part"

definition firstNonCharacter :: "jsstr \<Rightarrow> nat" where
  "firstNonCharacter part = length (takeWhile (\<lambda>code. code \<noteq> 65534 \<and> code \<noteq> 65535) part)"

definition hfsCandidate :: "jsstr \<Rightarrow> bytes option \<Rightarrow> jsstr" where
  "hfsCandidate part partBytes =
     (case partBytes of
        None \<Rightarrow> take (firstNonCharacter part) part
      | Some bs \<Rightarrow> decodePreservingBom (subarray bs 0 (gitPickerValidPrefix bs)))"

definition hfsAlias :: "jsstr \<Rightarrow> bytes option \<Rightarrow> jsstr \<Rightarrow> bool" where
  "hfsAlias part partBytes target =
     (let candidate = hfsCandidate part partBytes in
      if candidate = part \<and> \<not> hasIgnorableCodepoint part then False
      else toLowerCase (stripIgnorableCodepoints candidate) = target)"

definition splitAtStream :: "jsstr \<Rightarrow> jsstr \<times> bool" where
  "splitAtStream part =
     (case indexOfUnit part 58 0 of None \<Rightarrow> (part, False) | Some colonIndex \<Rightarrow> (take colonIndex part, True))"

definition matchNtfsPart :: "jsstr \<Rightarrow> verifyPathRejection option" where
  "matchNtfsPart part =
     (let (candidate, hasStream) = splitAtStream part;
          normalized = normalizeAliasCandidate candidate
      in if normalized = DOTGIT then Some (if hasStream then DotgitNtfsStream else DotgitAlias)
         else if normalized = NTFS_SHORT_NAME then Some (if hasStream then DotgitNtfsStream else DotgitNtfsAlias)
         else None)"

definition isObviouslyNotAnAlias :: "jsstr \<Rightarrow> bool" where
  "isObviouslyNotAnAlias component =
     (case component of
        [] \<Rightarrow> False
      | first # _ \<Rightarrow>
          if first = 46 \<or> first = 71 \<or> first = 103 then False
          else \<not> list_ex (\<lambda>code. 127 < code \<or> code = 92) component)"

definition ntfsParts :: "jsstr \<Rightarrow> jsstr list" where
  "ntfsParts component =
     (let parts = splitUnit 92 component in
      if startsWith component [92] then drop 2 parts else parts)"

text \<open>The first rejection of a row of checks.\<close>

fun firstRejection :: "('a \<Rightarrow> verifyPathRejection option) \<Rightarrow> 'a list \<Rightarrow> verifyPathRejection option" where
  "firstRejection f [] = None"
| "firstRejection f (x # xs) = (case f x of None \<Rightarrow> firstRejection f xs | Some r \<Rightarrow> Some r)"

definition matchAliasComponent :: "jsstr \<Rightarrow> bytes option \<Rightarrow> verifyPathRejection option" where
  "matchAliasComponent component componentBytes =
     (if isObviouslyNotAnAlias component then None
      else case firstRejection matchNtfsPart (ntfsParts component) of
        Some r \<Rightarrow> Some r
      | None \<Rightarrow> if hfsAlias component componentBytes DOTGIT then Some DotgitHfsAlias else None)"

definition isDotGitAlias :: "jsstr \<Rightarrow> bool" where
  "isDotGitAlias component = (matchAliasComponent component None \<noteq> None)"

definition isDotGitWalkEntry :: "jsstr \<Rightarrow> bool" where
  "isDotGitWalkEntry name = (toLowerCase name = DOTGIT)"

definition matchShape :: "jsstr \<Rightarrow> verifyPathRejection option" where
  "matchShape component =
     (if component = [] then Some EmptySegment
      else if component = jslit ''.'' then Some DotSegment
      else if component = jslit ''..'' then Some DotdotSegment
      else None)"

section \<open>Paths\<close>

text \<open>The bytes of the component at an index, when there are any.\<close>

definition bytesAt :: "bytes list option \<Rightarrow> nat \<Rightarrow> bytes option" where
  "bytesAt bs index =
     (case bs of None \<Rightarrow> None | Some parts \<Rightarrow> if index < length parts then Some (parts ! index) else None)"

definition findComponentRejection :: "jsstr list \<Rightarrow> bytes list option \<Rightarrow> verifyPathRejection option" where
  "findComponentRejection components bs =
     firstRejection
       (\<lambda>(index, component).
          case matchShape component of Some r \<Rightarrow> Some r | None \<Rightarrow> matchAliasComponent component (bytesAt bs index))
       (enumerate 0 components)"

definition opensComponent :: "bytes \<Rightarrow> nat \<Rightarrow> bool" where
  "opensComponent bs at = (at = 0 \<or> bs ! (at - 1) = 47)"

definition isNtfsRetestPoint :: "bytes \<Rightarrow> nat \<Rightarrow> bool" where
  "isNtfsRetestPoint bs at = (bs ! at = 47 \<or> bs ! at = 92 \<and> \<not> opensComponent bs at)"

definition startsNtfsGitmodulesAlias :: "bytes \<Rightarrow> nat \<Rightarrow> bool" where
  "startsNtfsGitmodulesAlias bs start = matchesNtfsDotgitAlias bs start (length bs) Gitmodules"

definition hasNtfsGitmodulesAlias :: "bytes \<Rightarrow> bool" where
  "hasNtfsGitmodulesAlias bs =
     (startsNtfsGitmodulesAlias bs 0 \<or>
      list_ex (\<lambda>at. isNtfsRetestPoint bs at \<and> startsNtfsGitmodulesAlias bs (at + 1)) [0..<length bs])"

definition namesGitmodulesComponent :: "jsstr \<Rightarrow> bytes option \<Rightarrow> bool" where
  "namesGitmodulesComponent component componentBytes =
     (toLowerCase component = GITMODULES \<or> hfsAlias component componentBytes GITMODULES)"

definition hasGitmodulesSymlinkAlias :: "bytes \<Rightarrow> jsstr list \<Rightarrow> bytes list option \<Rightarrow> bool" where
  "hasGitmodulesSymlinkAlias raw components bs =
     (hasNtfsGitmodulesAlias raw \<or>
      list_ex (\<lambda>(index, component). namesGitmodulesComponent component (bytesAt bs index)) (enumerate 0 components))"

definition verifyPath :: "jsstr \<Rightarrow> fileMode \<Rightarrow> bytes option \<Rightarrow> verifyPathRejection option" where
  "verifyPath path mode raw =
     (if startsWith path [47] then Some AbsolutePath
      else
        let components = splitUnit 47 path;
            bs = map_option splitAtSlash raw
        in case findComponentRejection components bs of
          Some r \<Rightarrow> Some r
        | None \<Rightarrow>
            if mode \<noteq> SYMLINK then None
            else if hasGitmodulesSymlinkAlias (case raw of None \<Rightarrow> encode path | Some b \<Rightarrow> b) components bs
            then Some GitmodulesNotRegular else None)"

definition verifyWindowsPath :: "jsstr \<Rightarrow> fileMode \<Rightarrow> bytes option \<Rightarrow> verifyPathRejection option" where
  "verifyWindowsPath path mode raw =
     (if 92 \<in> set path then Some Backslash else verifyPath path mode raw)"

section \<open>The rules of an index write\<close>

definition NO_PARSER_OFFSET :: int where
  "NO_PARSER_OFFSET = - 1"

definition reasonFor :: "jsstr \<Rightarrow> string" where
  "reasonFor segment =
     (if segment = [] then ''empty segment rejected''
      else if segment = jslit ''.'' then [CHR 0x27] @ ''.'' @ [CHR 0x27] @ '' segment rejected''
      else [CHR 0x27] @ ''..'' @ [CHR 0x27] @ '' segment rejected'')"

definition quoted :: "string \<Rightarrow> string" where
  "quoted s = [CHR 0x27] @ s @ [CHR 0x27]"

primrec VERIFY_PATH_REASON :: "verifyPathRejection \<Rightarrow> string" where
  "VERIFY_PATH_REASON AbsolutePath = ''absolute path rejected''"
| "VERIFY_PATH_REASON EmptySegment = reasonFor []"
| "VERIFY_PATH_REASON DotSegment = reasonFor (jslit ''.'')"
| "VERIFY_PATH_REASON DotdotSegment = reasonFor (jslit ''..'')"
| "VERIFY_PATH_REASON DotgitAlias = quoted ''.git'' @ '' component rejected''"
| "VERIFY_PATH_REASON DotgitNtfsAlias = quoted ''git~1'' @ '' NTFS short name rejected''"
| "VERIFY_PATH_REASON DotgitNtfsStream = quoted ''.git'' @ '' NTFS alternate data stream rejected''"
| "VERIFY_PATH_REASON DotgitHfsAlias = quoted ''.git'' @ '' HFS+ ignorable-codepoint alias rejected''"
| "VERIFY_PATH_REASON GitmodulesNotRegular = quoted ''.gitmodules'' @ '' must not be a symlink''"
| "VERIFY_PATH_REASON Backslash = ''backslash rejected under Windows path syntax''"

definition unsafeReason :: "jsstr \<Rightarrow> string option" where
  "unsafeReason path = (if 0 \<in> set path then Some ''NUL byte rejected'' else None)"

type_synonym pathVerifier = "jsstr \<Rightarrow> fileMode \<Rightarrow> bytes option \<Rightarrow> verifyPathRejection option"

definition rejectionOf :: "pathVerifier \<Rightarrow> jsstr \<Rightarrow> fileMode \<Rightarrow> bytes option \<Rightarrow> string option" where
  "rejectionOf verify path mode raw =
     (case unsafeReason path of
        Some r \<Rightarrow> Some r
      | None \<Rightarrow> map_option VERIFY_PATH_REASON (verify path mode raw))"

definition validateIndexPathBy ::
    "pathVerifier \<Rightarrow> jsstr \<Rightarrow> int \<Rightarrow> fileMode \<Rightarrow> bytes option \<Rightarrow> tsgit_error + unit" where
  "validateIndexPathBy verify path at mode raw =
     (case rejectionOf verify path mode raw of
        None \<Rightarrow> Inr () | Some r \<Rightarrow> Inl (InvalidIndexEntry at (Reason r [])))"

definition validateTreePathBy :: "pathVerifier \<Rightarrow> jsstr \<Rightarrow> fileMode \<Rightarrow> tsgit_error + unit" where
  "validateTreePathBy verify path mode =
     (let view = indexPathOfEscaped path in
      validateIndexPathBy verify (filePath view) NO_PARSER_OFFSET mode (pathBytes view))"

definition isAdmissibleTreePathBy :: "pathVerifier \<Rightarrow> jsstr \<Rightarrow> fileMode \<Rightarrow> bool" where
  "isAdmissibleTreePathBy verify path mode =
     (let view = indexPathOfEscaped path in
      rejectionOf verify (filePath view) mode (pathBytes view) = None)"

definition validateIndexPath :: "jsstr \<Rightarrow> int \<Rightarrow> fileMode \<Rightarrow> bytes option \<Rightarrow> tsgit_error + unit" where
  "validateIndexPath = validateIndexPathBy verifyPath"

definition validateTreePath :: "jsstr \<Rightarrow> fileMode \<Rightarrow> tsgit_error + unit" where
  "validateTreePath = validateTreePathBy verifyPath"

section \<open>Aliases\<close>

lemma splitAtStream_fst: "fst (splitAtStream part) = takeWhile (\<lambda>u. u \<noteq> 58) part"
proof (cases "indexOfUnit part 58 0")
  case None
  then have "58 \<notin> set part" using indexOfUnit_None [of part 58 0] by (auto simp: in_set_conv_nth)
  then have "takeWhile (\<lambda>u. u \<noteq> 58) part = part" by (subst takeWhile_eq_all_conv) auto
  then show ?thesis using None by (simp add: splitAtStream_def del: takeWhile_eq_all_conv)
next
  case (Some k)
  then have k: "k < length part" "part ! k = 58" "\<forall>j < k. part ! j \<noteq> 58" using indexOfUnit_Some [of part 58 0 k] by auto
  then have "takeWhile (\<lambda>u. u \<noteq> 58) part = take k part" by (intro takeWhile_eq_take_P_nth) auto
  then show ?thesis using Some by (simp add: splitAtStream_def)
qed

definition plainAlias :: "jsstr \<Rightarrow> bool" where
  "plainAlias part \<longleftrightarrow> normalizeAliasCandidate (takeWhile (\<lambda>u. u \<noteq> 58) part) \<in> {DOTGIT, NTFS_SHORT_NAME}"

lemma matchNtfsPart_None: "matchNtfsPart part = None \<longleftrightarrow> \<not> plainAlias part"
  using splitAtStream_fst [of part] by (cases "splitAtStream part") (simp add: matchNtfsPart_def plainAlias_def Let_def)

lemma firstRejection_None: "firstRejection f xs = None \<longleftrightarrow> (\<forall>x \<in> set xs. f x = None)"
  by (induction xs) (auto split: option.splits)

lemma firstRejection_Some: "firstRejection f xs = Some r \<Longrightarrow> \<exists>x \<in> set xs. f x = Some r"
  by (induction xs) (auto split: option.splits)

lemma strip_prefix: "\<exists>rest. s = stripTrailingDotSpace s @ rest"
proof -
  have "List.rev s = takeWhile (\<lambda>u. u = 46 \<or> u = 32) (List.rev s) @ dropWhile (\<lambda>u. u = 46 \<or> u = 32) (List.rev s)" by simp
  then have "s = List.rev (dropWhile (\<lambda>u. u = 46 \<or> u = 32) (List.rev s)) @ List.rev (takeWhile (\<lambda>u. u = 46 \<or> u = 32) (List.rev s))"
    by (metis rev_append rev_rev_ident)
  then show ?thesis unfolding stripTrailingDotSpace_def by blast
qed

lemma lowerUnit_nonempty: "lowerUnit u \<noteq> []"
  by (simp add: lowerUnit_def)

lemma toLowerCase_first:
  assumes "toLowerCase s = x # xs"
  obtains u us where "s = u # us" "hd (lowerUnit u) = x"
  using assms lowerUnit_nonempty [of "hd s"] that
  by (cases s; cases "lowerUnit (hd s)") (auto simp: toLowerCase_def)

lemma lowerUnit_ascii: "u \<le> 127 \<Longrightarrow> hd (lowerUnit u) = (if 65 \<le> u \<and> u \<le> 90 then u + 32 else u)"
  by (simp add: lowerUnit_def)

lemma fast_path_sound:
  assumes "isObviouslyNotAnAlias c"
  shows "ntfsParts c = [c]" "\<not> plainAlias c" "\<not> hasIgnorableCodepoint c" "firstNonCharacter c = length c"
    "toLowerCase c \<noteq> DOTGIT"
proof -
  obtain f rest where c: "c = f # rest" and f: "f \<noteq> 46" "f \<noteq> 71" "f \<noteq> 103"
    and a: "\<forall>u \<in> set c. u \<le> 127 \<and> u \<noteq> 92"
    using assms by (cases c) (auto simp: isObviouslyNotAnAlias_def list_ex_iff not_less split: if_splits)
  have "92 \<notin> set c" "\<not> startsWith c [92]" using a c by auto
  then show "ntfsParts c = [c]" by (simp add: ntfsParts_def splitUnit_single)
  have head: False if low: "toLowerCase p = x # xs" and p: "c = p @ q" and x: "x = 46 \<or> x = 103" for p q x xs
  proof -
    obtain u us where u: "p = u # us" "hd (lowerUnit u) = x" using low by (rule toLowerCase_first)
    then have "u = f" "f \<le> 127" using c a p by auto
    then show False using u(2) x f lowerUnit_ascii [of f] by (auto split: if_splits)
  qed
  have dg: "DOTGIT = 46 # jslit ''git''" "NTFS_SHORT_NAME = 103 # jslit ''it~1''"
    by (simp_all add: DOTGIT_def NTFS_SHORT_NAME_def jslit_def)
  show "\<not> plainAlias c"
  proof
    assume pa: "plainAlias c"
    let ?t = "takeWhile (\<lambda>u. u \<noteq> 58) c"
    obtain r1 where "?t = stripTrailingDotSpace ?t @ r1" using strip_prefix by blast
    then have "c = stripTrailingDotSpace ?t @ r1 @ dropWhile (\<lambda>u. u \<noteq> 58) c"
      by (metis append.assoc takeWhile_dropWhile_id)
    moreover have "toLowerCase (stripTrailingDotSpace ?t) = 46 # jslit ''git'' \<or>
        toLowerCase (stripTrailingDotSpace ?t) = 103 # jslit ''it~1''"
      using pa unfolding plainAlias_def normalizeAliasCandidate_def dg by simp
    ultimately show False using head by blast
  qed
  show "toLowerCase c \<noteq> DOTGIT" using head [of c 46 _ "[]"] dg by auto
  show "\<not> hasIgnorableCodepoint c" using a by (fastforce simp: hasIgnorableCodepoint_def list_ex_iff IGNORABLE_CODEPOINTS_def)
  have "takeWhile (\<lambda>code. code \<noteq> 65534 \<and> code \<noteq> 65535) c = c" using a by (subst takeWhile_eq_all_conv) auto
  then show "firstNonCharacter c = length c" by (simp add: firstNonCharacter_def del: takeWhile_eq_all_conv)
qed

text \<open>What the HFS+ check compares for a component known only by its text.\<close>

definition hfsFold :: "jsstr \<Rightarrow> jsstr" where
  "hfsFold c = toLowerCase (stripIgnorableCodepoints (takeWhile (\<lambda>u. u \<noteq> 65534 \<and> u \<noteq> 65535) c))"

lemma hfsCandidate_text: "hfsCandidate c None = takeWhile (\<lambda>u. u \<noteq> 65534 \<and> u \<noteq> 65535) c"
  by (simp add: hfsCandidate_def firstNonCharacter_def flip: takeWhile_eq_take)

lemma stripIgnorable_id: "\<not> hasIgnorableCodepoint c \<Longrightarrow> stripIgnorableCodepoints c = c"
  by (auto simp: hasIgnorableCodepoint_def stripIgnorableCodepoints_def list_ex_iff intro: filter_True)

lemma lower_dotgit_plain:
  assumes "toLowerCase c = DOTGIT"
  shows "ntfsParts c = [c] \<and> plainAlias c"
proof -
  have low: "lowerUnit u \<noteq> []" "92 \<in> set (lowerUnit u) \<longleftrightarrow> u = 92" "58 \<in> set (lowerUnit u) \<longleftrightarrow> u = 58" for u
    by (auto simp: lowerUnit_def)
  have "92 \<notin> set (toLowerCase c)" "58 \<notin> set (toLowerCase c)" unfolding assms by (simp_all add: DOTGIT_def jslit_def)
  then have no: "92 \<notin> set c" "58 \<notin> set c" using low by (auto simp: toLowerCase_def)
  have "ntfsParts c = [c]" using no(1) by (cases c) (auto simp: ntfsParts_def splitUnit_single)
  moreover have "takeWhile (\<lambda>u. u \<noteq> 58) c = c" using no(2) by (subst takeWhile_eq_all_conv) auto
  moreover have "stripTrailingDotSpace c = c"
  proof (cases c rule: rev_cases)
    case Nil
    then show ?thesis by (simp add: stripTrailingDotSpace_def)
  next
    case (snoc us u)
    have "last (lowerUnit u) = 116"
    proof -
      have "toLowerCase c = toLowerCase us @ lowerUnit u" using snoc by (simp add: toLowerCase_def)
      then have "last (lowerUnit u) = last DOTGIT" using assms low(1) by (metis last_appendR)
      then show ?thesis by (simp add: DOTGIT_def jslit_def)
    qed
    then have "u \<noteq> 46" "u \<noteq> 32" by (auto simp: lowerUnit_def)
    then show ?thesis using snoc by (simp add: stripTrailingDotSpace_def)
  qed
  ultimately show ?thesis using assms by (simp add: plainAlias_def normalizeAliasCandidate_def del: takeWhile_eq_all_conv)
qed

lemma matchAlias_exact:
  "matchAliasComponent c None = None \<longleftrightarrow> (\<forall>part \<in> set (ntfsParts c). \<not> plainAlias part) \<and> hfsFold c \<noteq> DOTGIT"
proof (cases "isObviouslyNotAnAlias c")
  case True
  note f = fast_path_sound [OF True]
  have "takeWhile (\<lambda>code. code \<noteq> 65534 \<and> code \<noteq> 65535) c = c"
    using hfsCandidate_text [of c] f(4) by (simp add: hfsCandidate_def)
  then have "hfsFold c = toLowerCase c" using stripIgnorable_id [OF f(3)] by (simp add: hfsFold_def del: takeWhile_eq_all_conv)
  then show ?thesis using f True by (simp add: matchAliasComponent_def)
next
  case False
  have h: "hfsAlias c None DOTGIT \<longleftrightarrow> hfsFold c = DOTGIT" if "\<forall>part \<in> set (ntfsParts c). \<not> plainAlias part"
  proof (cases "hfsCandidate c None = c \<and> \<not> hasIgnorableCodepoint c")
    case True
    then have "hfsFold c = toLowerCase c"
      using hfsCandidate_text [of c] stripIgnorable_id [of c] by (simp add: hfsFold_def del: takeWhile_eq_all_conv)
    then show ?thesis using True that lower_dotgit_plain [of c] by (auto simp: hfsAlias_def Let_def)
  next
    case False
    then show ?thesis using hfsCandidate_text [of c] by (auto simp: hfsAlias_def hfsFold_def Let_def)
  qed
  show ?thesis
    using False h firstRejection_None [of matchNtfsPart "ntfsParts c"] matchNtfsPart_None
    by (auto simp: matchAliasComponent_def split: option.splits)
qed

lemma enumerate_snd: "(\<forall>(i, c) \<in> set (enumerate n cs). P c) \<longleftrightarrow> (\<forall>c \<in> set cs. P c)"
  by (induction cs arbitrary: n) auto

lemma matchShape_None: "matchShape c = None \<longleftrightarrow> c \<noteq> [] \<and> c \<noteq> jslit ''.'' \<and> c \<noteq> jslit ''..''"
  by (simp add: matchShape_def)

lemma components_exact:
  "findComponentRejection cs None = None \<longleftrightarrow>
    (\<forall>c \<in> set cs. matchShape c = None \<and> matchAliasComponent c None = None)"
  unfolding findComponentRejection_def firstRejection_None
  using enumerate_snd [of 0 cs "\<lambda>c. matchShape c = None \<and> matchAliasComponent c None = None"]
  by (auto simp: bytesAt_def split: option.splits)

section \<open>Properties\<close>



end
