(* ===== verification/GitIndex.thy ===== *)
theory GitIndex
  imports VerifyPath
begin

text \<open>
  \<open>git-index/index-entry.ts\<close>, \<open>git-index/index-writer.ts\<close> and \<open>git-index/index-parser.ts\<close>: the entries of the index and
  its on-disk form, versions 2 and 3 (the modification time \<open>readIndex\<close> adds is not part of it). Offsets are natural numbers, so an entry is taken to be shorter than 2 GiB, where
  the source's \<open>& ~7\<close> would turn negative.
\<close>

section \<open>Entries\<close>

record indexEntryFlags =
  assumeValid :: bool
  stage :: nat
  skipWorktree :: bool
  intentToAdd :: bool

definition STAGE0_FLAGS :: indexEntryFlags where
  "STAGE0_FLAGS = \<lparr>assumeValid = False, stage = 0, skipWorktree = False, intentToAdd = False\<rparr>"

record statData =
  ctimeSeconds :: nat
  ctimeNanoseconds :: nat
  mtimeSeconds :: nat
  mtimeNanoseconds :: nat
  dev :: nat
  ino :: nat
  statMode :: fileMode
  uid :: nat
  gid :: nat
  fileSize :: nat

text \<open>An entry is an \<open>IndexPath\<close> with the ten fields of a \<open>StatData\<close>, kept as one.\<close>

record indexEntry = indexPath +
  entryStat :: statData
  indexId :: objectId
  indexFlags :: indexEntryFlags

record indexExtension =
  signature :: jsstr
  extensionData :: bytes

record gitIndex =
  indexVersion :: nat
  indexEntries :: "indexEntry list"
  extensions :: "indexExtension list"
  trailerSha :: bytes

definition isStatClean :: "indexEntry \<Rightarrow> statData \<Rightarrow> bool" where
  "isStatClean entry stat =
     (ctimeSeconds (entryStat entry) = ctimeSeconds stat \<and>
      ctimeNanoseconds (entryStat entry) = ctimeNanoseconds stat \<and>
      mtimeSeconds (entryStat entry) = mtimeSeconds stat \<and>
      mtimeNanoseconds (entryStat entry) = mtimeNanoseconds stat \<and>
      dev (entryStat entry) = dev stat \<and>
      ino (entryStat entry) = ino stat \<and>
      statMode (entryStat entry) = statMode stat \<and>
      uid (entryStat entry) = uid stat \<and>
      gid (entryStat entry) = gid stat \<and>
      fileSize (entryStat entry) = fileSize stat)"

definition skipWorktreeEntry :: "indexPath \<Rightarrow> objectId \<Rightarrow> fileMode \<Rightarrow> indexEntry" where
  "skipWorktreeEntry p oid m =
     \<lparr>filePath = filePath p, pathBytes = pathBytes p,
      entryStat = \<lparr>ctimeSeconds = 0, ctimeNanoseconds = 0, mtimeSeconds = 0, mtimeNanoseconds = 0,
        dev = 0, ino = 0, statMode = m, uid = 0, gid = 0, fileSize = 0\<rparr>,
      indexId = oid, indexFlags = STAGE0_FLAGS\<lparr>skipWorktree := True\<rparr>\<rparr>"

definition withPath :: "indexEntry \<Rightarrow> indexPath \<Rightarrow> indexEntry" where
  "withPath entry p =
     \<lparr>filePath = filePath p, pathBytes = pathBytes p, entryStat = entryStat entry,
      indexId = indexId entry, indexFlags = indexFlags entry\<rparr>"

section \<open>Writing\<close>

definition DIRC_SIGNATURE :: nat where
  "DIRC_SIGNATURE = 1145655875"

definition STAT_FIELDS_SIZE :: nat where
  "STAT_FIELDS_SIZE = 40"

definition FLAGS_WORD_SIZE :: nat where
  "FLAGS_WORD_SIZE = 2"

definition entryHeaderSize :: "nat \<Rightarrow> nat" where
  "entryHeaderSize dl = STAT_FIELDS_SIZE + dl + FLAGS_WORD_SIZE"

definition flagsOffset :: "nat \<Rightarrow> nat" where
  "flagsOffset dl = STAT_FIELDS_SIZE + dl"

definition align8 :: "nat \<Rightarrow> nat" where
  "align8 n = nat (js_and (int n) (- 8))"

text \<open>\<open>Number.parseInt(mode, 8)\<close>.\<close>

definition modeNumber :: "fileMode \<Rightarrow> nat" where
  "modeNumber m = foldl (\<lambda>n c. n * 8 + (c - 48)) 0 (FILE_MODE m)"

definition isExtended :: "indexEntry \<Rightarrow> bool" where
  "isExtended entry = (skipWorktree (indexFlags entry) \<or> intentToAdd (indexFlags entry))"

definition statFields :: "statData \<Rightarrow> nat list" where
  "statFields s =
     [ctimeSeconds s, ctimeNanoseconds s, mtimeSeconds s, mtimeNanoseconds s, dev s, ino s,
      modeNumber (statMode s), uid s, gid s, fileSize s]"

definition flagsWord :: "indexEntry \<Rightarrow> nat \<Rightarrow> bool \<Rightarrow> int" where
  "flagsWord entry nameLength extended =
     js_or (js_or (js_or (if assumeValid (indexFlags entry) then 32768 else 0) (if extended then 16384 else 0))
       (js_shl (int (stage (indexFlags entry))) 12)) (int nameLength)"

definition extendedWord :: "indexEntry \<Rightarrow> int" where
  "extendedWord entry =
     js_or (if skipWorktree (indexFlags entry) then 16384 else 0) (if intentToAdd (indexFlags entry) then 8192 else 0)"

definition writeEntry :: "bytes \<Rightarrow> nat \<Rightarrow> indexEntry \<Rightarrow> bytes \<Rightarrow> bool \<Rightarrow> nat \<Rightarrow> tsgit_error + bytes" where
  "writeEntry buf at entry raw extended dl =
     bindE (foldE (\<lambda>(i, v) b. setUint32 b (at + 4 * i) v) (enumerate 0 (statFields (entryStat entry))) buf) (\<lambda>buf.
     bindE (hexToBytes (indexId entry)) (\<lambda>shaBytes.
     bindE (setBytes buf shaBytes (at + 40)) (\<lambda>buf.
     bindE (setUint16 buf (at + flagsOffset dl) (flagsWord entry (min (length raw) 4095) extended)) (\<lambda>buf.
     bindE (if extended then setUint16 buf (at + entryHeaderSize dl) (extendedWord entry) else Inr buf) (\<lambda>buf.
     setBytes buf raw (at + entryHeaderSize dl + (if extended then 2 else 0)))))))"

definition paddedLength :: "indexEntry \<Rightarrow> nat \<Rightarrow> nat" where
  "paddedLength entry dl =
     align8 (entryHeaderSize dl + (if isExtended entry then 2 else 0) + length (pathBytesOf entry) + 8)"

definition extensionLength :: "indexExtension \<Rightarrow> nat" where
  "extensionLength ext = 8 + length (extensionData ext)"

definition writeExtension :: "bytes \<Rightarrow> nat \<Rightarrow> indexExtension \<Rightarrow> tsgit_error + bytes" where
  "writeExtension buf at ext =
     bindE (setBytes buf (encode (signature ext)) at) (\<lambda>buf.
     bindE (setUint32 buf (at + 4) (length (extensionData ext))) (\<lambda>buf.
     setBytes buf (extensionData ext) (at + 8)))"

definition serializeIndex :: "gitIndex \<Rightarrow> nat \<Rightarrow> tsgit_error + bytes" where
  "serializeIndex index dl =
     (let sortedEntries = jsSort (pathComparatorFor (indexEntries index)) (indexEntries index);
          totalSize = 12 + sum_list (map (\<lambda>e. paddedLength e dl) sortedEntries)
            + sum_list (map extensionLength (extensions index));
          result = replicate totalSize 0;
          version = (if list_ex isExtended sortedEntries then 3 else 2)
      in bindE (setUint32 result 0 DIRC_SIGNATURE) (\<lambda>result.
         bindE (setUint32 result 4 version) (\<lambda>result.
         bindE (setUint32 result 8 (length sortedEntries)) (\<lambda>result.
         bindE (foldE (\<lambda>entry (buf, at).
             bindE (writeEntry buf at entry (pathBytesOf entry) (isExtended entry) dl) (\<lambda>buf.
             Inr (buf, at + paddedLength entry dl))) sortedEntries (result, 12)) (\<lambda>(result, at).
         bindE (foldE (\<lambda>ext (buf, at).
             bindE (writeExtension buf at ext) (\<lambda>buf. Inr (buf, at + extensionLength ext)))
           (extensions index) (result, at)) (\<lambda>(result, at). Inr result))))))"

section \<open>Reading\<close>

definition parseFlags :: "int \<Rightarrow> int \<Rightarrow> indexEntryFlags" where
  "parseFlags raw extRaw =
     \<lparr>assumeValid = (js_and raw 32768 \<noteq> 0),
      stage = nat (js_and (js_ushr raw 12) 3),
      skipWorktree = (js_and extRaw 16384 \<noteq> 0),
      intentToAdd = (js_and extRaw 8192 \<noteq> 0)\<rparr>"

definition findNul :: "bytes \<Rightarrow> nat \<Rightarrow> nat option" where
  "findNul bs fromIndex = indexOfUnit bs 0 fromIndex"

definition decodeEntryFlags :: "bytes \<Rightarrow> nat \<Rightarrow> nat \<Rightarrow> nat \<Rightarrow> tsgit_error + (indexEntryFlags \<times> nat)" where
  "decodeEntryFlags bs at version dl =
     bindE (getUint16 bs (at + flagsOffset dl)) (\<lambda>flagsRaw.
     let extended = (js_and flagsRaw 16384 \<noteq> 0);
         extendedSize = (if extended then 2 else 0)
     in if extended \<and> version \<noteq> 3
        then Inl (InvalidIndexEntry (int at) (Reason ''extended flag requires index v3'' []))
        else if length bs < at + entryHeaderSize dl + extendedSize + dl
        then Inl (InvalidIndexEntry (int at) (Reason ''truncated extended flags'' []))
        else bindE (if extended then getUint16 bs (at + entryHeaderSize dl) else Inr 0) (\<lambda>extRaw.
             Inr (parseFlags flagsRaw extRaw, extendedSize)))"

definition lossyPathBytes :: "jsstr \<Rightarrow> bytes \<Rightarrow> bytes option" where
  "lossyPathBytes path rawPath = (if decodesLosslessly path rawPath then None else Some rawPath)"

text \<open>One turn of the loop over the entries: the entry at an offset, and the offset of the next.\<close>

definition parseEntry :: "bytes \<Rightarrow> nat \<Rightarrow> nat \<Rightarrow> nat \<Rightarrow> tsgit_error + (indexEntry \<times> nat)" where
  "parseEntry bs version dl entryStart =
     (if length bs < entryStart + entryHeaderSize dl + dl
      then Inl (InvalidIndexEntry (int entryStart) (Reason ''truncated entry'' []))
      else
        bindE (mapE (\<lambda>i. getUint32 bs (entryStart + 4 * i)) [0..<10]) (\<lambda>f.
        bindE (getUint16 bs (entryStart + flagsOffset dl)) (\<lambda>flagsRaw.
        bindE (decodeEntryFlags bs entryStart version dl) (\<lambda>(flags, extendedSize).
        bindE (normalizeFileMode (toStringRadix 8 (f ! 6))) (\<lambda>mode.
        let start = entryStart + entryHeaderSize dl + extendedSize in
        case findNul bs start of
          None \<Rightarrow> Inl (InvalidIndexEntry (int entryStart) (Reason ''missing NUL terminator'' []))
        | Some nulEnd \<Rightarrow>
            let nameLength = nat (js_and flagsRaw 4095);
                pathEnd = (if nameLength = 4095 then nulEnd else start + nameLength);
                rawPath = subarray bs start pathEnd;
                path = decodePreservingBom rawPath;
                raw = lossyPathBytes path rawPath
            in bindE (validateIndexPath path (int entryStart) mode raw) (\<lambda>_.
               bindE (FilePath_from path) (\<lambda>path.
               Inr (\<lparr>filePath = path, pathBytes = raw,
                     entryStat = \<lparr>ctimeSeconds = f ! 0, ctimeNanoseconds = f ! 1, mtimeSeconds = f ! 2,
                       mtimeNanoseconds = f ! 3, dev = f ! 4, ino = f ! 5, statMode = mode,
                       uid = f ! 7, gid = f ! 8, fileSize = f ! 9\<rparr>,
                     indexId = bytesToHex (subarray bs (entryStart + 40) (entryStart + 40 + dl)),
                     indexFlags = flags\<rparr>,
                    entryStart + align8 (nulEnd + 1 - entryStart + 7)))))))))"

primrec parseEntries :: "bytes \<Rightarrow> nat \<Rightarrow> nat \<Rightarrow> nat \<Rightarrow> nat \<Rightarrow> tsgit_error + (indexEntry list \<times> nat)" where
  "parseEntries bs version dl 0 at = Inr ([], at)"
| "parseEntries bs version dl (Suc n) at =
     bindE (parseEntry bs version dl at) (\<lambda>(entry, at').
     bindE (parseEntries bs version dl n at') (\<lambda>(entries, e). Inr (entry # entries, e)))"

function parseExtensions :: "bytes \<Rightarrow> nat \<Rightarrow> nat \<Rightarrow> tsgit_error + indexExtension list" where
  "parseExtensions bs at trailerSize =
     (if at + 8 + trailerSize \<le> length bs then
        let sig = decode (subarray bs at (at + 4)) in
        bindE (getUint32 bs (at + 4)) (\<lambda>n.
        if length bs < at + 8 + n + trailerSize
        then Inl (InvalidIndexEntry (int at) (Reason ''extension size exceeds remaining bytes'' []))
        else if (case sig of [] \<Rightarrow> False | firstChar # _ \<Rightarrow> 97 \<le> firstChar \<and> firstChar \<le> 122)
        then Inl (InvalidIndexEntry (int at)
               (Reason (''mandatory extension '' @ quoted ''#'' @ '' not supported'')
                 (map (\<lambda>u. if 32 \<le> u \<and> u \<le> 126 then int u else 63) sig)))
        else bindE (parseExtensions bs (at + 8 + n) trailerSize) (\<lambda>rest.
             Inr (\<lparr>signature = sig, extensionData = subarray bs (at + 8) (at + 8 + n)\<rparr> # rest)))
      else Inr [])"
  by pat_completeness auto
termination
  by (relation "measure (\<lambda>(bs, at, t). length bs - at)") auto

declare parseExtensions.simps [simp del]

definition parseIndex :: "bytes \<Rightarrow> nat \<Rightarrow> tsgit_error + gitIndex" where
  "parseIndex bs dl =
     (if length bs < 12 then Inl (InvalidIndexHeader (Reason ''truncated header'' []))
      else
        bindE (getUint32 bs 0) (\<lambda>sig.
        if sig \<noteq> DIRC_SIGNATURE then Inl (InvalidIndexHeader (Reason ''invalid signature: expected DIRC'' []))
        else bindE (getUint32 bs 4) (\<lambda>version.
        if version \<noteq> 2 \<and> version \<noteq> 3
        then Inl (InvalidIndexHeader (Reason ''unsupported version: #'' [int version]))
        else bindE (getUint32 bs 8) (\<lambda>entryCount.
        if int (length bs) - 12 - int dl < int (entryCount * entryHeaderSize dl)
        then Inl (InvalidIndexHeader (Reason ''entry count # exceeds file capacity'' [int entryCount]))
        else bindE (parseEntries bs version dl entryCount 12) (\<lambda>(entries, at).
        bindE (parseExtensions bs at dl) (\<lambda>exts.
        Inr \<lparr>indexVersion = version, indexEntries = entries, extensions = exts,
             trailerSha = drop (length bs - dl) bs\<rparr>))))))"

end
