(* ===== verification/IndexProofs.thy ===== *)
theory IndexProofs
  imports GitIndex
begin

text \<open>
  Correctness of the index format: the bytes \<open>serializeIndex\<close> lays out, \<open>parseIndex\<close> reading them back, and what the parser
  guarantees about bytes it did not write.
\<close>

section \<open>Words and alignment\<close>

lemma and_not_7: "x AND - 8 = x - x mod (8 :: int)"
proof -
  have b: "bit (7 :: int) k \<longleftrightarrow> k < 3" for k
    using bit_mask_iff [of 3 k, where 'a = int] by (simp add: mask_eq_exp_minus_1)
  have "x AND - 8 = push_bit 3 (drop_bit 3 x)"
    by (rule bit_eqI) (auto simp: b bit_and_iff bit_push_bit_iff bit_drop_bit_eq bit_minus_iff)
  also have "\<dots> = x - x mod 8"
    by (simp add: push_bit_eq_mult drop_bit_eq_div minus_mod_eq_div_mult)
  finally show ?thesis .
qed

lemma align8_eq: "n < 2147483648 \<Longrightarrow> align8 n = n - n mod 8"
proof -
  assume n: "n < 2147483648"
  have "js_and (int n) (- 8) = toInt32 (int n AND - 8)"
    using n by (simp add: js_and_def toInt32_nonneg toInt32_id)
  also have "\<dots> = int (n - n mod 8)"
  proof -
    have "int n - int n mod 8 = int (n - n mod 8)" by (simp add: of_nat_diff zmod_int)
    then show ?thesis using n toInt32_nonneg [of "int (n - n mod 8)"] by (simp add: and_not_7)
  qed
  finally show ?thesis by (simp add: align8_def)
qed

lemma length_u16 [simp]: "length (u16_bytes n) = 2"
  by (simp add: u16_bytes_def)

lemma getUint16_u16:
  assumes "at = length pre"
  shows "getUint16 (pre @ u16_bytes n @ post) at = Inr (n mod 65536)"
proof -
  have "n mod 65536 = n div 256 mod 256 * 256 + n mod 256"
    using zmod_zmult2_eq [of 256 n 256] by simp
  then show ?thesis using assms by (simp add: getUint16_def u16_bytes_def nth_append u8_toByte)
qed

section \<open>The image of an index\<close>

lemma setBytes_next:
  assumes "at = length pre" "length c \<le> n"
  shows "setBytes (pre @ replicate n 0) c at = Inr ((pre @ c) @ replicate (n - length c) 0)"
proof -
  have "replicate n (0 :: byte) = replicate (length c) 0 @ replicate (n - length c) 0"
    using assms(2) by (simp flip: replicate_add)
  then show ?thesis using setBytes_zeros [of at pre "replicate (length c) 0" c "replicate (n - length c) 0"] assms(1) by simp
qed

lemma foldE_stat:
  assumes "at + 4 * k = length pre" "4 * length vs \<le> n"
  shows "foldE (\<lambda>(i, v) b. setUint32 b (at + 4 * i) v) (enumerate k vs) (pre @ replicate n 0)
    = Inr ((pre @ concat (map u32_bytes vs)) @ replicate (n - 4 * length vs) 0)"
  using assms
proof (induction vs arbitrary: k pre n)
  case (Cons v vs)
  have "setUint32 (pre @ replicate n 0) (at + 4 * k) v = Inr ((pre @ u32_bytes v) @ replicate (n - 4) 0)"
    unfolding setUint32_def using Cons.prems by (subst setBytes_next) simp_all
  then show ?case using Cons.IH [of "Suc k" "pre @ u32_bytes v" "n - 4"] Cons.prems by simp
qed simp

definition idBytes :: "indexEntry \<Rightarrow> bytes" where
  "idBytes e = (case hexToBytes (indexId e) of Inr sha \<Rightarrow> sha | Inl _ \<Rightarrow> [])"

definition idOk :: "nat \<Rightarrow> indexEntry \<Rightarrow> bool" where
  "idOk dl e \<longleftrightarrow> indexId e = bytesToHex (idBytes e) \<and> length (idBytes e) = dl"

definition entryImage :: "indexEntry \<Rightarrow> bytes" where
  "entryImage e =
     concat (map u32_bytes (statFields (entryStat e))) @ idBytes e
     @ u16_bytes (flagsWord e (min (length (pathBytesOf e)) 4095) (isExtended e))
     @ (if isExtended e then u16_bytes (extendedWord e) else []) @ pathBytesOf e"

lemma length_statBytes [simp]: "length (concat (map u32_bytes vs)) = 4 * length vs"
  by (induction vs) simp_all

lemma length_statFields [simp]: "length (statFields s) = 10"
  by (simp add: statFields_def)

lemma writeEntry_image:
  assumes "idOk dl e" "at = length pre" "length (entryImage e) \<le> n"
  shows "writeEntry (pre @ replicate n 0) at e (pathBytesOf e) (isExtended e) dl
    = Inr ((pre @ entryImage e) @ replicate (n - length (entryImage e)) 0)"
proof -
  define sha where "sha = idBytes e"
  have id: "indexId e = bytesToHex sha" "length sha = dl" using assms(1) by (simp_all add: idOk_def sha_def)
  let ?st = "concat (map u32_bytes (statFields (entryStat e)))"
  let ?fl = "u16_bytes (flagsWord e (min (length (pathBytesOf e)) 4095) (isExtended e))"
  let ?ex = "if isExtended e then u16_bytes (extendedWord e) else []"
  have len: "length (entryImage e) = 42 + dl + length ?ex + length (pathBytesOf e)"
    using id by (simp add: entryImage_def sha_def)
  have ex: "length ?ex = (if isExtended e then 2 else 0)" by simp
  have 1: "foldE (\<lambda>(i, v) b. setUint32 b (at + 4 * i) v) (enumerate 0 (statFields (entryStat e))) (pre @ replicate n 0)
      = Inr ((pre @ ?st) @ replicate (n - 40) 0)"
    using foldE_stat [of at 0 pre "statFields (entryStat e)" n] assms(2,3) len by simp
  have 2: "setBytes ((pre @ ?st) @ replicate (n - 40) 0) sha (at + 40) = Inr ((pre @ ?st @ sha) @ replicate (n - 40 - dl) 0)"
    using assms id len by (subst setBytes_next) simp_all
  have 3: "setUint16 ((pre @ ?st @ sha) @ replicate (n - 40 - dl) 0) (at + flagsOffset dl)
      (flagsWord e (min (length (pathBytesOf e)) 4095) (isExtended e))
      = Inr ((pre @ ?st @ sha @ ?fl) @ replicate (n - 42 - dl) 0)"
    unfolding setUint16_def using assms id len
    by (subst setBytes_next) (simp_all add: flagsOffset_def STAT_FIELDS_SIZE_def)
  have 4: "(if isExtended e then setUint16 ((pre @ ?st @ sha @ ?fl) @ replicate (n - 42 - dl) 0) (at + entryHeaderSize dl) (extendedWord e)
        else Inr ((pre @ ?st @ sha @ ?fl) @ replicate (n - 42 - dl) 0))
      = Inr ((pre @ ?st @ sha @ ?fl @ ?ex) @ replicate (n - 42 - dl - length ?ex) 0)"
  proof (cases "isExtended e")
    case True
    then show ?thesis unfolding setUint16_def using assms id len
      by (subst if_P, simp, subst setBytes_next) (simp_all add: entryHeaderSize_def STAT_FIELDS_SIZE_def FLAGS_WORD_SIZE_def)
  qed simp
  have 5: "setBytes ((pre @ ?st @ sha @ ?fl @ ?ex) @ replicate (n - 42 - dl - length ?ex) 0) (pathBytesOf e)
      (at + entryHeaderSize dl + (if isExtended e then 2 else 0))
      = Inr ((pre @ entryImage e) @ replicate (n - length (entryImage e)) 0)"
    using assms id len
    by (subst setBytes_next)
      (auto simp: entryHeaderSize_def STAT_FIELDS_SIZE_def FLAGS_WORD_SIZE_def entryImage_def sha_def)
  show ?thesis
    unfolding writeEntry_def 1 bindE_simps id(1) hexToBytes_hex 2 3 4 by (rule 5)
qed

lemma length_entryImage:
  "idOk dl e \<Longrightarrow> length (entryImage e) = entryHeaderSize dl + (if isExtended e then 2 else 0) + length (pathBytesOf e)"
  by (simp add: entryImage_def idOk_def entryHeaderSize_def STAT_FIELDS_SIZE_def FLAGS_WORD_SIZE_def)

definition entrySpan :: "nat \<Rightarrow> indexEntry \<Rightarrow> bytes" where
  "entrySpan dl e = entryImage e @ replicate (paddedLength e dl - length (entryImage e)) 0"

lemma paddedLength_bounds:
  assumes "idOk dl e" "length (entryImage e) < 2147483640"
  shows "length (entryImage e) < paddedLength e dl" "paddedLength e dl \<le> length (entryImage e) + 8"
    "length (entrySpan dl e) = paddedLength e dl"
proof -
  let ?n = "length (entryImage e) + 8"
  have "paddedLength e dl = align8 ?n" using length_entryImage [OF assms(1)] by (simp add: paddedLength_def)
  then have p: "paddedLength e dl = ?n - ?n mod 8" using assms(2) align8_eq [of ?n] by simp
  have m: "?n mod 8 < 8" by simp
  show 1: "length (entryImage e) < paddedLength e dl" unfolding p using m by linarith
  show "paddedLength e dl \<le> length (entryImage e) + 8" unfolding p by simp
  show "length (entrySpan dl e) = paddedLength e dl" using 1 by (simp add: entrySpan_def)
qed

definition extensionImage :: "indexExtension \<Rightarrow> bytes" where
  "extensionImage ext = encode (signature ext) @ u32_bytes (length (extensionData ext)) @ extensionData ext"

lemma writeEntries_image:
  assumes "\<And>e. e \<in> set es \<Longrightarrow> idOk dl e \<and> length (entryImage e) < 2147483640"
    and "sum_list (map (\<lambda>e. paddedLength e dl) es) \<le> n" "at = length pre"
  shows "foldE (\<lambda>entry (buf, at).
      bindE (writeEntry buf at entry (pathBytesOf entry) (isExtended entry) dl) (\<lambda>buf.
      Inr (buf, at + paddedLength entry dl))) es (pre @ replicate n 0, at)
    = Inr ((pre @ concat (map (entrySpan dl) es)) @ replicate (n - sum_list (map (\<lambda>e. paddedLength e dl) es)) 0,
        at + sum_list (map (\<lambda>e. paddedLength e dl) es))"
  using assms
proof (induction es arbitrary: pre n at)
  case (Cons e es)
  let ?i = "length (entryImage e)" and ?p = "paddedLength e dl"
  have ok: "idOk dl e" "?i < 2147483640" using Cons.prems(1) by simp_all
  note b = paddedLength_bounds [OF ok]
  have pn: "?p \<le> n" using Cons.prems(2) by simp
  have w: "writeEntry (pre @ replicate n 0) at e (pathBytesOf e) (isExtended e) dl
      = Inr ((pre @ entryImage e) @ replicate (n - ?i) 0)"
    using ok Cons.prems(3) b(1) pn by (intro writeEntry_image) simp_all
  have "replicate (n - ?i) (0 :: byte) = replicate (?p - ?i) 0 @ replicate (n - ?p) 0"
    using b(1) pn by (simp flip: replicate_add)
  then have w2: "writeEntry (pre @ replicate n 0) at e (pathBytesOf e) (isExtended e) dl
      = Inr ((pre @ entrySpan dl e) @ replicate (n - ?p) 0)"
    using w by (simp add: entrySpan_def)
  then show ?case
    using Cons.IH [of "n - ?p" "at + ?p" "pre @ entrySpan dl e"] Cons.prems b(3) by (simp add: add.assoc)
qed simp

lemma writeExtensions_image:
  assumes "\<And>x. x \<in> set xs \<Longrightarrow> length (encode (signature x)) = 4"
    and "sum_list (map extensionLength xs) = n" "at = length pre"
  shows "foldE (\<lambda>ext (buf, at).
      bindE (writeExtension buf at ext) (\<lambda>buf. Inr (buf, at + extensionLength ext))) xs (pre @ replicate n 0, at)
    = Inr (pre @ concat (map extensionImage xs), at + n)"
  using assms
proof (induction xs arbitrary: pre n at)
  case (Cons x xs)
  have sg: "length (encode (signature x)) = 4" using Cons.prems(1) by simp
  let ?l = "length (extensionData x)"
  have n: "8 + ?l \<le> n" using Cons.prems(2) by (simp add: extensionLength_def)
  have 1: "setBytes (pre @ replicate n 0) (encode (signature x)) at
      = Inr ((pre @ encode (signature x)) @ replicate (n - 4) 0)"
    using sg n Cons.prems(3) by (subst setBytes_next) simp_all
  have 2: "setUint32 ((pre @ encode (signature x)) @ replicate (n - 4) 0) (at + 4) ?l
      = Inr ((pre @ encode (signature x) @ u32_bytes ?l) @ replicate (n - 8) 0)"
    unfolding setUint32_def using sg n Cons.prems(3) by (subst setBytes_next) simp_all
  have 3: "setBytes ((pre @ encode (signature x) @ u32_bytes ?l) @ replicate (n - 8) 0) (extensionData x) (at + 8)
      = Inr ((pre @ extensionImage x) @ replicate (n - extensionLength x) 0)"
    using sg n Cons.prems(3) by (subst setBytes_next) (simp_all add: extensionImage_def extensionLength_def)
  have w: "writeExtension (pre @ replicate n 0) at x = Inr ((pre @ extensionImage x) @ replicate (n - extensionLength x) 0)"
    unfolding writeExtension_def 1 bindE_simps 2 by (rule 3)
  have "length (extensionImage x) = extensionLength x" using sg by (simp add: extensionImage_def extensionLength_def)
  then show ?case
    using w Cons.IH [of "n - extensionLength x" "at + extensionLength x" "pre @ extensionImage x"] Cons.prems n
    by (simp add: extensionLength_def)
qed simp

text \<open>The whole file, without the checksum the caller appends.\<close>

definition indexImage :: "nat \<Rightarrow> gitIndex \<Rightarrow> bytes" where
  "indexImage dl idx =
     (let es = jsSort (pathComparatorFor (indexEntries idx)) (indexEntries idx) in
      u32_bytes DIRC_SIGNATURE @ u32_bytes (if list_ex isExtended es then 3 else 2) @ u32_bytes (length es)
      @ concat (map (entrySpan dl) es) @ concat (map extensionImage (extensions idx)))"

lemma serializeIndex_image:
  assumes "\<And>e. e \<in> set (indexEntries idx) \<Longrightarrow> idOk dl e \<and> length (entryImage e) < 2147483640"
    and "\<And>x. x \<in> set (extensions idx) \<Longrightarrow> length (encode (signature x)) = 4"
  shows "serializeIndex idx dl = Inr (indexImage dl idx)"
proof -
  define es where "es = jsSort (pathComparatorFor (indexEntries idx)) (indexEntries idx)"
  define ne nx where "ne = sum_list (map (\<lambda>e. paddedLength e dl) es)" and "nx = sum_list (map extensionLength (extensions idx))"
  define v where "v = (if list_ex isExtended es then 3 else 2 :: nat)"
  have set: "set es = set (indexEntries idx)" by (simp add: es_def)
  have 1: "setUint32 (replicate (12 + ne + nx) 0) 0 DIRC_SIGNATURE = Inr (u32_bytes DIRC_SIGNATURE @ replicate (8 + ne + nx) 0)"
    unfolding setUint32_def using setBytes_next [of 0 "[]" "u32_bytes DIRC_SIGNATURE" "12 + ne + nx"] by simp
  have 2: "setUint32 (u32_bytes DIRC_SIGNATURE @ replicate (8 + ne + nx) 0) 4 v
      = Inr ((u32_bytes DIRC_SIGNATURE @ u32_bytes v) @ replicate (4 + ne + nx) 0)"
    unfolding setUint32_def by (subst setBytes_next) simp_all
  have 3: "setUint32 ((u32_bytes DIRC_SIGNATURE @ u32_bytes v) @ replicate (4 + ne + nx) 0) 8 (length es)
      = Inr ((u32_bytes DIRC_SIGNATURE @ u32_bytes v @ u32_bytes (length es)) @ replicate (ne + nx) 0)"
    unfolding setUint32_def by (subst setBytes_next) simp_all
  note 4 = writeEntries_image [of es dl "ne + nx" 12 "u32_bytes DIRC_SIGNATURE @ u32_bytes v @ u32_bytes (length es)",
      folded ne_def, simplified add_diff_cancel_left']
  have 5: "length (concat (map (entrySpan dl) es)) = ne"
    unfolding ne_def using assms(1) set paddedLength_bounds(3) by (auto simp: length_concat comp_def intro!: arg_cong [of _ _ sum_list] map_cong)
  note 6 = writeExtensions_image [of "extensions idx" nx "12 + ne" "(u32_bytes DIRC_SIGNATURE @ u32_bytes v @ u32_bytes (length es)) @ concat (map (entrySpan dl) es)"]
  show ?thesis
    unfolding serializeIndex_def Let_def es_def [symmetric] ne_def [symmetric] nx_def [symmetric] v_def [symmetric] 1 bindE_simps 2 3
    using 4 5 6 assms set
    by (simp add: indexImage_def es_def v_def nx_def)
qed

lemma js_or_low:
  assumes "0 \<le> l" "l < 2 ^ n" "0 \<le> k" "l + k * 2 ^ n < 2147483648"
  shows "js_or (k * 2 ^ n) l = k * 2 ^ n + l"
proof -
  have "k * 2 ^ n OR l = l + k * 2 ^ n" using or_disjoint_add [OF assms(1,2), of k] by (simp add: or.commute)
  then show ?thesis using assms by (simp add: js_or_def toInt32_nonneg add.commute)
qed

definition bitOf :: "bool \<Rightarrow> int" where
  "bitOf b = (if b then 1 else 0)"

lemma flagsWord_value:
  assumes "stage (indexFlags e) \<le> 3" "l \<le> 4095"
  shows "flagsWord e l x = bitOf (assumeValid (indexFlags e)) * 32768 + bitOf x * 16384
    + int (stage (indexFlags e)) * 4096 + int l"
proof -
  consider "stage (indexFlags e) = 0" | "stage (indexFlags e) = 1" | "stage (indexFlags e) = 2" | "stage (indexFlags e) = 3"
    using assms(1) by linarith
  then have hi: "js_or (js_or (if assumeValid (indexFlags e) then 32768 else 0) (if x then 16384 else 0))
      (js_shl (int (stage (indexFlags e))) 12)
    = (bitOf (assumeValid (indexFlags e)) * 8 + bitOf x * 4 + int (stage (indexFlags e))) * 2 ^ 12"
    by cases (cases "assumeValid (indexFlags e)"; cases x; simp add: bitOf_def js_or_def js_shl_def toInt32_def)+
  have "0 \<le> bitOf (assumeValid (indexFlags e)) * 8 + bitOf x * 4 + int (stage (indexFlags e))"
    "bitOf (assumeValid (indexFlags e)) * 8 + bitOf x * 4 + int (stage (indexFlags e)) \<le> 15"
    using assms(1) by (auto simp: bitOf_def)
  then show ?thesis unfolding flagsWord_def hi using assms(2) by (subst js_or_low) (auto simp: algebra_simps)
qed

lemma modeNumber_back: "normalizeFileMode (toStringRadix 8 (modeNumber m)) = Inr m"
  by (cases m) (simp_all add: modeNumber_def jslit_def toStringRadix.simps hexDigit_def normalizeFileMode_def stripModeZeros_def
      validateFileMode_Inr)

lemma modeNumber_less: "modeNumber m < 4294967296"
  by (cases m) (simp_all add: modeNumber_def jslit_def)

lemma stat_reads:
  assumes "\<And>v. v \<in> set vs \<Longrightarrow> v < 4294967296" "n = length vs" "at = length pre"
  shows "mapE (\<lambda>i. getUint32 (pre @ concat (map u32_bytes vs) @ post) (at + 4 * i)) [0..<n] = Inr vs"
proof -
  have "getUint32 (pre @ concat (map u32_bytes vs) @ post) (at + 4 * i) = Inr (vs ! i)" if "i \<in> set [0..<n]" for i
  proof -
    have i: "i < length vs" using that assms(2) by simp
    have "pre @ concat (map u32_bytes vs) @ post
        = (pre @ concat (map u32_bytes (take i vs))) @ u32_bytes (vs ! i) @ (concat (map u32_bytes (drop (Suc i) vs)) @ post)"
      by (subst id_take_nth_drop [OF i]) simp
    moreover have "at + 4 * i = length (pre @ concat (map u32_bytes (take i vs)))" using assms(3) i by simp
    ultimately have "getUint32 (pre @ concat (map u32_bytes vs) @ post) (at + 4 * i) = Inr (vs ! i mod 2 ^ 32)"
      using getUint32_u32 by metis
    then show ?thesis using assms(1) [of "vs ! i"] i by simp
  qed
  then have "mapE (\<lambda>i. getUint32 (pre @ concat (map u32_bytes vs) @ post) (at + 4 * i)) [0..<n] = Inr (map ((!) vs) [0..<n])"
    by (rule mapE_Inr)
  then show ?thesis using assms(2) by (simp add: map_nth)
qed

lemma js_and_flag:
  "js_and x 32768 \<noteq> 0 \<longleftrightarrow> odd (x div 32768)" "js_and x 16384 \<noteq> 0 \<longleftrightarrow> odd (x div 16384)"
  "js_and x 8192 \<noteq> 0 \<longleftrightarrow> odd (x div 8192)"
  "js_and x 4095 = x mod 4096" "js_and x 3 = x mod 4"
  using js_and_bit [of 15 x] js_and_bit [of 14 x] js_and_bit [of 13 x] js_and_mask [of 12 x] js_and_mask [of 2 x]
  by simp_all

lemma flags_back:
  assumes "s \<le> 3" "l \<le> 4095"
    and "w = bitOf a * 32768 + bitOf x * 16384 + int s * 4096 + int l"
  shows "w mod 65536 = w" "js_and w 16384 \<noteq> 0 \<longleftrightarrow> x" "js_and w 32768 \<noteq> 0 \<longleftrightarrow> a"
    "nat (js_and (js_ushr w 12) 3) = s" "nat (js_and w 4095) = l"
proof -
  have b: "bitOf a = 0 \<and> \<not> a \<or> bitOf a = 1 \<and> a" "bitOf x = 0 \<and> \<not> x \<or> bitOf x = 1 \<and> x"
    by (auto simp: bitOf_def)
  have r: "0 \<le> w" "w < 65536" using assms b by auto
  then show "w mod 65536 = w" by simp
  have d: "w div 4096 = bitOf a * 8 + bitOf x * 4 + int s" "w mod 4096 = int l"
  proof -
    have w: "w = int l + (bitOf a * 8 + bitOf x * 4 + int s) * 4096" using assms(3) by simp
    have "(int l + k * 4096) div 4096 = k" "(int l + k * 4096) mod 4096 = int l" for k
      using assms(2) by simp_all
    then show "w div 4096 = bitOf a * 8 + bitOf x * 4 + int s" "w mod 4096 = int l"
      unfolding w by blast+
  qed
  have q: "w div 16384 = w div 4096 div 4" "w div 32768 = w div 4096 div 8"
    by (simp_all add: zdiv_zmult2_eq [symmetric])
  have e: "(bitOf a * 8 + bitOf x * 4 + int s) div 4 = bitOf a * 2 + bitOf x" "(bitOf a * 8 + bitOf x * 4 + int s) div 8 = bitOf a"
    using assms(1) b by auto
  show "js_and w 16384 \<noteq> 0 \<longleftrightarrow> x" unfolding js_and_flag q d e using b by auto
  show "js_and w 32768 \<noteq> 0 \<longleftrightarrow> a" unfolding js_and_flag q d e using b by auto
  have "js_ushr w 12 = bitOf a * 8 + bitOf x * 4 + int s" using js_ushr_div [of 12 w] r d by simp
  moreover have "(bitOf a * 8 + bitOf x * 4 + int s) mod 4 = int s"
  proof -
    have "(int s + k * 4) mod 4 = int s" for k using assms(1) by simp
    from this [of "bitOf a * 2 + bitOf x"] show ?thesis by (simp add: algebra_simps)
  qed
  ultimately show "nat (js_and (js_ushr w 12) 3) = s" by (simp add: js_and_flag)
  show "nat (js_and w 4095) = l" by (simp add: js_and_flag d)
qed

lemma extended_back:
  assumes "w = extendedWord e"
  shows "w mod 65536 = w" "js_and w 16384 \<noteq> 0 \<longleftrightarrow> skipWorktree (indexFlags e)"
    "js_and w 8192 \<noteq> 0 \<longleftrightarrow> intentToAdd (indexFlags e)"
proof -
  have "w = bitOf (skipWorktree (indexFlags e)) * 16384 + bitOf (intentToAdd (indexFlags e)) * 8192"
    unfolding assms extendedWord_def
    by (cases "skipWorktree (indexFlags e)"; cases "intentToAdd (indexFlags e)") (simp_all add: bitOf_def js_or_def toInt32_def)
  then show "w mod 65536 = w" "js_and w 16384 \<noteq> 0 \<longleftrightarrow> skipWorktree (indexFlags e)"
    "js_and w 8192 \<noteq> 0 \<longleftrightarrow> intentToAdd (indexFlags e)"
    unfolding js_and_flag
    by (cases "skipWorktree (indexFlags e)"; cases "intentToAdd (indexFlags e)"; simp add: bitOf_def)+
qed

section \<open>Reading an entry back\<close>

definition statOk :: "statData \<Rightarrow> bool" where
  "statOk s \<longleftrightarrow> (\<forall>v \<in> set (statFields s). v < 4294967296)"

definition indexEntryOk :: "nat \<Rightarrow> indexEntry \<Rightarrow> bool" where
  "indexEntryOk dl e \<longleftrightarrow>
     idOk dl e \<and> statOk (entryStat e) \<and> stage (indexFlags e) \<le> 3 \<and>
     pathView e \<and> 0 \<notin> set (pathBytesOf e) \<and>
     rejectionOf verifyPath (filePath e) (statMode (entryStat e)) (pathBytes e) = None"

lemma verifyPath_empty: "verifyPath [] m raw \<noteq> None"
  by (simp add: verifyPath_def findComponentRejection_def matchShape_def Let_def)

lemma accepted_nonempty: "rejectionOf verifyPath p m raw = None \<Longrightarrow> p \<noteq> []"
  using verifyPath_empty [of m raw] by (auto simp: rejectionOf_def split: option.splits)

lemma path_back:
  assumes "pathView e"
  shows "decodePreservingBom (pathBytesOf e) = filePath e" "lossyPathBytes (filePath e) (pathBytesOf e) = pathBytes e"
proof -
  show "decodePreservingBom (pathBytesOf e) = filePath e"
    using assms decode_encode [of "filePath e"]
    by (auto simp: pathView_def pathBytesOf_def decodePreservingBom_def encode_def split: option.splits)
  show "lossyPathBytes (filePath e) (pathBytesOf e) = pathBytes e"
    using assms by (auto simp: pathView_def pathBytesOf_def lossyPathBytes_def decodesLosslessly_def split: option.splits)
qed

lemma subarray_mid: "s = length pre \<Longrightarrow> e = s + length mid \<Longrightarrow> subarray (pre @ mid @ post) s e = mid"
  by (rule subarray_append_same)

lemma decodeEntryFlags_image:
  assumes "bs = pre @ entryImage e @ post" "at = length pre" "indexEntryOk dl e" "dl \<le> length post" "isExtended e \<longrightarrow> version = 3"
  shows "decodeEntryFlags bs at version dl = Inr (indexFlags e, if isExtended e then 2 else 0)"
    and "getUint16 bs (at + flagsOffset dl) = Inr (flagsWord e (min (length (pathBytesOf e)) 4095) (isExtended e))"
proof -
  let ?l = "min (length (pathBytesOf e)) 4095"
  have ok: "idOk dl e" "stage (indexFlags e) \<le> 3" using assms(3) by (simp_all add: indexEntryOk_def)
  note fb = flags_back [OF ok(2) _ flagsWord_value [OF ok(2)], of ?l "isExtended e", simplified]
  let ?st = "concat (map u32_bytes (statFields (entryStat e)))"
  let ?fl = "u16_bytes (flagsWord e ?l (isExtended e))"
  have b1: "bs = (pre @ ?st @ idBytes e) @ ?fl @ (if isExtended e then u16_bytes (extendedWord e) else []) @ pathBytesOf e @ post"
    unfolding assms(1) entryImage_def by simp
  show g: "getUint16 bs (at + flagsOffset dl) = Inr (flagsWord e ?l (isExtended e))"
    unfolding b1 using ok(1) assms(2) fb(1)
    by (subst getUint16_u16) (simp_all add: flagsOffset_def STAT_FIELDS_SIZE_def idOk_def)
  have fit: "\<not> length bs < at + entryHeaderSize dl + (if isExtended e then 2 else 0) + dl"
    using assms(1,2,4) length_entryImage [OF ok(1)] by simp
  have x: "(if isExtended e then getUint16 bs (at + entryHeaderSize dl) else Inr 0)
      = Inr (if isExtended e then extendedWord e else 0)"
  proof (cases "isExtended e")
    case True
    have "bs = (pre @ ?st @ idBytes e @ ?fl) @ u16_bytes (extendedWord e) @ pathBytesOf e @ post"
      using b1 True by simp
    then show ?thesis using True ok(1) assms(2) extended_back(1) [OF refl, of e]
      by (simp only: if_True) (subst getUint16_u16, simp_all add: entryHeaderSize_def STAT_FIELDS_SIZE_def FLAGS_WORD_SIZE_def idOk_def)
  qed simp
  have p: "parseFlags (flagsWord e ?l (isExtended e)) (if isExtended e then extendedWord e else 0) = indexFlags e"
    using fb extended_back [OF refl, of e]
    by (auto simp: parseFlags_def isExtended_def js_and_def toInt32_def intro!: indexEntryFlags.equality)
  show "decodeEntryFlags bs at version dl = Inr (indexFlags e, if isExtended e then 2 else 0)"
    unfolding decodeEntryFlags_def g bindE_simps Let_def fb(2)
    using assms(5) fit x p by simp
qed

lemma parseEntry_image:
  assumes "bs = pre @ entrySpan dl e @ post" "at = length pre" "indexEntryOk dl e" "dl \<le> length post"
    "isExtended e \<longrightarrow> version = 3" "length (entryImage e) < 2147483640"
  shows "parseEntry bs version dl at = Inr (e, at + paddedLength e dl)"
proof -
  let ?i = "length (entryImage e)" and ?x = "if isExtended e then 2 else 0 :: nat"
  have ok: "idOk dl e" "statOk (entryStat e)" "pathView e" "0 \<notin> set (pathBytesOf e)"
    "rejectionOf verifyPath (filePath e) (statMode (entryStat e)) (pathBytes e) = None" "stage (indexFlags e) \<le> 3"
    using assms(3) by (simp_all add: indexEntryOk_def)
  note pl = paddedLength_bounds [OF ok(1) assms(6)]
  note li = length_entryImage [OF ok(1)]
  define zs where "zs = replicate (paddedLength e dl - ?i) (0 :: byte)"
  have zs: "zs = 0 # replicate (paddedLength e dl - ?i - 1) 0"
    unfolding zs_def using pl(1) by (cases "paddedLength e dl - ?i") auto
  have b0: "bs = pre @ entryImage e @ (zs @ post)" unfolding assms(1) entrySpan_def zs_def by simp
  have lbs: "length bs = at + paddedLength e dl + length post" using assms(1,2) pl(3) by simp
  have fit: "\<not> length bs < at + entryHeaderSize dl + dl" using lbs pl(1) li assms(4) by simp
  have reads: "mapE (\<lambda>i. getUint32 bs (at + 4 * i)) [0..<10] = Inr (statFields (entryStat e))"
    unfolding b0 entryImage_def using ok(2) assms(2) by (auto simp: statOk_def intro!: stat_reads)
  have fl: "decodeEntryFlags bs at version dl = Inr (indexFlags e, ?x)"
    "getUint16 bs (at + flagsOffset dl) = Inr (flagsWord e (min (length (pathBytesOf e)) 4095) (isExtended e))"
    using decodeEntryFlags_image [OF b0 assms(2,3) _ assms(5)] assms(4) by simp_all
  let ?raw = "pathBytesOf e"
  let ?hd = "concat (map u32_bytes (statFields (entryStat e))) @ idBytes e
     @ u16_bytes (flagsWord e (min (length ?raw) 4095) (isExtended e)) @ (if isExtended e then u16_bytes (extendedWord e) else [])"
  have b1: "bs = (pre @ ?hd) @ ?raw @ (zs @ post)" unfolding b0 entryImage_def by simp
  define start where "start = at + entryHeaderSize dl + ?x"
  have st: "start = length (pre @ ?hd)"
    using ok(1) assms(2) by (simp add: start_def idOk_def entryHeaderSize_def STAT_FIELDS_SIZE_def FLAGS_WORD_SIZE_def)
  have nul: "findNul bs start = Some (start + length ?raw)"
    unfolding findNul_def b1 zs append_Cons using st ok(4) by (intro indexOfUnit_append)
  have nl: "nat (js_and (flagsWord e (min (length ?raw) 4095) (isExtended e)) 4095) = min (length ?raw) 4095"
    using flags_back(5) [OF ok(6) _ flagsWord_value [OF ok(6)], of "min (length ?raw) 4095" "isExtended e"] by simp
  have raw: "subarray bs start (if min (length ?raw) 4095 = 4095 then start + length ?raw else start + min (length ?raw) 4095) = ?raw"
  proof -
    have e: "(if min (length ?raw) 4095 = 4095 then start + length ?raw else start + min (length ?raw) 4095) = start + length ?raw"
      by (simp add: min_def)
    show ?thesis unfolding e b1 by (rule subarray_mid [OF st refl])
  qed
  have ne: "filePath e \<noteq> []" using accepted_nonempty [OF ok(5)] .
  have sha: "bytesToHex (subarray bs (at + 40) (at + 40 + dl)) = indexId e"
  proof -
    have "bs = (pre @ concat (map u32_bytes (statFields (entryStat e)))) @ idBytes e
        @ (u16_bytes (flagsWord e (min (length ?raw) 4095) (isExtended e)) @ (if isExtended e then u16_bytes (extendedWord e) else []) @ ?raw @ zs @ post)"
      unfolding b1 by simp
    then have "subarray bs (at + 40) (at + 40 + dl) = idBytes e"
      using ok(1) assms(2) by (simp only:) (rule subarray_mid, simp_all add: idOk_def)
    then show ?thesis using ok(1) by (simp add: idOk_def)
  qed
  have nx: "at + align8 (start + length ?raw + 1 - at + 7) = at + paddedLength e dl"
  proof -
    have "start + length ?raw + 1 - at + 7 = entryHeaderSize dl + ?x + length ?raw + 8" by (simp add: start_def)
    then show ?thesis by (simp only: paddedLength_def)
  qed
  have sf: "statFields (entryStat e) ! 6 = modeNumber (statMode (entryStat e))" by (simp add: statFields_def)
  have val: "validateIndexPath (filePath e) (int at) (statMode (entryStat e)) (pathBytes e) = Inr ()"
    using ok(5) by (simp add: validateIndexPath_def validateIndexPathBy_def)
  have rec: "\<lparr>filePath = filePath e, pathBytes = pathBytes e,
      entryStat = \<lparr>ctimeSeconds = statFields (entryStat e) ! 0, ctimeNanoseconds = statFields (entryStat e) ! 1,
        mtimeSeconds = statFields (entryStat e) ! 2, mtimeNanoseconds = statFields (entryStat e) ! 3,
        dev = statFields (entryStat e) ! 4, ino = statFields (entryStat e) ! 5, statMode = statMode (entryStat e),
        uid = statFields (entryStat e) ! 7, gid = statFields (entryStat e) ! 8, fileSize = statFields (entryStat e) ! 9\<rparr>,
      indexId = indexId e, indexFlags = indexFlags e\<rparr> = e"
    by (simp add: statFields_def)
  show ?thesis
    unfolding parseEntry_def if_not_P [OF fit] reads bindE_simps fl prod.case sf modeNumber_back Let_def
      start_def [symmetric] nul option.case nl raw path_back [OF ok(3)] val FilePath_from_def sha nx rec
    using ne rec by simp
qed

lemma parseEntries_image:
  assumes "\<And>e. e \<in> set es \<Longrightarrow> indexEntryOk dl e \<and> (isExtended e \<longrightarrow> version = 3) \<and> length (entryImage e) < 2147483640"
    and "bs = pre @ concat (map (entrySpan dl) es) @ post" "at = length pre" "dl \<le> length post"
  shows "parseEntries bs version dl (length es) at = Inr (es, at + length (concat (map (entrySpan dl) es)))"
  using assms
proof (induction es arbitrary: pre at)
  case (Cons e es)
  have ok: "indexEntryOk dl e" "isExtended e \<longrightarrow> version = 3" "length (entryImage e) < 2147483640"
    using Cons.prems(1) [of e] by simp_all
  have "parseEntry bs version dl at = Inr (e, at + paddedLength e dl)"
    using Cons.prems ok by (intro parseEntry_image [of _ pre dl e "concat (map (entrySpan dl) es) @ post"]) simp_all
  moreover have "length (entrySpan dl e) = paddedLength e dl"
    using paddedLength_bounds(3) ok by (simp add: indexEntryOk_def)
  moreover from this have "parseEntries bs version dl (length es) (at + paddedLength e dl)
      = Inr (es, at + paddedLength e dl + length (concat (map (entrySpan dl) es)))"
    using Cons.prems(2-4) by (intro Cons.IH [of "pre @ entrySpan dl e"] Cons.prems(1)) simp_all
  ultimately show ?case by (simp add: add.assoc)
qed simp

definition extensionOk :: "indexExtension \<Rightarrow> bool" where
  "extensionOk x \<longleftrightarrow>
     length (signature x) = 4 \<and> (\<forall>u \<in> set (signature x). u < 128) \<and>
     \<not> (97 \<le> hd (signature x) \<and> hd (signature x) \<le> 122) \<and> length (extensionData x) < 4294967296"

lemma signature_bytes:
  assumes "extensionOk x"
  shows "length (encode (signature x)) = 4" "decode (encode (signature x)) = signature x"
proof -
  have a: "encode (signature x) = map of_nat (signature x)"
    using utf8_encode_ascii [of "signature x"] assms by (auto simp: extensionOk_def encode_def)
  then show "length (encode (signature x)) = 4" using assms by (simp add: extensionOk_def)
  have u: "unat (of_nat c :: byte) = c" if "c \<in> set (signature x)" for c
    using that assms by (intro unat_small) (auto simp: extensionOk_def)
  have "map unat (map of_nat (signature x) :: bytes) = signature x"
    using u by (simp add: map_idI)
  moreover have "unat w < 128" if "w \<in> set (map of_nat (signature x) :: bytes)" for w
    using that u assms by (auto simp: extensionOk_def)
  ultimately show "decode (encode (signature x)) = signature x" unfolding a using decode_ascii by metis
qed

lemma parseExtensions_image:
  assumes "\<And>x. x \<in> set xs \<Longrightarrow> extensionOk x"
    and "bs = pre @ concat (map extensionImage xs) @ trailer" "at = length pre" "dl = length trailer"
  shows "parseExtensions bs at dl = Inr xs"
  using assms
proof (induction xs arbitrary: pre at)
  case Nil
  then show ?case by (simp add: parseExtensions.simps)
next
  case (Cons x xs)
  have ok: "extensionOk x" using Cons.prems(1) by simp
  have xi: "length (extensionImage x) = 8 + length (extensionData x)"
    using signature_bytes [OF ok] by (simp add: extensionImage_def)
  note sg = signature_bytes [OF ok]
  let ?d = "extensionData x" and ?rest = "concat (map extensionImage xs) @ trailer"
  have b: "bs = pre @ encode (signature x) @ u32_bytes (length ?d) @ ?d @ ?rest"
    using Cons.prems(2) by (simp add: extensionImage_def [of x])
  have s1: "subarray bs at (at + 4) = encode (signature x)" unfolding b using sg(1) Cons.prems(3) by (intro subarray_mid) simp_all
  have s2: "getUint32 bs (at + 4) = Inr (length ?d)"
  proof -
    have "bs = (pre @ encode (signature x)) @ u32_bytes (length ?d) @ (?d @ ?rest)" unfolding b by simp
    then have "getUint32 bs (at + 4) = Inr (length ?d mod 2 ^ 32)"
      using getUint32_u32 [of "at + 4" "pre @ encode (signature x)"] sg(1) Cons.prems(3) by simp
    then show ?thesis using ok by (simp add: extensionOk_def)
  qed
  have s3: "subarray bs (at + 8) (at + 8 + length ?d) = ?d"
  proof -
    have "bs = (pre @ encode (signature x) @ u32_bytes (length ?d)) @ ?d @ ?rest" unfolding b by simp
    then show ?thesis using sg(1) Cons.prems(3) by (simp only:) (rule subarray_mid, simp_all)
  qed
  have fit: "at + 8 + dl \<le> length bs" "\<not> length bs < at + 8 + length ?d + dl"
    unfolding Cons.prems(2) using xi Cons.prems(3,4) by simp_all
  have low: "\<not> (case signature x of [] \<Rightarrow> False | f # _ \<Rightarrow> 97 \<le> f \<and> f \<le> 122)"
    using ok by (cases "signature x") (auto simp: extensionOk_def)
  have "parseExtensions bs (at + 8 + length ?d) dl = Inr xs"
    using Cons.prems xi by (intro Cons.IH [of "pre @ extensionImage x"]) simp_all
  then show ?case
    using fit low by (subst parseExtensions.simps) (simp add: s1 s2 s3 sg(2) Let_def)
qed

lemma concat_count: "(\<And>x. x \<in> set xs \<Longrightarrow> k \<le> length (f x)) \<Longrightarrow> k * length xs \<le> length (concat (map f xs))"
proof (induction xs)
  case (Cons x xs)
  have "k * length xs \<le> length (concat (map f xs))" using Cons by simp
  moreover have "k \<le> length (f x)" using Cons.prems by simp
  ultimately show ?case by simp
qed simp

lemma parseIndex_image:
  assumes "\<And>e. e \<in> set (indexEntries idx) \<Longrightarrow> indexEntryOk dl e"
    and "\<And>x. x \<in> set (extensions idx) \<Longrightarrow> extensionOk x"
    and "\<And>e. e \<in> set (indexEntries idx) \<Longrightarrow> length (entryImage e) < 2147483640"
    and "length (indexEntries idx) < 4294967296" "dl = length trailer"
  shows "parseIndex (indexImage dl idx @ trailer) dl = Inr \<lparr>
      indexVersion = (if list_ex isExtended (indexEntries idx) then 3 else 2),
      indexEntries = jsSort (pathComparatorFor (indexEntries idx)) (indexEntries idx),
      extensions = extensions idx, trailerSha = trailer\<rparr>"
proof -
  define es where "es = jsSort (pathComparatorFor (indexEntries idx)) (indexEntries idx)"
  define v where "v = (if list_ex isExtended es then 3 else 2 :: nat)"
  have se: "set es = set (indexEntries idx)" "length es = length (indexEntries idx)" by (simp_all add: es_def)
  let ?E = "concat (map (entrySpan dl) es)" and ?X = "concat (map extensionImage (extensions idx))"
  define bs where "bs = indexImage dl idx @ trailer"
  have b: "bs = u32_bytes DIRC_SIGNATURE @ u32_bytes v @ u32_bytes (length es) @ ?E @ ?X @ trailer"
    by (simp add: bs_def indexImage_def v_def es_def)
  have lb: "length bs = 12 + length ?E + length ?X + dl" unfolding b using assms(5) by simp
  have r0: "getUint32 bs 0 = Inr DIRC_SIGNATURE"
    unfolding b using getUint32_u32 [of 0 "[]" DIRC_SIGNATURE] by (simp add: DIRC_SIGNATURE_def)
  have r4: "getUint32 bs 4 = Inr v"
    unfolding b using getUint32_u32 [of 4 "u32_bytes DIRC_SIGNATURE" v] by (simp add: v_def)
  have r8: "getUint32 bs 8 = Inr (length es)"
    unfolding b using getUint32_u32 [of 8 "u32_bytes DIRC_SIGNATURE @ u32_bytes v" "length es"] assms(4) se by simp
  have span: "entryHeaderSize dl \<le> length (entrySpan dl e)" if "e \<in> set es" for e
  proof -
    have "idOk dl e" using assms(1) that se by (simp add: indexEntryOk_def)
    then show ?thesis using length_entryImage by (simp add: entrySpan_def)
  qed
  have cap: "\<not> int (length bs) - 12 - int dl < int (length es * entryHeaderSize dl)"
  proof -
    have "entryHeaderSize dl * length es \<le> length ?E" using span by (intro concat_count) simp
    then have "int (length es * entryHeaderSize dl) \<le> int (length ?E)" by (simp only: of_nat_le_iff mult.commute)
    then show ?thesis using lb by linarith
  qed
  have v3: "isExtended e \<longrightarrow> v = 3" if "e \<in> set es" for e
    using that by (auto simp: v_def list_ex_iff)
  have pe: "parseEntries bs v dl (length es) 12 = Inr (es, 12 + length ?E)"
    unfolding b using assms(1,3,5) se v3
    by (intro parseEntries_image [of _ _ _ _ "u32_bytes DIRC_SIGNATURE @ u32_bytes v @ u32_bytes (length es)" "?X @ trailer"]) auto
  have px: "parseExtensions bs (12 + length ?E) dl = Inr (extensions idx)"
    unfolding b using assms(2,5)
    by (intro parseExtensions_image [of _ _ "u32_bytes DIRC_SIGNATURE @ u32_bytes v @ u32_bytes (length es) @ ?E" trailer]) auto
  have tr: "drop (length bs - dl) bs = trailer"
    unfolding bs_def using assms(5) by simp
  have "list_ex isExtended es = list_ex isExtended (indexEntries idx)" by (simp add: list_ex_iff se)
  then show ?thesis
    unfolding bs_def [symmetric] es_def [symmetric]
    using lb r0 r4 r8 cap pe px tr by (simp add: parseIndex_def v_def)
qed

section \<open>What the parser lets through and what it refuses\<close>

text \<open>The refusals of the format.\<close>

fun indexRefusal :: "tsgit_error \<Rightarrow> bool" where
  "indexRefusal (InvalidIndexHeader r) = True"
| "indexRefusal (InvalidIndexEntry at r) = True"
| "indexRefusal (InvalidFileMode m) = True"
| "indexRefusal e = False"

lemma bindE_InlE:
  "bindE m k = Inl e \<Longrightarrow> (m = Inl e \<Longrightarrow> P) \<Longrightarrow> (\<And>x. m = Inr x \<Longrightarrow> k x = Inl e \<Longrightarrow> P) \<Longrightarrow> P"
  by (cases m) auto

lemma bindE_InrE: "bindE m k = Inr y \<Longrightarrow> (\<And>x. m = Inr x \<Longrightarrow> k x = Inr y \<Longrightarrow> P) \<Longrightarrow> P"
  by (cases m) auto

lemma parseEntry_refusals:
  assumes "parseEntry bs version dl at = Inl err"
  shows "indexRefusal err"
proof (cases "length bs < at + entryHeaderSize dl + dl")
  case True
  then show ?thesis using assms by (auto simp add: parseEntry_def)
next
  case False
  have h: "entryHeaderSize dl = 42 + dl" "flagsOffset dl = 40 + dl"
    by (simp_all add: entryHeaderSize_def flagsOffset_def STAT_FIELDS_SIZE_def FLAGS_WORD_SIZE_def)
  have "mapE (\<lambda>i. getUint32 bs (at + 4 * i)) [0..<10]
      = Inr (map (\<lambda>i. be32 (bs ! (at + 4 * i)) (bs ! (at + 4 * i + 1)) (bs ! (at + 4 * i + 2)) (bs ! (at + 4 * i + 3))) [0..<10])"
    using False h by (intro mapE_Inr) (simp add: getUint32_def)
  then obtain f where f: "mapE (\<lambda>i. getUint32 bs (at + 4 * i)) [0..<10] = Inr f" by blast
  obtain w where w: "getUint16 bs (at + flagsOffset dl) = Inr w"
    using False h by (simp add: getUint16_def)
  have d: "indexRefusal e" if "decodeEntryFlags bs at version dl = Inl e" for e
    using that w h by (auto simp: decodeEntryFlags_def getUint16_def Let_def split: if_splits)
  have m: "indexRefusal e" if "normalizeFileMode t = Inl e" for t e
    using that by (auto simp: normalizeFileMode_def validateFileMode_def split: option.splits)
  have v: "indexRefusal e" if "validateIndexPath p o' md raw = Inl e" for p o' md raw e
    using that by (auto simp: validateIndexPath_def validateIndexPathBy_def split: option.splits)
  have n: "validateIndexPath [] o' md raw \<noteq> Inr u" for o' md raw u
    using accepted_nonempty by (auto simp: validateIndexPath_def validateIndexPathBy_def split: option.splits)
  show ?thesis
    using assms False d m v n
    unfolding parseEntry_def f w
    by (auto simp: FilePath_from_def Let_def elim!: bindE_InlE split: option.splits prod.splits if_splits)
qed

lemma parseEntries_refusals:
  "parseEntries bs version dl n at = Inl err \<Longrightarrow>
    indexRefusal err"
proof (induction n arbitrary: at)
  case (Suc n)
  then show ?case using parseEntry_refusals by (auto elim!: bindE_InlE split: prod.splits)
qed simp

lemma parseExtensions_refusals:
  "parseExtensions bs at dl = Inl err \<Longrightarrow> indexRefusal err"
proof (induction bs at dl rule: parseExtensions.induct)
  case (1 bs at dl)
  show ?case
  proof (cases "at + 8 + dl \<le> length bs")
    case True
    then obtain n where n: "getUint32 bs (at + 4) = Inr n" using getUint32_ok [of "at + 4" bs] by auto
    then show ?thesis using 1 True
      by (subst (asm) parseExtensions.simps) (auto simp: Let_def bindE_Inl_iff split: if_splits)
  qed (use 1 in \<open>simp add: parseExtensions.simps\<close>)
qed

definition verifiedEntry :: "indexEntry \<Rightarrow> bool" where
  "verifiedEntry e \<longleftrightarrow>
     filePath e \<noteq> [] \<and> 0 \<notin> set (filePath e) \<and> verifyPath (filePath e) (statMode (entryStat e)) (pathBytes e) = None \<and>
     stage (indexFlags e) \<le> 3"

lemma parseFlags_stage: "stage (parseFlags w x) \<le> 3"
proof -
  have "nat (js_and (js_ushr w 12) 3) \<le> 3" unfolding js_and_flag by (simp add: nat_le_iff)
  then show ?thesis by (simp add: parseFlags_def)
qed

lemma parseEntry_verified:
  assumes "parseEntry bs version dl at = Inr (e, at')"
  shows "verifiedEntry e"
proof -
  have st: "stage fl \<le> 3" if "decodeEntryFlags bs at version dl = Inr (fl, x)" for fl x
    using that parseFlags_stage by (auto simp: decodeEntryFlags_def bindE_Inr_iff Let_def split: if_splits)
  have ok: "0 \<notin> set p \<and> verifyPath p m raw = None \<and> p \<noteq> []" if "validateIndexPath p k m raw = Inr u" for p k m raw u
    using that accepted_nonempty
    by (auto simp: validateIndexPath_def validateIndexPathBy_def rejectionOf_def unsafeReason_def split: option.splits if_splits)
  have fit: "\<not> length bs < at + entryHeaderSize dl + dl" using assms by (auto simp: parseEntry_def)
  obtain f where f: "mapE (\<lambda>i. getUint32 bs (at + 4 * i)) [0..<10] = Inr f"
    using assms fit unfolding parseEntry_def by (auto elim!: bindE_InrE)
  obtain w where w: "getUint16 bs (at + flagsOffset dl) = Inr w"
    using assms fit f unfolding parseEntry_def by (auto elim!: bindE_InrE)
  obtain fl x where fl: "decodeEntryFlags bs at version dl = Inr (fl, x)"
    using assms fit unfolding parseEntry_def f w bindE_simps by (auto elim!: bindE_InrE)
  obtain md where md: "normalizeFileMode (toStringRadix 8 (f ! 6)) = Inr md"
    using assms fit unfolding parseEntry_def f w fl bindE_simps by (auto elim!: bindE_InrE)
  define start where "start = at + entryHeaderSize dl + x"
  obtain z where z: "findNul bs start = Some z"
    using assms fit unfolding parseEntry_def f w fl md bindE_simps prod.case Let_def start_def [symmetric]
    by (cases "findNul bs start") auto
  define raw where "raw = subarray bs start (if nat (js_and w 4095) = 4095 then z else start + nat (js_and w 4095))"
  define p where "p = decodePreservingBom raw"
  have r: "bindE (validateIndexPath p (int at) md (lossyPathBytes p raw)) (\<lambda>_.
      bindE (FilePath_from p) (\<lambda>path.
      Inr (\<lparr>filePath = path, pathBytes = lossyPathBytes p raw,
            entryStat = \<lparr>ctimeSeconds = f ! 0, ctimeNanoseconds = f ! 1, mtimeSeconds = f ! 2,
              mtimeNanoseconds = f ! 3, dev = f ! 4, ino = f ! 5, statMode = md,
              uid = f ! 7, gid = f ! 8, fileSize = f ! 9\<rparr>,
            indexId = bytesToHex (subarray bs (at + 40) (at + 40 + dl)), indexFlags = fl\<rparr>,
           at + align8 (z + 1 - at + 7)))) = Inr (e, at')"
    using assms fit unfolding parseEntry_def f w fl md bindE_simps prod.case Let_def start_def [symmetric] z option.case
      raw_def [symmetric] p_def [symmetric] by simp
  then have v: "validateIndexPath p (int at) md (lossyPathBytes p raw) = Inr ()" by (auto elim!: bindE_InrE)
  then have "FilePath_from p = Inr p" using ok [OF v] by (simp add: FilePath_from_def)
  then show ?thesis using r v ok [OF v] st [OF fl] by (auto simp: verifiedEntry_def)
qed

lemma parseEntries_verified:
  "parseEntries bs version dl n at = Inr (es, at') \<Longrightarrow> (\<forall>e \<in> set es. verifiedEntry e) \<and> length es = n"
proof (induction n arbitrary: at es)
  case (Suc n)
  then obtain e a es' where "parseEntry bs version dl at = Inr (e, a)" "es = e # es'"
    "parseEntries bs version dl n a = Inr (es', at')"
    by (auto simp: bindE_Inr_iff split: prod.splits)
  then show ?case using parseEntry_verified Suc.IH by auto
qed simp

text \<open>An index with one file staged with \<open>git add -N\<close> and one opaque extension.\<close>

definition exampleEntry :: indexEntry where
  "exampleEntry =
     \<lparr>filePath = jslit ''a'', pathBytes = None,
      entryStat = \<lparr>ctimeSeconds = 1, ctimeNanoseconds = 2, mtimeSeconds = 3, mtimeNanoseconds = 4,
        dev = 5, ino = 6, statMode = EXECUTABLE, uid = 7, gid = 8, fileSize = 9\<rparr>,
      indexId = bytesToHex (replicate 20 7), indexFlags = STAGE0_FLAGS\<lparr>intentToAdd := True\<rparr>\<rparr>"

definition exampleIndex :: gitIndex where
  "exampleIndex =
     \<lparr>indexVersion = 3, indexEntries = [exampleEntry],
      extensions = [\<lparr>signature = jslit ''TREE'', extensionData = [0, 49]\<rparr>], trailerSha = replicate 20 0\<rparr>"

lemma exampleEntry_ok: "indexEntryOk 20 exampleEntry" "length (entryImage exampleEntry) < 2147483640"
proof -
  have p: "encode (jslit ''a'') = [97]" by (simp add: jslit_def encode_def utf8_scalar_def isHigh_def isLow_def)
  have i: "idOk 20 exampleEntry" by (simp add: idOk_def idBytes_def exampleEntry_def)
  have l: "length (pathBytesOf exampleEntry) = 1" "0 \<notin> set (pathBytesOf exampleEntry)"
    using p by (simp_all add: pathBytesOf_def exampleEntry_def)
  have v: "verifyPath (jslit ''a'') EXECUTABLE None = None"
    by (simp add: verifyPath_def findComponentRejection_def matchShape_def matchAliasComponent_def isObviouslyNotAnAlias_def
        jslit_def Let_def)
  have r: "rejectionOf verifyPath (jslit ''a'') EXECUTABLE None = None"
    using v by (simp add: rejectionOf_def unsafeReason_def jslit_def)
  have w: "pathView exampleEntry" by (simp add: pathView_def exampleEntry_def wfText_def jslit_def isHigh_def isLow_def)
  have s: "statOk (entryStat exampleEntry)" "stage (indexFlags exampleEntry) \<le> 3"
    using modeNumber_less by (auto simp: statOk_def statFields_def exampleEntry_def STAGE0_FLAGS_def)
  show "indexEntryOk 20 exampleEntry" using i l w s r by (simp add: indexEntryOk_def exampleEntry_def)
  show "length (entryImage exampleEntry) < 2147483640"
    using length_entryImage [OF i] l
    by (simp add: entryHeaderSize_def STAT_FIELDS_SIZE_def FLAGS_WORD_SIZE_def)
qed

section \<open>Properties\<close>

text \<open>C3: Index round trip: an index whose entries are representable (fields of 32 bits, object names of the digest's
  width, admissible paths without a zero byte) and whose extensions are optional ones with four-letter names is
  serialized, and with any checksum appended parses back to its entries in git's order with flags, raw paths and stat
  fields, its extensions and the checksum, as version 3 exactly when an entry needs the extended flags.\<close>

theorem index_roundtrip:
  assumes "\<And>e. e \<in> set (indexEntries idx) \<Longrightarrow> indexEntryOk dl e \<and> length (entryImage e) < 2147483640"
    and "\<And>x. x \<in> set (extensions idx) \<Longrightarrow> extensionOk x"
    and "length (indexEntries idx) < 4294967296" "length trailer = dl"
  shows "\<exists>bs. serializeIndex idx dl = Inr bs \<and>
    parseIndex (bs @ trailer) dl = Inr \<lparr>
      indexVersion = (if list_ex isExtended (indexEntries idx) then 3 else 2),
      indexEntries = jsSort (pathComparatorFor (indexEntries idx)) (indexEntries idx),
      extensions = extensions idx, trailerSha = trailer\<rparr>"
proof -
  have "serializeIndex idx dl = Inr (indexImage dl idx)"
    using assms(1,2) signature_bytes(1) by (intro serializeIndex_image) (auto simp: indexEntryOk_def)
  moreover have "parseIndex (indexImage dl idx @ trailer) dl = Inr \<lparr>
      indexVersion = (if list_ex isExtended (indexEntries idx) then 3 else 2),
      indexEntries = jsSort (pathComparatorFor (indexEntries idx)) (indexEntries idx),
      extensions = extensions idx, trailerSha = trailer\<rparr>"
    by (rule parseIndex_image) (use assms in \<open>auto\<close>)
  ultimately show ?thesis by blast
qed

theorem index_roundtrip_witness:
  "\<exists>bs. serializeIndex exampleIndex 20 = Inr bs \<and>
    parseIndex (bs @ replicate 20 9) 20 = Inr \<lparr>indexVersion = 3, indexEntries = [exampleEntry],
      extensions = [\<lparr>signature = jslit ''TREE'', extensionData = [0, 49]\<rparr>], trailerSha = replicate 20 9\<rparr>"
proof -
  have x: "extensionOk \<lparr>signature = jslit ''TREE'', extensionData = [0, 49]\<rparr>" by (simp add: extensionOk_def jslit_def)
  have s: "jsSort f [exampleEntry] = [exampleEntry]" for f by (simp add: jsSort_def)
  have e: "isExtended exampleEntry" by (simp add: isExtended_def exampleEntry_def)
  show ?thesis
    using index_roundtrip [of exampleIndex 20 "replicate 20 9"] exampleEntry_ok x s e
    by (simp add: exampleIndex_def)
qed



text \<open>C15: No index, however it was made, hands an unsafe path to the rest of the program: every entry of a parsed index
  has a non-empty path without NUL that \<open>verifyPath\<close> admits for its mode, and a stage between 0 and 3; their number is
  the one the header declares.\<close>

theorem parsed_paths_verified:
  assumes "parseIndex bs dl = Inr idx" "e \<in> set (indexEntries idx)"
  shows "filePath e \<noteq> [] \<and> 0 \<notin> set (filePath e) \<and>
    verifyPath (filePath e) (statMode (entryStat e)) (pathBytes e) = None \<and> stage (indexFlags e) \<le> 3 \<and>
    getUint32 bs 8 = Inr (length (indexEntries idx))"
proof -
  obtain v n es at where "getUint32 bs 8 = Inr n" "parseEntries bs v dl n 12 = Inr (es, at)" "indexEntries idx = es"
    using assms(1) by (auto simp: parseIndex_def elim!: bindE_InrE split: if_splits prod.splits)
  then show ?thesis using parseEntries_verified [of bs v dl n 12 es at] assms(2) by (auto simp: verifiedEntry_def)
qed

theorem parsed_paths_verified_witness:
  "\<exists>bs idx. parseIndex bs 20 = Inr idx \<and> indexEntries idx = [exampleEntry] \<and>
    verifyPath (filePath exampleEntry) (statMode (entryStat exampleEntry)) (pathBytes exampleEntry) = None"
proof -
  have x: "extensionOk \<lparr>signature = jslit ''TREE'', extensionData = [0, 49]\<rparr>" by (simp add: extensionOk_def jslit_def)
  have s: "jsSort f [exampleEntry] = [exampleEntry]" for f by (simp add: jsSort_def)
  obtain bs idx where b: "parseIndex bs 20 = Inr idx" "indexEntries idx = [exampleEntry]"
    using parseIndex_image [of exampleIndex 20 "replicate 20 9"] exampleEntry_ok x s by (auto simp: exampleIndex_def)
  then show ?thesis using parsed_paths_verified [OF b(1), of exampleEntry] by auto
qed

end
