(* ===== verification/CacheTree.thy ===== *)
theory CacheTree
  imports IndexProofs Identity
begin

text \<open>
  \<open>git-index/cache-tree.ts\<close> and the cache-tree half of \<open>git-index/index-parser.ts\<close>: the \<open>TREE\<close> extension, which records for
  every directory of the index the tree object it would be written as, and its invalidation when paths change.
\<close>

section \<open>Reading\<close>

text \<open>Path, raw name when the path does not encode to it, number of index entries (negative when invalidated), number of
  subtrees, tree object.\<close>

datatype cacheTreeEntry =
  CacheTreeEntry (ctPath: jsstr) (ctNameBytes: "bytes option") (ctEntryCount: int) (ctSubtreeCount: int)
    (ctId: "objectId option") (ctChildren: "cacheTreeEntry list")

definition MAX_CACHE_TREE_DEPTH :: nat where
  "MAX_CACHE_TREE_DEPTH = 1024"

definition cacheTreeError :: "nat \<Rightarrow> string \<Rightarrow> tsgit_error" where
  "cacheTreeError at what = InvalidIndexEntry (int at) (Reason (''cache-tree '' @ what) [])"

definition roundTrips :: "jsstr \<Rightarrow> bytes \<Rightarrow> bool" where
  "roundTrips path rawName =
     (if list_ex (\<lambda>b. 128 \<le> unat b) rawName then bytesEqual (encode path) rawName else True)"

text \<open>\<open>Number.parseInt\<close> of decimal digits: the double nearest to their value, which is the value itself below \<open>2^53\<close>. (A
  value past the largest double, an infinity in the source, is kept as a number.)\<close>

definition doubleOf :: "nat \<Rightarrow> nat" where
  "doubleOf n = (if n < 2 ^ 53 then n else let unit = 2 ^ (floorLog2 n - 52) in roundHalfEven n unit * unit)"

definition digitsOnly :: "jsstr \<Rightarrow> bool" where
  "digitsOnly s \<longleftrightarrow> s \<noteq> [] \<and> list_all isDecimalDigit s"

definition parseCacheTreeEntryCount :: "jsstr \<Rightarrow> nat \<Rightarrow> tsgit_error + int" where
  "parseCacheTreeEntryCount s at =
     (if s \<noteq> [] \<and> hd s = 45 \<and> digitsOnly (drop 1 s) then Inr (- int (doubleOf (digitsValue 10 (drop 1 s))))
      else if digitsOnly s then Inr (int (doubleOf (digitsValue 10 s)))
      else Inl (cacheTreeError at ''entry has a malformed entry count''))"

definition parseCacheTreeSubtreeCount :: "jsstr \<Rightarrow> nat \<Rightarrow> tsgit_error + int" where
  "parseCacheTreeSubtreeCount s at =
     (if digitsOnly s then Inr (int (doubleOf (digitsValue 10 s)))
      else Inl (cacheTreeError at ''entry has a malformed subtree count''))"

definition readCacheTreeOid ::
    "bytes \<Rightarrow> nat \<Rightarrow> int \<Rightarrow> nat \<Rightarrow> nat \<Rightarrow> tsgit_error + (objectId option \<times> nat)" where
  "readCacheTreeOid bs at entryCount entryStart dl =
     (if entryCount < 0 then Inr (None, at)
      else if length bs < at + dl then Inl (cacheTreeError entryStart ''entry truncated oid'')
      else Inr (Some (bytesToHex (subarray bs at (at + dl))), at + dl))"

text \<open>What \<open>parseCacheTreeEntry\<close> reads before the children: the fields of the entry and the offset behind them.\<close>

definition readCacheTreeHeader ::
    "nat \<Rightarrow> bytes \<Rightarrow> nat \<Rightarrow> tsgit_error + (jsstr \<times> bytes option \<times> int \<times> int \<times> objectId option \<times> nat)" where
  "readCacheTreeHeader dl bs start =
     (case findNul bs start of
        None \<Rightarrow> Inl (cacheTreeError start ''entry missing NUL-terminated path'')
      | Some pathEnd \<Rightarrow>
          let rawName = subarray bs start pathEnd;
              path = decode rawName;
              nameBytes = (if roundTrips path rawName then None else Some rawName)
          in case indexOf bs 32 (pathEnd + 1) of
            None \<Rightarrow> Inl (cacheTreeError start ''entry missing entry-count separator'')
          | Some spaceIndex \<Rightarrow>
              bindE (parseCacheTreeEntryCount (decode (subarray bs (pathEnd + 1) spaceIndex)) start) (\<lambda>entryCount.
              case indexOf bs 10 (spaceIndex + 1) of
                None \<Rightarrow> Inl (cacheTreeError start ''entry missing subtree-count terminator'')
              | Some lfIndex \<Rightarrow>
                  bindE (parseCacheTreeSubtreeCount (decode (subarray bs (spaceIndex + 1) lfIndex)) start) (\<lambda>subtreeCount.
                  bindE (readCacheTreeOid bs (lfIndex + 1) entryCount start dl) (\<lambda>(oid, at).
                  Inr (path, nameBytes, entryCount, subtreeCount, oid, at)))))"

function parseCacheTreeEntry :: "nat \<Rightarrow> bytes \<Rightarrow> nat \<Rightarrow> nat \<Rightarrow> tsgit_error + (cacheTreeEntry \<times> nat)"
  and readCacheTreeChildren :: "nat \<Rightarrow> bytes \<Rightarrow> nat \<Rightarrow> nat \<Rightarrow> nat \<Rightarrow> tsgit_error + (cacheTreeEntry list \<times> nat)" where
  "parseCacheTreeEntry dl bs start depth =
     (if MAX_CACHE_TREE_DEPTH < depth then Inl (cacheTreeError start ''nesting exceeds the maximum depth'')
      else bindE (readCacheTreeHeader dl bs start) (\<lambda>(path, raw, entryCount, subtreeCount, oid, at).
           bindE (readCacheTreeChildren dl bs at (nat subtreeCount) (depth + 1)) (\<lambda>(children, cursor).
           Inr (CacheTreeEntry path raw entryCount subtreeCount oid children, cursor))))"
| "readCacheTreeChildren dl bs cursor 0 depth = Inr ([], cursor)"
| "readCacheTreeChildren dl bs cursor (Suc n) depth =
     bindE (parseCacheTreeEntry dl bs cursor depth) (\<lambda>(child, cursor').
     bindE (readCacheTreeChildren dl bs cursor' n depth) (\<lambda>(children, e). Inr (child # children, e)))"
  by pat_completeness auto
termination
  by (relation "measures [\<lambda>x. case x of Inl (dl, bs, start, depth) \<Rightarrow> 2 * (1025 - depth)
        | Inr (dl, bs, cursor, n, depth) \<Rightarrow> 2 * (1025 - depth) + 1,
      \<lambda>x. case x of Inl _ \<Rightarrow> 0 | Inr (dl, bs, cursor, n, depth) \<Rightarrow> n]")
    (auto simp: MAX_CACHE_TREE_DEPTH_def)

declare parseCacheTreeEntry.simps [simp del]

definition parseCacheTree :: "bytes \<Rightarrow> nat \<Rightarrow> tsgit_error + cacheTreeEntry" where
  "parseCacheTree bs dl =
     bindE (parseCacheTreeEntry dl bs 0 0) (\<lambda>(entry, at).
     if at \<noteq> length bs then Inl (cacheTreeError at ''data has trailing bytes'') else Inr entry)"

section \<open>Writing\<close>

datatype encodedNode =
  EncodedNode (enPath: bytes) (enHeader: bytes) (enOid: bytes) (enChildren: "encodedNode list")

definition nameBytesOf :: "cacheTreeEntry \<Rightarrow> bytes" where
  "nameBytesOf entry = (case ctNameBytes entry of None \<Rightarrow> encode (ctPath entry) | Some bs \<Rightarrow> bs)"

definition encodeOid :: "cacheTreeEntry \<Rightarrow> nat \<Rightarrow> tsgit_error + bytes" where
  "encodeOid entry dl =
     (case ctId entry of
        None \<Rightarrow> Inr []
      | Some h \<Rightarrow>
          if ctEntryCount entry < 0 then Inr []
          else bindE (hexToBytes h) (\<lambda>oid.
               if length oid \<noteq> dl then Inl (cacheTreeError 0 ''oid width does not match the digest length'')
               else Inr oid))"

text \<open>The text \<open>`${entryCount} ${subtreeCount}\n`\<close>.\<close>

definition countsText :: "cacheTreeEntry \<Rightarrow> jsstr" where
  "countsText entry = intText (ctEntryCount entry) @ 32 # intText (ctSubtreeCount entry) @ [10]"

fun measureNode :: "cacheTreeEntry \<Rightarrow> nat \<Rightarrow> tsgit_error + encodedNode"
  and measureNodes :: "cacheTreeEntry list \<Rightarrow> nat \<Rightarrow> tsgit_error + encodedNode list" where
  "measureNode (CacheTreeEntry p raw ec sc oid children) dl =
     (let entry = CacheTreeEntry p raw ec sc oid children in
      bindE (encodeOid entry dl) (\<lambda>oidBytes.
      bindE (measureNodes children dl) (\<lambda>nodes.
      Inr (EncodedNode (nameBytesOf entry) (encode (countsText entry)) oidBytes nodes))))"
| "measureNodes [] dl = Inr []"
| "measureNodes (c # cs) dl =
     bindE (measureNode c dl) (\<lambda>n. bindE (measureNodes cs dl) (\<lambda>ns. Inr (n # ns)))"

fun sizeOf :: "encodedNode \<Rightarrow> nat" where
  "sizeOf (EncodedNode p h oid children) =
     length p + 1 + length h + length oid + sum_list (map sizeOf children)"

fun writeNode :: "encodedNode \<Rightarrow> bytes \<Rightarrow> nat \<Rightarrow> tsgit_error + (bytes \<times> nat)"
  and writeNodes :: "encodedNode list \<Rightarrow> bytes \<Rightarrow> nat \<Rightarrow> tsgit_error + (bytes \<times> nat)" where
  "writeNode (EncodedNode p h oid children) out start =
     bindE (setBytes out p start) (\<lambda>out.
     let cursor = start + length p in
     bindE (setBytes out [0] cursor) (\<lambda>out.
     let cursor = cursor + 1 in
     bindE (setBytes out h cursor) (\<lambda>out.
     let cursor = cursor + length h in
     bindE (setBytes out oid cursor) (\<lambda>out.
     writeNodes children out (cursor + length oid)))))"
| "writeNodes [] out cursor = Inr (out, cursor)"
| "writeNodes (n # ns) out cursor =
     bindE (writeNode n out cursor) (\<lambda>(out, cursor). writeNodes ns out cursor)"

definition serializeCacheTree :: "cacheTreeEntry \<Rightarrow> nat \<Rightarrow> tsgit_error + bytes" where
  "serializeCacheTree root dl =
     bindE (measureNode root dl) (\<lambda>node.
     bindE (writeNode node (replicate (sizeOf node) 0) 0) (\<lambda>(out, cursor). Inr out))"

section \<open>Names and invalidation\<close>

definition keyOfChild :: "cacheTreeEntry \<Rightarrow> jsstr" where
  "keyOfChild child = (case ctNameBytes child of None \<Rightarrow> ctPath child | Some bs \<Rightarrow> decodeEscapingInvalid bs)"

fun namesEachSubtreeOnce :: "cacheTreeEntry \<Rightarrow> bool" where
  "namesEachSubtreeOnce (CacheTreeEntry p raw ec sc oid children) =
     (distinct (map keyOfChild children) \<and> list_all namesEachSubtreeOnce children)"

definition parseCarriedCacheTree :: "bytes \<Rightarrow> nat \<Rightarrow> tsgit_error + cacheTreeEntry option" where
  "parseCarriedCacheTree bs dl =
     (case parseCacheTree bs dl of
        Inr root \<Rightarrow> Inr (if namesEachSubtreeOnce root then Some root else None)
      | Inl (InvalidIndexEntry at r) \<Rightarrow> Inr None
      | Inl err \<Rightarrow> Inl err)"

definition componentKeysOf :: "'a indexPath_scheme \<Rightarrow> jsstr list" where
  "componentKeysOf entry = splitUnit 47 (indexPathKey entry)"

text \<open>The \<open>Map\<close> of groups, in insertion order.\<close>

fun addToGroup :: "jsstr \<Rightarrow> 'a \<Rightarrow> (jsstr \<times> 'a list) list \<Rightarrow> (jsstr \<times> 'a list) list" where
  "addToGroup key item [] = [(key, [item])]"
| "addToGroup key item ((k, grp) # groups) =
     (if k = key then (k, grp @ [item]) # groups else (k, grp) # addToGroup key item groups)"

definition groupByComponent :: "jsstr list list \<Rightarrow> nat \<Rightarrow> (jsstr \<times> jsstr list list) list" where
  "groupByComponent pending depth = foldl (\<lambda>groups item. addToGroup (item ! depth) item groups) [] pending"

definition reachesLeaf :: "jsstr list list \<Rightarrow> nat \<Rightarrow> bool" where
  "reachesLeaf grp depth = list_ex (\<lambda>item. length item = depth + 1) grp"

type_synonym retain = "objectId option \<Rightarrow> objectId option"

definition dropOid :: retain where
  "dropOid oid = None"

definition keepOid :: retain where
  "keepOid oid = oid"

fun invalidateNode :: "cacheTreeEntry \<Rightarrow> jsstr list list \<Rightarrow> nat \<Rightarrow> retain \<Rightarrow> cacheTreeEntry"
  and rebuildChildren ::
    "cacheTreeEntry list \<Rightarrow> (jsstr \<times> jsstr list list) list \<Rightarrow> nat \<Rightarrow> retain \<Rightarrow> cacheTreeEntry list" where
  "invalidateNode (CacheTreeEntry p raw ec sc oid cs) pending depth retain =
     (let children = rebuildChildren cs (groupByComponent pending depth) depth retain in
      CacheTreeEntry p raw (- 1) (sc - (int (length cs) - int (length children))) (retain oid) children)"
| "rebuildChildren [] groups depth retain = []"
| "rebuildChildren (child # rest) groups depth retain =
     (let key = (if groups = [] then None else Some (keyOfChild child));
          grp = (case key of None \<Rightarrow> None | Some k \<Rightarrow> map_of groups k);
          groups' = (case key of None \<Rightarrow> groups | Some k \<Rightarrow> filter (\<lambda>(k', g). k' \<noteq> k) groups);
          children = rebuildChildren rest groups' depth retain
      in case grp of
           None \<Rightarrow> child # children
         | Some g \<Rightarrow> if \<not> reachesLeaf g depth then invalidateNode child g (depth + 1) retain # children else children)"

definition invalidated :: "cacheTreeEntry \<Rightarrow> 'a indexPath_scheme list \<Rightarrow> retain \<Rightarrow> cacheTreeEntry" where
  "invalidated root paths retain =
     (if paths = [] then root else invalidateNode root (map componentKeysOf paths) 0 retain)"

definition invalidateCacheTree :: "cacheTreeEntry \<Rightarrow> 'a indexPath_scheme list \<Rightarrow> cacheTreeEntry" where
  "invalidateCacheTree root paths = invalidated root paths dropOid"

definition invalidateCacheTreeKeepingOids :: "cacheTreeEntry \<Rightarrow> 'a indexPath_scheme list \<Rightarrow> cacheTreeEntry" where
  "invalidateCacheTreeKeepingOids root paths = invalidated root paths keepOid"

end
