(* ===== verification/CacheTreeProofs.thy ===== *)
theory CacheTreeProofs
  imports CacheTree "HOL-Library.Sublist"
begin

text \<open>
  Correctness of the cache tree: it reads back what was written, hostile payloads are bounded and refused quietly, and
  invalidation touches exactly the directories above the changed paths.
\<close>

section \<open>Writing\<close>

fun nodeImage :: "encodedNode \<Rightarrow> bytes" where
  "nodeImage (EncodedNode p h oid children) = p @ [0] @ h @ oid @ concat (map nodeImage children)"

lemma length_nodeImage: "length (nodeImage n) = sizeOf n"
proof (induction n)
  case (EncodedNode p h oid children)
  then have "sum_list (map (length \<circ> nodeImage) children) = sum_list (map sizeOf children)"
    by (intro arg_cong [where f = sum_list] map_cong) simp_all
  then show ?case by (simp add: length_concat)
qed

lemma writeNodes_list:
  assumes "\<And>n k start pre. n \<in> set ns \<Longrightarrow> sizeOf n \<le> k \<Longrightarrow> start = length pre \<Longrightarrow>
      writeNode n (pre @ replicate k 0) start = Inr ((pre @ nodeImage n) @ replicate (k - sizeOf n) 0, start + sizeOf n)"
    and "sum_list (map sizeOf ns) \<le> k" "start = length pre"
  shows "writeNodes ns (pre @ replicate k 0) start
    = Inr ((pre @ concat (map nodeImage ns)) @ replicate (k - sum_list (map sizeOf ns)) 0, start + sum_list (map sizeOf ns))"
  using assms
proof (induction ns arbitrary: k start pre)
  case (Cons n ns)
  have "writeNode n (pre @ replicate k 0) start = Inr ((pre @ nodeImage n) @ replicate (k - sizeOf n) 0, start + sizeOf n)"
    using Cons.prems by simp
  moreover have "writeNodes ns ((pre @ nodeImage n) @ replicate (k - sizeOf n) 0) (start + sizeOf n)
      = Inr (((pre @ nodeImage n) @ concat (map nodeImage ns)) @ replicate (k - sizeOf n - sum_list (map sizeOf ns)) 0,
          start + sizeOf n + sum_list (map sizeOf ns))"
    using Cons.prems(2,3) by (intro Cons.IH Cons.prems(1)) (simp_all add: length_nodeImage)
  ultimately show ?case by (simp add: add.assoc)
qed simp

lemma writeNode_image:
  "sizeOf n \<le> k \<Longrightarrow> start = length pre \<Longrightarrow>
    writeNode n (pre @ replicate k 0) start = Inr ((pre @ nodeImage n) @ replicate (k - sizeOf n) 0, start + sizeOf n)"
proof (induction n arbitrary: k start pre)
  case (EncodedNode p h oid children)
  let ?s = "sum_list (map sizeOf children)"
  have fit: "length p + 1 + length h + length oid + ?s \<le> k" using EncodedNode.prems(1) by simp
  have 1: "setBytes (pre @ replicate k 0) p start = Inr ((pre @ p) @ replicate (k - length p) 0)"
    using fit EncodedNode.prems(2) by (intro setBytes_next) simp_all
  have 2: "setBytes ((pre @ p) @ replicate (k - length p) 0) [0] (start + length p)
      = Inr ((pre @ p @ [0]) @ replicate (k - length p - 1) 0)"
    using fit EncodedNode.prems(2) by (subst setBytes_next) simp_all
  have 3: "setBytes ((pre @ p @ [0]) @ replicate (k - length p - 1) 0) h (start + length p + 1)
      = Inr ((pre @ p @ [0] @ h) @ replicate (k - length p - 1 - length h) 0)"
    using fit EncodedNode.prems(2) by (subst setBytes_next) simp_all
  have 4: "setBytes ((pre @ p @ [0] @ h) @ replicate (k - length p - 1 - length h) 0) oid (start + length p + 1 + length h)
      = Inr ((pre @ p @ [0] @ h @ oid) @ replicate (k - length p - 1 - length h - length oid) 0)"
    using fit EncodedNode.prems(2) by (subst setBytes_next) simp_all
  have 5: "writeNodes children ((pre @ p @ [0] @ h @ oid) @ replicate (k - length p - 1 - length h - length oid) 0)
      (start + length p + 1 + length h + length oid)
    = Inr (((pre @ p @ [0] @ h @ oid) @ concat (map nodeImage children)) @ replicate (k - length p - 1 - length h - length oid - ?s) 0,
        start + length p + 1 + length h + length oid + ?s)"
    using fit EncodedNode.prems(2) by (intro writeNodes_list EncodedNode.IH) simp_all
  show ?case unfolding writeNode.simps Let_def 1 bindE_simps 2 3 4 5 by (simp add: add.assoc)
qed

section \<open>Reading back\<close>

text \<open>A tree \<open>parseCacheTree\<close> can return, at a depth.\<close>

definition nameOk :: "jsstr \<Rightarrow> bytes option \<Rightarrow> bool" where
  "nameOk p raw \<longleftrightarrow>
     (case raw of
        None \<Rightarrow> wfText p \<and> 0 \<notin> set p \<and> (p \<noteq> [] \<longrightarrow> hd p \<noteq> 65279)
      | Some bs \<Rightarrow> 0 \<notin> set bs \<and> p = decode bs \<and> \<not> roundTrips p bs)"

fun wfTree :: "nat \<Rightarrow> nat \<Rightarrow> cacheTreeEntry \<Rightarrow> bool" where
  "wfTree dl depth (CacheTreeEntry p raw ec sc oid children) \<longleftrightarrow>
     depth \<le> 1024 \<and> nameOk p raw \<and> \<bar>ec\<bar> < 2 ^ 53 \<and> sc = int (length children) \<and> sc < 2 ^ 53 \<and>
     (if ec < 0 then oid = None else \<exists>b. length b = dl \<and> oid = Some (bytesToHex b)) \<and>
     list_all (wfTree dl (depth + 1)) children"

lemma decode_encode_plain:
  assumes "wfText p" "p \<noteq> [] \<longrightarrow> hd p \<noteq> 65279"
  shows "decode (encode p) = p"
proof -
  have "take 3 (utf8_encode p) \<noteq> [239, 187, 191]"
  proof
    assume "take 3 (utf8_encode p) = [239, 187, 191]"
    then have e: "utf8_encode p = 239 # 187 # 191 # drop 3 (utf8_encode p)"
      by (metis append_Cons append_Nil append_take_drop_id)
    have "p = utf8_decode (239 # 187 # 191 # drop 3 (utf8_encode p))"
      using decode_encode [OF assms(1)] e by simp
    also have "\<dots> = 65279 # utf8_decode (drop 3 (utf8_encode p))"
      by (simp add: utf8_decode_def utf8_go.simps utf16_scalar_def)
    finally show False using assms(2) by (metis list.distinct(1) list.sel(1))
  qed
  then show ?thesis using decode_encode [OF assms(1)] by (simp add: decode_def encode_def utf8_decode_bom_def)
qed

lemma encode_ascii: "\<forall>u \<in> set s. u < 128 \<Longrightarrow> encode s = map of_nat s"
  using utf8_encode_ascii [of s] by (simp add: encode_def)

lemma decode_ascii_text:
  assumes "\<forall>u \<in> set s. u < 128"
  shows "decode (map of_nat s) = s"
proof -
  have u: "unat (of_nat c :: byte) = c" if "c \<in> set s" for c using that assms by (intro unat_small) auto
  have "unat w < 128" if "w \<in> set (map of_nat s :: bytes)" for w using that u assms by auto
  moreover have "map unat (map of_nat s :: bytes) = s" using u by (simp add: map_idI)
  ultimately show ?thesis using decode_ascii by metis
qed

lemma name_back:
  assumes "nameOk p raw"
  defines "b \<equiv> (case raw of None \<Rightarrow> encode p | Some bs \<Rightarrow> bs)"
  shows "0 \<notin> set b" "decode b = p" "(if roundTrips p b then None else Some b) = raw"
proof -
  show "0 \<notin> set b" using assms encode_no_ascii [of p 0] by (auto simp: nameOk_def encode_def split: option.splits)
  show "decode b = p" using assms decode_encode_plain by (auto simp: nameOk_def split: option.splits)
  show "(if roundTrips p b then None else Some b) = raw"
    using assms by (auto simp: nameOk_def roundTrips_def split: option.splits if_splits)
qed

lemma intText_ascii:
  assumes "u \<in> set (intText n)"
  shows "u < 128" "u \<noteq> 32" "u \<noteq> 10"
proof -
  have "u = 45 \<or> isDecimalDigit u"
    using assms toStringRadix_digits by (auto simp: intText_def split: if_splits)
  then show "u < 128" "u \<noteq> 32" "u \<noteq> 10" by (auto simp: isDecimalDigit_def)
qed

lemma digits_text: "digitsOnly (toStringRadix 10 n)"
  using toStringRadix_digits by (auto simp: digitsOnly_def list_all_iff toStringRadix_nonempty)

lemma counts_back:
  assumes "\<bar>n\<bar> < 2 ^ 53"
  shows "parseCacheTreeEntryCount (intText n) at = Inr n"
    "0 \<le> n \<Longrightarrow> parseCacheTreeSubtreeCount (intText n) at = Inr n"
proof -
  have d: "doubleOf (digitsValue 10 (toStringRadix 10 k)) = k" if "k < 2 ^ 53" for k
    using that by (simp add: digitsValue_toStringRadix doubleOf_def)
  have nat: "nat n < 2 ^ 53" "nat (- n) < 2 ^ 53" using assms by auto
  have nd: "hd (toStringRadix 10 k) \<noteq> 45" for k
  proof -
    have "isDecimalDigit (hd (toStringRadix 10 k))" using toStringRadix_digits toStringRadix_nonempty hd_in_set by metis
    then show ?thesis by (auto simp: isDecimalDigit_def)
  qed
  show "parseCacheTreeEntryCount (intText n) at = Inr n"
    using d nat nd digits_text by (cases "n < 0") (simp_all add: parseCacheTreeEntryCount_def intText_def)
  show "parseCacheTreeSubtreeCount (intText n) at = Inr n" if "0 \<le> n"
    using that d nat digits_text by (simp add: parseCacheTreeSubtreeCount_def intText_def)
qed

lemma countsText_bytes:
  "encode (countsText t) = map of_nat (intText (ctEntryCount t)) @ [32] @ map of_nat (intText (ctSubtreeCount t)) @ [10]"
  using intText_ascii(1) by (subst encode_ascii) (auto simp: countsText_def)

lemma ascii_byte_absent:
  assumes "\<forall>u \<in> set s. u < 128" "c < 128" "c \<notin> set s"
  shows "(of_nat c :: byte) \<notin> set (map of_nat s)"
proof
  assume "(of_nat c :: byte) \<in> set (map of_nat s)"
  then obtain u where u: "u \<in> set s" "(of_nat c :: byte) = of_nat u" by auto
  then have "unat (of_nat c :: byte) = unat (of_nat u :: byte)" by simp
  moreover have "u < 256" "c < 256" using assms(1,2) u(1) by auto
  ultimately have "c = u" using unat_small by metis
  then show False using u(1) assms(3) by simp
qed

definition oidBytes :: "cacheTreeEntry \<Rightarrow> bytes" where
  "oidBytes t = (case ctId t of None \<Rightarrow> [] | Some h \<Rightarrow> (case hexToBytes h of Inr b \<Rightarrow> b | Inl _ \<Rightarrow> []))"

lemma header_back:
  assumes "bs = pre @ nameBytesOf t @ [0] @ encode (countsText t) @ oidBytes t @ post" "start = length pre"
    and "wfTree dl depth t"
  shows "readCacheTreeHeader dl bs start = Inr (ctPath t, ctNameBytes t, ctEntryCount t, ctSubtreeCount t, ctId t,
    start + length (nameBytesOf t) + 1 + length (encode (countsText t)) + length (oidBytes t))"
proof -
  obtain p raw ec sc oid cs where t: "t = CacheTreeEntry p raw ec sc oid cs" by (cases t)
  have ok: "nameOk p raw" "\<bar>ec\<bar> < 2 ^ 53" "0 \<le> sc" "\<bar>sc\<bar> < 2 ^ 53"
    "if ec < 0 then oid = None else \<exists>b. length b = dl \<and> oid = Some (bytesToHex b)"
    using assms(3) by (simp_all add: t)
  let ?n = "nameBytesOf t" and ?e = "map of_nat (intText ec) :: bytes" and ?s = "map of_nat (intText sc) :: bytes"
  have n: "?n = (case raw of None \<Rightarrow> encode p | Some bs \<Rightarrow> bs)" by (cases raw) (simp_all add: nameBytesOf_def t)
  note nb = name_back [OF ok(1), folded n]
  have c: "encode (countsText t) = ?e @ [32] @ ?s @ [10]" by (simp add: countsText_bytes t)
  have a: "\<forall>u \<in> set (intText k). u < 128" for k using intText_ascii(1) by blast
  have b1: "bs = pre @ ?n @ 0 # (?e @ [32] @ ?s @ [10] @ oidBytes t @ post)" unfolding assms(1) c by simp
  have b2: "bs = (pre @ ?n @ [0]) @ ?e @ 32 # (?s @ [10] @ oidBytes t @ post)" unfolding b1 by simp
  have b3: "bs = (pre @ ?n @ [0] @ ?e @ [32]) @ ?s @ 10 # (oidBytes t @ post)" unfolding b1 by simp
  have b4: "bs = (pre @ ?n @ [0] @ ?e @ [32] @ ?s @ [10]) @ oidBytes t @ post" unfolding b1 by simp
  let ?z = "start + length ?n" let ?sp = "?z + 1 + length ?e" let ?lf = "?sp + 1 + length ?s"
  have f0: "findNul bs start = Some ?z"
    unfolding findNul_def b1 using assms(2) nb(1) by (intro indexOfUnit_append)
  have s0: "subarray bs start ?z = ?n" unfolding b1 by (rule subarray_mid [OF assms(2) refl])
  have "(of_nat 32 :: byte) \<notin> set ?e" using intText_ascii(2) a by (intro ascii_byte_absent) auto
  then have "indexOf bs (of_nat 32) (?z + 1) = Some (?z + 1 + length ?e)"
    unfolding indexOf_def b2 using assms(2) indexOfUnit_append [of "of_nat 32" ?e "?z + 1" "pre @ ?n @ [0]"] by simp
  then have f1: "indexOf bs 32 (?z + 1) = Some ?sp" by simp
  have s1: "subarray bs (?z + 1) ?sp = ?e" unfolding b2 using assms(2) by (intro subarray_mid) simp_all
  have "(of_nat 10 :: byte) \<notin> set ?s" using intText_ascii(3) a by (intro ascii_byte_absent) auto
  then have "indexOf bs (of_nat 10) (?sp + 1) = Some (?sp + 1 + length ?s)"
    unfolding indexOf_def b3 using assms(2) indexOfUnit_append [of "of_nat 10" ?s "?sp + 1" "pre @ ?n @ [0] @ ?e @ [32]"] by simp
  then have f2: "indexOf bs 10 (?sp + 1) = Some ?lf" by simp
  have s2: "subarray bs (?sp + 1) ?lf = ?s" unfolding b3 using assms(2) by (intro subarray_mid) simp_all
  have o: "readCacheTreeOid bs (?lf + 1) ec start dl = Inr (oid, ?lf + 1 + length (oidBytes t))"
  proof (cases "ec < 0")
    case True
    then show ?thesis using ok(5) by (simp add: readCacheTreeOid_def oidBytes_def t)
  next
    case False
    then obtain b where b: "length b = dl" "oid = Some (bytesToHex b)" using ok(5) by auto
    then have ob: "oidBytes t = b" by (simp add: oidBytes_def t)
    have "subarray bs (?lf + 1) (?lf + 1 + dl) = b"
      unfolding b4 ob using assms(2) b(1) by (intro subarray_mid) simp_all
    moreover have "\<not> length bs < ?lf + 1 + dl" unfolding b4 ob using assms(2) b(1) by simp
    ultimately show ?thesis using False b ob by (simp add: readCacheTreeOid_def)
  qed
  show ?thesis
    unfolding readCacheTreeHeader_def f0 option.case Let_def s0 nb f1 s1 decode_ascii_text [OF a]
      counts_back(1) [OF ok(2)] bindE_simps f2 s2 counts_back(2) [OF ok(4,3)] o prod.case c
    by (simp add: t)
qed

fun treeImage :: "cacheTreeEntry \<Rightarrow> bytes" where
  "treeImage (CacheTreeEntry p raw ec sc oid children) =
     (let t = CacheTreeEntry p raw ec sc oid children in
      nameBytesOf t @ [0] @ encode (countsText t) @ oidBytes t @ concat (map treeImage children))"

lemma measureNodes_list:
  assumes "\<And>c. c \<in> set cs \<Longrightarrow> \<exists>n. measureNode c dl = Inr n \<and> nodeImage n = treeImage c"
  shows "\<exists>ns. measureNodes cs dl = Inr ns \<and> map nodeImage ns = map treeImage cs"
  using assms
proof (induction cs)
  case (Cons c cs)
  then obtain n ns where "measureNode c dl = Inr n" "nodeImage n = treeImage c"
    "measureNodes cs dl = Inr ns" "map nodeImage ns = map treeImage cs" by force
  then show ?case by simp
qed simp

lemma measureNode_image:
  "wfTree dl depth t \<Longrightarrow> \<exists>n. measureNode t dl = Inr n \<and> nodeImage n = treeImage t"
proof (induction t arbitrary: depth)
  case (CacheTreeEntry p raw ec sc oid children)
  let ?t = "CacheTreeEntry p raw ec sc oid children"
  have "\<exists>n. measureNode c dl = Inr n \<and> nodeImage n = treeImage c" if "c \<in> set children" for c
    using CacheTreeEntry that by (auto simp: list_all_iff)
  then obtain ns where ns: "measureNodes children dl = Inr ns" "map nodeImage ns = map treeImage children"
    using measureNodes_list by blast
  have "encodeOid ?t dl = Inr (oidBytes ?t)"
    using CacheTreeEntry.prems by (auto simp: encodeOid_def oidBytes_def split: if_splits)
  then show ?case using ns by (simp add: Let_def)
qed

lemma readChildren_list:
  assumes "\<And>c pre post. c \<in> set cs \<Longrightarrow>
      parseCacheTreeEntry dl (pre @ treeImage c @ post) (length pre) depth = Inr (c, length pre + length (treeImage c))"
  shows "readCacheTreeChildren dl (pre @ concat (map treeImage cs) @ post) (length pre) (length cs) depth
    = Inr (cs, length pre + length (concat (map treeImage cs)))"
  using assms
proof (induction cs arbitrary: pre)
  case (Cons c cs)
  have "parseCacheTreeEntry dl (pre @ treeImage c @ concat (map treeImage cs) @ post) (length pre) depth
      = Inr (c, length pre + length (treeImage c))"
    using Cons.prems by simp
  moreover have "readCacheTreeChildren dl ((pre @ treeImage c) @ concat (map treeImage cs) @ post) (length (pre @ treeImage c)) (length cs) depth
      = Inr (cs, length (pre @ treeImage c) + length (concat (map treeImage cs)))"
    by (rule Cons.IH) (use Cons.prems in simp)
  ultimately show ?case by (simp add: add.assoc)
qed simp

lemma parseEntry_back:
  "wfTree dl depth t \<Longrightarrow>
    parseCacheTreeEntry dl (pre @ treeImage t @ post) (length pre) depth = Inr (t, length pre + length (treeImage t))"
proof (induction t arbitrary: depth pre post)
  case (CacheTreeEntry p raw ec sc oid children)
  define t where "t = CacheTreeEntry p raw ec sc oid children"
  have wf: "wfTree dl depth t" using CacheTreeEntry.prems by (simp add: t_def)
  let ?h = "nameBytesOf t @ [0] @ encode (countsText t) @ oidBytes t" and ?c = "concat (map treeImage children)"
  have im: "treeImage t = ?h @ ?c" by (simp add: t_def Let_def)
  have hd: "readCacheTreeHeader dl (pre @ treeImage t @ post) (length pre)
      = Inr (p, raw, ec, sc, oid, length pre + length ?h)"
    using header_back [OF _ refl wf, of "pre @ treeImage t @ post" pre "?c @ post"]
    unfolding im by (simp add: t_def add.assoc)
  have ch: "readCacheTreeChildren dl ((pre @ ?h) @ ?c @ post) (length (pre @ ?h)) (length children) (depth + 1)
      = Inr (children, length (pre @ ?h) + length ?c)"
  proof (rule readChildren_list)
    fix c pre post assume "c \<in> set children"
    then show "parseCacheTreeEntry dl (pre @ treeImage c @ post) (length pre) (depth + 1)
        = Inr (c, length pre + length (treeImage c))"
      using CacheTreeEntry by (simp add: list_all_iff)
  qed
  have "\<not> MAX_CACHE_TREE_DEPTH < depth" "nat sc = length children"
    using CacheTreeEntry.prems by (simp_all add: MAX_CACHE_TREE_DEPTH_def)
  then show ?case
    using hd ch unfolding t_def [symmetric] im
    by (subst parseCacheTreeEntry.simps) (simp add: t_def add.assoc)
qed

section \<open>Properties\<close>

text \<open>C20: The cache tree survives the index: a tree of at most 1024 nested levels whose counts are exact and whose valid
  entries carry an object name of the digest's width is serialized, and \<open>parseCacheTree\<close> returns exactly that tree, names
  that are not well-formed UTF-8 and invalidated entries included.\<close>

theorem cacheTree_roundtrip:
  assumes "wfTree dl 0 root"
  shows "\<exists>bs. serializeCacheTree root dl = Inr bs \<and> parseCacheTree bs dl = Inr root"
proof -
  obtain n where n: "measureNode root dl = Inr n" "nodeImage n = treeImage root" using measureNode_image [OF assms] by blast
  have "writeNode n (replicate (sizeOf n) 0) 0 = Inr (nodeImage n, sizeOf n)"
    using writeNode_image [of n "sizeOf n" 0 "[]"] by simp
  then have "serializeCacheTree root dl = Inr (treeImage root)" using n by (simp add: serializeCacheTree_def)
  moreover have "parseCacheTree (treeImage root) dl = Inr root"
    using parseEntry_back [OF assms, of "[]" "[]"] by (simp add: parseCacheTree_def)
  ultimately show ?thesis by blast
qed

section \<open>Invalidation\<close>

text \<open>The node a list of component names leads to.\<close>

fun lookupTree :: "cacheTreeEntry \<Rightarrow> jsstr list \<Rightarrow> cacheTreeEntry option" where
  "lookupTree t [] = Some t"
| "lookupTree t (k # ks) =
     (case find (\<lambda>c. keyOfChild c = k) (ctChildren t) of None \<Rightarrow> None | Some c \<Rightarrow> lookupTree c ks)"

lemma map_of_addToGroup:
  "map_of (addToGroup key item groups) k
    = (if k = key then Some ((case map_of groups k of None \<Rightarrow> [] | Some g \<Rightarrow> g) @ [item]) else map_of groups k)"
  by (induction key item groups rule: addToGroup.induct) auto

lemma map_of_groups:
  "map_of (groupByComponent pending d) k
    = (let g = filter (\<lambda>i. i ! d = k) pending in if g = [] then None else Some g)"
proof (induction pending rule: rev_induct)
  case Nil
  then show ?case by (simp add: groupByComponent_def)
next
  case (snoc i pending)
  have "groupByComponent (pending @ [i]) d = addToGroup (i ! d) i (groupByComponent pending d)"
    by (simp add: groupByComponent_def)
  then show ?case using snoc by (auto simp: map_of_addToGroup Let_def)
qed

lemma map_of_without: "k' \<noteq> k \<Longrightarrow> map_of (filter (\<lambda>(k', g). k' \<noteq> k) groups) k' = map_of groups k'"
  by (induction groups) auto

definition keptChild :: "(jsstr \<times> jsstr list list) list \<Rightarrow> nat \<Rightarrow> retain \<Rightarrow> cacheTreeEntry \<Rightarrow> cacheTreeEntry list" where
  "keptChild groups d r c =
     (case map_of groups (keyOfChild c) of
        None \<Rightarrow> [c] | Some g \<Rightarrow> if reachesLeaf g d then [] else [invalidateNode c g (d + 1) r])"

lemma rebuildChildren_eq:
  "distinct (map keyOfChild cs) \<Longrightarrow> rebuildChildren cs groups d r = concat (map (keptChild groups d r) cs)"
proof (induction cs arbitrary: groups)
  case (Cons c cs)
  let ?k = "keyOfChild c"
  let ?g = "if groups = [] then groups else filter (\<lambda>(k', g). k' \<noteq> ?k) groups"
  have "keptChild ?g d r c' = keptChild groups d r c'" if "c' \<in> set cs" for c'
  proof -
    have "?k \<notin> keyOfChild ` set cs" using Cons.prems by simp
    then have "keyOfChild c' \<noteq> ?k" using that by (metis imageI)
    then have "map_of ?g (keyOfChild c') = map_of groups (keyOfChild c')" using map_of_without by auto
    then show ?thesis by (simp only: keptChild_def)
  qed
  then have "rebuildChildren cs ?g d r = concat (map (keptChild groups d r) cs)"
    using Cons.IH [of ?g] Cons.prems by (simp cong: map_cong)
  then show ?case
    by (cases "groups = []"; cases "map_of groups ?k") (simp_all add: keptChild_def [of _ _ _ c] Let_def)
qed simp

lemma invalidateNode_eq:
  "invalidateNode t pending d r =
    CacheTreeEntry (ctPath t) (ctNameBytes t) (- 1)
      (ctSubtreeCount t - (int (length (ctChildren t))
        - int (length (rebuildChildren (ctChildren t) (groupByComponent pending d) d r))))
      (r (ctId t)) (rebuildChildren (ctChildren t) (groupByComponent pending d) d r)"
  by (cases t) (simp only: invalidateNode.simps Let_def cacheTreeEntry.sel)

lemma invalidateNode_fields:
  "ctPath (invalidateNode t pending d r) = ctPath t" "ctNameBytes (invalidateNode t pending d r) = ctNameBytes t"
  "ctEntryCount (invalidateNode t pending d r) = - 1" "ctId (invalidateNode t pending d r) = r (ctId t)"
  "ctChildren (invalidateNode t pending d r) = rebuildChildren (ctChildren t) (groupByComponent pending d) d r"
  by (simp_all only: invalidateNode_eq cacheTreeEntry.sel)

lemma invalidateNode_key: "keyOfChild (invalidateNode t pending d r) = keyOfChild t"
  by (simp only: keyOfChild_def invalidateNode_fields)

lemma keptChild_key: "c' \<in> set (keptChild groups d r c) \<Longrightarrow> keyOfChild c' = keyOfChild c"
  by (auto simp: keptChild_def invalidateNode_key split: option.splits if_splits)

lemma find_kept:
  assumes "distinct (map keyOfChild cs)"
  shows "find (\<lambda>c. keyOfChild c = k) (concat (map (keptChild groups d r) cs))
    = (case find (\<lambda>c. keyOfChild c = k) cs of None \<Rightarrow> None | Some c \<Rightarrow> (case keptChild groups d r c of [] \<Rightarrow> None | c' # _ \<Rightarrow> Some c'))"
  using assms
proof (induction cs)
  case (Cons c cs)
  have shape: "keptChild groups d r c = [] \<or> (\<exists>c'. keptChild groups d r c = [c'])"
    by (auto simp: keptChild_def split: option.splits)
  show ?case
  proof (cases "keyOfChild c = k")
    case True
    have none: "find (\<lambda>c. keyOfChild c = k) (concat (map (keptChild groups d r) cs)) = None"
    proof -
      have "k \<notin> keyOfChild ` set cs" using Cons.prems True by auto
      then have "keyOfChild c' \<noteq> k" if "c' \<in> set (concat (map (keptChild groups d r) cs))" for c'
        using that keptChild_key by (auto simp: image_iff)
      then show ?thesis unfolding find_None_iff by blast
    qed
    show ?thesis using shape True none keptChild_key [of _ groups d r c] by auto
  next
    case False
    then show ?thesis using shape Cons keptChild_key [of _ groups d r c] by auto
  qed
qed simp

lemma lookup_step:
  assumes "distinct (map keyOfChild (ctChildren t))"
  shows "lookupTree (invalidateNode t pending d r) (k # ks) =
    (case find (\<lambda>c. keyOfChild c = k) (ctChildren t) of
       None \<Rightarrow> None
     | Some c \<Rightarrow>
         let g = filter (\<lambda>i. i ! d = k) pending in
         if g = [] then lookupTree c ks
         else if reachesLeaf g d then None
         else lookupTree (invalidateNode c g (d + 1) r) ks)"
proof -
  have "keyOfChild c = k" if "find (\<lambda>c. keyOfChild c = k) (ctChildren t) = Some c" for c
    using that by (rule find_Some_holds)
  then show ?thesis
    using rebuildChildren_eq [OF assms] find_kept [OF assms, of k]
    by (auto simp: invalidateNode_fields keptChild_def map_of_groups Let_def split: option.splits)
qed

lemma namesOnce_children:
  assumes "namesEachSubtreeOnce t"
  shows "distinct (map keyOfChild (ctChildren t))" "c \<in> set (ctChildren t) \<Longrightarrow> namesEachSubtreeOnce c"
  using assms by (cases t; auto simp: list_all_iff)+

lemma find_mem: "find P xs = Some x \<Longrightarrow> x \<in> set xs"
  by (induction xs) (auto split: if_splits)

lemma drop_eq_Cons: "d < length i \<Longrightarrow> drop d i = i ! d # drop (Suc d) i"
  by (simp add: Cons_nth_drop_Suc)

lemma group_items:
  assumes "\<And>i. i \<in> set pending \<Longrightarrow> d < length i" "\<not> reachesLeaf (filter (\<lambda>i. i ! d = k) pending) d"
    "i \<in> set (filter (\<lambda>i. i ! d = k) pending)"
  shows "Suc d < length i"
proof -
  have "d < length i" "length i \<noteq> d + 1" using assms by (auto simp: reachesLeaf_def list_ex_iff)
  then show ?thesis by simp
qed

lemma invalidated_on_path:
  assumes "namesEachSubtreeOnce t" "\<And>i. i \<in> set pending \<Longrightarrow> d < length i"
    and "i \<in> set pending" "strict_prefix ks (drop d i)" "lookupTree (invalidateNode t pending d r) ks = Some n"
  shows "ctEntryCount n = - 1 \<and> (\<exists>oid. ctId n = r oid)"
  using assms
proof (induction ks arbitrary: t pending d)
  case Nil
  then have "n = invalidateNode t pending d r" by simp
  then show ?case by (auto simp: invalidateNode_fields)
next
  case (Cons k ks)
  have i: "i ! d = k" "strict_prefix ks (drop (Suc d) i)"
    using Cons.prems(2,3,4) drop_eq_Cons [of d i] by (auto simp: strict_prefix_def)
  let ?g = "filter (\<lambda>i. i ! d = k) pending"
  have ig: "i \<in> set ?g" using i Cons.prems(3) by simp
  note st = lookup_step [OF namesOnce_children(1) [OF Cons.prems(1)], of pending d r k ks]
  from Cons.prems(5) st ig obtain c where c: "find (\<lambda>c. keyOfChild c = k) (ctChildren t) = Some c"
    "\<not> reachesLeaf ?g d" "lookupTree (invalidateNode c ?g (d + 1) r) ks = Some n"
    by (auto simp: Let_def filter_empty_conv split: option.splits if_splits)
  show ?case
  proof (rule Cons.IH)
    show "namesEachSubtreeOnce c" using namesOnce_children(2) [OF Cons.prems(1)] find_mem [OF c(1)] .
    show "d + 1 < length j" if "j \<in> set ?g" for j using group_items [OF Cons.prems(2) c(2) that] by simp
  qed (use ig i c in simp_all)
qed

lemma invalidated_leaf:
  assumes "namesEachSubtreeOnce t" "\<And>i. i \<in> set pending \<Longrightarrow> d < length i" "i \<in> set pending"
  shows "lookupTree (invalidateNode t pending d r) (drop d i) = None"
  using assms
proof (induction "length i - d" arbitrary: t pending d)
  case 0
  then show ?case by fastforce
next
  case (Suc x)
  have d: "d < length i" using Suc.prems by simp
  let ?k = "i ! d" let ?g = "filter (\<lambda>j. j ! d = ?k) pending"
  have ig: "i \<in> set ?g" using Suc.prems(3) by simp
  note st = lookup_step [OF namesOnce_children(1) [OF Suc.prems(1)], of pending d r ?k "drop (Suc d) i", folded drop_eq_Cons [OF d]]
  show ?case
  proof (rule ccontr)
    assume "lookupTree (invalidateNode t pending d r) (drop d i) \<noteq> None"
    then obtain c where c: "find (\<lambda>c. keyOfChild c = ?k) (ctChildren t) = Some c"
      "\<not> reachesLeaf ?g d" "lookupTree (invalidateNode c ?g (d + 1) r) (drop (Suc d) i) \<noteq> None"
      using st ig by (auto simp: Let_def filter_empty_conv split: option.splits if_splits)
    have "lookupTree (invalidateNode c ?g (d + 1) r) (drop (d + 1) i) = None"
    proof (rule Suc.hyps(1))
      show "namesEachSubtreeOnce c" using namesOnce_children(2) [OF Suc.prems(1)] find_mem [OF c(1)] .
      show "d + 1 < length j" if "j \<in> set ?g" for j using group_items [OF Suc.prems(2) c(2) that] by simp
    qed (use Suc.hyps(2) ig in simp_all)
    then show False using c(3) by simp
  qed
qed

lemma untouched_elsewhere:
  assumes "namesEachSubtreeOnce t" "pending \<noteq> []" "\<And>i. i \<in> set pending \<Longrightarrow> d < length i"
    and "\<And>i. i \<in> set pending \<Longrightarrow> \<not> prefix ks (drop d i) \<and> \<not> prefix (drop d i) ks"
  shows "lookupTree (invalidateNode t pending d r) ks = lookupTree t ks"
  using assms
proof (induction ks arbitrary: t pending d)
  case Nil
  then show ?case by (cases pending) auto
next
  case (Cons k ks)
  let ?g = "filter (\<lambda>i. i ! d = k) pending"
  note st = lookup_step [OF namesOnce_children(1) [OF Cons.prems(1)], of pending d r k ks]
  show ?case
  proof (cases "find (\<lambda>c. keyOfChild c = k) (ctChildren t)")
    case None
    then show ?thesis using st by simp
  next
    case (Some c)
    show ?thesis
    proof (cases "?g = []")
      case True
      then show ?thesis using st Some by (simp add: Let_def)
    next
      case False
      have off: "\<not> prefix ks (drop (Suc d) i) \<and> \<not> prefix (drop (Suc d) i) ks" if "i \<in> set ?g" for i
        using that Cons.prems(3,4) [of i] drop_eq_Cons [of d i] by auto
      have nl: "\<not> reachesLeaf ?g d"
      proof
        assume "reachesLeaf ?g d"
        then obtain i where "i \<in> set ?g" "length i = d + 1" by (auto simp: reachesLeaf_def list_ex_iff)
        then show False using off [of i] by simp
      qed
      have "lookupTree (invalidateNode c ?g (d + 1) r) ks = lookupTree c ks"
      proof (rule Cons.IH)
        show "namesEachSubtreeOnce c" using namesOnce_children(2) [OF Cons.prems(1)] find_mem [OF Some] .
        show "d + 1 < length j" if "j \<in> set ?g" for j using group_items [OF Cons.prems(3) nl that] by simp
      qed (use False off in auto)
      then show ?thesis using st Some False nl by (simp add: Let_def)
    qed
  qed
qed

lemma kept_keys:
  "length (concat (map (keptChild groups d r) cs)) \<le> length cs"
  "set (map keyOfChild (concat (map (keptChild groups d r) cs))) \<subseteq> set (map keyOfChild cs)"
  "distinct (map keyOfChild cs) \<Longrightarrow> distinct (map keyOfChild (concat (map (keptChild groups d r) cs)))"
proof (induction cs)
  case (Cons c cs)
  have shape: "keptChild groups d r c = [] \<or> (\<exists>c'. keptChild groups d r c = [c'] \<and> keyOfChild c' = keyOfChild c)"
    by (auto simp: keptChild_def invalidateNode_key split: option.splits)
  { case 1 then show ?case using shape Cons.IH(1) by auto }
  { case 2 then show ?case using shape Cons.IH(2) by auto }
  { case 3
    let ?ks = "map keyOfChild (concat (map (keptChild groups d r) cs))"
    have "keyOfChild c \<notin> set ?ks" "distinct ?ks" using 3 Cons.IH(2,3) by auto
    then have "distinct (map keyOfChild (keptChild groups d r c) @ ?ks)" using shape by auto
    then show ?case by (simp only: list.map(2) concat.simps map_append) }
qed simp_all

lemma wfTree_fields:
  "wfTree dl depth t \<longleftrightarrow> depth \<le> 1024 \<and> nameOk (ctPath t) (ctNameBytes t) \<and> \<bar>ctEntryCount t\<bar> < 2 ^ 53 \<and>
     ctSubtreeCount t = int (length (ctChildren t)) \<and> ctSubtreeCount t < 2 ^ 53 \<and>
     (if ctEntryCount t < 0 then ctId t = None else \<exists>b. length b = dl \<and> ctId t = Some (bytesToHex b)) \<and>
     list_all (wfTree dl (depth + 1)) (ctChildren t)"
  by (cases t) simp

lemma namesOnce_fields:
  "namesEachSubtreeOnce t \<longleftrightarrow> distinct (map keyOfChild (ctChildren t)) \<and> list_all namesEachSubtreeOnce (ctChildren t)"
  by (cases t) simp

lemma invalidateNode_wf:
  assumes "wfTree dl depth t" "namesEachSubtreeOnce t"
  shows "wfTree dl depth (invalidateNode t pending d dropOid) \<and> namesEachSubtreeOnce (invalidateNode t pending d dropOid)"
  using assms
proof (induction t arbitrary: depth pending d)
  case (CacheTreeEntry p raw ec sc oid cs)
  let ?t = "CacheTreeEntry p raw ec sc oid cs" let ?g = "groupByComponent pending d"
  have dist: "distinct (map keyOfChild cs)" using CacheTreeEntry.prems(2) by simp
  note re = rebuildChildren_eq [OF dist, of ?g d dropOid]
  have kept: "wfTree dl (depth + 1) c' \<and> namesEachSubtreeOnce c'" if "c \<in> set cs" "c' \<in> set (keptChild ?g d dropOid c)" for c c'
  proof -
    have ok: "wfTree dl (depth + 1) c" "namesEachSubtreeOnce c" using CacheTreeEntry.prems that(1) by (simp_all add: list_all_iff)
    show ?thesis
    proof (cases "map_of ?g (keyOfChild c)")
      case None
      then show ?thesis using that(2) ok by (simp add: keptChild_def)
    next
      case (Some grp)
      then have "c' = invalidateNode c grp (d + 1) dropOid"
        using that(2) by (simp add: keptChild_def split: if_splits)
      then show ?thesis using CacheTreeEntry.IH [OF that(1) ok] by (simp only:)
    qed
  qed
  let ?cs = "concat (map (keptChild ?g d dropOid) cs)"
  have all: "list_all (wfTree dl (depth + 1)) ?cs" "list_all namesEachSubtreeOnce ?cs"
    using kept by (auto simp: list_all_iff)
  have top: "depth \<le> 1024" "nameOk p raw" "sc = int (length cs)" "sc < 2 ^ 53"
    using CacheTreeEntry.prems(1) by simp_all
  note len = kept_keys(1) [of ?g d dropOid cs]
  have e: "invalidateNode ?t pending d dropOid = CacheTreeEntry p raw (- 1) (int (length ?cs)) None ?cs"
    using top(3) by (simp only: invalidateNode_eq cacheTreeEntry.sel re dropOid_def diff_diff_eq2 add_diff_cancel_left')
  have "wfTree dl depth (CacheTreeEntry p raw (- 1) (int (length ?cs)) None ?cs)"
    using top all len by simp
  moreover have "namesEachSubtreeOnce (CacheTreeEntry p raw (- 1) (int (length ?cs)) None ?cs)"
    using all kept_keys(3) [OF dist] by simp
  ultimately show ?case unfolding e by blast
qed

lemma componentKeys_nonempty: "0 < length (componentKeysOf p)"
  by (simp add: componentKeysOf_def)

section \<open>Properties of the invalidation\<close>

text \<open>C4: Invalidation is exact: in a cache tree that names each subtree once, every directory on the way to a changed path
  is left without a count and without an object name, a subtree that stands where a changed path is now a file is gone, and
  every directory that is neither above nor below a changed path is unchanged.\<close>

theorem cacheTree_invalidation_exact:
  assumes "namesEachSubtreeOnce root" "p \<in> set paths"
  shows "(\<forall>ks n. strict_prefix ks (componentKeysOf p) \<longrightarrow>
        lookupTree (invalidateCacheTree root paths) ks = Some n \<longrightarrow> ctEntryCount n = - 1 \<and> ctId n = None)
    \<and> lookupTree (invalidateCacheTree root paths) (componentKeysOf p) = None
    \<and> (\<forall>ks. (\<forall>q \<in> set paths. \<not> prefix ks (componentKeysOf q) \<and> \<not> prefix (componentKeysOf q) ks) \<longrightarrow>
        lookupTree (invalidateCacheTree root paths) ks = lookupTree root ks)"
proof -
  let ?P = "map componentKeysOf paths"
  have inv: "invalidateCacheTree root paths = invalidateNode root ?P 0 dropOid"
    using assms(2) by (auto simp: invalidateCacheTree_def invalidated_def)
  have pos: "\<And>i. i \<in> set ?P \<Longrightarrow> 0 < length i" using componentKeys_nonempty by auto
  have mem: "componentKeysOf p \<in> set ?P" using assms(2) by simp
  have 1: "ctEntryCount n = - 1 \<and> ctId n = None"
    if "strict_prefix ks (componentKeysOf p)" "lookupTree (invalidateCacheTree root paths) ks = Some n" for ks n
    using invalidated_on_path [OF assms(1) pos mem, of ks dropOid n] that unfolding inv by (auto simp: dropOid_def)
  have 2: "lookupTree (invalidateCacheTree root paths) (componentKeysOf p) = None"
    using invalidated_leaf [OF assms(1) pos mem, of dropOid] unfolding inv by simp
  have 3: "lookupTree (invalidateCacheTree root paths) ks = lookupTree root ks"
    if "\<forall>q \<in> set paths. \<not> prefix ks (componentKeysOf q) \<and> \<not> prefix (componentKeysOf q) ks" for ks
    unfolding inv using that assms(2) by (intro untouched_elsewhere [OF assms(1) _ pos]) auto
  show ?thesis using 1 2 3 by blast
qed

text \<open>C22: Invalidation keeps the cache tree writable: a well-formed tree that names each subtree once stays one whatever
  paths changed, its subtree counts still exact, so that what is written back parses to it.\<close>

theorem cacheTree_invalidation_keeps_wf:
  assumes "wfTree dl 0 root" "namesEachSubtreeOnce root"
  shows "wfTree dl 0 (invalidateCacheTree root paths) \<and> namesEachSubtreeOnce (invalidateCacheTree root paths) \<and>
    bindE (serializeCacheTree (invalidateCacheTree root paths) dl) (\<lambda>bs. parseCarriedCacheTree bs dl)
      = Inr (Some (invalidateCacheTree root paths))"
proof -
  have ok: "wfTree dl 0 (invalidateCacheTree root paths) \<and> namesEachSubtreeOnce (invalidateCacheTree root paths)"
    using assms invalidateNode_wf by (simp add: invalidateCacheTree_def invalidated_def)
  then obtain n where n: "measureNode (invalidateCacheTree root paths) dl = Inr n"
    "nodeImage n = treeImage (invalidateCacheTree root paths)" using measureNode_image by blast
  have "writeNode n (replicate (sizeOf n) 0) 0 = Inr (nodeImage n, sizeOf n)"
    using writeNode_image [of n "sizeOf n" 0 "[]"] by simp
  then have "serializeCacheTree (invalidateCacheTree root paths) dl = Inr (treeImage (invalidateCacheTree root paths))"
    using n by (simp add: serializeCacheTree_def)
  moreover have "parseCacheTree (treeImage (invalidateCacheTree root paths)) dl = Inr (invalidateCacheTree root paths)"
    using parseEntry_back [of dl 0 "invalidateCacheTree root paths" "[]" "[]"] ok by (simp add: parseCacheTree_def)
  ultimately show ?thesis using ok by (simp add: parseCarriedCacheTree_def)
qed

text \<open>A root with a valid subdirectory \<open>a\<close> and an invalidated one \<open>b\<close> that has a name outside UTF-8 below it.\<close>

definition exampleCacheTree :: cacheTreeEntry where
  "exampleCacheTree =
     CacheTreeEntry [] None (- 1) 2 None
       [CacheTreeEntry [97] None 3 0 (Some (bytesToHex (replicate 20 1))) [],
        CacheTreeEntry [98] None (- 1) 1 None
          [CacheTreeEntry [65533] (Some [255]) 1 0 (Some (bytesToHex (replicate 20 2))) []]]"

lemma exampleCacheTree_ok: "wfTree 20 0 exampleCacheTree" "namesEachSubtreeOnce exampleCacheTree"
proof -
  have n: "nameOk [] None" "nameOk [97] None" "nameOk [98] None" "nameOk [65533] (Some [255])"
    by (simp_all add: nameOk_def wfText_def isHigh_def isLow_def decode_def utf8_decode_bom_def utf8_decode_def utf8_go.simps
        roundTrips_def encode_def utf8_scalar_def)
  have o: "\<exists>b. length b = 20 \<and> bytesToHex (replicate 20 w) = bytesToHex b" for w
    by (intro exI [of _ "replicate 20 w"]) simp
  show "wfTree 20 0 exampleCacheTree" using n o by (simp add: exampleCacheTree_def)
  show "namesEachSubtreeOnce exampleCacheTree" by (simp add: exampleCacheTree_def keyOfChild_def)
qed

theorem cacheTree_roundtrip_witness:
  "\<exists>bs. serializeCacheTree exampleCacheTree 20 = Inr bs \<and> parseCacheTree bs 20 = Inr exampleCacheTree"
  by (rule cacheTree_roundtrip [OF exampleCacheTree_ok(1)])

theorem cacheTree_invalidation_exact_witness:
  "lookupTree (invalidateCacheTree exampleCacheTree [\<lparr>filePath = jslit ''a/x'', pathBytes = None\<rparr>]) [[98]]
    = lookupTree exampleCacheTree [[98]]"
proof -
  let ?p = "\<lparr>filePath = jslit ''a/x'', pathBytes = None\<rparr>"
  have k: "componentKeysOf ?p = [[97], [120]]"
    by (simp add: componentKeysOf_def indexPathKey_def escapedPathOf_def jslit_def)
  have "\<forall>q \<in> set [?p]. \<not> prefix [[98]] (componentKeysOf q) \<and> \<not> prefix (componentKeysOf q) [[98]]"
    by (simp add: k)
  then show ?thesis using cacheTree_invalidation_exact [OF exampleCacheTree_ok(2), of ?p "[?p]"] by auto
qed

theorem cacheTree_invalidation_keeps_wf_witness:
  "wfTree 20 0 (invalidateCacheTree exampleCacheTree [\<lparr>filePath = jslit ''a/x'', pathBytes = None\<rparr>])"
  using cacheTree_invalidation_keeps_wf [OF exampleCacheTree_ok] by blast

section \<open>Hostile payloads\<close>

definition entryRefusal :: "tsgit_error \<Rightarrow> bool" where
  "entryRefusal err \<longleftrightarrow> (\<exists>at r. err = InvalidIndexEntry at r)"

lemma readHeader_refusals: "readCacheTreeHeader dl bs start = Inl err \<Longrightarrow> entryRefusal err"
  by (auto simp: readCacheTreeHeader_def readCacheTreeOid_def parseCacheTreeEntryCount_def parseCacheTreeSubtreeCount_def
      cacheTreeError_def entryRefusal_def Let_def elim!: bindE_InlE split: option.splits if_splits)

lemma parseCacheTree_steps:
  "parseCacheTreeEntry dl bs start depth = Inl err \<Longrightarrow> entryRefusal err"
  "readCacheTreeChildren dl bs start n depth = Inl err \<Longrightarrow> entryRefusal err"
proof (induction dl bs start depth and dl bs start n depth arbitrary: err and err
    rule: parseCacheTreeEntry_readCacheTreeChildren.induct)
  case (1 dl bs start depth)
  show ?case
  proof (cases "MAX_CACHE_TREE_DEPTH < depth")
    case True
    then show ?thesis using 1(2) by (auto simp: parseCacheTreeEntry.simps cacheTreeError_def entryRefusal_def)
  next
    case False
    then have "bindE (readCacheTreeHeader dl bs start) (\<lambda>(path, raw, entryCount, subtreeCount, oid, at).
        bindE (readCacheTreeChildren dl bs at (nat subtreeCount) (depth + 1)) (\<lambda>(children, cursor).
        Inr (CacheTreeEntry path raw entryCount subtreeCount oid children, cursor))) = Inl err"
      using 1(2) by (simp add: parseCacheTreeEntry.simps [of dl bs start])
    then show ?thesis using 1(1) [OF False] by (elim bindE_InlE) (auto elim!: bindE_InlE dest: readHeader_refusals)
  qed
next
  case (3 dl bs cursor n depth)
  then show ?case by (auto elim!: bindE_InlE)
qed simp

text \<open>What every tree the parser returns satisfies at its depth.\<close>

fun boundedTree :: "nat \<Rightarrow> cacheTreeEntry \<Rightarrow> bool" where
  "boundedTree depth (CacheTreeEntry p raw ec sc oid children) \<longleftrightarrow>
     depth \<le> 1024 \<and> sc = int (length children) \<and> list_all (boundedTree (depth + 1)) children"

lemma subtreeCount_nonneg:
  "readCacheTreeHeader dl bs start = Inr (p, raw, ec, sc, oid, at) \<Longrightarrow> 0 \<le> sc"
  by (auto simp: readCacheTreeHeader_def parseCacheTreeSubtreeCount_def Let_def elim!: bindE_InrE split: option.splits if_splits)

lemma parseCacheTree_bounded:
  "parseCacheTreeEntry dl bs start depth = Inr (t, e) \<Longrightarrow> boundedTree depth t"
  "readCacheTreeChildren dl bs start n depth = Inr (ts, e) \<Longrightarrow> length ts = n \<and> list_all (boundedTree depth) ts"
proof (induction dl bs start depth and dl bs start n depth arbitrary: t e and ts e
    rule: parseCacheTreeEntry_readCacheTreeChildren.induct)
  case (1 dl bs start depth)
  then have d: "\<not> MAX_CACHE_TREE_DEPTH < depth" by (auto simp: parseCacheTreeEntry.simps)
  obtain p raw ec sc oid at where h: "readCacheTreeHeader dl bs start = Inr (p, raw, ec, sc, oid, at)"
    using 1(2) d by (auto simp: parseCacheTreeEntry.simps elim!: bindE_InrE)
  obtain cs where c: "readCacheTreeChildren dl bs at (nat sc) (depth + 1) = Inr (cs, e)"
    "t = CacheTreeEntry p raw ec sc oid cs"
    using 1(2) d h by (auto simp: parseCacheTreeEntry.simps elim!: bindE_InrE)
  have "length cs = nat sc \<and> list_all (boundedTree (depth + 1)) cs"
    using 1(1) [OF d h refl refl refl refl refl c(1)] .
  then show ?case using c(2) d subtreeCount_nonneg [OF h] by (simp add: MAX_CACHE_TREE_DEPTH_def)
next
  case (3 dl bs cursor n depth)
  from 3(3) obtain c e' cs where c: "parseCacheTreeEntry dl bs cursor depth = Inr (c, e')"
    "readCacheTreeChildren dl bs e' n depth = Inr (cs, e)" "ts = c # cs"
    by (auto elim!: bindE_InrE)
  then show ?case using 3(1) [OF c(1)] 3(2) [OF c(1) refl c(2)] by simp
qed simp

text \<open>A \<open>TREE\<close> extension, however malformed, never makes reading it fail: the carried cache tree is either absent or a
  tree of at most 1024 nested levels whose subtree counts are exact and which names each subtree once.\<close>

theorem carried_tree_total:
  "\<exists>res. parseCarriedCacheTree bs dl = Inr res \<and>
    (case res of None \<Rightarrow> True | Some t \<Rightarrow> boundedTree 0 t \<and> namesEachSubtreeOnce t)"
proof (cases "parseCacheTree bs dl")
  case (Inl err)
  then have "entryRefusal err"
    using parseCacheTree_steps(1) [of dl bs 0 0]
    by (auto simp: parseCacheTree_def cacheTreeError_def entryRefusal_def elim!: bindE_InlE split: if_splits)
  then show ?thesis using Inl by (auto simp: parseCarriedCacheTree_def entryRefusal_def)
next
  case (Inr t)
  then have "boundedTree 0 t"
    using parseCacheTree_bounded(1) [of dl bs 0 0 t] by (auto simp: parseCacheTree_def elim!: bindE_InrE split: if_splits)
  then show ?thesis using Inr by (simp add: parseCarriedCacheTree_def)
qed

end
