(* ===== verification/Ewah.thy ===== *)
theory Ewah
  imports Errors
begin

text \<open>
  \<open>storage/ewah.ts\<close>: word-aligned run-length compressed bitmaps. A destination is a list of 32-bit lanes, a
  \<open>Uint32Array\<close> of the source; the folds return it changed. Lane positions are exact: in the source they are doubles,
  which they equal below \<open>2^53\<close>.
\<close>

section \<open>Streams\<close>

record ewahStream =
  bitSize :: nat
  wordCount :: nat
  wordsOffset :: nat
  endOffset :: nat

datatype ewahFoldOp = FoldOr | FoldXor

definition EWAH_STREAM_HEADER_SIZE :: nat where
  "EWAH_STREAM_HEADER_SIZE = 8"

definition EWAH_WORD_SIZE :: nat where
  "EWAH_WORD_SIZE = 8"

definition EWAH_POSITION_WORD_SIZE :: nat where
  "EWAH_POSITION_WORD_SIZE = 4"

definition LANES_PER_WORD :: nat where
  "LANES_PER_WORD = 2"

definition LANE_BITS :: nat where
  "LANE_BITS = 32"

definition FULL_LANE :: int where
  "FULL_LANE = 4294967295"

definition NO_SET_BIT :: int where
  "NO_SET_BIT = - 1"

definition readEwahStream :: "bytes \<Rightarrow> nat \<Rightarrow> tsgit_error + ewahStream" where
  "readEwahStream bs at =
     (if length bs < at + EWAH_STREAM_HEADER_SIZE
      then Inl (InvalidPackBitmap ChkStream (Reason ''truncated stream descriptor at offset #'' [int at]))
      else
        bindE (getUint32 bs at) (\<lambda>bits.
        bindE (getUint32 bs (at + 4)) (\<lambda>cnt.
        let start = at + EWAH_STREAM_HEADER_SIZE;
            stop = start + cnt * EWAH_WORD_SIZE + EWAH_POSITION_WORD_SIZE
        in if length bs < stop
           then Inl (InvalidPackBitmap ChkStream
             (Reason ''stream at offset # declares # word(s), which overruns the buffer'' [int at, int cnt]))
           else Inr \<lparr>bitSize = bits, wordCount = cnt, wordsOffset = start, endOffset = stop\<rparr>)))"

record runLengthWord =
  runValue :: nat
  cleanWordCount :: nat
  literalWordCount :: nat

definition decodeRunLengthWord :: "nat \<Rightarrow> nat \<Rightarrow> runLengthWord" where
  "decodeRunLengthWord high low =
     \<lparr>runValue = nat (js_and (int low) 1),
      cleanWordCount = nat (js_ushr (js_or (js_ushr (int low) 1) (js_shl (js_and (int high) 1) 31)) 0),
      literalWordCount = nat (js_ushr (int high) 1)\<rparr>"

definition readWordHalves :: "bytes \<Rightarrow> nat \<Rightarrow> tsgit_error + (nat \<times> nat)" where
  "readWordHalves bs at =
     bindE (getUint32 bs at) (\<lambda>high. bindE (getUint32 bs (at + 4)) (\<lambda>low. Inr (high, low)))"

section \<open>Folding\<close>

definition applyFold :: "int \<Rightarrow> int \<Rightarrow> ewahFoldOp \<Rightarrow> int" where
  "applyFold current v op = js_ushr (case op of FoldOr \<Rightarrow> js_or current v | FoldXor \<Rightarrow> js_xor current v) 0"

definition fillClean :: "int list \<Rightarrow> nat \<Rightarrow> nat \<Rightarrow> ewahFoldOp \<Rightarrow> int list \<times> nat" where
  "fillClean into from n op =
     (let stop = min (from + n) (length into)
      in (foldl (\<lambda>into lane. into[lane := applyFold (into ! lane) FULL_LANE op]) into [from..<stop], stop))"

definition foldLiteralLane :: "int list \<Rightarrow> nat \<Rightarrow> nat \<Rightarrow> ewahFoldOp \<Rightarrow> int list \<times> nat" where
  "foldLiteralLane into lane v op =
     ((if lane < length into then into[lane := applyFold (into ! lane) (int v) op] else into),
      min (lane + 1) (length into))"

definition availableWordCount :: "bytes \<Rightarrow> nat \<Rightarrow> nat" where
  "availableWordCount bs from = nat (max 0 ((int (length bs) - int from) div int EWAH_WORD_SIZE))"

text \<open>The literal words behind a run-length word: the inner loop.\<close>

function literalLoop ::
    "bytes \<Rightarrow> nat \<Rightarrow> nat \<Rightarrow> ewahFoldOp \<Rightarrow> nat \<Rightarrow> nat \<Rightarrow> int list \<Rightarrow> nat \<Rightarrow> nat \<Rightarrow> tsgit_error + (int list \<times> nat \<times> nat)" where
  "literalLoop bs from wordLimit op cnt i into lane wordIndex =
     (if i < cnt \<and> wordIndex < wordLimit then
        bindE (readWordHalves bs (from + wordIndex * EWAH_WORD_SIZE)) (\<lambda>(literalHigh, literalLow).
        let (into, lane) = foldLiteralLane into lane literalLow op;
            (into, lane) = foldLiteralLane into lane literalHigh op
        in literalLoop bs from wordLimit op cnt (i + 1) into lane (wordIndex + 1))
      else Inr (into, lane, wordIndex))"
  by pat_completeness auto
termination
  by (relation "measure (\<lambda>(bs, from, wordLimit, op, cnt, i, into, lane, wordIndex). cnt - i)") auto

declare literalLoop.simps [simp del]

lemma literalLoop_index:
  "literalLoop bs from wordLimit op cnt i into lane wordIndex = Inr (into', lane', w) \<Longrightarrow> wordIndex \<le> w"
proof (induction bs "from" wordLimit op cnt i into lane wordIndex rule: literalLoop.induct)
  case (1 bs "from" wordLimit op cnt i into lane wordIndex)
  show ?case
  proof (cases "i < cnt \<and> wordIndex < wordLimit")
    case True
    obtain h l where r: "readWordHalves bs (from + wordIndex * EWAH_WORD_SIZE) = Inr (h, l)"
      using 1(2) True by (auto simp: literalLoop.simps [of bs "from"] bindE_Inr_iff)
    obtain i1 l1 where a: "foldLiteralLane into lane l op = (i1, l1)" by (cases "foldLiteralLane into lane l op")
    obtain i2 l2 where b: "foldLiteralLane i1 l1 h op = (i2, l2)" by (cases "foldLiteralLane i1 l1 h op")
    have "literalLoop bs from wordLimit op cnt (i + 1) i2 l2 (wordIndex + 1) = Inr (into', lane', w)"
      using 1(2) True r a b by (simp add: literalLoop.simps [of bs "from" wordLimit op cnt i])
    then show ?thesis using 1(1) [OF True r refl a [symmetric] refl b [symmetric] refl] by simp
  next
    case False
    then show ?thesis using 1(2) by (auto simp add: literalLoop.simps [of bs "from"] split: if_splits)
  qed
qed

function foldLoop ::
    "bytes \<Rightarrow> nat \<Rightarrow> nat \<Rightarrow> ewahFoldOp \<Rightarrow> int list \<Rightarrow> nat \<Rightarrow> nat \<Rightarrow> tsgit_error + int list" where
  "foldLoop bs from wordLimit op into lane wordIndex =
     (if wordIndex < wordLimit then
        bindE (readWordHalves bs (from + wordIndex * EWAH_WORD_SIZE)) (\<lambda>(high, low).
        let rlw = decodeRunLengthWord high low;
            (into, lane) =
              (if runValue rlw = 1 then fillClean into lane (cleanWordCount rlw * LANES_PER_WORD) op
               else (into, min (lane + cleanWordCount rlw * LANES_PER_WORD) (length into)))
        in bindE (literalLoop bs from wordLimit op (literalWordCount rlw) 0 into lane (wordIndex + 1))
             (\<lambda>(into, lane, wordIndex). foldLoop bs from wordLimit op into lane wordIndex))
      else Inr into)"
  by pat_completeness auto
termination
proof (relation "measure (\<lambda>(bs, from, wordLimit, op, into, lane, wordIndex). wordLimit - wordIndex)", goal_cases)
  case (2 bs "from" wordLimit op into lane wordIndex x high low rlw y into' lane' z into'' w lane'' wordIndex')
  then have "wordIndex + 1 \<le> wordIndex'" using literalLoop_index by metis
  then show ?case using 2(1) by simp
qed simp

declare foldLoop.simps [simp del]

definition foldEwahStream :: "bytes \<Rightarrow> ewahStream \<Rightarrow> int list \<Rightarrow> ewahFoldOp \<Rightarrow> tsgit_error + int list" where
  "foldEwahStream bs stream into op =
     foldLoop bs (wordsOffset stream) (min (wordCount stream) (availableWordCount bs (wordsOffset stream))) op into 0 0"

section \<open>The highest bit\<close>

definition clz32 :: "nat \<Rightarrow> nat" where
  "clz32 w = (if w = 0 then 32 else 31 - floorLog2 w)"

definition highestSetBitInLane :: "nat \<Rightarrow> nat \<Rightarrow> int" where
  "highestSetBitInLane lane word =
     (if word = 0 then NO_SET_BIT else int (lane * LANE_BITS) + (int LANE_BITS - 1 - int (clz32 word)))"

function maxLiteralLoop ::
    "bytes \<Rightarrow> nat \<Rightarrow> nat \<Rightarrow> nat \<Rightarrow> nat \<Rightarrow> int \<Rightarrow> nat \<Rightarrow> nat \<Rightarrow> tsgit_error + (int \<times> nat \<times> nat)" where
  "maxLiteralLoop bs from wordLimit cnt i mx lane wordIndex =
     (if i < cnt \<and> wordIndex < wordLimit then
        bindE (readWordHalves bs (from + wordIndex * EWAH_WORD_SIZE)) (\<lambda>(literalHigh, literalLow).
        maxLiteralLoop bs from wordLimit cnt (i + 1)
          (max (max mx (highestSetBitInLane lane literalLow)) (highestSetBitInLane (lane + 1) literalHigh))
          (lane + LANES_PER_WORD) (wordIndex + 1))
      else Inr (mx, lane, wordIndex))"
  by pat_completeness auto
termination
  by (relation "measure (\<lambda>(bs, from, wordLimit, cnt, i, mx, lane, wordIndex). cnt - i)") auto

declare maxLiteralLoop.simps [simp del]

lemma maxLiteralLoop_index:
  "maxLiteralLoop bs from wordLimit cnt i mx lane wordIndex = Inr (mx', lane', w) \<Longrightarrow> wordIndex \<le> w"
proof (induction bs "from" wordLimit cnt i mx lane wordIndex rule: maxLiteralLoop.induct)
  case (1 bs "from" wordLimit cnt i mx lane wordIndex)
  show ?case
  proof (cases "i < cnt \<and> wordIndex < wordLimit")
    case True
    obtain h l where r: "readWordHalves bs (from + wordIndex * EWAH_WORD_SIZE) = Inr (h, l)"
      using 1(2) True by (auto simp: maxLiteralLoop.simps [of bs "from"] bindE_Inr_iff)
    then show ?thesis using 1(1) [OF True r refl] 1(2) True
      by (simp add: maxLiteralLoop.simps [of bs "from" wordLimit cnt i])
  next
    case False
    then show ?thesis using 1(2) by (auto simp add: maxLiteralLoop.simps [of bs "from"] split: if_splits)
  qed
qed

function maxLoop :: "bytes \<Rightarrow> nat \<Rightarrow> nat \<Rightarrow> int \<Rightarrow> nat \<Rightarrow> nat \<Rightarrow> tsgit_error + int" where
  "maxLoop bs from wordLimit mx lane wordIndex =
     (if wordIndex < wordLimit then
        bindE (readWordHalves bs (from + wordIndex * EWAH_WORD_SIZE)) (\<lambda>(high, low).
        let rlw = decodeRunLengthWord high low;
            cleanLanes = cleanWordCount rlw * LANES_PER_WORD;
            mx = (if runValue rlw = 1 \<and> 0 < cleanLanes then int ((lane + cleanLanes) * LANE_BITS) - 1 else mx)
        in bindE (maxLiteralLoop bs from wordLimit (literalWordCount rlw) 0 mx (lane + cleanLanes) (wordIndex + 1))
             (\<lambda>(mx, lane, wordIndex). maxLoop bs from wordLimit mx lane wordIndex))
      else Inr mx)"
  by pat_completeness auto
termination
proof (relation "measure (\<lambda>(bs, from, wordLimit, mx, lane, wordIndex). wordLimit - wordIndex)", goal_cases)
  case (2 bs "from" wordLimit mx lane wordIndex x high low rlw cl mx' y mx'' z lane'' wordIndex')
  then have "wordIndex + 1 \<le> wordIndex'" using maxLiteralLoop_index by metis
  then show ?case using 2(1) by simp
qed simp

declare maxLoop.simps [simp del]

definition maxSetBitPosition :: "bytes \<Rightarrow> ewahStream \<Rightarrow> tsgit_error + int" where
  "maxSetBitPosition bs stream =
     maxLoop bs (wordsOffset stream) (min (wordCount stream) (availableWordCount bs (wordsOffset stream))) NO_SET_BIT 0 0"

end
