(* ===== verification/Bitmap.thy ===== *)
theory Bitmap
  imports Ewah
begin

text \<open>
  \<open>storage/bitmap.ts\<close>: the container of the reachability bitmaps of a pack - four streams that tell the types of the
  objects, then one entry for every commit that has a bitmap, stored as a difference to an earlier entry.
\<close>

definition BITMAP_MAGIC :: nat where
  "BITMAP_MAGIC = 1112101965"

definition HEADER_SIZE :: nat where
  "HEADER_SIZE = 12"

definition ENTRY_FIXED_SIZE :: nat where
  "ENTRY_FIXED_SIZE = 6"

definition FULL_DAG_FLAG :: int where
  "FULL_DAG_FLAG = 1"

type_synonym typeStreamsTuple = "ewahStream \<times> ewahStream \<times> ewahStream \<times> ewahStream"

record packBitmap =
  bitmapVersion :: int
  optionFlags :: int
  bitmapEntryCount :: nat
  bitmapDigestLength :: nat
  bitmapChecksum :: bytes
  typeStreams :: typeStreamsTuple
  entriesOffset :: nat
  bitmapBytes :: bytes

record bitmapEntryHeader =
  bitmapPosition :: nat
  xorOffset :: nat
  bitmapFlags :: nat
  bitmapStream :: ewahStream

definition readTypeStreams :: "bytes \<Rightarrow> nat \<Rightarrow> tsgit_error + typeStreamsTuple" where
  "readTypeStreams bs at =
     bindE (readEwahStream bs at) (\<lambda>commits.
     bindE (readEwahStream bs (endOffset commits)) (\<lambda>trees.
     bindE (readEwahStream bs (endOffset trees)) (\<lambda>blobs.
     bindE (readEwahStream bs (endOffset blobs)) (\<lambda>tags.
     Inr (commits, trees, blobs, tags)))))"

definition parsePackBitmap :: "bytes \<Rightarrow> nat \<Rightarrow> tsgit_error + packBitmap" where
  "parsePackBitmap bs dl =
     (if length bs < HEADER_SIZE + dl
      then Inl (InvalidPackBitmap ChkSize (Reason ''truncated: file too short for header'' []))
      else
        bindE (getUint32 bs 0) (\<lambda>signature.
        if signature \<noteq> BITMAP_MAGIC
        then Inl (InvalidPackBitmap ChkSignature
          (Reason ''invalid signature: expected 0x#, got 0x#'' [int BITMAP_MAGIC, int signature]))
        else bindE (getUint16 bs 4) (\<lambda>version.
        if version \<noteq> 1
        then Inl (InvalidPackBitmap ChkVersion (Reason ''unsupported version: expected 1, got #'' [version]))
        else bindE (getUint16 bs 6) (\<lambda>flags.
        if js_and flags FULL_DAG_FLAG = 0
        then Inl (InvalidPackBitmap ChkOptions (Reason ''option flags 0x# lack the mandatory full-DAG bit'' [flags]))
        else bindE (getUint32 bs 8) (\<lambda>entryCount.
        bindE (readTypeStreams bs (HEADER_SIZE + dl)) (\<lambda>(commits, trees, blobs, tags).
        Inr \<lparr>bitmapVersion = version, optionFlags = flags, bitmapEntryCount = entryCount, bitmapDigestLength = dl,
             bitmapChecksum = subarray bs HEADER_SIZE (HEADER_SIZE + dl),
             typeStreams = (commits, trees, blobs, tags), entriesOffset = endOffset tags, bitmapBytes = bs\<rparr>))))))"

definition readEntryStream :: "bytes \<Rightarrow> nat \<Rightarrow> nat \<Rightarrow> tsgit_error + ewahStream" where
  "readEntryStream bs at entryIndex =
     (case readEwahStream bs at of
        Inr stream \<Rightarrow> Inr stream
      | Inl _ \<Rightarrow> Inl (InvalidPackBitmap ChkEntry
          (Reason ''entry # has an invalid embedded stream at offset #'' [int entryIndex, int at])))"

text \<open>The loop over the entries: \<open>n\<close> of them are left, the next is \<open>i\<close>.\<close>

primrec entryHeadersLoop :: "nat \<Rightarrow> bytes \<Rightarrow> nat \<Rightarrow> nat \<Rightarrow> tsgit_error + bitmapEntryHeader list" where
  "entryHeadersLoop 0 bs i at = Inr []"
| "entryHeadersLoop (Suc n) bs i at =
     (if length bs < at + ENTRY_FIXED_SIZE
      then Inl (InvalidPackBitmap ChkEntry
        (Reason ''entry # header extends past end of file at offset #'' [int i, int at]))
      else
        bindE (getUint32 bs at) (\<lambda>pos.
        bindE (getUint8 bs (at + 4)) (\<lambda>xor.
        bindE (getUint8 bs (at + 5)) (\<lambda>flags.
        if i < xor
        then Inl (InvalidPackBitmap ChkEntry
          (Reason ''entry # xorOffset # refers to a base that has not been parsed yet'' [int i, int xor]))
        else
          bindE (readEntryStream bs (at + ENTRY_FIXED_SIZE) i) (\<lambda>stream.
          bindE (entryHeadersLoop n bs (i + 1) (endOffset stream)) (\<lambda>headers.
          Inr (\<lparr>bitmapPosition = pos, xorOffset = xor, bitmapFlags = flags, bitmapStream = stream\<rparr> # headers)))))))"

definition bitmapEntryHeaders :: "packBitmap \<Rightarrow> tsgit_error + bitmapEntryHeader list" where
  "bitmapEntryHeaders bitmap =
     entryHeadersLoop (bitmapEntryCount bitmap) (bitmapBytes bitmap) 0 (entriesOffset bitmap)"

section \<open>What is read\<close>

text \<open>A descriptor that lies in the buffer; a refusal of this module.\<close>

definition streamInside :: "bytes \<Rightarrow> ewahStream \<Rightarrow> bool" where
  "streamInside bs s \<longleftrightarrow> wordsOffset s + wordCount s * 8 + 4 = endOffset s \<and> endOffset s \<le> length bs"

definition bitmapRefusal :: "tsgit_error \<Rightarrow> bool" where
  "bitmapRefusal err \<longleftrightarrow> (\<exists>chk r. err = InvalidPackBitmap chk r)"

lemma readEwahStream_inside: "readEwahStream bs at = Inr s \<Longrightarrow> streamInside bs s \<and> at + 12 \<le> endOffset s"
  by (auto simp: readEwahStream_def streamInside_def bindE_Inr_iff Let_def EWAH_STREAM_HEADER_SIZE_def EWAH_WORD_SIZE_def
      EWAH_POSITION_WORD_SIZE_def split: if_splits)

lemma readEwahStream_refusal: "readEwahStream bs at = Inl err \<Longrightarrow> bitmapRefusal err"
  by (auto simp: readEwahStream_def bitmapRefusal_def Let_def EWAH_STREAM_HEADER_SIZE_def getUint32_def split: if_splits)

lemma getUint8_ok: "at < length bs \<Longrightarrow> getUint8 bs at = Inr (unat (bs ! at))"
  by (simp add: getUint8_def)

lemma readTypeStreams_refusal: "readTypeStreams bs at = Inl err \<Longrightarrow> bitmapRefusal err"
  unfolding readTypeStreams_def
  by (auto split: sum.splits simp: bindE_def dest: readEwahStream_refusal)

lemma parsePackBitmap_refusal:
  assumes "parsePackBitmap bs dl = Inl err"
  shows "bitmapRefusal err"
proof (cases "length bs < HEADER_SIZE + dl")
  case True
  then show ?thesis using assms by (auto simp: parsePackBitmap_def bitmapRefusal_def)
next
  case False
  then have "getUint32 bs 0 \<noteq> Inl x" "getUint32 bs 8 \<noteq> Inl x" "getUint16 bs 4 \<noteq> Inl x" "getUint16 bs 6 \<noteq> Inl x" for x
    by (auto simp: getUint32_def getUint16_def HEADER_SIZE_def)
  then show ?thesis using assms False
    by (auto simp: parsePackBitmap_def bitmapRefusal_def bindE_def split: if_splits sum.splits prod.splits
        dest: readTypeStreams_refusal [unfolded bitmapRefusal_def])
qed

lemma entryHeadersLoop_exact:
  "case entryHeadersLoop n bs i at of
     Inl err \<Rightarrow> \<exists>r. err = InvalidPackBitmap ChkEntry r
   | Inr hs \<Rightarrow> length hs = n \<and> (\<forall>k < n. xorOffset (hs ! k) \<le> i + k \<and> streamInside bs (bitmapStream (hs ! k)))"
proof (induction n arbitrary: i at)
  case 0
  then show ?case by simp
next
  case (Suc n)
  show ?case
  proof (cases "length bs < at + ENTRY_FIXED_SIZE")
    case True
    then show ?thesis by simp
  next
    case False
    then obtain p where p: "getUint32 bs at = Inr p" using getUint32_ok [of at bs] by (auto simp: ENTRY_FIXED_SIZE_def)
    define x f where "x = unat (bs ! (at + 4))" and "f = unat (bs ! (at + 5))"
    have r: "getUint8 bs (at + 4) = Inr x" "getUint8 bs (at + 5) = Inr f"
      using False by (simp_all add: getUint8_def ENTRY_FIXED_SIZE_def x_def f_def)
    show ?thesis
    proof (cases "i < x \<or> (\<exists>e. readEwahStream bs (at + ENTRY_FIXED_SIZE) = Inl e)")
      case True
      then show ?thesis using False p r by (auto simp: readEntryStream_def)
    next
      case no: False
      then obtain s where s: "readEwahStream bs (at + ENTRY_FIXED_SIZE) = Inr s"
        by (cases "readEwahStream bs (at + ENTRY_FIXED_SIZE)") auto
      note step = False p r no s readEwahStream_inside [OF s]
      show ?thesis
      proof (cases "entryHeadersLoop n bs (i + 1) (endOffset s)")
        case (Inl err)
        then show ?thesis using step Suc.IH [of "i + 1" "endOffset s"] by (simp add: readEntryStream_def)
      next
        case (Inr hs)
        then have ih: "length hs = n" "\<And>k. k < n \<Longrightarrow> xorOffset (hs ! k) \<le> i + 1 + k \<and> streamInside bs (bitmapStream (hs ! k))"
          using Suc.IH [of "i + 1" "endOffset s"] by auto
        have "xorOffset ((h # hs) ! k) \<le> i + k \<and> streamInside bs (bitmapStream ((h # hs) ! k))"
          if "k < Suc n" "xorOffset h \<le> i" "streamInside bs (bitmapStream h)" for k h
          using that ih(2) [of "k - 1"] by (cases k) auto
        then show ?thesis using step ih(1) Inr by (simp add: readEntryStream_def)
      qed
    qed
  qed
qed

end
