(* ===== verification/EwahProofs.thy ===== *)
theory EwahProofs
  imports Ewah
begin

text \<open>
  The bits an EWAH stream stands for, as a reading of its words (\<open>expand\<close>), and the two walks of \<open>storage/ewah.ts\<close> against it:
  folding overlays the decompressed lanes on the destination, and the maximum is the highest decompressed bit.
\<close>

section \<open>The bits a stream stands for\<close>

definition wordAt :: "bytes \<Rightarrow> nat \<Rightarrow> nat \<times> nat" where
  "wordAt bs p =
     (be32 (bs ! p) (bs ! (p + 1)) (bs ! (p + 2)) (bs ! (p + 3)),
      be32 (bs ! (p + 4)) (bs ! (p + 4 + 1)) (bs ! (p + 4 + 2)) (bs ! (p + 4 + 3)))"

text \<open>The lanes a row of words decompresses to: a clean run, then the literal words, low half first.\<close>

fun literalLanes :: "(nat \<times> nat) list \<Rightarrow> int list" where
  "literalLanes [] = []"
| "literalLanes ((h, l) # ws) = int l # int h # literalLanes ws"

function expand :: "(nat \<times> nat) list \<Rightarrow> int list" where
  "expand [] = []"
| "expand ((h, l) # ws) =
     (let rlw = decodeRunLengthWord h l in
      replicate (2 * cleanWordCount rlw) (if runValue rlw = 1 then FULL_LANE else 0)
      @ literalLanes (take (literalWordCount rlw) ws) @ expand (drop (literalWordCount rlw) ws))"
  by pat_completeness auto
termination by (relation "measure length") (auto simp: le_imp_less_Suc)

declare expand.simps(2) [simp del]

definition laneOk :: "int \<Rightarrow> bool" where
  "laneOk c \<longleftrightarrow> 0 \<le> c \<and> c < 4294967296"

lemma applyFold_ok: "laneOk (applyFold c v op)"
  by (simp add: laneOk_def applyFold_def js_ushr_0)

lemma applyFold_bits:
  assumes "laneOk c" "laneOk v"
  shows "applyFold c v FoldOr = c OR v" "applyFold c v FoldXor = c XOR v"
proof -
  have c: "take_bit 32 c = c" "take_bit 32 v = v"
    using assms by (simp_all add: laneOk_def take_bit_int_eq_self)
  have "applyFold c v FoldOr = take_bit 32 (c OR v)"
    by (simp add: applyFold_def js_ushr_def js_or_def toUint32_def toInt32_def take_bit_signed_take_bit)
  then show "applyFold c v FoldOr = c OR v" using c by (simp add: take_bit_or)
  have "applyFold c v FoldXor = take_bit 32 (c XOR v)"
    by (simp add: applyFold_def js_ushr_def js_xor_def toUint32_def toInt32_def take_bit_signed_take_bit)
  then show "applyFold c v FoldXor = c XOR v" using c by (simp add: take_bit_xor)
qed

lemma applyFold_zero: "laneOk c \<Longrightarrow> applyFold c 0 op = c"
  using applyFold_bits [of c 0] by (cases op) (simp_all add: laneOk_def)

section \<open>Overlaying lanes\<close>

definition overlay :: "ewahFoldOp \<Rightarrow> int list \<Rightarrow> nat \<Rightarrow> int list \<Rightarrow> int list" where
  "overlay op into at ls =
     map (\<lambda>i. if at \<le> i \<and> i < at + length ls then applyFold (into ! i) (ls ! (i - at)) op else into ! i) [0..<length into]"

lemma length_overlay [simp]: "length (overlay op into at ls) = length into"
  by (simp add: overlay_def)

lemma nth_overlay:
  "i < length into \<Longrightarrow> overlay op into at ls ! i
    = (if at \<le> i \<and> i < at + length ls then applyFold (into ! i) (ls ! (i - at)) op else into ! i)"
  by (simp add: overlay_def)

lemma overlay_append: "overlay op into at (xs @ ys) = overlay op (overlay op into at xs) (at + length xs) ys"
  by (rule nth_equalityI) (auto simp: nth_overlay nth_append)

lemma overlay_beyond: "length into \<le> at \<Longrightarrow> overlay op into at ls = into"
  by (rule nth_equalityI) (auto simp: nth_overlay)

lemma overlay_min: "overlay op into (min at (length into)) ls = overlay op into at ls"
  by (cases "at \<le> length into") (simp_all add: overlay_beyond min_def)

lemma overlay_Nil [simp]: "overlay op into at [] = into"
  by (rule nth_equalityI) (auto simp: nth_overlay)

lemma overlay_zeros: "\<forall>c \<in> set into. laneOk c \<Longrightarrow> overlay op into at (replicate n 0) = into"
  by (rule nth_equalityI) (auto simp: nth_overlay applyFold_zero)

lemma overlay_ok: "\<forall>c \<in> set into. laneOk c \<Longrightarrow> \<forall>c \<in> set (overlay op into at ls). laneOk c"
  by (auto simp: overlay_def applyFold_ok)

lemma fillClean_overlay:
  assumes "lane \<le> length into"
  shows "fillClean into lane n op = (overlay op into lane (replicate n FULL_LANE), min (lane + n) (length into))"
proof -
  have f: "foldl (\<lambda>into lane. into[lane := applyFold (into ! lane) FULL_LANE op]) into [lane..<lane + k]
      = overlay op into lane (replicate k FULL_LANE)" if "lane + k \<le> length into" for k
    using that
  proof (induction k)
    case (Suc k)
    then have "foldl (\<lambda>into lane. into[lane := applyFold (into ! lane) FULL_LANE op]) into [lane..<lane + Suc k]
        = (overlay op into lane (replicate k FULL_LANE))
            [lane + k := applyFold (overlay op into lane (replicate k FULL_LANE) ! (lane + k)) FULL_LANE op]"
      by simp
    also have "\<dots> = overlay op into lane (replicate (Suc k) FULL_LANE)"
      using Suc.prems by (intro nth_equalityI) (auto simp: nth_overlay nth_list_update nth_replicate simp del: replicate_Suc)
    finally show ?case .
  qed simp
  show ?thesis
  proof (cases "lane + n \<le> length into")
    case True
    then show ?thesis using f [of n] by (simp add: fillClean_def min_def)
  next
    case False
    have "overlay op into lane (replicate (length into - lane) FULL_LANE) = overlay op into lane (replicate n FULL_LANE)"
      using False assms by (intro nth_equalityI) (auto simp: nth_overlay)
    moreover have "lane + (length into - lane) = length into" using assms by simp
    ultimately show ?thesis using f [of "length into - lane"] False by (simp add: fillClean_def min_def)
  qed
qed

lemma foldLiteralLane_overlay:
  assumes "lane \<le> length into"
  shows "foldLiteralLane into lane v op = (overlay op into lane [int v], min (lane + 1) (length into))"
proof -
  have "(if lane < length into then into[lane := applyFold (into ! lane) (int v) op] else into) = overlay op into lane [int v]"
    using assms by (intro nth_equalityI) (auto simp: nth_overlay nth_list_update)
  then show ?thesis by (simp add: foldLiteralLane_def)
qed

section \<open>The walk\<close>

lemma readWordHalves_wordAt: "p + 8 \<le> length bs \<Longrightarrow> readWordHalves bs p = Inr (wordAt bs p)"
  by (simp add: readWordHalves_def getUint32_def wordAt_def)

text \<open>The words from an index up to the limit; every one of them lies in the buffer.\<close>

definition wordsFrom :: "bytes \<Rightarrow> nat \<Rightarrow> nat \<Rightarrow> nat \<Rightarrow> (nat \<times> nat) list" where
  "wordsFrom bs from k limit = map (\<lambda>i. wordAt bs (from + i * 8)) [k..<limit]"

definition inBuffer :: "bytes \<Rightarrow> nat \<Rightarrow> nat \<Rightarrow> bool" where
  "inBuffer bs from limit \<longleftrightarrow> (\<forall>i < limit. from + i * 8 + 8 \<le> length bs)"

lemma wordsFrom_Cons: "k < limit \<Longrightarrow> wordsFrom bs from k limit = wordAt bs (from + k * 8) # wordsFrom bs from (k + 1) limit"
  by (simp add: wordsFrom_def upt_rec)

lemma wordsFrom_drop: "drop n (wordsFrom bs from k limit) = wordsFrom bs from (k + n) limit"
  by (simp add: wordsFrom_def drop_map)

lemma length_wordsFrom [simp]: "length (wordsFrom bs from k limit) = limit - k"
  by (simp add: wordsFrom_def)

lemma availableWordCount_inBuffer:
  assumes "limit \<le> availableWordCount bs from"
  shows "inBuffer bs from limit"
  unfolding inBuffer_def
proof (intro allI impI)
  fix i assume "i < limit"
  then have i: "int i < (int (length bs) - int from) div 8"
    using assms by (auto simp: availableWordCount_def EWAH_WORD_SIZE_def)
  then have "(int i + 1) * 8 \<le> (int (length bs) - int from) div 8 * 8" by (intro mult_right_mono) simp_all
  also have "\<dots> \<le> int (length bs) - int from" by simp
  finally have "int (from + i * 8 + 8) \<le> int (length bs)" by simp
  then show "from + i * 8 + 8 \<le> length bs" by (simp only: of_nat_le_iff)
qed

lemma length_literalLanes [simp]: "length (literalLanes ws) = 2 * length ws"
  by (induction ws rule: literalLanes.induct) simp_all

lemma literalLoop_overlay:
  assumes "inBuffer bs from limit" "lane \<le> length into" "i \<le> cnt"
  shows "literalLoop bs from limit op cnt i into lane k
    = Inr (overlay op into lane (literalLanes (take (cnt - i) (wordsFrom bs from k limit))),
        min (lane + 2 * min (cnt - i) (limit - k)) (length into), k + min (cnt - i) (limit - k))"
  using assms
proof (induction "cnt - i" arbitrary: i into lane k)
  case 0
  then show ?case by (simp add: literalLoop.simps min_def)
next
  case (Suc n)
  show ?case
  proof (cases "k < limit")
    case False
    then show ?thesis using Suc.prems by (simp add: literalLoop.simps wordsFrom_def min_def)
  next
    case True
    obtain h l where w: "wordAt bs (from + k * 8) = (h, l)" by (cases "wordAt bs (from + k * 8)")
    have r: "readWordHalves bs (from + k * EWAH_WORD_SIZE) = Inr (h, l)"
      using Suc.prems(1) True w readWordHalves_wordAt [of "from + k * 8" bs] by (simp add: inBuffer_def EWAH_WORD_SIZE_def)
    let ?i1 = "overlay op into lane [int l]" let ?l1 = "min (lane + 1) (length into)"
    let ?i2 = "overlay op ?i1 ?l1 [int h]" let ?l2 = "min (?l1 + 1) (length into)"
    have f1: "foldLiteralLane into lane l op = (?i1, ?l1)" using Suc.prems(2) by (rule foldLiteralLane_overlay)
    have f2: "foldLiteralLane ?i1 ?l1 h op = (?i2, ?l2)" using foldLiteralLane_overlay [of ?l1 ?i1 h op] by simp
    have i2: "?i2 = overlay op into lane [int l, int h]"
      using overlay_append [of op into lane "[int l]" "[int h]"] overlay_min [of op ?i1 "lane + 1"] by simp
    have ih: "literalLoop bs from limit op cnt (i + 1) ?i2 ?l2 (k + 1)
      = Inr (overlay op ?i2 ?l2 (literalLanes (take (cnt - (i + 1)) (wordsFrom bs from (k + 1) limit))),
        min (?l2 + 2 * min (cnt - (i + 1)) (limit - (k + 1))) (length ?i2), (k + 1) + min (cnt - (i + 1)) (limit - (k + 1)))"
      using Suc.hyps(2) Suc.prems by (intro Suc.hyps(1)) simp_all
    have c: "take (cnt - i) (wordsFrom bs from k limit) = (h, l) # take (cnt - (i + 1)) (wordsFrom bs from (k + 1) limit)"
    proof -
      have "cnt - i = Suc (cnt - (i + 1))" using Suc.hyps(2) by simp
      then show ?thesis using True w by (simp only: wordsFrom_Cons take_Suc_Cons)
    qed
    have ls: "overlay op ?i2 ?l2 ls = overlay op into lane (int l # int h # ls)" for ls
    proof -
      have "?l2 = min (lane + 2) (length into)" by (simp add: min_def)
      then have "overlay op ?i2 ?l2 ls = overlay op ?i2 (lane + 2) ls"
        using overlay_min [of op ?i2 "lane + 2" ls] by simp
      then show ?thesis using overlay_append [of op into lane "[int l, int h]" ls] i2 by simp
    qed
    have mn: "min (cnt - i) (limit - k) = min (cnt - (i + 1)) (limit - (k + 1)) + 1"
    proof -
      have "cnt - i = (cnt - (i + 1)) + 1" "limit - k = (limit - (k + 1)) + 1" using Suc.hyps(2) True by simp_all
      then show ?thesis by simp
    qed
    have "i < cnt \<and> k < limit" using Suc.hyps(2) True by simp
    then have "literalLoop bs from limit op cnt i into lane k = literalLoop bs from limit op cnt (i + 1) ?i2 ?l2 (k + 1)"
      by (simp only: literalLoop.simps [of bs "from" limit op cnt i] simp_thms if_True r bindE_simps prod.case Let_def f1 f2)
    then show ?thesis unfolding ih c ls mn by (simp add: min_def)
  qed
qed

lemma foldLoop_overlay:
  assumes "inBuffer bs from limit" "lane \<le> length into" "\<forall>c \<in> set into. laneOk c"
  shows "foldLoop bs from limit op into lane k = Inr (overlay op into lane (expand (wordsFrom bs from k limit)))"
  using assms
proof (induction "limit - k" arbitrary: into lane k rule: less_induct)
  case less
  show ?case
  proof (cases "k < limit")
    case False
    then show ?thesis by (simp add: foldLoop.simps wordsFrom_def)
  next
    case True
    obtain h l where w: "wordAt bs (from + k * 8) = (h, l)" by (cases "wordAt bs (from + k * 8)")
    have r: "readWordHalves bs (from + k * EWAH_WORD_SIZE) = Inr (h, l)"
      using less.prems(1) True w readWordHalves_wordAt [of "from + k * 8" bs] by (simp add: inBuffer_def EWAH_WORD_SIZE_def)
    define rlw where "rlw = decodeRunLengthWord h l"
    define run where "run = replicate (2 * cleanWordCount rlw) (if runValue rlw = 1 then FULL_LANE else 0)"
    define lits where "lits = literalLanes (take (literalWordCount rlw) (wordsFrom bs from (k + 1) limit))"
    let ?i1 = "overlay op into lane run" let ?l1 = "min (lane + 2 * cleanWordCount rlw) (length into)"
    have c: "(if runValue rlw = 1 then fillClean into lane (cleanWordCount rlw * LANES_PER_WORD) op
        else (into, min (lane + cleanWordCount rlw * LANES_PER_WORD) (length into))) = (?i1, ?l1)"
      using fillClean_overlay [OF less.prems(2)] overlay_zeros [OF less.prems(3)]
      by (simp add: LANES_PER_WORD_def run_def mult.commute)
    let ?n = "min (literalWordCount rlw) (limit - (k + 1))"
    let ?i2 = "overlay op ?i1 ?l1 lits" let ?l2 = "min (?l1 + 2 * ?n) (length into)"
    have lit: "literalLoop bs from limit op (literalWordCount rlw) 0 ?i1 ?l1 (k + 1) = Inr (?i2, ?l2, k + 1 + ?n)"
      using literalLoop_overlay [OF less.prems(1), of ?l1 ?i1 0 "literalWordCount rlw" op "k + 1"] by (simp add: lits_def)
    have ih: "foldLoop bs from limit op ?i2 ?l2 (k + 1 + ?n)
        = Inr (overlay op ?i2 ?l2 (expand (wordsFrom bs from (k + 1 + ?n) limit)))"
    proof (rule less.hyps)
      show "limit - (k + 1 + ?n) < limit - k" using True by simp
      show "\<forall>c \<in> set ?i2. laneOk c" by (intro overlay_ok less.prems(3))
    qed (use less.prems(1) in simp_all)
    have d: "wordsFrom bs from (k + 1 + ?n) limit = drop (literalWordCount rlw) (wordsFrom bs from (k + 1) limit)"
      by (cases "literalWordCount rlw \<le> limit - (k + 1)") (simp_all add: wordsFrom_drop min_def, simp add: wordsFrom_def)
    have len: "length run = 2 * cleanWordCount rlw" "length lits = 2 * ?n"
      by (simp_all add: run_def lits_def min.commute)
    have o1: "?i2 = overlay op into lane (run @ lits)"
      using overlay_append [of op into lane run lits] overlay_min [of op ?i1 "lane + length run" lits] len(1) by simp
    have "?l2 = min (lane + length (run @ lits)) (length into)" using len by (simp add: min_def)
    then have o2: "overlay op ?i2 ?l2 ls = overlay op into lane (run @ lits @ ls)" for ls
      using overlay_min [of op ?i2 "lane + length (run @ lits)" ls] overlay_append [of op into lane "run @ lits" ls] o1 by simp
    have e: "expand (wordsFrom bs from k limit) = run @ lits @ expand (wordsFrom bs from (k + 1 + ?n) limit)"
      using True w d by (simp add: wordsFrom_Cons expand.simps(2) run_def lits_def rlw_def Let_def)
    have "foldLoop bs from limit op into lane k = foldLoop bs from limit op ?i2 ?l2 (k + 1 + ?n)"
      by (simp only: foldLoop.simps [of bs "from" limit op into lane k] True if_True r bindE_simps prod.case Let_def
          rlw_def [symmetric] c lit)
    then show ?thesis unfolding ih o2 e .
  qed
qed

section \<open>Sets of bits\<close>

definition bitsOf :: "int list \<Rightarrow> nat set" where
  "bitsOf ls = {k. k div 32 < length ls \<and> bit (ls ! (k div 32)) (k mod 32)}"

definition streamBits :: "bytes \<Rightarrow> ewahStream \<Rightarrow> nat set" where
  "streamBits bs stream = bitsOf (expand
     (wordsFrom bs (wordsOffset stream) 0 (min (wordCount stream) (availableWordCount bs (wordsOffset stream)))))"

lemma be32_laneOk: "laneOk (int (be32 a b c d))"
  using be32_less [of a b c d] by (simp add: laneOk_def)

lemma literalLanes_ok: "\<forall>(h, l) \<in> set ws. laneOk (int h) \<and> laneOk (int l) \<Longrightarrow> \<forall>c \<in> set (literalLanes ws). laneOk c"
  by (induction ws rule: literalLanes.induct) auto

lemma expand_ok: "\<forall>(h, l) \<in> set ws. laneOk (int h) \<and> laneOk (int l) \<Longrightarrow> \<forall>c \<in> set (expand ws). laneOk c"
proof (induction ws rule: expand.induct)
  case (2 h l ws)
  let ?n = "literalWordCount (decodeRunLengthWord h l)"
  have "\<forall>(h, l) \<in> set (take ?n ws). laneOk (int h) \<and> laneOk (int l)"
    "\<forall>(h, l) \<in> set (drop ?n ws). laneOk (int h) \<and> laneOk (int l)"
    using 2(2) by (auto dest: in_set_takeD in_set_dropD)
  then have "\<forall>c \<in> set (literalLanes (take ?n ws)). laneOk c" "\<forall>c \<in> set (expand (drop ?n ws)). laneOk c"
    using literalLanes_ok 2(1) [OF refl] by blast+
  then show ?case by (auto simp: expand.simps(2) Let_def laneOk_def FULL_LANE_def)
qed simp

lemma wordsFrom_ok: "\<forall>(h, l) \<in> set (wordsFrom bs from k limit). laneOk (int h) \<and> laneOk (int l)"
  using be32_laneOk by (auto simp: wordsFrom_def wordAt_def)

lemma bitsOf_overlay:
  assumes "\<forall>c \<in> set into. laneOk c" "\<forall>c \<in> set ls. laneOk c"
  shows "bitsOf (overlay FoldOr into 0 ls) = bitsOf into \<union> (bitsOf ls \<inter> {..<32 * length into})"
    "bitsOf (overlay FoldXor into 0 ls)
      = (bitsOf into - bitsOf ls) \<union> (bitsOf ls \<inter> {..<32 * length into} - bitsOf into)"
proof -
  have d: "k div 32 < n \<longleftrightarrow> k < 32 * n" for k n :: nat by (auto simp: div_less_iff_less_mult)
  have ok: "laneOk (into ! i)" if "i < length into" for i using assms(1) that by simp
  have ok2: "laneOk (ls ! i)" if "i < length ls" for i using assms(2) that by simp
  show "bitsOf (overlay FoldOr into 0 ls) = bitsOf into \<union> (bitsOf ls \<inter> {..<32 * length into})"
    using applyFold_bits(1) [OF ok ok2] by (auto simp: bitsOf_def nth_overlay bit_or_iff d [symmetric] split: if_splits)
  show "bitsOf (overlay FoldXor into 0 ls)
      = (bitsOf into - bitsOf ls) \<union> (bitsOf ls \<inter> {..<32 * length into} - bitsOf into)"
    using applyFold_bits(2) [OF ok ok2] by (auto simp: bitsOf_def nth_overlay bit_xor_iff d [symmetric] split: if_splits)
qed

section \<open>The highest bit\<close>

text \<open>\<open>m\<close> is the position of the highest bit of the lanes, or \<open>-1\<close> when they have none.\<close>

definition isTop :: "int \<Rightarrow> int list \<Rightarrow> bool" where
  "isTop m ls \<longleftrightarrow> (\<forall>k \<in> bitsOf ls. int k \<le> m) \<and> (m = - 1 \<or> (\<exists>k \<in> bitsOf ls. m = int k))"

lemma isTop_Nil: "isTop (- 1) []"
  by (simp add: isTop_def bitsOf_def)

lemma bitsOf_append: "bitsOf (xs @ ys) = bitsOf xs \<union> (+) (32 * length xs) ` bitsOf ys"
proof (rule set_eqI)
  fix k
  have "k \<in> bitsOf (xs @ ys) \<longleftrightarrow> k \<in> bitsOf xs" if "k < 32 * length xs"
    using that by (auto simp: bitsOf_def nth_append div_less_iff_less_mult)
  moreover have "k \<in> bitsOf (xs @ ys) \<longleftrightarrow> k \<in> (+) (32 * length xs) ` bitsOf ys" if "\<not> k < 32 * length xs"
  proof -
    define j where "j = k - 32 * length xs"
    have k: "k = 32 * length xs + j" using that by (simp add: j_def)
    then have "k div 32 = length xs + j div 32" "k mod 32 = j mod 32" by simp_all
    then have "k \<in> bitsOf (xs @ ys) \<longleftrightarrow> j \<in> bitsOf ys" by (simp add: bitsOf_def)
    also have "\<dots> \<longleftrightarrow> k \<in> (+) (32 * length xs) ` bitsOf ys" unfolding k by auto
    finally show ?thesis .
  qed
  moreover have "k < 32 * length xs" if "k \<in> bitsOf xs" using that by (auto simp: bitsOf_def div_less_iff_less_mult)
  moreover have "\<not> k < 32 * length xs" if "k \<in> (+) (32 * length xs) ` bitsOf ys" using that by auto
  ultimately show "k \<in> bitsOf (xs @ ys) \<longleftrightarrow> k \<in> bitsOf xs \<union> (+) (32 * length xs) ` bitsOf ys" by blast
qed

lemma bitsOf_less: "k \<in> bitsOf ls \<Longrightarrow> k < 32 * length ls"
  by (auto simp: bitsOf_def div_less_iff_less_mult)

lemma isTop_less: "isTop m ls \<Longrightarrow> m < int (32 * length ls)"
  using bitsOf_less by (fastforce simp: isTop_def)

lemma bitsOf_zeros: "bitsOf (replicate n 0) = {}"
  by (auto simp: bitsOf_def)

lemma isTop_zeros: "isTop m ls \<Longrightarrow> isTop m (ls @ replicate n 0)"
  by (simp add: isTop_def bitsOf_append bitsOf_zeros)

lemma isTop_ones:
  assumes "0 < n"
  shows "isTop (int ((length ls + n) * 32) - 1) (ls @ replicate n FULL_LANE)"
proof -
  have f: "bit FULL_LANE i" if "i < 32" for i
  proof -
    have "FULL_LANE = (mask 32 :: int)" by (simp add: FULL_LANE_def mask_eq_exp_minus_1)
    then have "bit FULL_LANE i = bit (mask 32 :: int) i" by (simp only:)
    then show ?thesis using that by (simp only: bit_mask_iff) simp
  qed
  have "32 * n - 1 \<in> bitsOf (replicate n FULL_LANE)"
  proof -
    have "32 * n - 1 = 32 * (n - 1) + 31" using assms by simp
    then have "(32 * n - 1) div 32 = n - 1" "(32 * n - 1) mod 32 = 31" by simp_all
    then show ?thesis using assms f [of 31] by (simp add: bitsOf_def)
  qed
  then have "32 * length ls + (32 * n - 1) \<in> bitsOf (ls @ replicate n FULL_LANE)" by (simp add: bitsOf_append)
  moreover have "int ((length ls + n) * 32) - 1 = int (32 * length ls + (32 * n - 1))" using assms by simp
  moreover have "int k \<le> int ((length ls + n) * 32) - 1" if "k \<in> bitsOf (ls @ replicate n FULL_LANE)" for k
    using bitsOf_less [OF that] by simp
  ultimately show ?thesis unfolding isTop_def by blast
qed

lemma floorLog2_top:
  assumes "0 < w" "w < 4294967296"
  shows "bit (int w) (floorLog2 w)" "bit (int w) i \<Longrightarrow> i \<le> floorLog2 w" "floorLog2 w < 32"
proof -
  note b = floorLog2_bounds [OF assms(1)]
  have d: "int w div 2 ^ k = int (w div 2 ^ k)" for k by (simp add: zdiv_int)
  have "w div 2 ^ floorLog2 w = 1" using b by (intro div_nat_eqI) simp_all
  then have "int w div 2 ^ floorLog2 w = 1" unfolding d by (simp only: of_nat_1)
  then show "bit (int w) (floorLog2 w)" by (simp only: bit_iff_odd) simp
  show "i \<le> floorLog2 w" if "bit (int w) i"
  proof (rule ccontr)
    assume "\<not> i \<le> floorLog2 w"
    then have "(2 :: nat) ^ (floorLog2 w + 1) \<le> 2 ^ i" by (intro power_increasing) simp_all
    then have "w < 2 ^ i" using b by linarith
    then have "int w div 2 ^ i = 0" unfolding d by (simp only: div_less of_nat_0)
    then show False using that by (simp only: bit_iff_odd) simp
  qed
  show "floorLog2 w < 32"
  proof (rule ccontr)
    assume "\<not> floorLog2 w < 32"
    then have "(2 :: nat) ^ 32 \<le> 2 ^ floorLog2 w" by (intro power_increasing) simp_all
    then show False using b assms(2) by simp
  qed
qed

lemma isTop_lane:
  assumes "isTop m ls" "w < 4294967296"
  shows "isTop (max m (highestSetBitInLane (length ls) w)) (ls @ [int w])"
proof (cases "w = 0")
  case True
  have "- 1 \<le> m" using assms(1) by (auto simp: isTop_def)
  then have "max m (highestSetBitInLane (length ls) w) = m" using True by (simp add: highestSetBitInLane_def NO_SET_BIT_def)
  then show ?thesis using isTop_zeros [OF assms(1), of 1] True by simp
next
  case False
  then have pos: "0 < w" by simp
  note t = floorLog2_top [OF pos assms(2)]
  have h: "highestSetBitInLane (length ls) w = int (32 * length ls + floorLog2 w)"
    using False t(3) by (simp add: highestSetBitInLane_def clz32_def LANE_BITS_def)
  have m: "max m (highestSetBitInLane (length ls) w) = int (32 * length ls + floorLog2 w)"
    using isTop_less [OF assms(1)] h by simp
  have "floorLog2 w \<in> bitsOf [int w]" using t(1,3) by (simp add: bitsOf_def)
  then have "32 * length ls + floorLog2 w \<in> bitsOf (ls @ [int w])" by (simp add: bitsOf_append)
  moreover have "k \<le> 32 * length ls + floorLog2 w" if "k \<in> bitsOf (ls @ [int w])" for k
  proof -
    have "j \<le> floorLog2 w" if "j \<in> bitsOf [int w]" for j
      using that t(2) [of j] by (auto simp: bitsOf_def)
    then show ?thesis using that bitsOf_less [of k ls] by (auto simp: bitsOf_append)
  qed
  ultimately show ?thesis unfolding m isTop_def by fastforce
qed

lemma maxLiteralLoop_top:
  assumes "inBuffer bs from limit" "isTop m ls" "i \<le> cnt"
  shows "\<exists>m'. maxLiteralLoop bs from limit cnt i m (length ls) k
      = Inr (m', length ls + 2 * min (cnt - i) (limit - k), k + min (cnt - i) (limit - k)) \<and>
    isTop m' (ls @ literalLanes (take (cnt - i) (wordsFrom bs from k limit)))"
  using assms
proof (induction "cnt - i" arbitrary: i m ls k)
  case 0
  then show ?case by (simp add: maxLiteralLoop.simps)
next
  case (Suc n)
  show ?case
  proof (cases "k < limit")
    case False
    then show ?thesis using Suc.prems by (simp add: maxLiteralLoop.simps wordsFrom_def)
  next
    case True
    obtain h l where w: "wordAt bs (from + k * 8) = (h, l)" by (cases "wordAt bs (from + k * 8)")
    have ok: "h < 4294967296" "l < 4294967296" using w be32_less by (auto simp: wordAt_def)
    have r: "readWordHalves bs (from + k * EWAH_WORD_SIZE) = Inr (h, l)"
      using Suc.prems(1) True w readWordHalves_wordAt [of "from + k * 8" bs] by (simp add: inBuffer_def EWAH_WORD_SIZE_def)
    let ?m = "max (max m (highestSetBitInLane (length ls) l)) (highestSetBitInLane (length ls + 1) h)"
    have "isTop ?m ((ls @ [int l]) @ [int h])"
      using isTop_lane [OF isTop_lane [OF Suc.prems(2) ok(2)] ok(1)] by simp
    then have top: "isTop ?m (ls @ [int l, int h])" by simp
    have n1: "n = cnt - (i + 1)" and i1: "i + 1 \<le> cnt" using Suc.hyps(2) by simp_all
    obtain m' where m': "maxLiteralLoop bs from limit cnt (i + 1) ?m (length (ls @ [int l, int h])) (k + 1)
        = Inr (m', length (ls @ [int l, int h]) + 2 * min (cnt - (i + 1)) (limit - (k + 1)), k + 1 + min (cnt - (i + 1)) (limit - (k + 1)))"
      "isTop m' ((ls @ [int l, int h]) @ literalLanes (take (cnt - (i + 1)) (wordsFrom bs from (k + 1) limit)))"
      using Suc.hyps(1) [OF n1 Suc.prems(1) top i1, of "k + 1"] by blast
    have n: "cnt - i = (cnt - (i + 1)) + 1" "limit - k = (limit - (k + 1)) + 1" using Suc.hyps(2) True by simp_all
    then have mn: "min (cnt - i) (limit - k) = min (cnt - (i + 1)) (limit - (k + 1)) + 1" by simp
    have c: "take (cnt - i) (wordsFrom bs from k limit) = (h, l) # take (cnt - (i + 1)) (wordsFrom bs from (k + 1) limit)"
      using n(1) True w by (simp only: wordsFrom_Cons Suc_eq_plus1 [symmetric] take_Suc_Cons)
    have "i < cnt \<and> k < limit" using Suc.hyps(2) True by simp
    then have "maxLiteralLoop bs from limit cnt i m (length ls) k = maxLiteralLoop bs from limit cnt (i + 1) ?m (length ls + 2) (k + 1)"
      by (simp only: maxLiteralLoop.simps [of bs "from" limit cnt i] simp_thms if_True r bindE_simps prod.case LANES_PER_WORD_def)
    then show ?thesis using m' unfolding mn c by simp
  qed
qed

lemma maxLoop_top:
  assumes "inBuffer bs from limit" "isTop m ls"
  shows "\<exists>m'. maxLoop bs from limit m (length ls) k = Inr m' \<and> isTop m' (ls @ expand (wordsFrom bs from k limit))"
  using assms
proof (induction "limit - k" arbitrary: m ls k rule: less_induct)
  case less
  show ?case
  proof (cases "k < limit")
    case False
    then show ?thesis using less.prems by (simp add: maxLoop.simps wordsFrom_def)
  next
    case True
    obtain h l where w: "wordAt bs (from + k * 8) = (h, l)" by (cases "wordAt bs (from + k * 8)")
    have r: "readWordHalves bs (from + k * EWAH_WORD_SIZE) = Inr (h, l)"
      using less.prems(1) True w readWordHalves_wordAt [of "from + k * 8" bs] by (simp add: inBuffer_def EWAH_WORD_SIZE_def)
    define rlw where "rlw = decodeRunLengthWord h l"
    define cl where "cl = cleanWordCount rlw * LANES_PER_WORD"
    define run where "run = replicate (2 * cleanWordCount rlw) (if runValue rlw = 1 then FULL_LANE else 0)"
    define m1 where "m1 = (if runValue rlw = 1 \<and> 0 < cl then int ((length ls + cl) * LANE_BITS) - 1 else m)"
    have cl2: "cl = 2 * cleanWordCount rlw" by (simp add: cl_def LANES_PER_WORD_def)
    have t1: "isTop m1 (ls @ run)"
    proof (cases "runValue rlw = 1 \<and> 0 < cl")
      case True
      then show ?thesis using isTop_ones [of cl ls] by (simp add: m1_def run_def cl2 LANE_BITS_def)
    next
      case False
      then have "run = replicate (2 * cleanWordCount rlw) 0" by (cases "cl = 0") (auto simp: run_def cl2)
      then show ?thesis using isTop_zeros [OF less.prems(2)] False by (auto simp: m1_def)
    qed
    have len: "length (ls @ run) = length ls + cl" by (simp add: run_def cl2)
    let ?n = "min (literalWordCount rlw) (limit - (k + 1))"
    define lits where "lits = literalLanes (take (literalWordCount rlw) (wordsFrom bs from (k + 1) limit))"
    obtain m2 where m2: "maxLiteralLoop bs from limit (literalWordCount rlw) 0 m1 (length ls + cl) (k + 1)
        = Inr (m2, length ls + cl + 2 * ?n, k + 1 + ?n)" "isTop m2 ((ls @ run) @ lits)"
      using maxLiteralLoop_top [OF less.prems(1) t1, of 0 "literalWordCount rlw" "k + 1"] unfolding len lits_def by auto
    have len2: "length ((ls @ run) @ lits) = length ls + cl + 2 * ?n" using len by (simp add: lits_def min.commute)
    have "limit - (k + 1 + ?n) < limit - k" using True by simp
    then obtain m3 where m3: "maxLoop bs from limit m2 (length ls + cl + 2 * ?n) (k + 1 + ?n) = Inr m3"
      "isTop m3 (((ls @ run) @ lits) @ expand (wordsFrom bs from (k + 1 + ?n) limit))"
      using less.hyps [OF _ less.prems(1) m2(2), of "k + 1 + ?n"] unfolding len2 by blast
    have d: "wordsFrom bs from (k + 1 + ?n) limit = drop (literalWordCount rlw) (wordsFrom bs from (k + 1) limit)"
      by (cases "literalWordCount rlw \<le> limit - (k + 1)") (simp_all add: wordsFrom_drop min_def, simp add: wordsFrom_def)
    have e: "expand (wordsFrom bs from k limit) = run @ lits @ expand (wordsFrom bs from (k + 1 + ?n) limit)"
      using True w d by (simp add: wordsFrom_Cons expand.simps(2) run_def lits_def rlw_def Let_def)
    have "maxLoop bs from limit m (length ls) k = maxLoop bs from limit m2 (length ls + cl + 2 * ?n) (k + 1 + ?n)"
      by (simp only: maxLoop.simps [of bs "from" limit m "length ls" k] True if_True r bindE_simps prod.case Let_def
          rlw_def [symmetric] cl_def [symmetric] m1_def [symmetric] m2(1))
    then show ?thesis using m3 unfolding e by simp
  qed
qed

text \<open>One run-length word, declaring a clean run of one word of ones and one literal word, then the literal \<open>5\<close>.\<close>

definition exampleEwah :: bytes where
  "exampleEwah = [0,0,0,128, 0,0,0,2, 0,0,0,2, 0,0,0,3, 0,0,0,0, 0,0,0,5, 0,0,0,0]"

lemma readEwahStream_example:
  "readEwahStream exampleEwah 0 = Inr \<lparr>bitSize = 128, wordCount = 2, wordsOffset = 8, endOffset = 28\<rparr>"
  by code_simp

section \<open>What the walks compute\<close>

lemma foldEwahStream_bits:
  assumes "\<forall>c \<in> set into. laneOk c"
  obtains res where "foldEwahStream bs stream into op = Inr res" "length res = length into" "\<forall>c \<in> set res. laneOk c"
    "bitsOf res =
      (let b = streamBits bs stream \<inter> {..<32 * length into} in
       case op of FoldOr \<Rightarrow> bitsOf into \<union> b | FoldXor \<Rightarrow> (bitsOf into - b) \<union> (b - bitsOf into))"
proof -
  let ?lim = "min (wordCount stream) (availableWordCount bs (wordsOffset stream))"
  let ?ls = "expand (wordsFrom bs (wordsOffset stream) 0 ?lim)"
  have ib: "inBuffer bs (wordsOffset stream) ?lim" by (rule availableWordCount_inBuffer) simp
  have f: "foldEwahStream bs stream into op = Inr (overlay op into 0 ?ls)"
    using foldLoop_overlay [OF ib _ assms, of 0 op 0] by (simp add: foldEwahStream_def)
  have ls: "\<forall>c \<in> set ?ls. laneOk c" by (intro expand_ok wordsFrom_ok)
  have less: "k < 32 * length into" if "k \<in> bitsOf into" for k using that by (rule bitsOf_less)
  have "bitsOf (overlay op into 0 ?ls) =
      (let b = streamBits bs stream \<inter> {..<32 * length into} in
       case op of FoldOr \<Rightarrow> bitsOf into \<union> b | FoldXor \<Rightarrow> (bitsOf into - b) \<union> (b - bitsOf into))"
    using bitsOf_overlay [OF assms ls] less by (cases op) (auto simp: streamBits_def Let_def)
  then show ?thesis using f overlay_ok [OF assms] that by simp
qed

lemma maxSetBitPosition_top:
  obtains m where "maxSetBitPosition bs stream = Inr m" "\<And>k. k \<in> streamBits bs stream \<Longrightarrow> int k \<le> m"
    "m = - 1 \<or> (\<exists>k \<in> streamBits bs stream. m = int k)"
proof -
  let ?lim = "min (wordCount stream) (availableWordCount bs (wordsOffset stream))"
  have ib: "inBuffer bs (wordsOffset stream) ?lim" by (rule availableWordCount_inBuffer) simp
  obtain m where m: "maxSetBitPosition bs stream = Inr m" "isTop m (expand (wordsFrom bs (wordsOffset stream) 0 ?lim))"
    using maxLoop_top [OF ib isTop_Nil, of 0] by (auto simp: maxSetBitPosition_def NO_SET_BIT_def)
  then show ?thesis using that by (simp add: isTop_def streamBits_def)
qed

section \<open>Properties\<close>

text \<open>C12: Folding a compressed bitmap into a destination is set union, or symmetric difference, with the bits the stream
  decompresses to, cut off at the destination's end; it never reads outside the buffer and never fails, even for a
  descriptor that overstates the words the buffer backs or a run-length word that declares more than fits.\<close>

theorem ewah_fold_set:
  assumes "\<forall>c \<in> set into. 0 \<le> c \<and> c < 2 ^ 32"
  shows "\<exists>res. foldEwahStream bs stream into op = Inr res \<and> length res = length into \<and>
    bitsOf res =
      (let b = streamBits bs stream \<inter> {..<32 * length into} in
       case op of FoldOr \<Rightarrow> bitsOf into \<union> b | FoldXor \<Rightarrow> (bitsOf into - b) \<union> (b - bitsOf into))"
  by (rule foldEwahStream_bits [of into bs stream op]) (use assms in \<open>auto simp: laneOk_def\<close>)

lemma ewah_fold_set_witness:
  "\<exists>res. foldEwahStream exampleEwah \<lparr>bitSize = 128, wordCount = 2, wordsOffset = 8, endOffset = 28\<rparr> [1, 0, 4] FoldXor = Inr res \<and>
    length res = length [1, 0, 4 :: int] \<and>
    bitsOf res = (let b = streamBits exampleEwah \<lparr>bitSize = 128, wordCount = 2, wordsOffset = 8, endOffset = 28\<rparr> \<inter> {..<32 * length [1, 0, 4 :: int]} in
      (bitsOf [1, 0, 4] - b) \<union> (b - bitsOf [1, 0, 4]))"
proof -
  have ok: "\<forall>c \<in> set [1, 0, 4]. 0 \<le> c \<and> c < (2 :: int) ^ 32" by simp
  show ?thesis using ewah_fold_set [OF ok, of exampleEwah "\<lparr>bitSize = 128, wordCount = 2, wordsOffset = 8, endOffset = 28\<rparr>" FoldXor]
    by (simp only: ewahFoldOp.case)
qed

text \<open>\<open>maxSetBitPosition\<close> finds the highest bit of a stream in one walk over the compressed words: its answer is the
  largest position the decompressed stream sets, or \<open>-1\<close> exactly when it sets none. (The stream is to span fewer than
  \<open>2^53\<close> bits, as far as the source's numbers are exact.)\<close>

theorem ewah_max_set_bit:
  assumes "32 * length (expand (wordsFrom bs (wordsOffset stream) 0
    (min (wordCount stream) (availableWordCount bs (wordsOffset stream))))) < 2 ^ 53"
  shows "\<exists>m. maxSetBitPosition bs stream = Inr m \<and>
    (streamBits bs stream = {} \<longleftrightarrow> m = - 1) \<and> (\<forall>k \<in> streamBits bs stream. int k \<le> m) \<and>
    (m = - 1 \<or> nat m \<in> streamBits bs stream)"
  by (rule maxSetBitPosition_top [of bs stream]) fastforce


lemma ewah_max_set_bit_witness:
  "maxSetBitPosition exampleEwah \<lparr>bitSize = 128, wordCount = 2, wordsOffset = 8, endOffset = 28\<rparr> = Inr 66 \<and>
   66 \<in> streamBits exampleEwah \<lparr>bitSize = 128, wordCount = 2, wordsOffset = 8, endOffset = 28\<rparr>"
proof -
  let ?s = "\<lparr>bitSize = 128, wordCount = 2, wordsOffset = 8, endOffset = 28\<rparr>"
  have "length (expand (wordsFrom exampleEwah (wordsOffset ?s) 0
      (min (wordCount ?s) (availableWordCount exampleEwah (wordsOffset ?s))))) = 4"
    by code_simp
  then have b: "32 * length (expand (wordsFrom exampleEwah (wordsOffset ?s) 0
      (min (wordCount ?s) (availableWordCount exampleEwah (wordsOffset ?s))))) < 2 ^ 53"
    by (simp only:) simp
  have v: "maxSetBitPosition exampleEwah ?s = Inr 66" by code_simp
  obtain m where m: "maxSetBitPosition exampleEwah ?s = Inr m" "m = - 1 \<or> nat m \<in> streamBits exampleEwah ?s"
    using ewah_max_set_bit [OF b] by blast
  have "m = 66" using m(1) unfolding v by (simp only: sum.inject)
  then show ?thesis using v m(2) by simp
qed

end
