(* ===== verification/BitmapUse.thy ===== *)
theory BitmapUse
  imports Bitmap EwahProofs LruProofs Identity
begin

text \<open>
  The application's readers of a bitmap (under \<open>application/primitives/internal/\<close>): \<open>bitmap-range-validation.ts\<close>,
  \<open>bitmap-container.ts\<close> and \<open>bitmap-reconstruct.ts\<close>. Loggers, and the memo of validated containers, are left out: neither
  changes an answer. A \<open>Uint32Array\<close> that is handed out is not written to afterwards.
\<close>

section \<open>Range validation\<close>

definition WORD_BITS :: nat where
  "WORD_BITS = 32"

definition laneCountFor :: "nat \<Rightarrow> nat" where
  "laneCountFor bitCount = (bitCount + (WORD_BITS - 1)) div WORD_BITS"

definition VALIDATION_MARGIN_LANES :: nat where
  "VALIDATION_MARGIN_LANES = 1"

definition hasSetBitAtOrAfter :: "int list \<Rightarrow> nat \<Rightarrow> bool" where
  "hasSetBitAtOrAfter words limit =
     (let limitLane = limit div WORD_BITS;
          bitInLane = limit mod WORD_BITS
      in if limitLane < length words \<and>
            js_ushr (js_and (words ! limitLane) (js_ushr (js_shl 4294967295 bitInLane) 0)) 0 \<noteq> 0
         then True
         else list_ex (\<lambda>lane. words ! lane \<noteq> 0) [limitLane + 1..<length words])"

definition foldAndCheckRange ::
    "packBitmap \<Rightarrow> ewahStream \<Rightarrow> int list \<Rightarrow> nat \<Rightarrow> nat \<Rightarrow> tsgit_error + int list option" where
  "foldAndCheckRange bitmap stream scratch laneCount objectCount =
     (let scratch = replicate (length scratch) 0 in
      bindE (foldEwahStream (bitmapBytes bitmap) stream scratch FoldOr) (\<lambda>scratch.
      Inr (if hasSetBitAtOrAfter scratch objectCount then None else Some (take laneCount scratch))))"

text \<open>The loop over the entry headers.\<close>

primrec entriesInRange :: "packBitmap \<Rightarrow> nat \<Rightarrow> bitmapEntryHeader list \<Rightarrow> tsgit_error + bool" where
  "entriesInRange bitmap objectCount [] = Inr True"
| "entriesInRange bitmap objectCount (header # headers) =
     (if objectCount \<le> bitmapPosition header then Inr False
      else bindE (maxSetBitPosition (bitmapBytes bitmap) (bitmapStream header)) (\<lambda>m.
        if int objectCount \<le> m then Inr False else entriesInRange bitmap objectCount headers))"

type_synonym typeBits = "int list \<times> int list \<times> int list \<times> int list"

definition validateBitmapRanges ::
    "packBitmap \<Rightarrow> bitmapEntryHeader list \<Rightarrow> nat \<Rightarrow> tsgit_error + typeBits option" where
  "validateBitmapRanges bitmap headers objectCount =
     (let laneCount = laneCountFor objectCount;
          scratch = replicate (laneCount + VALIDATION_MARGIN_LANES) 0;
          (commits, trees, blobs, tags) = typeStreams bitmap
      in bindE (foldAndCheckRange bitmap commits scratch laneCount objectCount) (\<lambda>commitBits.
         case commitBits of None \<Rightarrow> Inr None | Some commitBits \<Rightarrow>
         bindE (foldAndCheckRange bitmap trees scratch laneCount objectCount) (\<lambda>treeBits.
         case treeBits of None \<Rightarrow> Inr None | Some treeBits \<Rightarrow>
         bindE (foldAndCheckRange bitmap blobs scratch laneCount objectCount) (\<lambda>blobBits.
         case blobBits of None \<Rightarrow> Inr None | Some blobBits \<Rightarrow>
         bindE (foldAndCheckRange bitmap tags scratch laneCount objectCount) (\<lambda>tagBits.
         case tagBits of None \<Rightarrow> Inr None | Some tagBits \<Rightarrow>
         bindE (entriesInRange bitmap objectCount headers) (\<lambda>ok.
         Inr (if ok then Some (commitBits, treeBits, blobBits, tagBits) else None)))))))"

section \<open>Containers\<close>

definition buildEntryByOwnPosition :: "bitmapEntryHeader list \<Rightarrow> nat \<rightharpoonup> nat" where
  "buildEntryByOwnPosition headers =
     foldl (\<lambda>m (i, header). m(bitmapPosition header \<mapsto> i)) Map.empty (enumerate 0 headers)"

primrec invertLoop :: "nat list \<Rightarrow> nat \<Rightarrow> nat list \<Rightarrow> bool list \<Rightarrow> nat list option" where
  "invertLoop [] bitPosition inverted claimed = Some inverted"
| "invertLoop (ownPosition # rest) bitPosition inverted claimed =
     (if length claimed \<le> ownPosition \<or> claimed ! ownPosition then None
      else invertLoop rest (bitPosition + 1) (inverted[ownPosition := bitPosition]) (claimed[ownPosition := True]))"

definition invertPositions :: "nat list \<Rightarrow> nat list option" where
  "invertPositions positions =
     invertLoop positions 0 (replicate (length positions) 0) (replicate (length positions) False)"

definition parseBitmapContainer :: "bytes \<Rightarrow> nat \<Rightarrow> nat \<Rightarrow> tsgit_error + (packBitmap \<times> bitmapEntryHeader list) option" where
  "parseBitmapContainer bs dl objectCount =
     (case bindE (parsePackBitmap bs dl) (\<lambda>bitmap.
             if objectCount < bitmapEntryCount bitmap then Inr None
             else bindE (bitmapEntryHeaders bitmap) (\<lambda>headers. Inr (Some (bitmap, headers)))) of
        Inr r \<Rightarrow> Inr r
      | Inl (InvalidPackBitmap chk r) \<Rightarrow> Inr None
      | Inl err \<Rightarrow> Inl err)"

record validatedBitmapContainer =
  containerBitmap :: packBitmap
  containerHeaders :: "bitmapEntryHeader list"
  containerObjectCount :: nat
  containerLaneCount :: nat
  containerTypeBits :: typeBits

definition validateBitmapContainer :: "bytes \<Rightarrow> nat \<Rightarrow> nat \<Rightarrow> tsgit_error + validatedBitmapContainer option" where
  "validateBitmapContainer bs dl objectCount =
     bindE (parseBitmapContainer bs dl objectCount) (\<lambda>parsed.
     case parsed of None \<Rightarrow> Inr None | Some (bitmap, headers) \<Rightarrow>
     bindE (validateBitmapRanges bitmap headers objectCount) (\<lambda>validated.
     case validated of None \<Rightarrow> Inr None | Some bits \<Rightarrow>
     Inr (Some \<lparr>containerBitmap = bitmap, containerHeaders = headers, containerObjectCount = objectCount,
       containerLaneCount = laneCountFor objectCount, containerTypeBits = bits\<rparr>)))"

section \<open>Reconstruction\<close>

definition RECONSTRUCTION_CACHE_MAX_BYTES :: int where
  "RECONSTRUCTION_CACHE_MAX_BYTES = 8 * 1024 * 1024"

text \<open>The cache of a context is state, passed beside it.\<close>

record reconstructionContext =
  rcBitmap :: packBitmap
  rcHeaders :: "bitmapEntryHeader list"
  rcLaneCount :: nat

type_synonym reconstructionCache = "int list lruCache"

definition createReconstructionContext ::
    "packBitmap \<Rightarrow> bitmapEntryHeader list \<Rightarrow> nat \<Rightarrow> reconstructionContext \<times> reconstructionCache" where
  "createReconstructionContext bitmap headers laneCount =
     (\<lparr>rcBitmap = bitmap, rcHeaders = headers, rcLaneCount = laneCount\<rparr>, createLruCache)"

text \<open>The header at an index; reading a field of the \<open>undefined\<close> outside the array throws.\<close>

definition headerAt :: "reconstructionContext \<Rightarrow> int \<Rightarrow> tsgit_error + bitmapEntryHeader" where
  "headerAt rc i = (if 0 \<le> i \<and> i < int (length (rcHeaders rc)) then Inr (rcHeaders rc ! nat i) else Inl TypeError)"

text \<open>The walk back along the links.\<close>

function chainLoop ::
    "reconstructionContext \<Rightarrow> int list \<Rightarrow> int \<Rightarrow> reconstructionCache
      \<Rightarrow> tsgit_error + (int list \<times> int list option \<times> reconstructionCache)" where
  "chainLoop rc links cursor cache =
     bindE (headerAt rc cursor) (\<lambda>header.
     if xorOffset header = 0 then Inr (links, None, cache)
     else
       let parent = cursor - int (xorOffset header);
           (cachedParent, cache') = lruGet (intText parent) cache
       in case cachedParent of
            Some base \<Rightarrow> Inr (links, Some base, cache')
          | None \<Rightarrow> chainLoop rc (links @ [parent]) parent cache')"
  by pat_completeness auto
termination
  by (relation "measure (\<lambda>(rc, links, cursor, cache). nat (cursor + 1))") (auto simp: headerAt_def split: if_splits)

declare chainLoop.simps [simp del]

text \<open>The folds forward, over the reversed links; \<^const>\<open>None\<close> would be an eviction loop that does not end.\<close>

fun foldChain ::
    "reconstructionContext \<Rightarrow> int list \<Rightarrow> int list \<Rightarrow> reconstructionCache
      \<Rightarrow> (tsgit_error + (int list \<times> reconstructionCache)) option" where
  "foldChain rc [] working cache = Some (Inr (working, cache))"
| "foldChain rc (idx # rest) working cache =
     (case headerAt rc idx of
        Inl err \<Rightarrow> Some (Inl err)
      | Inr header \<Rightarrow>
          (case foldEwahStream (bitmapBytes (rcBitmap rc)) (bitmapStream header) working
                  (if xorOffset header = 0 then FoldOr else FoldXor) of
             Inl err \<Rightarrow> Some (Inl err)
           | Inr working' \<Rightarrow>
               (case lruSet RECONSTRUCTION_CACHE_MAX_BYTES None (intText idx) working' (int (4 * length working')) cache of
                  None \<Rightarrow> None
                | Some (Inl err, cache') \<Rightarrow> Some (Inl err)
                | Some (Inr stored, cache') \<Rightarrow> foldChain rc rest working' cache')))"

definition reconstructEntry ::
    "reconstructionContext \<Rightarrow> int \<Rightarrow> reconstructionCache \<Rightarrow> (tsgit_error + (int list \<times> reconstructionCache)) option" where
  "reconstructEntry rc entryIndex cache =
     (let (direct, cache) = lruGet (intText entryIndex) cache in
      case direct of
        Some d \<Rightarrow> Some (Inr (d, cache))
      | None \<Rightarrow>
          (case chainLoop rc [entryIndex] entryIndex cache of
             Inl err \<Rightarrow> Some (Inl err)
           | Inr (links, base, cache) \<Rightarrow>
               foldChain rc (List.rev links)
                 (case base of None \<Rightarrow> replicate (rcLaneCount rc) 0 | Some b \<Rightarrow> b) cache))"

definition orInto :: "int list \<Rightarrow> int list \<Rightarrow> int list" where
  "orInto into from =
     map (\<lambda>lane. js_ushr (js_or (into ! lane) (if lane < length from then from ! lane else 0)) 0) [0..<length into]"

end
