(* ===== verification/BitmapProofs.thy ===== *)
theory BitmapProofs
  imports BitmapUse
begin

text \<open>
  What the readers of a bitmap guarantee: range validation decides exactly what it is to decide, a container that passes it
  holds no position out of range, and reconstruction along the chains is exact whatever the cache holds.
\<close>

section \<open>Ranges\<close>

lemma laneCountFor_bounds: "n \<le> 32 * laneCountFor n" "32 * laneCountFor n < n + 32"
  by (simp_all add: laneCountFor_def WORD_BITS_def)

lemma bitsOf_take: "bitsOf (take n ls) = bitsOf ls \<inter> {..<32 * n}"
  by (auto simp: bitsOf_def div_less_iff_less_mult mult.commute)

lemma laneOk_take: "laneOk (take_bit 32 c)"
  using take_bit_int_less_exp [of 32 c] by (simp add: laneOk_def)

lemma lane_nonzero:
  assumes "laneOk c"
  shows "c \<noteq> 0 \<longleftrightarrow> (\<exists>j < 32. bit c j)"
proof
  assume "c \<noteq> 0"
  have c: "take_bit 32 c = c" using assms by (simp add: laneOk_def take_bit_int_eq_self)
  show "\<exists>j < 32. bit c j"
  proof (rule ccontr)
    assume n: "\<not> (\<exists>j < 32. bit c j)"
    have "take_bit 32 c = 0" by (rule bit_eqI) (use n in \<open>auto simp: bit_take_bit_iff\<close>)
    then show False using c \<open>c \<noteq> 0\<close> by simp
  qed
qed auto

lemma mask_bits: "bit (js_ushr (js_shl 4294967295 b) 0) j \<longleftrightarrow> b mod 32 \<le> j \<and> j < 32"
proof -
  have "(4294967295 :: int) = mask 32" by (simp add: mask_eq_exp_minus_1)
  then have m: "bit (4294967295 :: int) i \<longleftrightarrow> i < 32" for i by (simp only: bit_mask_iff) simp
  have "bit (js_ushr (js_shl 4294967295 b) 0) j \<longleftrightarrow> j < 32 \<and> bit (push_bit (b mod 32) (4294967295 :: int)) j"
    by (simp add: js_ushr_def js_shl_def toUint32_def toInt32_def take_bit_signed_take_bit bit_take_bit_iff)
  also have "\<dots> \<longleftrightarrow> b mod 32 \<le> j \<and> j < 32" using m [of "j - b mod 32"] by (auto simp: bit_push_bit_iff)
  finally show ?thesis .
qed

lemma masked_nonzero:
  assumes "laneOk c"
  shows "js_ushr (js_and c (js_ushr (js_shl 4294967295 b) 0)) 0 \<noteq> 0 \<longleftrightarrow> (\<exists>j < 32. b mod 32 \<le> j \<and> bit c j)"
proof -
  let ?m = "js_ushr (js_shl 4294967295 b) 0"
  have e: "js_ushr (js_and c ?m) 0 = take_bit 32 (c AND ?m)"
    by (simp add: js_ushr_def js_and_def toUint32_def toInt32_def take_bit_signed_take_bit)
  have "take_bit 32 (c AND ?m) \<noteq> 0 \<longleftrightarrow> (\<exists>j < 32. bit (take_bit 32 (c AND ?m)) j)" by (rule lane_nonzero [OF laneOk_take])
  also have "\<dots> \<longleftrightarrow> (\<exists>j < 32. b mod 32 \<le> j \<and> bit c j)" by (auto simp: bit_take_bit_iff bit_and_iff mask_bits)
  finally show ?thesis unfolding e .
qed

lemma hasSetBit_exact:
  assumes "\<forall>c \<in> set ws. laneOk c"
  shows "hasSetBitAtOrAfter ws n \<longleftrightarrow> (\<exists>k \<in> bitsOf ws. n \<le> k)"
proof -
  have ok: "laneOk (ws ! i)" if "i < length ws" for i using assms that by simp
  have a: "(n div 32 < length ws \<and> js_ushr (js_and (ws ! (n div 32)) (js_ushr (js_shl 4294967295 (n mod 32)) 0)) 0 \<noteq> 0) \<longleftrightarrow>
      (n div 32 < length ws \<and> (\<exists>j < 32. n mod 32 \<le> j \<and> bit (ws ! (n div 32)) j))"
    using masked_nonzero [OF ok [of "n div 32"], of "n mod 32"] by auto
  have "list_ex (\<lambda>l. ws ! l \<noteq> 0) [n div 32 + 1..<length ws] \<longleftrightarrow> (\<exists>l. n div 32 < l \<and> l < length ws \<and> ws ! l \<noteq> 0)"
    by (auto simp: list_ex_iff Suc_le_eq)
  then have b: "list_ex (\<lambda>l. ws ! l \<noteq> 0) [n div 32 + 1..<length ws] \<longleftrightarrow>
      (\<exists>l. n div 32 < l \<and> l < length ws \<and> (\<exists>j < 32. bit (ws ! l) j))"
    using lane_nonzero [OF ok] by blast
  have "hasSetBitAtOrAfter ws n \<longleftrightarrow>
      (n div 32 < length ws \<and> (\<exists>j < 32. n mod 32 \<le> j \<and> bit (ws ! (n div 32)) j)) \<or>
      (\<exists>l. n div 32 < l \<and> l < length ws \<and> (\<exists>j < 32. bit (ws ! l) j))"
    unfolding a [symmetric] b [symmetric] by (auto simp add: hasSetBitAtOrAfter_def WORD_BITS_def Let_def)
  also have "\<dots> \<longleftrightarrow> (\<exists>l < length ws. \<exists>j < 32. bit (ws ! l) j \<and> ((n div 32 = l \<and> n mod 32 \<le> j) \<or> n div 32 < l))"
    by blast
  also have "\<dots> \<longleftrightarrow> (\<exists>l < length ws. \<exists>j < 32. bit (ws ! l) j \<and> n \<le> 32 * l + j)"
  proof (intro ex_cong1 conj_cong refl)
    fix l j :: nat
    assume "j < 32"
    then show "(n div 32 = l \<and> n mod 32 \<le> j) \<or> n div 32 < l \<longleftrightarrow> n \<le> 32 * l + j"
      using mult_div_mod_eq [of 32 n] mod_less_divisor [of 32 n] by linarith
  qed
  also have "\<dots> \<longleftrightarrow> (\<exists>k \<in> bitsOf ws. n \<le> k)"
  proof -
    have "32 * l + j \<in> bitsOf ws" if "l < length ws" "j < 32" "bit (ws ! l) j" for l j
      using that by (simp add: bitsOf_def)
    moreover have "\<exists>l < length ws. \<exists>j < 32. bit (ws ! l) j \<and> n \<le> 32 * l + j" if "k \<in> bitsOf ws" "n \<le> k" for k
      using that by (intro exI [of _ "k div 32"] conjI exI [of _ "k mod 32"]) (auto simp: bitsOf_def)
    ultimately show ?thesis by blast
  qed
  finally show ?thesis .
qed

text \<open>What a stream sets within the space that is looked at, and whether that is all in range.\<close>

definition seenBits :: "packBitmap \<Rightarrow> nat \<Rightarrow> ewahStream \<Rightarrow> nat set" where
  "seenBits bitmap n s = streamBits (bitmapBytes bitmap) s \<inter> {..<32 * (laneCountFor n + 1)}"

lemma foldAndCheck_exact:
  assumes "length scratch = laneCountFor n + 1"
  shows "(\<exists>w. foldAndCheckRange bitmap s scratch (laneCountFor n) n = Inr (Some w) \<and> seenBits bitmap n s \<subseteq> {..<n} \<and>
        length w = laneCountFor n \<and> bitsOf w = seenBits bitmap n s)
    \<or> (foldAndCheckRange bitmap s scratch (laneCountFor n) n = Inr None \<and> \<not> seenBits bitmap n s \<subseteq> {..<n})"
proof -
  have z: "\<forall>c \<in> set (replicate (length scratch) 0). laneOk c" by (simp add: laneOk_def)
  obtain res where r: "foldEwahStream (bitmapBytes bitmap) s (replicate (length scratch) 0) FoldOr = Inr res"
    "length res = length scratch" "\<forall>c \<in> set res. laneOk c" "bitsOf res = seenBits bitmap n s"
  proof (rule foldEwahStream_bits [OF z, of "bitmapBytes bitmap" s FoldOr], goal_cases)
    case (1 res)
    have "bitsOf (replicate (length scratch) 0) = {}" by (rule bitsOf_zeros)
    then have "bitsOf res = seenBits bitmap n s" using 1(5) by (simp only: ewahFoldOp.case Let_def) (simp add: seenBits_def assms)
    then show ?case using 1(1,2,3,4) by simp
  qed
  have i: "hasSetBitAtOrAfter res n \<longleftrightarrow> \<not> seenBits bitmap n s \<subseteq> {..<n}"
    using hasSetBit_exact [OF r(3)] r(4) by (auto simp: not_less)
  have "bitsOf (take (laneCountFor n) res) = seenBits bitmap n s" if "seenBits bitmap n s \<subseteq> {..<n}"
    using that laneCountFor_bounds(1) [of n] r(4) by (fastforce simp: bitsOf_take)
  then show ?thesis using r i assms by (cases "hasSetBitAtOrAfter res n") (auto simp: foldAndCheckRange_def Let_def)
qed

lemma entriesInRange_exact:
  "entriesInRange bitmap n hs = Inr (\<forall>h \<in> set hs. bitmapPosition h < n \<and>
    (\<forall>k \<in> streamBits (bitmapBytes bitmap) (bitmapStream h). k < n))"
proof (induction hs)
  case (Cons h hs)
  obtain m where m: "maxSetBitPosition (bitmapBytes bitmap) (bitmapStream h) = Inr m"
    "\<And>k. k \<in> streamBits (bitmapBytes bitmap) (bitmapStream h) \<Longrightarrow> int k \<le> m"
    "m = - 1 \<or> (\<exists>k \<in> streamBits (bitmapBytes bitmap) (bitmapStream h). m = int k)"
    using maxSetBitPosition_top [of "bitmapBytes bitmap" "bitmapStream h"] by metis
  have "int n \<le> m \<longleftrightarrow> \<not> (\<forall>k \<in> streamBits (bitmapBytes bitmap) (bitmapStream h). k < n)"
    using m(2,3) by (fastforce simp: not_less)
  then show ?case using Cons m(1) by (auto simp: not_less)
qed simp

section \<open>Inverting a table\<close>

lemma invertLoop_iff:
  "length tab = length claimed \<Longrightarrow> invertLoop ps b tab claimed
    = (if distinct ps \<and> (\<forall>p \<in> set ps. p < length claimed \<and> \<not> claimed ! p)
       then Some (foldl (\<lambda>q (i, p). q[p := i]) tab (enumerate b ps)) else None)"
  by (induction ps arbitrary: b tab claimed) (auto simp: nth_list_update)

lemma fold_updates_other: "p \<notin> set ps \<Longrightarrow> foldl (\<lambda>q (i, p). q[p := i]) q (enumerate b ps) ! p = q ! p"
  by (induction ps arbitrary: b q) auto

lemma fold_updates:
  "distinct ps \<Longrightarrow> \<forall>p \<in> set ps. p < length q \<Longrightarrow> i < length ps \<Longrightarrow>
    foldl (\<lambda>q (i, p). q[p := i]) q (enumerate b ps) ! (ps ! i) = b + i"
proof (induction ps arbitrary: b q i)
  case (Cons p ps)
  then show ?case using fold_updates_other [of p ps] by (cases i) auto
qed simp

lemma length_fold_updates: "length (foldl (\<lambda>q (i, p). q[p := i]) q (enumerate b ps)) = length q"
  by (induction ps arbitrary: b q) auto

lemma invert_exact:
  "case invertPositions ps of
     None \<Rightarrow> mset ps \<noteq> mset [0..<length ps]
   | Some q \<Rightarrow> mset ps = mset [0..<length ps] \<and> length q = length ps \<and>
       (\<forall>i < length ps. q ! (ps ! i) = i \<and> ps ! (q ! i) = i)"
proof -
  have perm: "mset ps = mset [0..<length ps] \<longleftrightarrow> distinct ps \<and> (\<forall>p \<in> set ps. p < length ps)"
  proof
    assume "mset ps = mset [0..<length ps]"
    then have "set ps = set [0..<length ps]" by (metis set_mset_mset)
    moreover have "distinct ps" using mset_eq_imp_distinct_iff [OF \<open>mset ps = mset [0..<length ps]\<close>] by (simp del: mset_upt)
    ultimately have "set ps = set [0..<length ps]" "distinct ps" by blast+
    then show "distinct ps \<and> (\<forall>p \<in> set ps. p < length ps)" by simp
  next
    assume p: "distinct ps \<and> (\<forall>p \<in> set ps. p < length ps)"
    then have "set ps = {..<length ps}" by (intro card_subset_eq) (auto simp: distinct_card)
    then show "mset ps = mset [0..<length ps]" using p set_eq_iff_mset_eq_distinct [of ps "[0..<length ps]"] by (simp add: lessThan_atLeast0)
  qed
  have eq: "invertPositions ps = (if mset ps = mset [0..<length ps]
      then Some (foldl (\<lambda>q (i, p). q[p := i]) (replicate (length ps) 0) (enumerate 0 ps)) else None)"
    unfolding perm by (auto simp: invertPositions_def invertLoop_iff)
  show ?thesis
  proof (cases "mset ps = mset [0..<length ps]")
    case True
    define q where "q = foldl (\<lambda>q (i, p). q[p := i]) (replicate (length ps) 0) (enumerate 0 ps)"
    have i: "q ! (ps ! i) = i" if "i < length ps" for i
    proof -
      have "distinct ps" "\<forall>p \<in> set ps. p < length (replicate (length ps) (0 :: nat))" using True perm by simp_all
      from fold_updates [OF this that, of 0] show ?thesis by (simp add: q_def)
    qed
    have l: "length q = length ps" by (simp add: q_def length_fold_updates)
    have k: "ps ! (q ! j) = j" if "j < length ps" for j
    proof -
      have "set ps = set [0..<length ps]" using True by (metis set_mset_mset)
      then have "j \<in> set ps" using that by simp
      then obtain m where m: "m < length ps" "ps ! m = j" by (auto simp: in_set_conv_nth)
      have "q ! j = m" using i [OF m(1)] unfolding m(2) .
      then show ?thesis using m(2) by (simp only:)
    qed
    have "invertPositions ps = Some q" unfolding eq if_P [OF True] q_def ..
    then show ?thesis by (simp only: option.case) (intro conjI allI impI True l i k)
  next
    case False
    then have "invertPositions ps = None" unfolding eq by (rule if_not_P)
    then show ?thesis using False by (simp only: option.case) blast
  qed
qed

section \<open>The bits of an entry\<close>

function chainBits :: "reconstructionContext \<Rightarrow> nat \<Rightarrow> nat set" where
  "chainBits rc i =
     (let h = rcHeaders rc ! i;
          b = streamBits (bitmapBytes (rcBitmap rc)) (bitmapStream h) \<inter> {..<32 * rcLaneCount rc}
      in if xorOffset h = 0 \<or> i < xorOffset h then b
         else (chainBits rc (i - xorOffset h) - b) \<union> (b - chainBits rc (i - xorOffset h)))"
  by pat_completeness auto
termination by (relation "measure snd") auto

declare chainBits.simps [simp del]

definition goodLanes :: "reconstructionContext \<Rightarrow> nat \<Rightarrow> int list \<Rightarrow> bool" where
  "goodLanes rc i v \<longleftrightarrow> length v = rcLaneCount rc \<and> (\<forall>c \<in> set v. laneOk c) \<and> bitsOf v = chainBits rc i"

definition goodEntry :: "reconstructionContext \<Rightarrow> jsstr \<times> int list \<times> int \<Rightarrow> bool" where
  "goodEntry rc e \<longleftrightarrow> (\<exists>i < length (rcHeaders rc). fst e = intText (int i) \<and> goodLanes rc i (fst (snd e)))"

definition cacheGood :: "reconstructionContext \<Rightarrow> reconstructionCache \<Rightarrow> bool" where
  "cacheGood rc cache \<longleftrightarrow> (\<exists>xs. represents cache xs \<and>
     (\<forall>e \<in> set xs. goodEntry rc e))"

definition linksBack :: "reconstructionContext \<Rightarrow> bool" where
  "linksBack rc \<longleftrightarrow> 0 < rcLaneCount rc \<and> (\<forall>k < length (rcHeaders rc). xorOffset (rcHeaders rc ! k) \<le> k)"

lemma intText_inject: "intText (int i) = intText (int j) \<longleftrightarrow> i = j"
proof -
  have "intText (int n) = toStringRadix 10 n" for n by (simp add: intText_def del: toStringRadix.simps)
  then show ?thesis using digitsValue_toStringRadix by metis
qed

lemma cacheGood_create: "cacheGood rc createLruCache"
  unfolding cacheGood_def using create_represents by (intro exI [of _ "[]"]) simp

lemma cacheGood_get:
  assumes "cacheGood rc cache" "lruGet (intText (int i)) cache = (r, cache')"
  shows "cacheGood rc cache'" "r = Some v \<Longrightarrow> goodLanes rc i v"
proof -
  obtain xs where xs: "represents cache xs" "\<forall>e \<in> set xs. goodEntry rc e"
    using assms(1) by (auto simp: cacheGood_def)
  let ?k = "intText (int i)"
  obtain s' where s: "lruStep 0 None (OpGet ?k) cache = Some (fst (specStep 0 None (OpGet ?k) xs), s')"
    "represents s' (snd (specStep 0 None (OpGet ?k) xs))"
    using lru.step_sim [OF xs(1)] by blast
  have "set (snd (specStep 0 None (OpGet ?k) xs)) \<subseteq> set xs"
    by (auto simp: without_def dest: map_of_SomeD split: option.splits)
  then have "\<forall>e \<in> set (snd (specStep 0 None (OpGet ?k) xs)). goodEntry rc e" using xs(2) by blast
  moreover have "s' = cache'" using s(1) assms(2) by simp
  ultimately show "cacheGood rc cache'" using s(2) unfolding cacheGood_def by blast
  show "goodLanes rc i v" if "r = Some v"
  proof -
    have "OutValue (Some v) = fst (specStep 0 None (OpGet ?k) xs)" using s(1) assms(2) that by simp
    then obtain sz where "(?k, v, sz) \<in> set xs" by (auto dest: map_of_SomeD split: option.splits)
    then have "goodEntry rc (?k, v, sz)" using xs(2) by blast
    then show ?thesis using intText_inject by (auto simp: goodEntry_def)
  qed
qed

lemma cacheGood_set:
  assumes "cacheGood rc cache" "goodLanes rc i v" "i < length (rcHeaders rc)" "0 < sz"
  obtains r cache' where "lruSet mb None (intText (int i)) v sz cache = Some (Inr r, cache')" "cacheGood rc cache'"
proof -
  obtain xs where xs: "represents cache xs" "\<forall>e \<in> set xs. goodEntry rc e"
    using assms(1) by (auto simp: cacheGood_def)
  let ?op = "OpSet (intText (int i)) v sz"
  obtain s' where s: "lruStep mb None ?op cache = Some (fst (specStep mb None ?op xs), s')"
    "represents s' (snd (specStep mb None ?op xs))"
    using lru.step_sim [OF xs(1)] by blast
  obtain ys where "(intText (int i), v, sz) # without (intText (int i)) xs
      = specEvict mb None ((intText (int i), v, sz) # without (intText (int i)) xs) @ ys" using specEvict_prefix by blast
  then have "set (specEvict mb None ((intText (int i), v, sz) # without (intText (int i)) xs))
      \<subseteq> set ((intText (int i), v, sz) # without (intText (int i)) xs)"
    by (metis Un_upper1 set_append)
  then have "set (snd (specStep mb None ?op xs)) \<subseteq> insert (intText (int i), v, sz) (set xs)"
    using assms(4) by (auto simp: without_def)
  moreover have "goodEntry rc (intText (int i), v, sz)" using assms(2,3) by (auto simp: goodEntry_def)
  ultimately have "\<forall>e \<in> set (snd (specStep mb None ?op xs)). goodEntry rc e" using xs(2) by blast
  then have g: "cacheGood rc s'" using s(2) unfolding cacheGood_def by blast
  obtain r where "fst (specStep mb None ?op xs) = OutStored (Inr r)" using assms(4) by (cases "mb < sz") auto
  then have "lruSet mb None (intText (int i)) v sz cache = Some (Inr r, s')" using s(1) by auto
  then show ?thesis using g that by blast
qed

section \<open>Walking back and folding forward\<close>

text \<open>The indices behind \<open>i\<close>, up to the terminator or to a cached reconstruction.\<close>

fun linked :: "reconstructionContext \<Rightarrow> nat \<Rightarrow> nat list \<Rightarrow> int list option \<Rightarrow> bool" where
  "linked rc i [] base \<longleftrightarrow>
     (case base of None \<Rightarrow> xorOffset (rcHeaders rc ! i) = 0
      | Some b \<Rightarrow> xorOffset (rcHeaders rc ! i) \<noteq> 0 \<and> goodLanes rc (i - xorOffset (rcHeaders rc ! i)) b)"
| "linked rc i (j # js) base \<longleftrightarrow>
     xorOffset (rcHeaders rc ! i) \<noteq> 0 \<and> j = i - xorOffset (rcHeaders rc ! i) \<and> linked rc j js base"

lemma headerAt_ok: "i < length (rcHeaders rc) \<Longrightarrow> headerAt rc (int i) = Inr (rcHeaders rc ! i)"
  by (simp add: headerAt_def)

lemma chainLoop_links:
  assumes "linksBack rc" "cacheGood rc cache" "i < length (rcHeaders rc)"
  shows "\<exists>js base cache'. chainLoop rc ls (int i) cache = Inr (ls @ map int js, base, cache') \<and>
    cacheGood rc cache' \<and> linked rc i js base"
  using assms(2,3)
proof (induction i arbitrary: ls cache rule: less_induct)
  case (less i)
  let ?x = "xorOffset (rcHeaders rc ! i)"
  note h = headerAt_ok [OF less.prems(2)]
  show ?case
  proof (cases "?x = 0")
    case True
    then have "chainLoop rc ls (int i) cache = Inr (ls @ map int [], None, cache) \<and> cacheGood rc cache \<and> linked rc i [] None"
      using h less.prems(1) by (simp add: chainLoop.simps)
    then show ?thesis by blast
  next
    case False
    have x: "?x \<le> i" using assms(1) less.prems(2) by (simp add: linksBack_def)
    then have p: "int i - int ?x = int (i - ?x)" by simp
    obtain r c where g: "lruGet (intText (int (i - ?x))) cache = (r, c)" by fastforce
    note good = cacheGood_get [OF less.prems(1) g]
    show ?thesis
    proof (cases r)
      case None
      then have "chainLoop rc ls (int i) cache = chainLoop rc (ls @ [int (i - ?x)]) (int (i - ?x)) c"
        unfolding chainLoop.simps [of rc ls "int i"] h bindE_simps if_not_P [OF False] Let_def p g prod.case by (simp only: option.case)
      moreover obtain js base c' where "chainLoop rc (ls @ [int (i - ?x)]) (int (i - ?x)) c
          = Inr ((ls @ [int (i - ?x)]) @ map int js, base, c')" "cacheGood rc c'" "linked rc (i - ?x) js base"
      proof -
        have "i - ?x < i" "i - ?x < length (rcHeaders rc)" using False x less.prems(2) by simp_all
        from less.IH [OF this(1) good(1) this(2), of "ls @ [int (i - ?x)]"] show ?thesis using that by blast
      qed
      ultimately have "chainLoop rc ls (int i) cache = Inr (ls @ map int ((i - ?x) # js), base, c') \<and> cacheGood rc c' \<and>
          linked rc i ((i - ?x) # js) base" using False by simp
      then show ?thesis by blast
    next
      case (Some b)
      then have "chainLoop rc ls (int i) cache = Inr (ls @ map int [], Some b, c) \<and> cacheGood rc c \<and> linked rc i [] (Some b)"
        unfolding chainLoop.simps [of rc ls "int i"] h bindE_simps if_not_P [OF False] Let_def p g prod.case
        using False good by simp
      then show ?thesis by blast
    qed
  qed
qed

lemma foldChain_append:
  "foldChain rc (xs @ ys) w cache =
    (case foldChain rc xs w cache of Some (Inr (w', cache')) \<Rightarrow> foldChain rc ys w' cache' | r \<Rightarrow> r)"
  by (induction rc xs w cache rule: foldChain.induct) (auto split: sum.splits option.splits)

lemma foldChain_step:
  assumes "linksBack rc" "cacheGood rc cache" "i < length (rcHeaders rc)"
    "if xorOffset (rcHeaders rc ! i) = 0 then w = replicate (rcLaneCount rc) 0
     else goodLanes rc (i - xorOffset (rcHeaders rc ! i)) w"
  obtains v cache' where "foldChain rc [int i] w cache = Some (Inr (v, cache'))" "goodLanes rc i v" "cacheGood rc cache'"
proof -
  let ?h = "rcHeaders rc ! i" let ?bs = "bitmapBytes (rcBitmap rc)"
  have x: "\<not> i < xorOffset ?h" using assms(1,3) by (simp add: linksBack_def not_less)
  have ok: "\<forall>c \<in> set w. laneOk c" "length w = rcLaneCount rc"
    using assms(4) by (auto simp: goodLanes_def laneOk_def split: if_splits)
  obtain v where v: "foldEwahStream ?bs (bitmapStream ?h) w (if xorOffset ?h = 0 then FoldOr else FoldXor) = Inr v"
    "length v = length w" "\<forall>c \<in> set v. laneOk c"
    "bitsOf v = (let b = streamBits ?bs (bitmapStream ?h) \<inter> {..<32 * length w} in
       case (if xorOffset ?h = 0 then FoldOr else FoldXor) of FoldOr \<Rightarrow> bitsOf w \<union> b | FoldXor \<Rightarrow> (bitsOf w - b) \<union> (b - bitsOf w))"
    using foldEwahStream_bits [OF ok(1)] by metis
  have "bitsOf v = chainBits rc i"
  proof (cases "xorOffset ?h = 0")
    case True
    then show ?thesis using v(4) assms(4) ok(2) by (simp add: chainBits.simps [of rc i] Let_def bitsOf_zeros)
  next
    case False
    then have "bitsOf w = chainBits rc (i - xorOffset ?h)" using assms(4) by (simp add: goodLanes_def)
    then show ?thesis using v(4) False x ok(2) by (simp add: chainBits.simps [of rc i] Let_def)
  qed
  then have g: "goodLanes rc i v" using v ok by (simp add: goodLanes_def)
  have "0 < int (4 * length v)" using assms(1) v(2) ok(2) by (simp add: linksBack_def)
  then obtain r c where "lruSet RECONSTRUCTION_CACHE_MAX_BYTES None (intText (int i)) v (int (4 * length v)) cache = Some (Inr r, c)"
    "cacheGood rc c" using cacheGood_set [OF assms(2) g assms(3)] by metis
  then show ?thesis using that [of v c] g v(1) headerAt_ok [OF assms(3)] by simp
qed

lemma linked_less: "linksBack rc \<Longrightarrow> linked rc i js base \<Longrightarrow> i < length (rcHeaders rc) \<Longrightarrow> j \<in> set js \<Longrightarrow> j < length (rcHeaders rc)"
  by (induction js arbitrary: i) auto

lemma foldChain_links:
  assumes "linksBack rc" "cacheGood rc cache" "i < length (rcHeaders rc)" "linked rc i js base"
  shows "\<exists>v cache'. foldChain rc (map int (List.rev (i # js)))
      (case base of None \<Rightarrow> replicate (rcLaneCount rc) 0 | Some b \<Rightarrow> b) cache = Some (Inr (v, cache')) \<and>
    goodLanes rc i v \<and> cacheGood rc cache'"
  using assms(2-4)
proof (induction js arbitrary: i cache)
  case Nil
  let ?w = "case base of None \<Rightarrow> replicate (rcLaneCount rc) 0 | Some b \<Rightarrow> b"
  have "if xorOffset (rcHeaders rc ! i) = 0 then ?w = replicate (rcLaneCount rc) 0
     else goodLanes rc (i - xorOffset (rcHeaders rc ! i)) ?w"
    using Nil.prems(3) by (auto split: option.splits)
  from foldChain_step [OF assms(1) Nil.prems(1,2) this] show ?case by (simp del: foldChain.simps) metis
next
  case (Cons j js)
  let ?w = "case base of None \<Rightarrow> replicate (rcLaneCount rc) 0 | Some b \<Rightarrow> b"
  have j: "xorOffset (rcHeaders rc ! i) \<noteq> 0" "j = i - xorOffset (rcHeaders rc ! i)" "linked rc j js base"
    using Cons.prems(3) unfolding linked.simps by blast+
  obtain v c where v: "foldChain rc (map int (List.rev (j # js))) ?w cache = Some (Inr (v, c))" "goodLanes rc j v" "cacheGood rc c"
  proof -
    have "j < length (rcHeaders rc)" using j(2) Cons.prems(2) by simp
    from Cons.IH [OF Cons.prems(1) this j(3)] show ?thesis using that by blast
  qed
  have "if xorOffset (rcHeaders rc ! i) = 0 then v = replicate (rcLaneCount rc) 0
     else goodLanes rc (i - xorOffset (rcHeaders rc ! i)) v"
    using j v(2) by simp
  from foldChain_step [OF assms(1) v(3) Cons.prems(2) this]
  obtain v' c' where "foldChain rc [int i] v c = Some (Inr (v', c'))" "goodLanes rc i v'" "cacheGood rc c'" by metis
  moreover have "map int (List.rev (i # j # js)) = map int (List.rev (j # js)) @ [int i]" by simp
  ultimately show ?case using v(1) by (simp only: foldChain_append option.case sum.case prod.case) blast
qed

lemma reconstructEntry_good:
  assumes "linksBack rc" "cacheGood rc cache" "i < length (rcHeaders rc)"
  shows "\<exists>v cache'. reconstructEntry rc (int i) cache = Some (Inr (v, cache')) \<and> goodLanes rc i v \<and> cacheGood rc cache'"
proof -
  obtain r c where g: "lruGet (intText (int i)) cache = (r, c)" by fastforce
  note good = cacheGood_get [OF assms(2) g]
  show ?thesis
  proof (cases r)
    case None
    obtain js base c' where l: "chainLoop rc [int i] (int i) c = Inr ([int i] @ map int js, base, c')" "cacheGood rc c'"
      "linked rc i js base" using chainLoop_links [OF assms(1) good(1) assms(3)] by metis
    have "List.rev ([int i] @ map int js) = map int (List.rev (i # js))" by (simp add: rev_map)
    then show ?thesis using foldChain_links [OF assms(1) l(2) assms(3) l(3)] None g l(1)
      by (simp only: reconstructEntry_def Let_def prod.case option.case sum.case)
  next
    case (Some d)
    then show ?thesis using good g by (simp add: reconstructEntry_def)
  qed
qed

text \<open>A row of requests over one cache.\<close>

fun reconstructAll ::
    "reconstructionContext \<Rightarrow> int list \<Rightarrow> reconstructionCache \<Rightarrow> (tsgit_error + (int list list \<times> reconstructionCache)) option" where
  "reconstructAll rc [] cache = Some (Inr ([], cache))"
| "reconstructAll rc (i # is) cache =
     (case reconstructEntry rc i cache of
        None \<Rightarrow> None
      | Some (Inl err) \<Rightarrow> Some (Inl err)
      | Some (Inr (v, cache')) \<Rightarrow>
          (case reconstructAll rc is cache' of
             Some (Inr (vs, cache'')) \<Rightarrow> Some (Inr (v # vs, cache''))
           | other \<Rightarrow> other))"

lemma reconstructAll_good:
  assumes "linksBack rc" "cacheGood rc cache" "\<forall>i \<in> set is. i < length (rcHeaders rc)"
  shows "\<exists>vs cache'. reconstructAll rc (map int is) cache = Some (Inr (vs, cache')) \<and> map bitsOf vs = map (chainBits rc) is"
  using assms(2,3)
proof (induction "is" arbitrary: cache)
  case (Cons i "is")
  obtain v c where v: "reconstructEntry rc (int i) cache = Some (Inr (v, c))" "goodLanes rc i v" "cacheGood rc c"
  proof -
    have "i < length (rcHeaders rc)" using Cons.prems(2) by simp
    from reconstructEntry_good [OF assms(1) Cons.prems(1) this] show ?thesis using that by blast
  qed
  then show ?case using Cons.IH [OF v(3)] Cons.prems(2) by (auto simp: goodLanes_def)
qed simp

section \<open>Whole artefacts\<close>

text \<open>Every position of the artefact is in range. A type stream is looked at one lane past the end only, so a bit beyond
  that lane does not count against it.\<close>

definition rangesOk :: "packBitmap \<Rightarrow> bitmapEntryHeader list \<Rightarrow> nat \<Rightarrow> bool" where
  "rangesOk bitmap hs n \<longleftrightarrow>
     (case typeStreams bitmap of (c, t, b, g) \<Rightarrow> \<forall>s \<in> {c, t, b, g}. \<forall>k \<in> streamBits (bitmapBytes bitmap) s.
        k < n \<or> 32 * (laneCountFor n + 1) \<le> k) \<and>
     (\<forall>h \<in> set hs. bitmapPosition h < n \<and> (\<forall>k \<in> streamBits (bitmapBytes bitmap) (bitmapStream h). k < n))"

lemma seenBits_range:
  "seenBits bitmap n s \<subseteq> {..<n} \<longleftrightarrow> (\<forall>k \<in> streamBits (bitmapBytes bitmap) s. k < n \<or> 32 * (laneCountFor n + 1) \<le> k)"
  by (auto simp: seenBits_def)

lemma seenBits_cut: "seenBits bitmap n s \<subseteq> {..<n} \<Longrightarrow> seenBits bitmap n s = streamBits (bitmapBytes bitmap) s \<inter> {..<n}"
  using laneCountFor_bounds(1) [of n] by (fastforce simp: seenBits_def)

lemma validateBitmapRanges_exact:
  "case validateBitmapRanges bitmap hs n of
     Inl err \<Rightarrow> False
   | Inr None \<Rightarrow> \<not> rangesOk bitmap hs n
   | Inr (Some (cb, tb, bb, gb)) \<Rightarrow> rangesOk bitmap hs n \<and>
       (case typeStreams bitmap of (c, t, b, g) \<Rightarrow> map bitsOf [cb, tb, bb, gb]
          = map (\<lambda>s. streamBits (bitmapBytes bitmap) s \<inter> {..<n}) [c, t, b, g])"
proof -
  obtain c t b g where ts: "typeStreams bitmap = (c, t, b, g)" by (cases "typeStreams bitmap")
  let ?s = "replicate (laneCountFor n + 1) (0 :: int)"
  let ?f = "\<lambda>s. foldAndCheckRange bitmap s ?s (laneCountFor n) n"
  define F where "F = ?f"
  have f: "(\<exists>w. F s = Inr (Some w) \<and> seenBits bitmap n s \<subseteq> {..<n} \<and> bitsOf w = streamBits (bitmapBytes bitmap) s \<inter> {..<n})
      \<or> (F s = Inr None \<and> \<not> seenBits bitmap n s \<subseteq> {..<n})" for s
    using foldAndCheck_exact [of ?s n bitmap s] seenBits_cut [of bitmap n s] unfolding F_def by auto
  define E where "E = (\<forall>h \<in> set hs. bitmapPosition h < n \<and> (\<forall>k \<in> streamBits (bitmapBytes bitmap) (bitmapStream h). k < n))"
  have v: "validateBitmapRanges bitmap hs n =
      bindE (F c) (\<lambda>cb. case cb of None \<Rightarrow> Inr None | Some cb \<Rightarrow>
      bindE (F t) (\<lambda>tb. case tb of None \<Rightarrow> Inr None | Some tb \<Rightarrow>
      bindE (F b) (\<lambda>bb. case bb of None \<Rightarrow> Inr None | Some bb \<Rightarrow>
      bindE (F g) (\<lambda>gb. case gb of None \<Rightarrow> Inr None | Some gb \<Rightarrow>
      Inr (if E then Some (cb, tb, bb, gb) else None)))))"
    unfolding validateBitmapRanges_def Let_def ts prod.case VALIDATION_MARGIN_LANES_def F_def E_def entriesInRange_exact bindE_simps
    by (rule refl)
  have ok: "rangesOk bitmap hs n \<longleftrightarrow> (\<forall>s \<in> {c, t, b, g}. seenBits bitmap n s \<subseteq> {..<n}) \<and> E"
    unfolding rangesOk_def ts prod.case E_def seenBits_range by (rule refl)
  show ?thesis
    unfolding v ok ts prod.case
    using f [of c] f [of t] f [of b] f [of g] by (elim disjE exE conjE; simp)
qed

lemma parsePackBitmap_bytes:
  "parsePackBitmap bs dl = Inr b \<Longrightarrow> bitmapBytes b = bs"
  by (auto simp: parsePackBitmap_def bindE_Inr_iff split: if_splits prod.splits)

lemma bitmapHeaders_exact:
  assumes "parsePackBitmap bs dl = Inr b"
  shows "case bitmapEntryHeaders b of
     Inl err \<Rightarrow> bitmapRefusal err
   | Inr hs \<Rightarrow> length hs = bitmapEntryCount b \<and>
       (\<forall>k < length hs. xorOffset (hs ! k) \<le> k \<and> streamInside bs (bitmapStream (hs ! k)))"
  using entryHeadersLoop_exact [where n = "bitmapEntryCount b" and bs = bs and i = 0 and at = "entriesOffset b"] parsePackBitmap_bytes [OF assms]
  by (auto simp: bitmapEntryHeaders_def bitmapRefusal_def split: sum.splits)

lemma parseBitmapContainer_exact:
  "(parseBitmapContainer bs dl n = Inr None) \<or>
   (\<exists>b hs. parseBitmapContainer bs dl n = Inr (Some (b, hs)) \<and> parsePackBitmap bs dl = Inr b \<and>
      bitmapEntryHeaders b = Inr hs \<and> length hs \<le> n \<and>
      (\<forall>k < length hs. xorOffset (hs ! k) \<le> k \<and> streamInside bs (bitmapStream (hs ! k))))"
proof (cases "parsePackBitmap bs dl")
  case (Inl err)
  then show ?thesis using parsePackBitmap_refusal [OF Inl] by (auto simp: parseBitmapContainer_def bitmapRefusal_def)
next
  case (Inr b)
  show ?thesis
  proof (cases "n < bitmapEntryCount b")
    case True
    then show ?thesis using Inr by (simp add: parseBitmapContainer_def)
  next
    case False
    show ?thesis
    proof (cases "bitmapEntryHeaders b")
      case e: (Inl err)
      then have "bitmapRefusal err" using bitmapHeaders_exact [OF Inr] by simp
      then show ?thesis using Inr False e by (auto simp: parseBitmapContainer_def bitmapRefusal_def)
    next
      case h: (Inr hs)
      then show ?thesis using bitmapHeaders_exact [OF Inr] Inr False by (simp add: parseBitmapContainer_def)
    qed
  qed
qed

lemma chainBits_range:
  assumes "\<forall>h \<in> set (rcHeaders rc). \<forall>k \<in> streamBits (bitmapBytes (rcBitmap rc)) (bitmapStream h). k < n"
  shows "i < length (rcHeaders rc) \<Longrightarrow> chainBits rc i \<subseteq> {..<n}"
proof (induction i rule: less_induct)
  case (less i)
  let ?h = "rcHeaders rc ! i"
  have b: "streamBits (bitmapBytes (rcBitmap rc)) (bitmapStream ?h) \<subseteq> {..<n}" using assms less.prems by auto
  show ?case
  proof (cases "xorOffset ?h = 0 \<or> i < xorOffset ?h")
    case True
    then show ?thesis using b by (simp add: chainBits.simps [of rc i] Let_def) blast
  next
    case False
    then have "chainBits rc (i - xorOffset ?h) \<subseteq> {..<n}" using less.prems by (intro less.IH) simp_all
    then show ?thesis using b False by (simp add: chainBits.simps [of rc i] Let_def) blast
  qed
qed

section \<open>Properties\<close>

text \<open>C5: Reconstructing the bitmaps of commits is exact and always returns: for any row of requests over one context, each
  answer is the symmetric difference of the streams along its chain of bases, whatever the cache happened to hold or had to
  evict; a bitmap that parsed has only chains that end.\<close>

theorem reconstruct_exact:
  assumes "parsePackBitmap bs dl = Inr bitmap" "bitmapEntryHeaders bitmap = Inr headers" "0 < lanes"
    and "\<forall>i \<in> set requests. i < length headers"
  shows "\<exists>vs cache.
    reconstructAll (fst (createReconstructionContext bitmap headers lanes)) (map int requests)
      (snd (createReconstructionContext bitmap headers lanes)) = Some (Inr (vs, cache)) \<and>
    map bitsOf vs = map (chainBits (fst (createReconstructionContext bitmap headers lanes))) requests"
proof (rule reconstructAll_good)
  show "linksBack (fst (createReconstructionContext bitmap headers lanes))"
    using bitmapHeaders_exact [OF assms(1)] assms(2,3) by (simp add: linksBack_def createReconstructionContext_def)
qed (use assms(4) cacheGood_create in \<open>simp_all add: createReconstructionContext_def\<close>)

text \<open>C13: Range validation is exact: it accepts an artefact precisely when every entry position and every bit of every entry
  stream is below the object count and no type stream sets a bit from there to the end of the one lane looked at beyond; the
  bits it returns are those of the type streams below the object count. It never fails.\<close>

theorem bitmap_ranges_exact:
  "case validateBitmapRanges bitmap headers n of
     Inl err \<Rightarrow> False
   | Inr None \<Rightarrow> \<not> rangesOk bitmap headers n
   | Inr (Some (cb, tb, bb, gb)) \<Rightarrow> rangesOk bitmap headers n \<and>
       (case typeStreams bitmap of (c, t, b, g) \<Rightarrow> map bitsOf [cb, tb, bb, gb]
          = map (\<lambda>s. streamBits (bitmapBytes bitmap) s \<inter> {..<n}) [c, t, b, g])"
  by (rule validateBitmapRanges_exact)


text \<open>C14: A position table is inverted exactly when it is a permutation: \<open>invertPositions\<close> declines any table that leaves a
  position out or names one twice, and otherwise returns its two-sided inverse.\<close>

theorem invertPositions_exact:
  "case invertPositions ps of
     None \<Rightarrow> mset ps \<noteq> mset [0..<length ps]
   | Some q \<Rightarrow> mset ps = mset [0..<length ps] \<and> length q = length ps \<and>
       (\<forall>i < length ps. q ! (ps ! i) = i \<and> ps ! (q ! i) = i)"
  by (rule invert_exact)

text \<open>A bitmap of three objects with empty type streams and two entries, the second a difference to the first.\<close>

definition exampleBitmap :: bytes where
  "exampleBitmap = [66,73,84,77, 0,1, 0,1, 0,0,0,2,
     0,0,0,0, 0,0,0,0, 0,0,0,0,  0,0,0,0, 0,0,0,0, 0,0,0,0,  0,0,0,0, 0,0,0,0, 0,0,0,0,  0,0,0,0, 0,0,0,0, 0,0,0,0,
     0,0,0,0, 0, 0,  0,0,0,64, 0,0,0,2, 0,0,0,2, 0,0,0,0, 0,0,0,0, 0,0,0,3, 0,0,0,0,
     0,0,0,2, 1, 0,  0,0,0,64, 0,0,0,2, 0,0,0,2, 0,0,0,0, 0,0,0,0, 0,0,0,4, 0,0,0,0]"

lemma exampleBitmap_parses:
  "\<exists>b hs. parsePackBitmap exampleBitmap 0 = Inr b \<and> bitmapEntryHeaders b = Inr hs \<and> length hs = 2"
proof -
  have t: "readEwahStream exampleBitmap k = Inr \<lparr>bitSize = 0, wordCount = 0, wordsOffset = k + 8, endOffset = k + 12\<rparr>"
    if "k \<in> {12, 24, 36, 48}" for k
    using that by (auto simp: readEwahStream_def getUint32_def be32_def exampleBitmap_def EWAH_STREAM_HEADER_SIZE_def
        EWAH_WORD_SIZE_def EWAH_POSITION_WORD_SIZE_def)
  have e: "readEwahStream exampleBitmap k = Inr \<lparr>bitSize = 64, wordCount = 2, wordsOffset = k + 8, endOffset = k + 28\<rparr>"
    if "k \<in> {66, 100}" for k
    using that by (auto simp: readEwahStream_def getUint32_def be32_def exampleBitmap_def EWAH_STREAM_HEADER_SIZE_def
        EWAH_WORD_SIZE_def EWAH_POSITION_WORD_SIZE_def)
  have l: "length exampleBitmap = 128" by (simp add: exampleBitmap_def)
  have g: "getUint32 exampleBitmap 0 = Inr BITMAP_MAGIC" "getUint16 exampleBitmap 4 = Inr 1" "getUint16 exampleBitmap 6 = Inr 1"
    "getUint32 exampleBitmap 8 = Inr 2" "getUint32 exampleBitmap 60 = Inr 0" "getUint8 exampleBitmap 64 = Inr 0"
    "getUint8 exampleBitmap 65 = Inr 0" "getUint32 exampleBitmap 94 = Inr 2" "getUint8 exampleBitmap 98 = Inr 1"
    "getUint8 exampleBitmap 99 = Inr 0"
    by (simp_all add: getUint32_def getUint16_def getUint8_def be32_def exampleBitmap_def BITMAP_MAGIC_def u8_def)
  define b where "b = \<lparr>bitmapVersion = 1, optionFlags = 1, bitmapEntryCount = 2, bitmapDigestLength = 0, bitmapChecksum = [],
    typeStreams = (\<lparr>bitSize = 0, wordCount = 0, wordsOffset = 20, endOffset = 24\<rparr>,
      \<lparr>bitSize = 0, wordCount = 0, wordsOffset = 32, endOffset = 36\<rparr>,
      \<lparr>bitSize = 0, wordCount = 0, wordsOffset = 44, endOffset = 48\<rparr>,
      \<lparr>bitSize = 0, wordCount = 0, wordsOffset = 56, endOffset = 60\<rparr>),
    entriesOffset = 60, bitmapBytes = exampleBitmap\<rparr>"
  have "js_and 1 FULL_DAG_FLAG \<noteq> 0" by (simp add: js_and_def FULL_DAG_FLAG_def toInt32_def)
  then have b: "parsePackBitmap exampleBitmap 0 = Inr b"
    unfolding parsePackBitmap_def by (simp add: g t HEADER_SIZE_def l readTypeStreams_def b_def)
  have p: "bitmapEntryCount b = 2" "bitmapBytes b = exampleBitmap" "entriesOffset b = 60" by (simp_all add: b_def)
  obtain hs where "bitmapEntryHeaders b = Inr hs" "length hs = 2"
    using g e p
    by (simp add: bitmapEntryHeaders_def numeral_2_eq_2 ENTRY_FIXED_SIZE_def l readEntryStream_def)
  then show ?thesis using b by blast
qed

theorem reconstruct_exact_witness:
  "\<exists>bitmap headers vs cache. parsePackBitmap exampleBitmap 0 = Inr bitmap \<and> bitmapEntryHeaders bitmap = Inr headers \<and>
    reconstructAll (fst (createReconstructionContext bitmap headers 1)) (map int [1, 0])
      (snd (createReconstructionContext bitmap headers 1)) = Some (Inr (vs, cache)) \<and>
    map bitsOf vs = map (chainBits (fst (createReconstructionContext bitmap headers 1))) [1, 0]"
proof -
  obtain b hs where b: "parsePackBitmap exampleBitmap 0 = Inr b" "bitmapEntryHeaders b = Inr hs" "length hs = 2"
    using exampleBitmap_parses by blast
  have r: "\<forall>i \<in> set [1, 0]. i < length hs" using b(3) by simp
  show ?thesis using reconstruct_exact [OF b(1,2) zero_less_one r] b(1,2) by (intro exI [of _ b] exI [of _ hs]) simp
qed


theorem invertPositions_exact_witness: "\<exists>q. invertPositions [2, 0, 1] = Some q \<and> q ! 2 = 0"
proof -
  have "mset [2, 0, 1] = mset [0..<length [2, 0, 1 :: nat]]" by simp
  then show ?thesis using invertPositions_exact [of "[2, 0, 1]"] by (auto split: option.splits)
qed

end
